(* ===== verification/Prelude.thy ===== *)
theory Prelude
  imports Main "HOL-Library.Word" "HOL-Library.AList" "HOL-Library.List_Lexorder"
    "HOL-Library.Product_Lexorder" "HOL-Library.Multiset"
begin

text \<open>
  The vocabulary every component shares.

  \<^item> JavaScript strings are sequences of 16-bit code units, so a string is a \<open>u16 list\<close> and
    \<open>js ''abc''\<close> embeds an ASCII literal. The order of \<open>HOL-Library.List_Lexorder\<close> on such lists
    is the order of JavaScript's \<open><\<close> and of the default \<open>sort()\<close>.
  \<^item> A \<open>Map\<close> keyed by strings, and a record used as one, is an insertion-ordered association
    list (\<open>dict\<close>); a \<open>Set\<close> is a list that \<open>sadd\<close> keeps free of duplicates. \<open>AList.update\<close>
    overwrites in place and appends a new key at the end, which is what \<open>Map.prototype.set\<close> does.
  \<^item> Loops that fill such containers are folds; the lemmas here say what the folds build.
\<close>

section \<open>Code units and strings\<close>

type_synonym u16 = "16 word"
type_synonym jsstr = "u16 list"

definition cu :: "char \<Rightarrow> u16" where
  "cu c = of_char c"

definition js :: "string \<Rightarrow> jsstr" where
  "js s = map cu s"

named_theorems js_simps "facts about JavaScript string operations"

lemma unat_cu: "unat (cu c) = of_char c"
proof -
  have "(of_char c :: nat) < 2 ^ LENGTH(16)"
    by (rule less_le_trans [of _ 256]) simp_all
  moreover have "cu c = word_of_nat (of_char c)"
    by (simp only: cu_def of_nat_of_char)
  ultimately show ?thesis
    by (simp add: unat_of_nat)
qed

lemma cu_inject [simp]: "cu a = cu b \<longleftrightarrow> a = b"
  by (metis unat_cu of_char_eq_iff)

lemma js_inject [simp]: "js a = js b \<longleftrightarrow> a = b"
  unfolding js_def by (simp add: inj_map_eq_map inj_def)

lemma js_Nil [simp]: "js [] = []"
  by (simp add: js_def)

lemma js_eq_Nil [simp]: "js s = [] \<longleftrightarrow> s = []" "[] = js s \<longleftrightarrow> s = []"
  by (simp_all add: js_def)

lemma js_append: "js (a @ b) = js a @ js b"
  by (simp add: js_def)

lemma length_js [simp]: "length (js s) = length s"
  by (simp add: js_def)

subsection \<open>The string operations the code calls\<close>

text \<open>\<open>s.startsWith(p)\<close>, \<open>s.endsWith(p)\<close>.\<close>

definition starts_with :: "jsstr \<Rightarrow> jsstr \<Rightarrow> bool" where
  "starts_with s p \<longleftrightarrow> take (length p) s = p"

text \<open>\<open>s.indexOf(c)\<close> for a one-character \<open>c\<close>; \<open>-1\<close> is \<open>None\<close>.\<close>

fun index_of :: "u16 \<Rightarrow> jsstr \<Rightarrow> nat option" where
  "index_of c [] = None"
| "index_of c (x # xs) = (if x = c then Some 0 else map_option Suc (index_of c xs))"

text \<open>\<open>s.split(c)\<close> and \<open>xs.join(c)\<close> for a one-character separator.\<close>

fun split_on :: "u16 \<Rightarrow> jsstr \<Rightarrow> jsstr list" where
  "split_on c [] = [[]]"
| "split_on c (x # xs) =
     (if x = c then [] # split_on c xs
      else case split_on c xs of [] \<Rightarrow> [[x]] | l # ls \<Rightarrow> (x # l) # ls)"

fun join_with :: "u16 \<Rightarrow> jsstr list \<Rightarrow> jsstr" where
  "join_with c [] = []"
| "join_with c [l] = l"
| "join_with c (l # ls) = l @ c # join_with c ls"

text \<open>
  The character classes of the regular expressions: \<open>\d\<close>, \<open>\s\<close> (the ECMAScript white space and
  line terminator code points), the line terminators that \<open>.\<close> does not match, and ASCII case.
  \<open>to_lower\<close> folds ASCII letters only. The code lowercases info strings, attachment keys, hex
  digests and ids, and compares the result with ASCII words or hex.
\<close>

definition is_digit :: "u16 \<Rightarrow> bool" where
  "is_digit c \<longleftrightarrow> 48 \<le> c \<and> c \<le> 57"

definition is_line_terminator :: "u16 \<Rightarrow> bool" where
  "is_line_terminator c \<longleftrightarrow> c = 10 \<or> c = 13 \<or> c = 0x2028 \<or> c = 0x2029"

definition is_space :: "u16 \<Rightarrow> bool" where
  "is_space c \<longleftrightarrow> is_line_terminator c \<or> c = 9 \<or> c = 11 \<or> c = 12 \<or> c = 32 \<or> c = 0xA0
     \<or> c = 0x1680 \<or> (0x2000 \<le> c \<and> c \<le> 0x200A) \<or> c = 0x202F \<or> c = 0x205F \<or> c = 0x3000
     \<or> c = 0xFEFF"

definition to_lower_unit :: "u16 \<Rightarrow> u16" where
  "to_lower_unit c = (if 65 \<le> c \<and> c \<le> 90 then c + 32 else c)"

definition to_lower :: "jsstr \<Rightarrow> jsstr" where
  "to_lower s = map to_lower_unit s"

definition trim_start :: "jsstr \<Rightarrow> jsstr" where
  "trim_start s = dropWhile is_space s"

definition trim :: "jsstr \<Rightarrow> jsstr" where
  "trim s = rev (dropWhile is_space (rev (trim_start s)))"

lemma starts_with_append [simp, js_simps]: "starts_with (p @ s) p"
  by (simp add: starts_with_def)

lemma starts_with_iff: "starts_with s p \<longleftrightarrow> (\<exists>r. s = p @ r)"
  by (metis append_take_drop_id starts_with_append starts_with_def)

lemma index_of_Some:
  "index_of c s = Some n \<Longrightarrow> n < length s \<and> s ! n = c \<and> c \<notin> set (take n s)"
  by (induction s arbitrary: n) (auto split: if_splits)

lemma index_of_None: "index_of c s = None \<longleftrightarrow> c \<notin> set s"
  by (induction s) auto

lemma index_of_append: "c \<notin> set a \<Longrightarrow> index_of c (a @ c # b) = Some (length a)"
  by (induction a) auto

lemma index_of_split:
  "index_of c s = Some n \<Longrightarrow> s = take n s @ c # drop (Suc n) s"
  by (metis index_of_Some id_take_nth_drop)

lemma split_on_not_Nil [simp]: "split_on c s \<noteq> []"
  by (induction s) (auto split: list.splits)

lemma join_with_Cons: "ls \<noteq> [] \<Longrightarrow> join_with c (l # ls) = l @ c # join_with c ls"
  by (cases ls) auto

lemma join_split [simp, js_simps]: "join_with c (split_on c s) = s"
proof (induction s)
  case (Cons x xs)
  then show ?case
    by (cases "split_on c xs"; cases "tl (split_on c xs)") (auto simp: join_with_Cons)
qed simp

lemma split_on_no_sep: "c \<notin> set s \<Longrightarrow> split_on c s = [s]"
  by (induction s) auto

lemma split_on_append_sep:
  "c \<notin> set a \<Longrightarrow> split_on c (a @ c # b) = a # split_on c b"
  by (induction a) auto

lemma split_join:
  "ls \<noteq> [] \<Longrightarrow> \<forall>l \<in> set ls. c \<notin> set l \<Longrightarrow> split_on c (join_with c ls) = ls"
proof (induction ls)
  case (Cons l ls)
  then show ?case
    by (cases ls) (auto simp: split_on_no_sep split_on_append_sep)
qed simp

lemma split_on_parts: "l \<in> set (split_on c s) \<Longrightarrow> c \<notin> set l"
proof (induction s arbitrary: l)
  case (Cons x xs)
  then show ?case
    by (cases "split_on c xs") (auto split: if_splits)
qed simp

text \<open>The decimal spelling of a natural number, most significant digit first.\<close>

fun nat_digits :: "nat \<Rightarrow> jsstr" where
  "nat_digits n =
     (if n < 10 then [48 + word_of_nat n] else nat_digits (n div 10) @ [48 + word_of_nat (n mod 10)])"

declare nat_digits.simps [simp del]

section \<open>Maps and sets in insertion order\<close>

type_synonym 'v dict = "(jsstr \<times> 'v) list"

abbreviation dget :: "('k \<times> 'v) list \<Rightarrow> 'k \<Rightarrow> 'v option" where
  "dget d k \<equiv> map_of d k"

abbreviation dset :: "'k \<Rightarrow> 'v \<Rightarrow> ('k \<times> 'v) list \<Rightarrow> ('k \<times> 'v) list" where
  "dset k v d \<equiv> AList.update k v d"

abbreviation ddel :: "'k \<Rightarrow> ('k \<times> 'v) list \<Rightarrow> ('k \<times> 'v) list" where
  "ddel k d \<equiv> AList.delete k d"

definition dhas :: "('k \<times> 'v) list \<Rightarrow> 'k \<Rightarrow> bool" where
  "dhas d k \<longleftrightarrow> map_of d k \<noteq> None"

abbreviation dkeys :: "('k \<times> 'v) list \<Rightarrow> 'k list" where
  "dkeys d \<equiv> map fst d"

abbreviation dvalues :: "('k \<times> 'v) list \<Rightarrow> 'v list" where
  "dvalues d \<equiv> map snd d"

definition sadd :: "'a \<Rightarrow> 'a list \<Rightarrow> 'a list" where
  "sadd x s = (if x \<in> set s then s else s @ [x])"

definition sdel :: "'a \<Rightarrow> 'a list \<Rightarrow> 'a list" where
  "sdel x s = filter (\<lambda>y. y \<noteq> x) s"

named_theorems dict_simps "lookups after updates of maps and sets"

lemma dget_dset [simp, dict_simps]: "dget (dset k v d) j = (if j = k then Some v else dget d j)"
  by (simp add: update_conv)

lemma dget_ddel [simp, dict_simps]: "dget (ddel k d) j = (if j = k then None else dget d j)"
  by (simp add: delete_conv)

lemma dhas_dset [simp, dict_simps]: "dhas (dset k v d) j \<longleftrightarrow> j = k \<or> dhas d j"
  by (simp add: dhas_def)

lemma dhas_Nil [simp]: "\<not> dhas [] k"
  by (simp add: dhas_def)

lemma set_sadd [simp, dict_simps]: "set (sadd x s) = insert x (set s)"
  by (auto simp: sadd_def)

lemma set_sdel [simp, dict_simps]: "set (sdel x s) = set s - {x}"
  by (auto simp: sdel_def)

lemma distinct_sadd [simp]: "distinct s \<Longrightarrow> distinct (sadd x s)"
  by (simp add: sadd_def)

lemma distinct_sdel [simp]: "distinct s \<Longrightarrow> distinct (sdel x s)"
  by (simp add: sdel_def)

lemma distinct_keys_dset [simp]: "distinct (dkeys d) \<Longrightarrow> distinct (dkeys (dset k v d))"
  by (simp add: distinct_update)

lemma distinct_keys_ddel [simp]: "distinct (dkeys d) \<Longrightarrow> distinct (dkeys (ddel k d))"
  by (simp add: distinct_delete)

lemma keys_dset: "set (dkeys (dset k v d)) = insert k (set (dkeys d))"
  by (simp add: dom_update)

lemma dget_in_keys: "dget d k = Some v \<Longrightarrow> k \<in> set (dkeys d)"
  by (metis map_of_SomeD fst_conv image_eqI list.set_map)

lemma keys_ddel: "set (dkeys (ddel k d)) = set (dkeys d) - {k}"
  by (auto simp: AList.delete_eq)

lemma dvalues_iff: "distinct (dkeys d) \<Longrightarrow> v \<in> set (dvalues d) \<longleftrightarrow> (\<exists>k. dget d k = Some v)"
  using map_of_eq_Some_iff [of d] by (auto intro: rev_image_eqI)

lemma dget_filter_values:
  "distinct (dkeys m) \<Longrightarrow> dget (filter (\<lambda>(i, s). P s) m) i =
     (case dget m i of None \<Rightarrow> None | Some s \<Rightarrow> if P s then Some s else None)"
proof (induction m)
  case (Cons x m)
  then have "dget m (fst x) = None"
    by (simp add: map_of_eq_None_iff)
  with Cons show ?case
    by (cases x) auto
qed simp

lemma set_fold_sdel [simp]: "set (fold sdel xs s) = set s - set xs"
  by (induction xs arbitrary: s) auto

text \<open>A map filled by \<open>if (!m.has(k)) m.set(k, v)\<close> keeps the first value of each key.\<close>

definition dset_new :: "'k \<Rightarrow> 'v \<Rightarrow> ('k \<times> 'v) list \<Rightarrow> ('k \<times> 'v) list" where
  "dset_new k v d = (if dhas d k then d else dset k v d)"

lemma dset_absent: "dget d k = None \<Longrightarrow> dset k v d = d @ [(k, v)]"
  by (induction d) (auto split: if_splits)

text \<open>
  A map of buckets, filled by appending each element to the bucket of its key. The bucket of \<open>k\<close>
  is exactly the sublist of the elements whose key is \<open>k\<close>, in order, and an empty bucket is absent.
\<close>

definition bucket_add :: "('a \<Rightarrow> 'k option) \<Rightarrow> 'a \<Rightarrow> ('k \<times> 'a list) list \<Rightarrow> ('k \<times> 'a list) list" where
  "bucket_add key x m =
     (case key x of None \<Rightarrow> m
      | Some k \<Rightarrow> (case dget m k of None \<Rightarrow> dset k [x] m | Some b \<Rightarrow> dset k (b @ [x]) m))"

definition buckets :: "('a \<Rightarrow> 'k option) \<Rightarrow> 'a list \<Rightarrow> ('k \<times> 'a list) list" where
  "buckets key xs = fold (bucket_add key) xs []"

lemma buckets_snoc: "buckets key (xs @ [x]) = bucket_add key x (buckets key xs)"
  by (simp add: buckets_def)

lemma dget_buckets:
  "dget (buckets key xs) k =
     (let b = filter (\<lambda>x. key x = Some k) xs in if b = [] then None else Some b)"
  by (induction xs rule: rev_induct)
    (auto simp: buckets_def bucket_add_def Let_def split: option.splits if_splits)

lemma distinct_keys_buckets [simp]: "distinct (dkeys (buckets key xs))"
  by (induction xs rule: rev_induct)
    (auto simp: buckets_def bucket_add_def split: option.splits)

lemma buckets_entries:
  "(k, b) \<in> set (buckets key xs) \<longleftrightarrow> b \<noteq> [] \<and> b = filter (\<lambda>x. key x = Some k) xs"
  by (subst map_of_eq_Some_iff [symmetric]) (auto simp: dget_buckets Let_def)

section \<open>Lists\<close>

text \<open>\<open>xs.at(-1)\<close>, and \<open>xs[i]\<close> with \<open>undefined\<close> out of range.\<close>

definition at_last :: "'a list \<Rightarrow> 'a option" where
  "at_last xs = (if xs = [] then None else Some (last xs))"

definition nth_opt :: "'a list \<Rightarrow> nat \<Rightarrow> 'a option" where
  "nth_opt xs i = (if i < length xs then Some (xs ! i) else None)"

lemma nth_opt_simps [simp]:
  "nth_opt [] i = None" "nth_opt (x # xs) 0 = Some x" "nth_opt (x # xs) (Suc i) = nth_opt xs i"
  by (auto simp: nth_opt_def)

text \<open>Sorting by a key that tells the elements apart forgets the order of the input.\<close>

lemma sort_key_perm:
  assumes "mset xs = mset ys" "inj_on f (set xs)"
  shows "sort_key f xs = sort_key f ys"
proof (rule properties_for_sort_key)
  show "mset (sort_key f ys) = mset xs"
    using assms(1) by simp
  show "sorted (map f (sort_key f ys))"
    by simp
  fix k assume "k \<in> set (sort_key f ys)"
  have same: "filter (\<lambda>x. f x = f k) zs = replicate (count_list zs k) k"
    if "set zs = set xs" for zs
  proof -
    have "f x = f k \<longleftrightarrow> x = k" if "x \<in> set zs" for x
      using that \<open>set zs = set xs\<close> \<open>k \<in> set (sort_key f ys)\<close> assms
      by (metis inj_onD mset_eq_setD set_sort)
    then have "filter (\<lambda>x. f x = f k) zs = filter (\<lambda>x. x = k) zs"
      by (intro filter_cong) auto
    also have "\<dots> = replicate (count_list zs k) k"
      by (induction zs) auto
    finally show ?thesis .
  qed
  have sets: "set ys = set xs" "set (sort_key f ys) = set xs"
    using assms(1) by (auto dest: mset_eq_setD)
  have "count_list (sort_key f ys) k = count_list xs k"
    by (metis assms(1) count_mset mset_sort)
  then show "filter (\<lambda>x. f k = f x) (sort_key f ys) = filter (\<lambda>x. f k = f x) xs"
    using same [OF sets(2)] same [OF refl] by (simp add: eq_commute)
qed

lemma sort_perm: "mset xs = mset ys \<Longrightarrow> sort xs = sort (ys :: 'a :: linorder list)"
  by (rule sort_key_perm) simp_all

lemma sort_set_eq:
  "set xs = set ys \<Longrightarrow> distinct xs \<Longrightarrow> distinct ys \<Longrightarrow> sort xs = sort (ys :: 'a :: linorder list)"
  by (rule sort_perm) (rule iffD1 [OF set_eq_iff_mset_eq_distinct])

lemma sort_Nil_iff: "sort xs = [] \<longleftrightarrow> xs = ([] :: 'a :: linorder list)"
  by (metis length_0_conv length_sort)

lemma image_filter_iff: "j \<in> f ` {x \<in> A. P x} \<longleftrightarrow> (\<exists>x \<in> A. f x = j \<and> P x)"
  by auto

section \<open>Loops as folds\<close>

lemma fold_keeps: "P s \<Longrightarrow> (\<And>x s. x \<in> set xs \<Longrightarrow> P s \<Longrightarrow> P (f x s)) \<Longrightarrow> P (fold f xs s)"
  by (induction xs arbitrary: s) auto

lemma fold_when: "fold (\<lambda>x s. if P x then f x s else s) xs s = fold f (filter P xs) s"
  by (induction xs arbitrary: s) auto

lemma fold_map_arg: "fold (\<lambda>x. f (g x)) xs s = fold f (map g xs) s"
  by (simp add: fold_map comp_def)

end
