(* ===== verification/Rules.thy ===== *)
theory Rules
  imports Prelude
begin

text \<open>
  \<open>packages/core/src/rules.ts\<close>: the registry of the specification's rules. A rule id is its family and its number (\<open>R_TAG 1\<close> is \<open>'TAG-1'\<close>,
  \<open>R_E 1\<close> is \<open>'E1'\<close>; \<open>rule_name\<close> spells it). The registry keeps every field of a rule but its
  one-line prose summary. \<open>RULES\<close> is cut into twelve lists of consecutive rules, in file order.
\<close>

section \<open>Rule ids\<close>

datatype rule_layer = Layer_V | Layer_A | Layer_D

datatype rule_id =
    R_TAG nat | R_VER nat | R_OTS nat | R_SIG nat | R_CA nat | R_PR nat | R_MD nat | R_BD nat | R_PT nat | R_IX nat | R_IM nat | R_PB nat | R_E nat | R_N nat | R_C nat | R_P nat | R_T nat | R_H nat | R_CHN nat | R_RL nat | R_TR nat | R_RC nat | R_SF nat | R_OV nat | R_UR nat | R_DQ nat | R_IR nat | R_DEL nat

fun rule_family :: "rule_id \<Rightarrow> string" where
  "rule_family (R_TAG n) = ''TAG-''"
| "rule_family (R_VER n) = ''VER-''"
| "rule_family (R_OTS n) = ''OTS-''"
| "rule_family (R_SIG n) = ''SIG-''"
| "rule_family (R_CA n) = ''CA-''"
| "rule_family (R_PR n) = ''PR-''"
| "rule_family (R_MD n) = ''MD-''"
| "rule_family (R_BD n) = ''BD-''"
| "rule_family (R_PT n) = ''PT-''"
| "rule_family (R_IX n) = ''IX-''"
| "rule_family (R_IM n) = ''IM-''"
| "rule_family (R_PB n) = ''PB-''"
| "rule_family (R_E n) = ''E''"
| "rule_family (R_N n) = ''N''"
| "rule_family (R_C n) = ''C''"
| "rule_family (R_P n) = ''P''"
| "rule_family (R_T n) = ''T''"
| "rule_family (R_H n) = ''H''"
| "rule_family (R_CHN n) = ''CHN-''"
| "rule_family (R_RL n) = ''RL-''"
| "rule_family (R_TR n) = ''TR-''"
| "rule_family (R_RC n) = ''RC-''"
| "rule_family (R_SF n) = ''SF-''"
| "rule_family (R_OV n) = ''OV-''"
| "rule_family (R_UR n) = ''UR-''"
| "rule_family (R_DQ n) = ''DQ-''"
| "rule_family (R_IR n) = ''IR-''"
| "rule_family (R_DEL n) = ''DEL-''"

fun rule_number :: "rule_id \<Rightarrow> nat" where
  "rule_number (R_TAG n) = n"
| "rule_number (R_VER n) = n"
| "rule_number (R_OTS n) = n"
| "rule_number (R_SIG n) = n"
| "rule_number (R_CA n) = n"
| "rule_number (R_PR n) = n"
| "rule_number (R_MD n) = n"
| "rule_number (R_BD n) = n"
| "rule_number (R_PT n) = n"
| "rule_number (R_IX n) = n"
| "rule_number (R_IM n) = n"
| "rule_number (R_PB n) = n"
| "rule_number (R_E n) = n"
| "rule_number (R_N n) = n"
| "rule_number (R_C n) = n"
| "rule_number (R_P n) = n"
| "rule_number (R_T n) = n"
| "rule_number (R_H n) = n"
| "rule_number (R_CHN n) = n"
| "rule_number (R_RL n) = n"
| "rule_number (R_TR n) = n"
| "rule_number (R_RC n) = n"
| "rule_number (R_SF n) = n"
| "rule_number (R_OV n) = n"
| "rule_number (R_UR n) = n"
| "rule_number (R_DQ n) = n"
| "rule_number (R_IR n) = n"
| "rule_number (R_DEL n) = n"

definition rule_name :: "rule_id \<Rightarrow> jsstr" where
  "rule_name r = js (rule_family r) @ nat_digits (rule_number r)"

record rule =
  rl_id :: rule_id
  rl_section :: jsstr
  rl_layer :: "rule_layer option"
  rl_inheritsFrom :: "jsstr option"
  rl_reserved :: bool

definition rule_row ::
    "rule_id \<Rightarrow> string \<Rightarrow> rule_layer option \<Rightarrow> jsstr option \<Rightarrow> bool \<Rightarrow> rule" where
  "rule_row i s l h r =
     \<lparr>rl_id = i, rl_section = js s, rl_layer = l, rl_inheritsFrom = h, rl_reserved = r\<rparr>"

section \<open>The registry, in Appendix F order\<close>

definition RULES_tags :: "rule list" where
  "RULES_tags = [
     rule_row (R_TAG 1) ''3'' (Some Layer_V) None False,
     rule_row (R_TAG 2) ''3'' (Some Layer_V) None False,
     rule_row (R_TAG 3) ''3'' (Some Layer_V) None False,
     rule_row (R_TAG 4) ''3'' (Some Layer_V) None False,
     rule_row (R_TAG 5) ''3'' (Some Layer_V) (Some (js ''NIP-01'')) False,
     rule_row (R_VER 1) ''3'' (Some Layer_V) None False,
     rule_row (R_VER 2) ''3'' (Some Layer_V) None False,
     rule_row (R_VER 3) ''3'' (Some Layer_V) None False,
     rule_row (R_VER 4) ''3'' (Some Layer_V) None False,
     rule_row (R_OTS 1) ''3'' (Some Layer_A) (Some (js ''NIP-03'')) False,
     rule_row (R_SIG 1) ''3'' (Some Layer_V) (Some (js ''NIP-01'')) False,
     rule_row (R_CA 1) ''4'' (Some Layer_D) None False]"

definition RULES_roots :: "rule list" where
  "RULES_roots = [
     rule_row (R_PR 1) ''4.1'' (Some Layer_V) None False,
     rule_row (R_PR 2) ''4.1'' (Some Layer_D) None False,
     rule_row (R_PR 3) ''4.1'' (Some Layer_D) None False,
     rule_row (R_PR 4) ''4.1'' (Some Layer_D) (Some (js ''NIP-73'')) False,
     rule_row (R_PR 5) ''4.1'' (Some Layer_V) (Some (js ''NIP-92'')) False,
     rule_row (R_MD 1) ''4.2'' (Some Layer_V) None False,
     rule_row (R_MD 2) ''4.2'' (Some Layer_D) None False,
     rule_row (R_MD 3) ''4.2'' (Some Layer_D) None False,
     rule_row (R_MD 4) ''4.2'' (Some Layer_D) (Some (js ''NIP-73'')) False,
     rule_row (R_MD 5) ''4.2'' (Some Layer_V) (Some (js ''NIP-92'')) False]"

definition RULES_bindings :: "rule list" where
  "RULES_bindings = [
     rule_row (R_BD 1) ''4.3'' (Some Layer_V) None False,
     rule_row (R_BD 2) ''4.3'' (Some Layer_V) None False,
     rule_row (R_BD 3) ''4.3'' (Some Layer_V) None False,
     rule_row (R_BD 4) ''4.3'' (Some Layer_V) None False,
     rule_row (R_BD 5) ''4.3'' (Some Layer_V) None False,
     rule_row (R_BD 6) ''4.3'' (Some Layer_D) None False,
     rule_row (R_BD 7) ''4.3'' (Some Layer_V) None False,
     rule_row (R_BD 8) ''4.3'' (Some Layer_D) (Some (js ''NIP-10'')) False,
     rule_row (R_BD 9) ''4.3'' (Some Layer_A) None False,
     rule_row (R_BD 10) ''4.3'' (Some Layer_V) None False,
     rule_row (R_BD 11) ''4.3'' (Some Layer_D) None False,
     rule_row (R_BD 12) ''4.3'' (Some Layer_V) (Some (js ''NIP-10'')) False]"

definition RULES_patches :: "rule list" where
  "RULES_patches = [
     rule_row (R_PT 1) ''4.4'' (Some Layer_V) (Some (js ''NIP-10'')) False,
     rule_row (R_PT 2) ''4.4'' (Some Layer_V) (Some (js ''NIP-10'')) False,
     rule_row (R_PT 3) ''4.4'' (Some Layer_V) None False,
     rule_row (R_PT 4) ''4.4'' (Some Layer_V) None False,
     rule_row (R_PT 5) ''4.4'' (Some Layer_A) None False,
     rule_row (R_PT 6) ''4.4'' (Some Layer_A) None False,
     rule_row (R_PT 7) ''4.4'' (Some Layer_V) None False,
     rule_row (R_PT 8) ''4.4'' (Some Layer_A) None False,
     rule_row (R_PT 9) ''4.4'' (Some Layer_A) None False,
     rule_row (R_PT 10) ''4.4'' (Some Layer_V) None False,
     rule_row (R_PT 11) ''4.4'' (Some Layer_V) None False]"

definition RULES_attachments :: "rule list" where
  "RULES_attachments = [
     rule_row (R_IX 1) ''4.5'' (Some Layer_D) None False,
     rule_row (R_IX 2) ''4.5'' (Some Layer_D) None False,
     rule_row (R_IX 3) ''4.5'' (Some Layer_A) None False,
     rule_row (R_IX 4) ''4.5'' (Some Layer_D) None False,
     rule_row (R_IM 1) ''4.6'' (Some Layer_A) (Some (js ''NIP-92'')) False,
     rule_row (R_IM 2) ''4.6'' (Some Layer_A) None False,
     rule_row (R_IM 3) ''4.6'' (Some Layer_A) (Some (js ''NIP-92'')) False,
     rule_row (R_IM 4) ''4.6'' (Some Layer_A) None False,
     rule_row (R_IM 5) ''4.6'' (Some Layer_V) None False,
     rule_row (R_PB 1) ''5.1'' (Some Layer_A) None False,
     rule_row (R_PB 2) ''5.1'' (Some Layer_A) None False]"

definition RULES_payloads :: "rule list" where
  "RULES_payloads = [
     rule_row (R_E 1) ''5.2'' (Some Layer_V) (Some (js ''CommonMark '' @ 0xA7 # js ''4.5'')) False,
     rule_row (R_E 2) ''5.2'' (Some Layer_V) (Some (js ''CommonMark '' @ 0xA7 # js ''4.5'')) False,
     rule_row (R_E 3) ''5.2'' (Some Layer_V) (Some (js ''CommonMark '' @ 0xA7 # js ''4.5'')) False,
     rule_row (R_E 4) ''5.2'' (Some Layer_A) None False,
     rule_row (R_E 5) ''5.2'' (Some Layer_V) (Some (js ''CommonMark '' @ 0xA7 # js ''4.5'')) False,
     rule_row (R_E 6) ''5.2'' (Some Layer_V) None False,
     rule_row (R_E 7) ''5.2'' (Some Layer_A) None False,
     rule_row (R_N 1) ''5.2'' (Some Layer_A) None False,
     rule_row (R_N 2) ''5.2'' (Some Layer_A) None False,
     rule_row (R_N 3) ''5.2'' (Some Layer_A) None False,
     rule_row (R_C 1) ''5.2'' (Some Layer_V) None False,
     rule_row (R_C 2) ''5.2'' (Some Layer_V) (Some (js ''unified-diff'')) False,
     rule_row (R_C 3) ''5.2'' (Some Layer_V) (Some (js ''unified-diff'')) False,
     rule_row (R_C 4) ''5.2'' (Some Layer_V) (Some (js ''unified-diff'')) False,
     rule_row (R_C 5) ''5.2'' (Some Layer_A) (Some (js ''unified-diff'')) False,
     rule_row (R_C 6) ''5.2'' (Some Layer_A) None False,
     rule_row (R_C 7) ''5.2'' (Some Layer_V) None False,
     rule_row (R_C 8) ''5.2'' (Some Layer_A) (Some (js ''unified-diff'')) False]"

definition RULES_application :: "rule list" where
  "RULES_application = [
     rule_row (R_P 1) ''5.2'' (Some Layer_A) (Some (js ''unified-diff'')) False,
     rule_row (R_P 2) ''5.2'' (Some Layer_V) None False,
     rule_row (R_P 3) ''5.2'' (Some Layer_A) None False,
     rule_row (R_P 4) ''5.2'' (Some Layer_A) None False,
     rule_row (R_T 1) ''5.3'' (Some Layer_A) None False,
     rule_row (R_T 2) ''5.3'' (Some Layer_A) None False,
     rule_row (R_T 3) ''5.3'' (Some Layer_A) None False,
     rule_row (R_H 1) ''5.3'' (Some Layer_A) None False,
     rule_row (R_H 2) ''5.3'' (Some Layer_A) None False,
     rule_row (R_CHN 1) ''5.3'' (Some Layer_A) (Some (js ''NIP-10'')) False,
     rule_row (R_CHN 2) ''5.3'' (Some Layer_A) None False,
     rule_row (R_CHN 3) ''5.3'' (Some Layer_A) None False,
     rule_row (R_RL 1) ''5.4'' (Some Layer_D) None False,
     rule_row (R_RL 2) ''5.4'' (Some Layer_A) None False,
     rule_row (R_RL 3) ''5.4'' (Some Layer_A) None False,
     rule_row (R_RL 4) ''5.4'' (Some Layer_A) None False,
     rule_row (R_RL 5) ''5.4'' (Some Layer_A) None False]"

definition RULES_trust :: "rule list" where
  "RULES_trust = [
     rule_row (R_TR 1) ''6'' (Some Layer_V) None False,
     rule_row (R_TR 2) ''6'' (Some Layer_D) None False,
     rule_row (R_TR 3) ''6'' (Some Layer_D) None False,
     rule_row (R_TR 4) ''6'' (Some Layer_D) None False,
     rule_row (R_TR 5) ''6'' (Some Layer_D) None False,
     rule_row (R_TR 6) ''6'' (Some Layer_D) None False,
     rule_row (R_TR 7) ''6'' (Some Layer_D) None False,
     rule_row (R_RC 1) ''7.1'' (Some Layer_A) (Some (js ''NIP-10'')) False,
     rule_row (R_RC 2) ''7.1'' (Some Layer_A) None False,
     rule_row (R_RC 3) ''7.1'' (Some Layer_A) None False,
     rule_row (R_RC 4) ''7.1'' (Some Layer_A) None False,
     rule_row (R_RC 5) ''7.1'' (Some Layer_A) None False]"

definition RULES_forks :: "rule list" where
  "RULES_forks = [
     rule_row (R_SF 1) ''7.2'' (Some Layer_A) None False,
     rule_row (R_SF 2) ''7.2'' (Some Layer_A) None False,
     rule_row (R_SF 3) ''7.2'' (Some Layer_A) None False,
     rule_row (R_SF 4) ''7.2'' (Some Layer_A) None False,
     rule_row (R_SF 5) ''7.2'' (Some Layer_A) (Some (js ''NIP-09'')) False,
     rule_row (R_SF 6) ''7.2'' (Some Layer_A) None False,
     rule_row (R_SF 7) ''7.2'' (Some Layer_A) None False]"

definition RULES_overlays :: "rule list" where
  "RULES_overlays = [
     rule_row (R_OV 1) ''7.3'' None None True,
     rule_row (R_OV 2) ''7.3'' (Some Layer_A) None False,
     rule_row (R_OV 3) ''7.3'' (Some Layer_A) None False,
     rule_row (R_OV 4) ''7.3'' (Some Layer_A) None False,
     rule_row (R_OV 5) ''7.3'' (Some Layer_D) None False,
     rule_row (R_OV 6) ''7.3'' (Some Layer_A) None False,
     rule_row (R_OV 7) ''7.3'' (Some Layer_D) None False,
     rule_row (R_OV 8) ''7.3'' (Some Layer_A) None False,
     rule_row (R_OV 9) ''7.3'' (Some Layer_A) None False,
     rule_row (R_UR 1) ''7.6'' (Some Layer_A) None False,
     rule_row (R_UR 2) ''7.6'' (Some Layer_A) None False,
     rule_row (R_UR 3) ''7.6'' (Some Layer_D) None False,
     rule_row (R_UR 4) ''7.6'' (Some Layer_A) None False]"

definition RULES_discovery :: "rule list" where
  "RULES_discovery = [
     rule_row (R_DQ 1) ''8'' (Some Layer_D) (Some (js ''NIP-01'')) False,
     rule_row (R_DQ 2) ''8'' (Some Layer_D) (Some (js ''NIP-09'')) False,
     rule_row (R_DQ 3) ''8'' (Some Layer_D) (Some (js ''NIP-50'')) False,
     rule_row (R_DQ 4) ''8'' (Some Layer_D) (Some (js ''NIP-10'')) False,
     rule_row (R_IR 1) ''9'' (Some Layer_V) None False,
     rule_row (R_IR 2) ''9'' (Some Layer_V) None False,
     rule_row (R_IR 3) ''9'' (Some Layer_V) (Some (js ''NIP-73'')) False,
     rule_row (R_IR 4) ''9'' (Some Layer_V) None False]"

definition RULES_deletions :: "rule list" where
  "RULES_deletions = [
     rule_row (R_DEL 1) ''10'' (Some Layer_A) (Some (js ''NIP-09'')) False,
     rule_row (R_DEL 2) ''10'' (Some Layer_A) None False,
     rule_row (R_DEL 3) ''10'' (Some Layer_A) None False,
     rule_row (R_DEL 4) ''10'' (Some Layer_D) None False,
     rule_row (R_DEL 5) ''10'' (Some Layer_D) None False,
     rule_row (R_DEL 6) ''10'' (Some Layer_A) (Some (js ''NIP-09'')) False,
     rule_row (R_DEL 7) ''10'' (Some Layer_A) None False,
     rule_row (R_DEL 8) ''10'' (Some Layer_A) None False,
     rule_row (R_DEL 9) ''10'' (Some Layer_A) None False,
     rule_row (R_DEL 10) ''10'' (Some Layer_D) None False,
     rule_row (R_DEL 11) ''10'' (Some Layer_D) (Some (js ''NIP-09'')) False]"

definition RULES :: "rule list" where
  "RULES = concat [RULES_tags,
     RULES_roots,
     RULES_bindings,
     RULES_patches,
     RULES_attachments,
     RULES_payloads,
     RULES_application,
     RULES_trust,
     RULES_forks,
     RULES_overlays,
     RULES_discovery,
     RULES_deletions]"

text \<open>\<open>RULES[code]\<close>, \<open>RULE_IDS\<close> and \<open>isRuleId\<close>.\<close>

definition rule_of :: "rule_id \<Rightarrow> rule option" where
  "rule_of c = find (\<lambda>r. rl_id r = c) RULES"

definition RULE_IDS :: "rule_id list" where
  "RULE_IDS = map rl_id RULES"

definition isRuleId :: "jsstr \<Rightarrow> bool" where
  "isRuleId v \<longleftrightarrow> v \<in> set (map rule_name RULE_IDS)"

lemmas RULES_defs = RULES_def RULES_tags_def RULES_roots_def RULES_bindings_def RULES_patches_def
  RULES_attachments_def RULES_payloads_def RULES_application_def RULES_trust_def RULES_forks_def
  RULES_overlays_def RULES_discovery_def RULES_deletions_def rule_row_def

section \<open>The registry is the partition its header announces\<close>

lemma distinct_RULE_IDS: "distinct RULE_IDS"
  by (simp add: RULE_IDS_def RULES_defs)

lemma rule_of_Some: "rule_of c = Some r \<Longrightarrow> rl_id r = c \<and> r \<in> set RULES"
  by (auto simp: rule_of_def find_Some_iff)

lemma find_by_distinct_key:
  "distinct (map f xs) \<Longrightarrow> x \<in> set xs \<Longrightarrow> find (\<lambda>y. f y = f x) xs = Some x"
  by (induction xs) auto

lemma rule_of_registered: "r \<in> set RULES \<Longrightarrow> rule_of (rl_id r) = Some r"
  unfolding rule_of_def
  by (rule find_by_distinct_key) (use distinct_RULE_IDS in \<open>simp_all add: RULE_IDS_def\<close>)

lemma RULES_counts:
  "length RULES = 142"
  "length (filter (\<lambda>r. rl_layer r = Some Layer_V) RULES) = 46"
  "length (filter (\<lambda>r. rl_layer r = Some Layer_A) RULES) = 64"
  "length (filter (\<lambda>r. rl_layer r = Some Layer_D) RULES) = 31"
  "map rl_id (filter (\<lambda>r. rl_layer r = None) RULES) = [R_OV 1]"
  "map rl_id (filter (\<lambda>r. rl_reserved r) RULES) = [R_OV 1]"
  by (simp_all add: RULES_defs)

text \<open>The layer and the reservation of each id, without the rest of its row.\<close>

definition rule_index :: "(rule_id \<times> rule_layer option \<times> bool) list" where
  "rule_index = map (\<lambda>r. (rl_id r, rl_layer r, rl_reserved r)) RULES"

lemmas rule_index_table = rule_index_def [unfolded RULES_defs, simplified]

lemma rule_of_index:
  "map_option (\<lambda>r. (rl_layer r, rl_reserved r)) (rule_of c) = map_of rule_index c"
proof -
  have "map_option (\<lambda>r. (rl_layer r, rl_reserved r)) (find (\<lambda>r. rl_id r = c) rs) =
      map_of (map (\<lambda>r. (rl_id r, rl_layer r, rl_reserved r)) rs) c" for rs
    by (induction rs) auto
  then show ?thesis
    by (simp add: rule_of_def rule_index_def)
qed

text \<open>
  The registry holds 142 rules with distinct ids: 46 Validity, 64 Application and 31 Discovery
  rules and one reserved id, the only one without a layer; and looking up the id of an entry
  returns that entry.
\<close>

theorem rules_partition:
  "length RULES = 142 \<and> distinct RULE_IDS
   \<and> length (filter (\<lambda>r. rl_layer r = Some Layer_V) RULES) = 46
   \<and> length (filter (\<lambda>r. rl_layer r = Some Layer_A) RULES) = 64
   \<and> length (filter (\<lambda>r. rl_layer r = Some Layer_D) RULES) = 31
   \<and> map rl_id (filter (\<lambda>r. rl_layer r = None) RULES) = [R_OV 1]
   \<and> map rl_id (filter (\<lambda>r. rl_reserved r) RULES) = [R_OV 1]
   \<and> map (rule_of \<circ> rl_id) RULES = map Some RULES"
  by (simp add: RULES_counts distinct_RULE_IDS rule_of_registered)

end
