(* ===== verification/Errors.thy ===== *)
theory Errors
  imports Rules
begin

text \<open>
  \<open>packages/core/src/errors.ts\<close>: an issue cites one rule. \<open>issue\<close> is the builder itself, which
  throws a \<open>TypeError\<close> on a reserved id; \<open>cite\<close> is the issue it returns, used where a component
  cites a constant id. \<open>citable\<close> is the id's check, and \<open>issue_cite\<close> says the two agree on it. An
  issue keeps every field but its message: no code of the package reads a message.
\<close>

datatype js_error = TypeError | MalformedPayload

datatype severity = Sev_error | Sev_warning

record issue =
  is_code :: rule_id
  is_layer :: "rule_layer option"
  is_section :: jsstr
  is_severity :: severity

definition issue :: "rule_id \<Rightarrow> severity \<Rightarrow> js_error + issue" where
  "issue code severity =
     (case rule_of code of
        None \<Rightarrow> Inl TypeError
      | Some rule \<Rightarrow>
          if rl_reserved rule then Inl TypeError
          else Inr \<lparr>is_code = code, is_layer = rl_layer rule, is_section = rl_section rule,
                    is_severity = severity\<rparr>)"

definition cite :: "rule_id \<Rightarrow> severity \<Rightarrow> issue" where
  "cite code severity =
     (case issue code severity of
        Inr i \<Rightarrow> i
      | Inl _ \<Rightarrow> \<lparr>is_code = code, is_layer = None, is_section = [], is_severity = severity\<rparr>)"

definition ruleOf :: "issue \<Rightarrow> rule option" where
  "ruleOf i = rule_of (is_code i)"

definition hasError :: "issue list \<Rightarrow> bool" where
  "hasError issues \<longleftrightarrow> (\<exists>i \<in> set issues. is_severity i = Sev_error)"

definition citable :: "rule_id \<Rightarrow> bool" where
  "citable code \<longleftrightarrow> (case rule_of code of None \<Rightarrow> False | Some r \<Rightarrow> \<not> rl_reserved r)"

definition layer_of :: "rule_id \<Rightarrow> rule_layer option" where
  "layer_of code = (case rule_of code of None \<Rightarrow> None | Some r \<Rightarrow> rl_layer r)"

text \<open>Citations of concrete ids are checked against the index of the registry.\<close>

lemma citable_index:
  "citable c \<longleftrightarrow> (case map_of rule_index c of None \<Rightarrow> False | Some (_, reserved) \<Rightarrow> \<not> reserved)"
  by (simp add: citable_def rule_of_index [symmetric] split: option.split)

lemma layer_of_index:
  "layer_of c = (case map_of rule_index c of None \<Rightarrow> None | Some (layer, _) \<Rightarrow> layer)"
  by (simp add: layer_of_def rule_of_index [symmetric] split: option.split)

lemmas registry_simps = citable_index layer_of_index rule_index_table

lemma cite_simps [simp]:
  "is_code (cite c s) = c" "is_severity (cite c s) = s"
  by (simp_all add: cite_def issue_def split: option.split)

lemma issue_cite: "citable c \<Longrightarrow> issue c s = Inr (cite c s)"
  by (auto simp: cite_def issue_def citable_def split: option.splits)

lemma cite_layer: "citable c \<Longrightarrow> is_layer (cite c s) = layer_of c"
  by (auto simp: cite_def issue_def citable_def layer_of_def split: option.splits)

lemma cite_eq_iff [simp]: "cite c s = cite c' s' \<longleftrightarrow> c = c' \<and> s = s'"
  by (metis cite_simps)

lemma hasError_simps [simp]:
  "\<not> hasError []"
  "hasError (i # is) \<longleftrightarrow> is_severity i = Sev_error \<or> hasError is"
  "hasError (as @ bs) \<longleftrightarrow> hasError as \<or> hasError bs"
  by (auto simp: hasError_def)

lemma severity_cases [simp]: "s \<noteq> Sev_error \<longleftrightarrow> s = Sev_warning" "s \<noteq> Sev_warning \<longleftrightarrow> s = Sev_error"
  by (cases s; simp)+

text \<open>
  The builder never mislabels an issue: it fails exactly on an id that is unknown or reserved,
  and an issue it returns carries the registry's layer and section of the id it cites, and the
  severity it was given.
\<close>

theorem issue_labels:
  "case issue c s of
     Inl e \<Rightarrow> e = TypeError \<and> \<not> citable c
   | Inr i \<Rightarrow> citable c \<and> is_code i = c \<and> is_severity i = s
       \<and> ruleOf i \<noteq> None
       \<and> is_layer i = rl_layer (the (ruleOf i)) \<and> is_section i = rl_section (the (ruleOf i))"
  by (auto simp: issue_def citable_def ruleOf_def split: option.splits)

end
