(* ===== verification/Events.thy ===== *)
theory Events
  imports Errors "HOL-Library.Option_ord"
begin

text \<open>
  \<open>packages/core/src/events.ts\<close>: the event record, its tag accessors, the version tag order, the
  indexer grammar, NIP-92 attachments and \<open>dedupeById\<close>. Nothing here rejects an event. A number
  of the code is an \<open>int\<close> (a NIP-01 timestamp or kind is an integer). \<open>new URL\<close> is a host
  facility, so \<open>imetaArtifacts\<close> takes it as the argument \<open>parse_url\<close>, which returns the protocol
  and the host name, or \<open>None\<close> where the constructor throws.
\<close>

section \<open>Events and tags\<close>

record nostr_event =
  ev_id :: jsstr
  ev_pubkey :: jsstr
  ev_created_at :: int
  ev_kind :: int
  ev_tags :: "jsstr list list"
  ev_content :: jsstr
  ev_sig :: jsstr

record unsigned_event =
  un_kind :: int
  un_created_at :: int
  un_tags :: "jsstr list list"
  un_content :: jsstr

datatype sc_type = Product | Metadata | Binding | Patch

fun EVENT_TYPE_TAGS :: "sc_type \<Rightarrow> jsstr" where
  "EVENT_TYPE_TAGS Product = js ''scrutiny-product''"
| "EVENT_TYPE_TAGS Metadata = js ''scrutiny-metadata''"
| "EVENT_TYPE_TAGS Binding = js ''scrutiny-binding''"
| "EVENT_TYPE_TAGS Patch = js ''scrutiny-patch''"

definition FABRIC_TAG :: jsstr where
  "FABRIC_TAG = js ''scrutiny-fabric''"

definition SCRUTINY_KIND :: int where
  "SCRUTINY_KIND = 1"

definition DELETION_KIND :: int where
  "DELETION_KIND = 5"

definition TYPE_BY_TAG :: "(jsstr \<times> sc_type) list" where
  "TYPE_BY_TAG = map (\<lambda>t. (EVENT_TYPE_TAGS t, t)) [Product, Metadata, Binding, Patch]"

definition tag_value :: "jsstr \<Rightarrow> jsstr list \<Rightarrow> jsstr list" where
  "tag_value name tag =
     (case tag of n # v # _ \<Rightarrow> if n = name then [v] else [] | _ \<Rightarrow> [])"

definition tagValues :: "nostr_event \<Rightarrow> jsstr \<Rightarrow> jsstr list" where
  "tagValues event name = concat (map (tag_value name) (ev_tags event))"

definition tTags :: "nostr_event \<Rightarrow> jsstr list" where
  "tTags event = tagValues event (js ''t'')"

record e_tag_ref =
  er_id :: jsstr
  er_relay :: jsstr
  er_marker :: "jsstr option"
  er_authorHint :: "jsstr option"

text \<open>An absent field and an empty one are both left out of the parsed reference.\<close>

definition nonempty :: "jsstr option \<Rightarrow> jsstr option" where
  "nonempty v = (if v = Some [] then None else v)"

definition e_tag :: "jsstr list \<Rightarrow> e_tag_ref list" where
  "e_tag tag =
     (case tag of
        n # i # rest \<Rightarrow>
          if n \<noteq> js ''e'' then []
          else [\<lparr>er_id = i,
                 er_relay = (case nth_opt rest 0 of None \<Rightarrow> [] | Some r \<Rightarrow> r),
                 er_marker = nonempty (nth_opt rest 1),
                 er_authorHint = nonempty (nth_opt rest 2)\<rparr>]
      | _ \<Rightarrow> [])"

definition eTags :: "nostr_event \<Rightarrow> e_tag_ref list" where
  "eTags event = concat (map e_tag (ev_tags event))"

definition eTagsWithMarker :: "nostr_event \<Rightarrow> jsstr \<Rightarrow> e_tag_ref list" where
  "eTagsWithMarker event marker = filter (\<lambda>e. er_marker e = Some marker) (eTags event)"

definition first_id :: "e_tag_ref list \<Rightarrow> jsstr option" where
  "first_id refs = (case refs of [] \<Rightarrow> None | r # _ \<Rightarrow> Some (er_id r))"

definition rootTarget :: "nostr_event \<Rightarrow> jsstr option" where
  "rootTarget event = first_id (eTagsWithMarker event (js ''root''))"

definition replyTarget :: "nostr_event \<Rightarrow> jsstr option" where
  "replyTarget event = first_id (eTagsWithMarker event (js ''reply''))"

definition isScrutinyEvent :: "nostr_event \<Rightarrow> bool" where
  "isScrutinyEvent event \<longleftrightarrow> FABRIC_TAG \<in> set (tTags event)"

definition scrutinyEventType :: "nostr_event \<Rightarrow> sc_type option" where
  "scrutinyEventType event =
     (let found = concat (map (\<lambda>t. case map_of TYPE_BY_TAG t of None \<Rightarrow> [] | Some ty \<Rightarrow> [ty])
                              (tTags event))
      in case found of [ty] \<Rightarrow> Some ty | _ \<Rightarrow> None)"

section \<open>Attachments\<close>

definition IMETA_TAG :: jsstr where
  "IMETA_TAG = js ''imeta''"

record artifact_ref =
  ar_url :: jsstr
  ar_mime :: "jsstr option"
  ar_sha256 :: "jsstr option"
  ar_size :: "jsstr option"
  ar_alt :: "jsstr option"

type_synonym url_parser = "jsstr \<Rightarrow> (jsstr \<times> jsstr) option"

definition isHttpUrlValue :: "url_parser \<Rightarrow> jsstr \<Rightarrow> bool" where
  "isHttpUrlValue parse_url v =
     (case parse_url v of
        None \<Rightarrow> False
      | Some (protocol, hostname) \<Rightarrow>
          (protocol = js ''http:'' \<or> protocol = js ''https:'') \<and> hostname \<noteq> [])"

definition is_lower_hex :: "u16 \<Rightarrow> bool" where
  "is_lower_hex c \<longleftrightarrow> is_digit c \<or> (97 \<le> c \<and> c \<le> 102)"

definition SHA256_HEX_PATTERN :: "jsstr \<Rightarrow> bool" where
  "SHA256_HEX_PATTERN x \<longleftrightarrow> length x = 64 \<and> list_all (\<lambda>c. is_lower_hex (to_lower_unit c)) x"

definition SIZE_DECIMAL_PATTERN :: "jsstr \<Rightarrow> bool" where
  "SIZE_DECIMAL_PATTERN s \<longleftrightarrow> s \<noteq> [] \<and> list_all is_digit s"

text \<open>One entry of the tag updates the first usable url and the map of claimed keys.\<close>

definition imeta_entry ::
    "url_parser \<Rightarrow> jsstr \<Rightarrow> jsstr option \<times> jsstr dict \<Rightarrow> jsstr option \<times> jsstr dict" where
  "imeta_entry parse_url entry st =
     (case st of (url, claimed) \<Rightarrow>
       (case index_of (cu CHR '' '') entry of
          None \<Rightarrow> st
        | Some sp \<Rightarrow>
            if sp = 0 then st
            else
              let key = to_lower (take sp entry); v = drop (Suc sp) entry in
              if v = [] then st
              else if key = js ''url'' then
                (if url = None \<and> isHttpUrlValue parse_url v then (Some v, claimed) else st)
              else (url, dset_new key v claimed)))"

definition imeta_tag :: "url_parser \<Rightarrow> jsstr list \<Rightarrow> artifact_ref list" where
  "imeta_tag parse_url tag =
     (case tag of
        [] \<Rightarrow> []
      | name # entries \<Rightarrow>
          if name \<noteq> IMETA_TAG then []
          else (case fold (imeta_entry parse_url) entries (None, []) of
              (None, _) \<Rightarrow> []
            | (Some url, claimed) \<Rightarrow>
                [\<lparr>ar_url = url,
                  ar_mime = dget claimed (js ''m''),
                  ar_sha256 = (case dget claimed (js ''x'') of
                      Some x \<Rightarrow> if SHA256_HEX_PATTERN x then Some (to_lower x) else None
                    | None \<Rightarrow> None),
                  ar_size = (case dget claimed (js ''size'') of
                      Some s \<Rightarrow> if SIZE_DECIMAL_PATTERN s then Some s else None
                    | None \<Rightarrow> None),
                  ar_alt = dget claimed (js ''alt'')\<rparr>]))"

definition imetaArtifacts :: "url_parser \<Rightarrow> nostr_event \<Rightarrow> artifact_ref list" where
  "imetaArtifacts parse_url event = concat (map (imeta_tag parse_url) (ev_tags event))"

section \<open>Deduplication\<close>

definition dedupeById :: "nostr_event list \<Rightarrow> nostr_event dict" where
  "dedupeById events = fold (\<lambda>event byId. dset_new (ev_id event) event byId) events []"

section \<open>Version tags\<close>

record protocol_version =
  pv_major :: jsstr
  pv_minor :: jsstr
  pv_patch :: jsstr

definition LEGACY_VERSION_TAGS :: "(jsstr \<times> protocol_version) list" where
  "LEGACY_VERSION_TAGS =
     [(js ''scrutiny-v059'', \<lparr>pv_major = js ''0'', pv_minor = js ''5'', pv_patch = js ''9''\<rparr>)]"

text \<open>
  \<open>VERSION_TAG_PATTERN.exec\<close>: the prefix, then three non-empty runs of digits separated by dots,
  then the end of the input. The digit runs are maximal, as a dot is no digit.
\<close>

definition version_prefix :: jsstr where
  "version_prefix = js ''scrutiny-v''"

definition dot :: u16 where
  "dot = cu CHR ''.''"

fun skip_dot :: "jsstr \<Rightarrow> jsstr option" where
  "skip_dot [] = None"
| "skip_dot (c # r) = (if c = dot then Some r else None)"

definition VERSION_TAG_PATTERN :: "jsstr \<Rightarrow> protocol_version option" where
  "VERSION_TAG_PATTERN tag =
     (if \<not> starts_with tag version_prefix then None
      else
        let r = drop (length version_prefix) tag; major = takeWhile is_digit r in
        case skip_dot (dropWhile is_digit r) of
          None \<Rightarrow> None
        | Some r \<Rightarrow>
            let minor = takeWhile is_digit r in
            case skip_dot (dropWhile is_digit r) of
              None \<Rightarrow> None
            | Some patch \<Rightarrow>
                if major \<noteq> [] \<and> minor \<noteq> [] \<and> patch \<noteq> [] \<and> list_all is_digit patch
                then Some \<lparr>pv_major = major, pv_minor = minor, pv_patch = patch\<rparr> else None)"

text \<open>\<open>version.ts\<close>: the version this implementation writes.\<close>

definition VERSION_TAG :: jsstr where
  "VERSION_TAG = js ''scrutiny-v0.8.1''"

definition versionTags :: "nostr_event \<Rightarrow> jsstr list" where
  "versionTags event =
     filter (\<lambda>t. VERSION_TAG_PATTERN t \<noteq> None \<or> dhas LEGACY_VERSION_TAGS t) (tTags event)"

definition versionTag :: "nostr_event \<Rightarrow> jsstr option" where
  "versionTag event = (case versionTags event of [v] \<Rightarrow> Some v | _ \<Rightarrow> None)"

definition parseVersionTag :: "jsstr \<Rightarrow> protocol_version option" where
  "parseVersionTag tag =
     (case map_of LEGACY_VERSION_TAGS tag of
        Some legacy \<Rightarrow> Some legacy
      | None \<Rightarrow> VERSION_TAG_PATTERN tag)"

text \<open>\<open>replace(/^0+(?=\d)/, '')\<close>: drop leading zeros while a digit follows.\<close>

fun strip_zeros :: "jsstr \<Rightarrow> jsstr" where
  "strip_zeros (c # d # r) =
     (if c = cu CHR ''0'' \<and> is_digit d then strip_zeros (d # r) else c # d # r)"
| "strip_zeros s = s"

definition compareVersionField :: "jsstr \<Rightarrow> jsstr \<Rightarrow> int" where
  "compareVersionField a b =
     (let x = strip_zeros a; y = strip_zeros b in
      if length x \<noteq> length y then (if length x < length y then -1 else 1)
      else if x = y then 0
      else if x < y then -1 else 1)"

text \<open>\<open>a || b\<close> on numbers: the first operand unless it is zero.\<close>

definition or_else :: "int \<Rightarrow> int \<Rightarrow> int" where
  "or_else a b = (if a \<noteq> 0 then a else b)"

definition compareVersionTags :: "jsstr \<Rightarrow> jsstr \<Rightarrow> int" where
  "compareVersionTags a b =
     (case parseVersionTag a of
        None \<Rightarrow> (case parseVersionTag b of None \<Rightarrow> 0 | Some _ \<Rightarrow> -1)
      | Some va \<Rightarrow>
          (case parseVersionTag b of
             None \<Rightarrow> 1
           | Some vb \<Rightarrow>
               or_else (compareVersionField (pv_major va) (pv_major vb))
                (or_else (compareVersionField (pv_minor va) (pv_minor vb))
                  (compareVersionField (pv_patch va) (pv_patch vb)))))"

section \<open>Indexers\<close>

record indexer =
  ix_prefix :: jsstr
  ix_value :: jsstr
  ix_raw :: jsstr

definition is_prefix_unit :: "u16 \<Rightarrow> bool" where
  "is_prefix_unit c \<longleftrightarrow> (97 \<le> c \<and> c \<le> 122) \<or> is_digit c \<or> c = cu CHR ''-''"

definition INDEXER_PREFIX_PATTERN :: "jsstr \<Rightarrow> bool" where
  "INDEXER_PREFIX_PATTERN p \<longleftrightarrow> p \<noteq> [] \<and> list_all is_prefix_unit p"

definition colon :: u16 where
  "colon = cu CHR '':''"

definition parseIndexer :: "jsstr \<Rightarrow> indexer option" where
  "parseIndexer raw =
     (case index_of colon raw of
        None \<Rightarrow> None
      | Some n \<Rightarrow>
          if n = 0 then None
          else if \<not> INDEXER_PREFIX_PATTERN (take n raw) then None
          else Some \<lparr>ix_prefix = take n raw, ix_value = drop (Suc n) raw, ix_raw = raw\<rparr>)"

definition indexers :: "nostr_event \<Rightarrow> indexer list" where
  "indexers event =
     concat (map (\<lambda>raw. case parseIndexer raw of None \<Rightarrow> [] | Some p \<Rightarrow> [p])
                 (tagValues event (js ''i'')))"

text \<open>A \<open>Set\<close> built from an array.\<close>

definition set_of :: "'a list \<Rightarrow> 'a list" where
  "set_of xs = fold sadd xs []"

definition indexerKinds :: "nostr_event \<Rightarrow> jsstr list" where
  "indexerKinds event = set_of (tagValues event (js ''k''))"

definition derivedIndexerKinds :: "nostr_event \<Rightarrow> jsstr list" where
  "derivedIndexerKinds event = set_of (map ix_prefix (indexers event))"

section \<open>Facts about the accessors\<close>

lemma TYPE_BY_TAG_Some [simp]: "map_of TYPE_BY_TAG t = Some ty \<longleftrightarrow> t = EVENT_TYPE_TAGS ty"
  by (cases ty) (auto simp: TYPE_BY_TAG_def)

lemma EVENT_TYPE_TAGS_inject [simp]: "EVENT_TYPE_TAGS a = EVENT_TYPE_TAGS b \<longleftrightarrow> a = b"
  by (cases a; cases b) simp_all

lemma EVENT_TYPE_TAGS_not_fabric [simp]: "EVENT_TYPE_TAGS a \<noteq> FABRIC_TAG"
  by (cases a) (simp_all add: FABRIC_TAG_def)

lemma set_fold_sadd [simp]: "set (fold sadd xs s) = set s \<union> set xs"
  by (induction xs arbitrary: s) auto

lemma distinct_fold_sadd: "distinct s \<Longrightarrow> distinct (fold sadd xs s)"
  by (induction xs arbitrary: s) auto

lemma set_of_facts [simp]: "set (set_of xs) = set xs" "distinct (set_of xs)"
  by (simp_all add: set_of_def distinct_fold_sadd)

lemma tagValues_iff:
  "v \<in> set (tagValues e name) \<longleftrightarrow> (\<exists>rest. (name # v # rest) \<in> set (ev_tags e))"
  by (force simp: tagValues_def tag_value_def split: list.splits if_splits)

lemma eTags_ids: "map er_id (eTags e) = tagValues e (js ''e'')"
proof -
  have "map er_id (e_tag t) = tag_value (js ''e'') t" for t
    by (simp add: e_tag_def tag_value_def split: list.split)
  then show ?thesis
    by (simp add: eTags_def tagValues_def map_concat comp_def)
qed

lemma eTags_id_set: "er_id ` set (eTags e) = set (tagValues e (js ''e''))"
  by (metis eTags_ids set_map)

section \<open>Deduplication keeps the first event of each id\<close>

lemma dget_fold_dset_new:
  "dget (fold (\<lambda>e d. dset_new (key e) e d) es d) k =
     (case dget d k of Some v \<Rightarrow> Some v | None \<Rightarrow> find (\<lambda>e. key e = k) es)"
  by (induction es arbitrary: d) (auto simp: dset_new_def dhas_def split: option.split)

lemma dget_dedupeById: "dget (dedupeById es) k = find (\<lambda>e. ev_id e = k) es"
  by (simp add: dedupeById_def dget_fold_dset_new)

lemma keys_dedupeById [simp]: "distinct (dkeys (dedupeById es))"
proof -
  have "distinct (dkeys d) \<Longrightarrow> distinct (dkeys (fold (\<lambda>e. dset_new (ev_id e) e) es d))" for d
    by (induction es arbitrary: d) (simp_all add: dset_new_def)
  then show ?thesis
    by (simp add: dedupeById_def)
qed

lemma dedupeById_entry: "(k, e) \<in> set (dedupeById es) \<Longrightarrow> ev_id e = k \<and> e \<in> set es"
proof -
  assume "(k, e) \<in> set (dedupeById es)"
  then have "dget (dedupeById es) k = Some e"
    by simp
  then show ?thesis
    by (auto simp: dget_dedupeById find_Some_iff)
qed

lemma dedupeById_ids: "map ev_id (dvalues (dedupeById es)) = dkeys (dedupeById es)"
  by (auto dest: dedupeById_entry)

lemma distinct_dedupeById [simp]: "distinct (map ev_id (dvalues (dedupeById es)))"
  by (simp add: dedupeById_ids del: map_map)

lemma dedupeById_subset: "set (dvalues (dedupeById es)) \<subseteq> set es"
  by (auto dest: dedupeById_entry)

text \<open>An id is a content hash: two events of a set that share an id are the same event.\<close>

definition id_consistent :: "nostr_event set \<Rightarrow> bool" where
  "id_consistent E \<longleftrightarrow> inj_on ev_id E"

lemma id_consistentD: "id_consistent E \<Longrightarrow> a \<in> E \<Longrightarrow> b \<in> E \<Longrightarrow> ev_id a = ev_id b \<Longrightarrow> a = b"
  by (auto simp: id_consistent_def inj_on_def)

lemma id_consistent_subset: "id_consistent E \<Longrightarrow> F \<subseteq> E \<Longrightarrow> id_consistent F"
  by (auto simp: id_consistent_def inj_on_def)

lemma dget_dedupe_consistent:
  assumes "id_consistent (set es)"
  shows "dget (dedupeById es) k = Some e \<longleftrightarrow> e \<in> set es \<and> ev_id e = k"
proof
  assume "e \<in> set es \<and> ev_id e = k"
  then have "\<exists>e'. find (\<lambda>e. ev_id e = k) es = Some e'"
    by (auto simp: find_None_iff not_None_eq [symmetric])
  then obtain e' where e': "find (\<lambda>e. ev_id e = k) es = Some e'" ..
  then have "e' = e"
    using \<open>e \<in> set es \<and> ev_id e = k\<close>
    by (auto simp: find_Some_iff intro: id_consistentD [OF assms])
  with e' show "dget (dedupeById es) k = Some e"
    by (simp add: dget_dedupeById)
qed (auto simp: dget_dedupeById find_Some_iff)

lemma set_dedupe_consistent:
  "id_consistent (set es) \<Longrightarrow> set (dvalues (dedupeById es)) = set es"
proof (intro equalityI dedupeById_subset subsetI)
  fix e assume "id_consistent (set es)" "e \<in> set es"
  then have "dget (dedupeById es) (ev_id e) = Some e"
    by (metis dget_dedupe_consistent)
  then show "e \<in> set (dvalues (dedupeById es))"
    by (metis map_of_SomeD image_eqI list.set_map snd_conv)
qed

lemma distinct_dvalues_dedupe: "distinct (dvalues (dedupeById es))"
  using distinct_dedupeById distinct_map by blast

lemma dedupe_perm:
  assumes "id_consistent (set es)" "set es = set es'"
  shows "mset (dvalues (dedupeById es)) = mset (dvalues (dedupeById es'))"
    and "dget (dedupeById es) = dget (dedupeById es')"
proof -
  show "mset (dvalues (dedupeById es)) = mset (dvalues (dedupeById es'))"
    using assms by (metis set_dedupe_consistent distinct_dvalues_dedupe set_eq_iff_mset_eq_distinct)
  show "dget (dedupeById es) = dget (dedupeById es')"
  proof
    fix k
    show "dget (dedupeById es) k = dget (dedupeById es') k"
      using assms by (metis dget_dedupe_consistent not_None_eq)
  qed
qed

section \<open>The version order is numeric\<close>

fun digits_value :: "jsstr \<Rightarrow> nat" where
  "digits_value [] = 0"
| "digits_value (c # s) = (unat c - 48) * 10 ^ length s + digits_value s"

lemma is_digit_unat: "is_digit c \<longleftrightarrow> 48 \<le> unat c \<and> unat c \<le> 57"
  by (simp add: is_digit_def word_le_nat_alt)

lemma unat_cu_zero: "c = cu CHR ''0'' \<longleftrightarrow> unat c = 48"
proof -
  have "unat (cu CHR ''0'') = 48"
    by (simp add: unat_cu)
  then show ?thesis
    by (metis word_unat_eq_iff)
qed

lemma digits_value_less: "list_all is_digit s \<Longrightarrow> digits_value s < 10 ^ length s"
proof (induction s)
  case (Cons c s)
  then have "digits_value s < 10 ^ length s" "unat c - 48 \<le> 9"
    by (auto simp: is_digit_unat)
  then have "(unat c - 48) * 10 ^ length s + digits_value s < 9 * 10 ^ length s + 10 ^ length s"
    by (intro add_le_less_mono mult_le_mono1)
  then show ?case by simp
qed simp

lemma strip_zeros_value: "list_all is_digit s \<Longrightarrow> digits_value (strip_zeros s) = digits_value s"
  by (induction s rule: strip_zeros.induct) (auto simp: unat_cu_zero)

lemma strip_zeros_ne [simp]: "strip_zeros s = [] \<longleftrightarrow> s = []"
  by (induction s rule: strip_zeros.induct) auto

lemma strip_zeros_digits: "list_all is_digit s \<Longrightarrow> list_all is_digit (strip_zeros s)"
  by (induction s rule: strip_zeros.induct) auto

lemma strip_zeros_long:
  "list_all is_digit s \<Longrightarrow> 1 < length (strip_zeros s) \<Longrightarrow>
     10 ^ (length (strip_zeros s) - 1) \<le> digits_value (strip_zeros s)"
proof (induction s rule: strip_zeros.induct)
  case (1 c d r)
  show ?case
  proof (cases "c = cu CHR ''0''")
    case False
    with 1(2) have "1 \<le> unat c - 48"
      by (auto simp: is_digit_unat unat_cu_zero)
    then have "10 ^ length (d # r) \<le> (unat c - 48) * 10 ^ length (d # r)"
      by simp
    with False show ?thesis
      by (simp only: strip_zeros.simps simp_thms if_False digits_value.simps length_Cons
          diff_Suc_1 trans_le_add1)
  qed (use 1 in auto)
qed auto

lemma same_length_digits:
  "length x = length y \<Longrightarrow> list_all is_digit x \<Longrightarrow> list_all is_digit y \<Longrightarrow>
     x < y \<longleftrightarrow> digits_value x < digits_value y"
proof (induction x y rule: list_induct2)
  case (Cons a x b y)
  have bounds: "digits_value x < 10 ^ length x" "digits_value y < 10 ^ length x"
    using Cons digits_value_less [of x] digits_value_less [of y] by auto
  have ab: "48 \<le> unat a" "48 \<le> unat b"
    using Cons by (auto simp: is_digit_unat)
  consider "a = b" | "unat a < unat b" | "unat b < unat a"
    by (metis linorder_neqE_nat word_unat_eq_iff)
  then show ?case
  proof cases
    case 2
    then have "Suc (unat a - 48) \<le> unat b - 48"
      using ab by simp
    then have "Suc (unat a - 48) * 10 ^ length x \<le> (unat b - 48) * 10 ^ length x"
      by (rule mult_le_mono1)
    then show ?thesis
      using 2 bounds Cons.hyps by (simp add: word_less_nat_alt)
  next
    case 3
    then have "Suc (unat b - 48) \<le> unat a - 48"
      using ab by simp
    then have "Suc (unat b - 48) * 10 ^ length x \<le> (unat a - 48) * 10 ^ length x"
      by (rule mult_le_mono1)
    then show ?thesis
      using 3 bounds Cons.hyps by (auto simp: word_less_nat_alt)
  qed (use Cons in auto)
qed simp

lemma compareVersionField_numeric:
  assumes "list_all is_digit a" "list_all is_digit b" "a \<noteq> []" "b \<noteq> []"
  shows "compareVersionField a b =
     (if digits_value a < digits_value b then -1 else if digits_value a = digits_value b then 0 else 1)"
proof -
  define x y where xy: "x = strip_zeros a" "y = strip_zeros b"
  have dig: "list_all is_digit x" "list_all is_digit y"
    and val: "digits_value a = digits_value x" "digits_value b = digits_value y"
    using assms by (simp_all add: xy strip_zeros_digits strip_zeros_value)
  have shorter: "digits_value u < digits_value v"
    if "length u < length v" "list_all is_digit u" "v = strip_zeros w" "list_all is_digit w"
      "u \<noteq> []" for u v w
  proof -
    have "digits_value u < 10 ^ length u"
      using that digits_value_less by blast
    also have "\<dots> \<le> 10 ^ (length v - 1)"
      using that by (intro power_increasing) auto
    also have "\<dots> \<le> digits_value v"
      using that strip_zeros_long [of w] by (cases u) auto
    finally show ?thesis .
  qed
  have ne: "x \<noteq> []" "y \<noteq> []"
    using assms by (auto simp: xy)
  consider "length x < length y" | "length y < length x" | "length x = length y"
    by linarith
  then show ?thesis
  proof cases
    case 1
    with shorter [of x y b] dig ne assms xy have "digits_value x < digits_value y" by blast
    with 1 show ?thesis
      by (simp add: compareVersionField_def val flip: xy)
  next
    case 2
    with shorter [of y x a] dig ne assms xy have "digits_value y < digits_value x" by blast
    with 2 show ?thesis
      by (simp add: compareVersionField_def val flip: xy)
  next
    case 3
    have "x = y" if "digits_value x = digits_value y"
      using same_length_digits [of x y] same_length_digits [of y x] 3 dig that
      by (metis less_irrefl linorder_neqE)
    then show ?thesis
      using 3 dig same_length_digits [of x y] by (auto simp: compareVersionField_def val simp flip: xy)
  qed
qed

definition version_num :: "protocol_version \<Rightarrow> nat \<times> nat \<times> nat" where
  "version_num v = (digits_value (pv_major v), digits_value (pv_minor v), digits_value (pv_patch v))"

definition version_key :: "jsstr \<Rightarrow> (nat \<times> nat \<times> nat) option" where
  "version_key t = map_option version_num (parseVersionTag t)"

definition digit_field :: "jsstr \<Rightarrow> bool" where
  "digit_field s \<longleftrightarrow> s \<noteq> [] \<and> list_all is_digit s"

lemma takeWhile_digit [simp]: "list_all is_digit (takeWhile is_digit r)"
  by (induction r) auto

lemma parseVersionTag_fields:
  assumes "parseVersionTag t = Some v"
  shows "digit_field (pv_major v)" "digit_field (pv_minor v)" "digit_field (pv_patch v)"
proof -
  have legacy: "digit_field (js ''0'')" "digit_field (js ''5'')" "digit_field (js ''9'')"
    by (simp_all add: digit_field_def js_def is_digit_def cu_def)
  have "digit_field (pv_major v) \<and> digit_field (pv_minor v) \<and> digit_field (pv_patch v)"
    using assms legacy
    by (auto simp: parseVersionTag_def LEGACY_VERSION_TAGS_def VERSION_TAG_PATTERN_def Let_def
        digit_field_def split: option.splits if_splits)
  then show "digit_field (pv_major v)" "digit_field (pv_minor v)" "digit_field (pv_patch v)"
    by auto
qed

text \<open>
  The order of version tags is the numeric order of their three fields, read as numbers of any
  length, with the tags that are no version before every version: the comparison is the three-way
  comparison of the keys, for any two strings.
\<close>

theorem compareVersionTags_numeric:
  "compareVersionTags a b =
     (if version_key a < version_key b then -1 else if version_key a = version_key b then 0 else 1)"
proof (cases "parseVersionTag a")
  case None
  then show ?thesis
    by (cases "parseVersionTag b") (simp_all add: compareVersionTags_def version_key_def)
next
  case (Some va)
  show ?thesis
  proof (cases "parseVersionTag b")
    case None
    with Some show ?thesis
      by (simp add: compareVersionTags_def version_key_def)
  next
    fix vb assume "parseVersionTag b = Some vb"
    with Some show ?thesis
      using parseVersionTag_fields [OF Some] parseVersionTag_fields [of b vb]
      by (auto simp: compareVersionTags_def version_key_def version_num_def or_else_def
          digit_field_def compareVersionField_numeric)
  qed
qed

lemma prefix_unit_not_colon: "is_prefix_unit c \<Longrightarrow> c \<noteq> colon"
  by (auto simp: is_prefix_unit_def is_digit_def colon_def cu_def)

text \<open>
  An \<open>i\<close> value parses exactly when it is a non-empty run of prefix characters, a colon, and
  anything; the parts are then the text before the first colon and the text after it, verbatim, so
  putting them together gives the value back.
\<close>

theorem parseIndexer_iff:
  "parseIndexer raw = Some ix \<longleftrightarrow>
     INDEXER_PREFIX_PATTERN (ix_prefix ix) \<and> ix_raw ix = raw
     \<and> raw = ix_prefix ix @ colon # ix_value ix"
proof
  assume "parseIndexer raw = Some ix"
  then show "INDEXER_PREFIX_PATTERN (ix_prefix ix) \<and> ix_raw ix = raw
     \<and> raw = ix_prefix ix @ colon # ix_value ix"
    by (auto simp: parseIndexer_def split: option.splits if_splits dest: index_of_split)
next
  assume r: "INDEXER_PREFIX_PATTERN (ix_prefix ix) \<and> ix_raw ix = raw
     \<and> raw = ix_prefix ix @ colon # ix_value ix"
  then have "colon \<notin> set (ix_prefix ix)"
    by (auto simp: INDEXER_PREFIX_PATTERN_def list_all_iff dest: prefix_unit_not_colon)
  with r show "parseIndexer raw = Some ix"
    by (auto simp: parseIndexer_def index_of_append INDEXER_PREFIX_PATTERN_def)
qed

section \<open>Attachments\<close>

text \<open>The values of the entries whose lowercased key is \<open>k\<close>.\<close>

definition entry_value :: "jsstr \<Rightarrow> jsstr \<Rightarrow> jsstr option" where
  "entry_value k entry =
     (case index_of (cu CHR '' '') entry of
        None \<Rightarrow> None
      | Some sp \<Rightarrow> if sp \<noteq> 0 \<and> to_lower (take sp entry) = k \<and> drop (Suc sp) entry \<noteq> []
                   then Some (drop (Suc sp) entry) else None)"

definition entry_values :: "jsstr \<Rightarrow> jsstr list \<Rightarrow> jsstr list" where
  "entry_values k entries = List.map_filter (entry_value k) entries"

lemma entry_values_simps [simp]:
  "entry_values k [] = []"
  "entry_values k (e # es) =
     (case entry_value k e of None \<Rightarrow> entry_values k es | Some v \<Rightarrow> v # entry_values k es)"
  by (simp_all add: entry_values_def map_filter_simps split: option.split)

lemma imeta_entry_step:
  "fst (imeta_entry pu entry st) =
     (case fst st of Some u \<Rightarrow> Some u
      | None \<Rightarrow> (case entry_value (js ''url'') entry of
                   Some v \<Rightarrow> if isHttpUrlValue pu v then Some v else None | None \<Rightarrow> None))"
  "k \<noteq> js ''url'' \<Longrightarrow> dget (snd (imeta_entry pu entry st)) k =
     (case dget (snd st) k of Some v \<Rightarrow> Some v | None \<Rightarrow> entry_value k entry)"
  by (auto simp: imeta_entry_def entry_value_def Let_def dset_new_def dhas_def
      split: option.split prod.split)

lemma imeta_entry_url:
  "fst (fold (imeta_entry pu) entries st) =
     (case fst st of Some u \<Rightarrow> Some u
      | None \<Rightarrow> find (isHttpUrlValue pu) (entry_values (js ''url'') entries))"
  by (induction entries arbitrary: st) (auto simp: imeta_entry_step split: option.split)

lemma imeta_entry_claimed:
  "k \<noteq> js ''url'' \<Longrightarrow>
     dget (snd (fold (imeta_entry pu) entries st)) k =
     (case dget (snd st) k of Some v \<Rightarrow> Some v | None \<Rightarrow> nth_opt (entry_values k entries) 0)"
  by (induction entries arbitrary: st) (auto simp: imeta_entry_step split: option.split)

text \<open>
  An attachment tag yields an attachment exactly when one of its \<open>url\<close> entries parses as an
  http or https URL with a host; the attachment's url is then the first such entry, verbatim, its
  \<open>m\<close> and \<open>alt\<close> the first entries of those keys, its digest 64 lowercase hex digits and its size a
  digit string.
\<close>

theorem imeta_tag_spec:
  "case find (isHttpUrlValue parse_url) (entry_values (js ''url'') entries) of
     None \<Rightarrow> imeta_tag parse_url (IMETA_TAG # entries) = []
   | Some u \<Rightarrow> \<exists>a. imeta_tag parse_url (IMETA_TAG # entries) = [a] \<and> ar_url a = u
       \<and> ar_mime a = nth_opt (entry_values (js ''m'') entries) 0
       \<and> ar_alt a = nth_opt (entry_values (js ''alt'') entries) 0
       \<and> pred_option (\<lambda>h. length h = 64 \<and> list_all is_lower_hex h
            \<and> h = to_lower (hd (entry_values (js ''x'') entries))) (ar_sha256 a)
       \<and> pred_option (\<lambda>s. s \<noteq> [] \<and> list_all is_digit s
            \<and> s = hd (entry_values (js ''size'') entries)) (ar_size a)"
proof -
  let ?st = "fold (imeta_entry parse_url) entries (None, [])"
  have url: "fst ?st = find (isHttpUrlValue parse_url) (entry_values (js ''url'') entries)"
    by (simp add: imeta_entry_url)
  have claimed: "dget (snd ?st) k = nth_opt (entry_values k entries) 0" if "k \<noteq> js ''url''" for k
    using that by (simp add: imeta_entry_claimed)
  show ?thesis
  proof (cases ?st)
    case (Pair u cl)
    with url claimed show ?thesis
      by (cases u)
        (auto simp: imeta_tag_def SHA256_HEX_PATTERN_def SIZE_DECIMAL_PATTERN_def to_lower_def
          list_all_iff nth_opt_def hd_conv_nth split: option.splits)
  qed
qed

text \<open>Events to exercise the statements on.\<close>

definition sample_event :: "string \<Rightarrow> string \<Rightarrow> sc_type \<Rightarrow> jsstr list list \<Rightarrow> nostr_event" where
  "sample_event i author type tags =
     \<lparr>ev_id = js i, ev_pubkey = js author, ev_created_at = 0, ev_kind = 1,
      ev_tags = [[js ''t'', FABRIC_TAG], [js ''t'', VERSION_TAG], [js ''t'', EVENT_TYPE_TAGS type]] @ tags,
      ev_content = [], ev_sig = []\<rparr>"

definition e_ref :: "string \<Rightarrow> string \<Rightarrow> jsstr list" where
  "e_ref i marker = [js ''e'', js i, [], js marker]"

lemmas sample_simps = sample_event_def e_ref_def tagValues_def tTags_def tag_value_def eTags_def
  eTagsWithMarker_def e_tag_def nonempty_def isScrutinyEvent_def scrutinyEventType_def FABRIC_TAG_def
  TYPE_BY_TAG_def versionTags_def VERSION_TAG_def js_def cu_def

end
