(* ===== verification/Runs.thy ===== *)
theory Runs
  imports Prelude
begin

text \<open>
  Sequences of operations on a state, and the contract of a state that is kept step by step
  although its answers are meant to be those of a reference that reads the whole state at once.
  The admission index, the event storage and the store are its models.
\<close>

text \<open>Whether every step of a run is allowed in the state it is taken in.\<close>

fun run_ok :: "('s \<Rightarrow> 'd \<Rightarrow> 's) \<Rightarrow> ('s \<Rightarrow> 'd \<Rightarrow> bool) \<Rightarrow> 's \<Rightarrow> 'd list \<Rightarrow> bool" where
  "run_ok step ok s [] = True"
| "run_ok step ok s (d # ds) = (ok s d \<and> run_ok step ok (step s d) ds)"

lemma run_ok_append [simp]:
  "run_ok step ok s (ds @ ds') \<longleftrightarrow> run_ok step ok s ds \<and> run_ok step ok (foldl step s ds) ds'"
  by (induction ds arbitrary: s) auto

lemma run_ok_always [simp]: "run_ok step (\<lambda>s d. True) s ds"
  by (induction ds arbitrary: s) auto

lemma run_ok_all: "list_all P ds \<Longrightarrow> (\<And>s d. P d \<Longrightarrow> ok s d) \<Longrightarrow> run_ok step ok s ds"
  by (induction ds arbitrary: s) auto

locale invariant =
  fixes init :: 's
    and step :: "'s \<Rightarrow> 'd \<Rightarrow> 's"
    and ok :: "'s \<Rightarrow> 'd \<Rightarrow> bool"
    and inv :: "'s \<Rightarrow> bool"
  assumes init_inv: "inv init"
    and step_inv: "inv s \<Longrightarrow> ok s d \<Longrightarrow> inv (step s d)"
begin

lemma run_inv_from: "inv s \<Longrightarrow> run_ok step ok s ds \<Longrightarrow> inv (foldl step s ds)"
  by (induction ds arbitrary: s) (simp_all add: step_inv)

lemma run_inv: "run_ok step ok init ds \<Longrightarrow> inv (foldl step init ds)"
  by (rule run_inv_from [OF init_inv])

end

locale maintained = invariant init step ok inv
  for init :: 's and step :: "'s \<Rightarrow> 'd \<Rightarrow> 's" and ok :: "'s \<Rightarrow> 'd \<Rightarrow> bool" and inv :: "'s \<Rightarrow> bool" +
  fixes answer :: "'s \<Rightarrow> 'a"
    and reference :: "'s \<Rightarrow> 'a"
  assumes inv_answer: "inv s \<Longrightarrow> answer s = reference s"
begin

lemma run_answer: "run_ok step ok init ds \<Longrightarrow> answer (foldl step init ds) = reference (foldl step init ds)"
  by (intro inv_answer run_inv)

end

end
