(* ===== verification/Storage.thy ===== *)
theory Storage
  imports Events Runs
begin

text \<open>
  The filters of \<open>packages/core/src/query.ts\<close>, the filter type of \<open>interfaces.ts\<close>, and the
  in-memory event storage of \<open>packages/core/src/store.ts\<close> with its four indexes and its cache of the
  deleted ids. \<open>query\<close> prunes with the indexes and hides deleted events; the lemmas compare it with a
  plain scan of the stored events.

  A filter's \<open>#\<close>-keys are an association list. \<open>localeCompare\<close> on two event ids is the order of
  their code units: ids are lowercase hexadecimal, where every collation puts digits before letters.
\<close>

section \<open>Filters\<close>

record event_filter =
  ef_ids :: "jsstr list option"
  ef_authors :: "jsstr list option"
  ef_kinds :: "int list option"
  ef_since :: "int option"
  ef_until :: "int option"
  ef_limit :: "int option"
  ef_search :: "jsstr option"
  ef_tags :: "jsstr list dict"

definition no_filter :: event_filter where
  "no_filter = \<lparr>ef_ids = None, ef_authors = None, ef_kinds = None, ef_since = None, ef_until = None,
     ef_limit = None, ef_search = None, ef_tags = []\<rparr>"

text \<open>\<open>field === undefined || p(field)\<close>\<close>

definition if_given :: "'a option \<Rightarrow> ('a \<Rightarrow> bool) \<Rightarrow> bool" where
  "if_given field p = (case field of None \<Rightarrow> True | Some v \<Rightarrow> p v)"

definition matchesFilter :: "nostr_event \<Rightarrow> event_filter \<Rightarrow> bool" where
  "matchesFilter event flt =
     (if_given (ef_ids flt) (\<lambda>ids. ev_id event \<in> set ids)
      \<and> if_given (ef_authors flt) (\<lambda>pks. ev_pubkey event \<in> set pks)
      \<and> if_given (ef_kinds flt) (\<lambda>ks. ev_kind event \<in> set ks)
      \<and> if_given (ef_since flt) (\<lambda>t. \<not> ev_created_at event < t)
      \<and> if_given (ef_until flt) (\<lambda>t. \<not> ev_created_at event > t)
      \<and> list_all (\<lambda>(key, values). starts_with key (js ''#'') \<longrightarrow>
           list_ex (\<lambda>v. v \<in> set values) (tagValues event (drop 1 key))) (ef_tags flt))"

subsection \<open>The builders of query.ts\<close>

definition hash_t :: jsstr where "hash_t = js ''#t''"
definition hash_i :: jsstr where "hash_i = js ''#i''"
definition hash_e :: jsstr where "hash_e = js ''#e''"

definition indexerFilter :: "jsstr list \<Rightarrow> event_filter" where
  "indexerFilter values =
     no_filter\<lparr>ef_kinds := Some [SCRUTINY_KIND], ef_tags := [(hash_t, [FABRIC_TAG]), (hash_i, values)]\<rparr>"

definition searchFilter :: "jsstr \<Rightarrow> event_filter" where
  "searchFilter query =
     no_filter\<lparr>ef_kinds := Some [SCRUTINY_KIND], ef_tags := [(hash_t, [FABRIC_TAG])], ef_search := Some query\<rparr>"

definition fullScanFilter :: "sc_type list option \<Rightarrow> event_filter" where
  "fullScanFilter types =
     (let selected = (case types of Some (t # ts) \<Rightarrow> t # ts | _ \<Rightarrow> [Product, Metadata])
      in no_filter\<lparr>ef_kinds := Some [SCRUTINY_KIND], ef_tags := [(hash_t, map EVENT_TYPE_TAGS selected)]\<rparr>)"

definition bindingsReferencing :: "jsstr \<Rightarrow> event_filter" where
  "bindingsReferencing eventId =
     no_filter\<lparr>ef_kinds := Some [SCRUTINY_KIND],
       ef_tags := [(hash_t, [EVENT_TYPE_TAGS Binding]), (hash_e, [eventId])]\<rparr>"

definition patchesReferencing :: "jsstr \<Rightarrow> event_filter" where
  "patchesReferencing eventId =
     no_filter\<lparr>ef_kinds := Some [SCRUTINY_KIND],
       ef_tags := [(hash_t, [EVENT_TYPE_TAGS Patch]), (hash_e, [eventId])]\<rparr>"

definition deletionsFor :: "jsstr \<Rightarrow> event_filter" where
  "deletionsFor eventId = no_filter\<lparr>ef_kinds := Some [DELETION_KIND], ef_tags := [(hash_e, [eventId])]\<rparr>"

definition eventsById :: "jsstr list \<Rightarrow> event_filter" where
  "eventsById ids = no_filter\<lparr>ef_ids := Some ids\<rparr>"

record role_match =
  rm_event :: nostr_event
  rm_marker :: jsstr

definition role_of :: "jsstr \<Rightarrow> nostr_event \<Rightarrow> role_match list" where
  "role_of anchorId event =
     (case find (\<lambda>tag. er_id tag = anchorId \<and> er_marker tag \<noteq> None) (eTags event) of
        None \<Rightarrow> []
      | Some tag \<Rightarrow> (case er_marker tag of None \<Rightarrow> [] | Some m \<Rightarrow> [\<lparr>rm_event = event, rm_marker = m\<rparr>]))"

definition classifyByRole :: "nostr_event list \<Rightarrow> jsstr \<Rightarrow> sc_type \<Rightarrow> role_match list" where
  "classifyByRole events anchorId expectedType =
     concat (map (\<lambda>event. if scrutinyEventType event \<noteq> Some expectedType then []
                          else role_of anchorId event) events)"

section \<open>The in-memory storage\<close>

type_synonym 'k index = "('k \<times> jsstr list) list"

record event_storage =
  st_byId :: "nostr_event dict"
  st_kindIdx :: "int index"
  st_typeTagIdx :: "jsstr index"
  st_iTagIdx :: "jsstr index"
  st_eTagIdx :: "jsstr index"
  st_deletedCache :: "jsstr list option"

definition createInMemoryEventStorage :: event_storage where
  "createInMemoryEventStorage =
     \<lparr>st_byId = [], st_kindIdx = [], st_typeTagIdx = [], st_iTagIdx = [], st_eTagIdx = [],
      st_deletedCache = None\<rparr>"

text \<open>\<open>Object.values(EVENT_TYPE_TAGS)\<close> lists the types in the order of their declaration.\<close>

instantiation sc_type :: enum
begin

definition enum_sc_type :: "sc_type list" where
  "enum_sc_type = [Product, Metadata, Binding, Patch]"

definition enum_all_sc_type :: "(sc_type \<Rightarrow> bool) \<Rightarrow> bool" where
  "enum_all_sc_type P = list_all P [Product, Metadata, Binding, Patch]"

definition enum_ex_sc_type :: "(sc_type \<Rightarrow> bool) \<Rightarrow> bool" where
  "enum_ex_sc_type P = list_ex P [Product, Metadata, Binding, Patch]"

instance
proof
  have all: "UNIV = set [Product, Metadata, Binding, Patch]"
    using sc_type.exhaust by auto
  then show "UNIV = set (enum_class.enum :: sc_type list)"
    by (simp add: enum_sc_type_def)
  show "distinct (enum_class.enum :: sc_type list)"
    by (simp add: enum_sc_type_def)
  fix P :: "sc_type \<Rightarrow> bool"
  show "enum_class.enum_all P = Ball UNIV P"
    unfolding all by (simp add: enum_all_sc_type_def)
  show "enum_class.enum_ex P = Bex UNIV P"
    unfolding all by (simp add: enum_ex_sc_type_def)
qed

end

definition TYPE_TAG_VALUES :: "jsstr list" where
  "TYPE_TAG_VALUES = map EVENT_TYPE_TAGS enum_class.enum"

definition idxAdd :: "'k \<Rightarrow> jsstr \<Rightarrow> 'k index \<Rightarrow> 'k index" where
  "idxAdd key i idx = (case dget idx key of None \<Rightarrow> dset key [i] idx | Some s \<Rightarrow> dset key (sadd i s) idx)"

definition idxDrop :: "'k \<Rightarrow> jsstr \<Rightarrow> 'k index \<Rightarrow> 'k index" where
  "idxDrop key i idx =
     (case dget idx key of
        None \<Rightarrow> idx
      | Some s \<Rightarrow> (let s' = sdel i s in if s' = [] then ddel key idx else dset key s' idx))"

text \<open>The keys of an event in each index.\<close>

definition type_tags_of :: "nostr_event \<Rightarrow> jsstr list" where
  "type_tags_of event = filter (\<lambda>t. t \<in> set TYPE_TAG_VALUES) (tagValues event (js ''t''))"

definition indexEvent :: "nostr_event \<Rightarrow> event_storage \<Rightarrow> event_storage" where
  "indexEvent event st = st\<lparr>
     st_kindIdx := idxAdd (ev_kind event) (ev_id event) (st_kindIdx st),
     st_typeTagIdx := fold (\<lambda>t. idxAdd t (ev_id event)) (type_tags_of event) (st_typeTagIdx st),
     st_iTagIdx := fold (\<lambda>v. idxAdd v (ev_id event)) (tagValues event (js ''i'')) (st_iTagIdx st),
     st_eTagIdx := fold (\<lambda>ref. idxAdd (er_id ref) (ev_id event)) (eTags event) (st_eTagIdx st)\<rparr>"

definition unindexEvent :: "nostr_event \<Rightarrow> event_storage \<Rightarrow> event_storage" where
  "unindexEvent event st = st\<lparr>
     st_kindIdx := idxDrop (ev_kind event) (ev_id event) (st_kindIdx st),
     st_typeTagIdx := fold (\<lambda>t. idxDrop t (ev_id event)) (type_tags_of event) (st_typeTagIdx st),
     st_iTagIdx := fold (\<lambda>v. idxDrop v (ev_id event)) (tagValues event (js ''i'')) (st_iTagIdx st),
     st_eTagIdx := fold (\<lambda>ref. idxDrop (er_id ref) (ev_id event)) (eTags event) (st_eTagIdx st)\<rparr>"

definition idx_get :: "'k index \<Rightarrow> 'k \<Rightarrow> jsstr list" where
  "idx_get idx key = (case dget idx key of None \<Rightarrow> [] | Some s \<Rightarrow> s)"

subsection \<open>Deleted ids\<close>

definition honoured_ref :: "nostr_event dict \<Rightarrow> nostr_event \<Rightarrow> e_tag_ref \<Rightarrow> bool" where
  "honoured_ref byId event ref =
     (case dget byId (er_id ref) of
        None \<Rightarrow> False
      | Some target \<Rightarrow> ev_kind target \<noteq> DELETION_KIND \<and> ev_pubkey target = ev_pubkey event)"

definition honouredlyDeletedIds :: "nostr_event dict \<Rightarrow> jsstr list" where
  "honouredlyDeletedIds byId =
     fold (\<lambda>event deleted.
         if ev_kind event \<noteq> DELETION_KIND then deleted
         else fold (\<lambda>ref deleted. if honoured_ref byId event ref then sadd (er_id ref) deleted else deleted)
                (eTags event) deleted)
       (dvalues byId) []"

subsection \<open>put\<close>

definition flips_deletion :: "event_storage \<Rightarrow> nostr_event \<Rightarrow> bool" where
  "flips_deletion st e =
     list_ex (\<lambda>referrerId. case dget (st_byId st) referrerId of
           None \<Rightarrow> False
         | Some d \<Rightarrow> ev_kind d = DELETION_KIND \<and> ev_pubkey d = ev_pubkey e)
       (idx_get (st_eTagIdx st) (ev_id e))"

definition put_one :: "nostr_event \<Rightarrow> event_storage \<Rightarrow> event_storage" where
  "put_one e st =
     (let st1 = (case dget (st_byId st) (ev_id e) of
             Some old \<Rightarrow> (unindexEvent old st)\<lparr>st_deletedCache := None\<rparr>
           | None \<Rightarrow>
               if ev_kind e = DELETION_KIND \<or> flips_deletion st e then st\<lparr>st_deletedCache := None\<rparr>
               else st)
      in indexEvent e (st1\<lparr>st_byId := dset (ev_id e) e (st_byId st1)\<rparr>))"

definition put :: "nostr_event list \<Rightarrow> event_storage \<Rightarrow> event_storage" where
  "put events st = fold put_one events st"

subsection \<open>query and get\<close>

definition bucket_of :: "'k index \<Rightarrow> 'k list \<Rightarrow> jsstr list" where
  "bucket_of idx values = fold (\<lambda>v s. fold sadd (idx_get idx v) s) values []"

definition tagBucket :: "event_filter \<Rightarrow> jsstr \<Rightarrow> jsstr index \<Rightarrow> bool \<Rightarrow> jsstr list list" where
  "tagBucket flt key idx discriminating =
     (case dget (ef_tags flt) key of
        None \<Rightarrow> []
      | Some values \<Rightarrow>
          if discriminating \<and> (values = [] \<or> \<not> list_all (\<lambda>v. v \<in> set TYPE_TAG_VALUES) values) then []
          else [bucket_of idx values])"

definition intersect :: "jsstr list \<Rightarrow> jsstr list \<Rightarrow> jsstr list" where
  "intersect nxt result =
     (let (small, big) = (if length nxt < length result then (nxt, result) else (result, nxt))
      in fold (\<lambda>i pruned. if i \<in> set big then sadd i pruned else pruned) small [])"

definition candidateIds :: "event_storage \<Rightarrow> event_filter \<Rightarrow> jsstr list option" where
  "candidateIds st flt =
     (let buckets =
          (case ef_ids flt of None \<Rightarrow> [] | Some ids \<Rightarrow> [fold sadd ids []])
          @ (case ef_kinds flt of None \<Rightarrow> [] | Some ks \<Rightarrow> [bucket_of (st_kindIdx st) ks])
          @ tagBucket flt hash_t (st_typeTagIdx st) True
          @ tagBucket flt hash_i (st_iTagIdx st) False
          @ tagBucket flt hash_e (st_eTagIdx st) False
      in case buckets of [] \<Rightarrow> None | b # bs \<Rightarrow> Some (fold intersect bs b))"

text \<open>\<open>slice(0, n)\<close>: a negative end counts from the end of the array.\<close>

definition slice0 :: "int \<Rightarrow> 'a list \<Rightarrow> 'a list" where
  "slice0 n xs = (if 0 \<le> n then take (nat n) xs else take (length xs - nat (- n)) xs)"

definition limited :: "event_filter \<Rightarrow> nostr_event list \<Rightarrow> nostr_event list" where
  "limited flt events =
     (case ef_limit flt of
        None \<Rightarrow> events
      | Some n \<Rightarrow> slice0 n (sort_key (\<lambda>e. (- ev_created_at e, ev_id e)) events))"

text \<open>The events of one filter, and their union keyed by id.\<close>

definition filter_events ::
    "event_storage \<Rightarrow> (nostr_event \<Rightarrow> bool) \<Rightarrow> event_filter \<Rightarrow> nostr_event list" where
  "filter_events st visible f =
     (let pruned = candidateIds st f
      in limited f (filter (\<lambda>e. if_given pruned (\<lambda>s. ev_id e \<in> set s) \<and> visible e \<and> matchesFilter e f)
           (dvalues (st_byId st))))"

definition merge_matched :: "nostr_event list list \<Rightarrow> nostr_event list" where
  "merge_matched results = dvalues (fold (\<lambda>e m. dset (ev_id e) e m) (concat results) [])"

definition visible_in :: "bool \<Rightarrow> jsstr list option \<Rightarrow> nostr_event \<Rightarrow> bool" where
  "visible_in includeDeleted deletedIds e \<longleftrightarrow>
     includeDeleted \<or> \<not> (case deletedIds of None \<Rightarrow> False | Some ids \<Rightarrow> ev_id e \<in> set ids)"

definition fill_cache :: "bool \<Rightarrow> event_storage \<Rightarrow> event_storage" where
  "fill_cache includeDeleted st =
     (if \<not> includeDeleted \<and> st_deletedCache st = None
      then st\<lparr>st_deletedCache := Some (honouredlyDeletedIds (st_byId st))\<rparr> else st)"

definition query ::
    "event_filter list \<Rightarrow> bool \<Rightarrow> event_storage \<Rightarrow> nostr_event list \<times> event_storage" where
  "query filters includeDeleted st =
     (let st' = fill_cache includeDeleted st;
          visible = visible_in includeDeleted (if includeDeleted then None else st_deletedCache st')
      in (if filters = [] then filter visible (dvalues (st_byId st'))
          else merge_matched (map (filter_events st' visible) filters), st'))"

definition get_one :: "event_storage \<Rightarrow> jsstr \<Rightarrow> nostr_event dict \<Rightarrow> nostr_event dict" where
  "get_one st i out = (case dget (st_byId st) i of None \<Rightarrow> out | Some e \<Rightarrow> dset i e out)"

definition get :: "jsstr list \<Rightarrow> event_storage \<Rightarrow> nostr_event dict" where
  "get ids st = fold (get_one st) ids []"

section \<open>The indexes are exact\<close>

named_theorems index_simps "what an index holds after an update"

lemma idx_get_add [index_simps]:
  "set (idx_get (idxAdd key i idx) k) = (if k = key then insert i (set (idx_get idx k)) else set (idx_get idx k))"
  by (auto simp: idx_get_def idxAdd_def split: option.splits)

lemma idx_get_drop [index_simps]:
  "set (idx_get (idxDrop key i idx) k) = (if k = key then set (idx_get idx k) - {i} else set (idx_get idx k))"
proof (cases "dget idx key")
  case (Some s)
  show ?thesis
  proof (cases "sdel i s = []")
    case True
    then have "set s - {i} = {}"
      by (metis set_sdel set_empty)
    with True Some show ?thesis
      by (simp add: idx_get_def idxDrop_def)
  next
    case False
    with Some show ?thesis
      by (auto simp: idx_get_def idxDrop_def)
  qed
qed (simp add: idx_get_def idxDrop_def)

lemma idx_get_adds [index_simps]:
  "set (idx_get (fold (\<lambda>key. idxAdd key i) keys idx) k) =
     (if k \<in> set keys then insert i (set (idx_get idx k)) else set (idx_get idx k))"
  by (induction keys arbitrary: idx) (auto simp: index_simps)

lemma idx_get_drops [index_simps]:
  "set (idx_get (fold (\<lambda>key. idxDrop key i) keys idx) k) =
     (if k \<in> set keys then set (idx_get idx k) - {i} else set (idx_get idx k))"
  by (induction keys arbitrary: idx) (auto simp: index_simps)

definition indexed :: "(nostr_event \<Rightarrow> 'k list) \<Rightarrow> nostr_event dict \<Rightarrow> 'k index \<Rightarrow> bool" where
  "indexed keys byId idx \<longleftrightarrow>
     (\<forall>k i. i \<in> set (idx_get idx k) \<longleftrightarrow> (\<exists>e. dget byId i = Some e \<and> k \<in> set (keys e)))"

lemma indexed_Nil: "indexed keys [] []"
  by (simp add: indexed_def idx_get_def)

lemma indexed_insert:
  assumes "indexed keys byId idx" "dget byId i = None" "ev_id e = i"
  shows "indexed keys (dset i e byId) (fold (\<lambda>k. idxAdd k i) (keys e) idx)"
  using assms unfolding indexed_def by (auto simp: index_simps)

lemma indexed_replace:
  assumes "indexed keys byId idx" "dget byId i = Some old"
  shows "indexed keys (dset i e byId)
    (fold (\<lambda>k. idxAdd k i) (keys e) (fold (\<lambda>k. idxDrop k i) (keys old) idx))"
  using assms unfolding indexed_def by (auto simp: index_simps)

definition all_indexed :: "event_storage \<Rightarrow> bool" where
  "all_indexed st \<longleftrightarrow>
     indexed (\<lambda>e. [ev_kind e]) (st_byId st) (st_kindIdx st)
     \<and> indexed type_tags_of (st_byId st) (st_typeTagIdx st)
     \<and> indexed (\<lambda>e. tagValues e (js ''i'')) (st_byId st) (st_iTagIdx st)
     \<and> indexed (\<lambda>e. map er_id (eTags e)) (st_byId st) (st_eTagIdx st)"

lemma indexEvent_folds:
  "indexEvent e st = st\<lparr>
     st_kindIdx := fold (\<lambda>k. idxAdd k (ev_id e)) [ev_kind e] (st_kindIdx st),
     st_typeTagIdx := fold (\<lambda>k. idxAdd k (ev_id e)) (type_tags_of e) (st_typeTagIdx st),
     st_iTagIdx := fold (\<lambda>k. idxAdd k (ev_id e)) (tagValues e (js ''i'')) (st_iTagIdx st),
     st_eTagIdx := fold (\<lambda>k. idxAdd k (ev_id e)) (map er_id (eTags e)) (st_eTagIdx st)\<rparr>"
  by (simp add: indexEvent_def fold_map comp_def)

lemma unindexEvent_folds:
  "unindexEvent e st = st\<lparr>
     st_kindIdx := fold (\<lambda>k. idxDrop k (ev_id e)) [ev_kind e] (st_kindIdx st),
     st_typeTagIdx := fold (\<lambda>k. idxDrop k (ev_id e)) (type_tags_of e) (st_typeTagIdx st),
     st_iTagIdx := fold (\<lambda>k. idxDrop k (ev_id e)) (tagValues e (js ''i'')) (st_iTagIdx st),
     st_eTagIdx := fold (\<lambda>k. idxDrop k (ev_id e)) (map er_id (eTags e)) (st_eTagIdx st)\<rparr>"
  by (simp add: unindexEvent_def fold_map comp_def)

section \<open>The cache of deleted ids\<close>

definition deleted_by :: "nostr_event dict \<Rightarrow> jsstr \<Rightarrow> bool" where
  "deleted_by byId i \<longleftrightarrow>
     (\<exists>d j t. dget byId j = Some d \<and> ev_kind d = DELETION_KIND \<and> i \<in> er_id ` set (eTags d)
        \<and> dget byId i = Some t \<and> ev_kind t \<noteq> DELETION_KIND \<and> ev_pubkey t = ev_pubkey d)"

lemma honoured_refs_set:
  "set (fold (\<lambda>ref deleted. if honoured_ref byId d ref then sadd (er_id ref) deleted else deleted) refs s) =
     set s \<union> {er_id ref |ref. ref \<in> set refs \<and> honoured_ref byId d ref}"
  by (induction refs arbitrary: s) auto

lemma set_honouredlyDeletedIds:
  assumes "distinct (dkeys byId)"
  shows "i \<in> set (honouredlyDeletedIds byId) \<longleftrightarrow> deleted_by byId i"
proof -
  have "set (fold (\<lambda>event deleted. if ev_kind event \<noteq> DELETION_KIND then deleted
         else fold (\<lambda>ref deleted. if honoured_ref byId event ref then sadd (er_id ref) deleted else deleted)
                (eTags event) deleted) ds s) =
      set s \<union> {er_id ref |d ref. d \<in> set ds \<and> ev_kind d = DELETION_KIND \<and> ref \<in> set (eTags d)
        \<and> honoured_ref byId d ref}" for ds s
    by (induction ds arbitrary: s) (auto simp: honoured_refs_set)
  then have "i \<in> set (honouredlyDeletedIds byId) \<longleftrightarrow>
      (\<exists>d ref. d \<in> set (dvalues byId) \<and> ev_kind d = DELETION_KIND \<and> ref \<in> set (eTags d) \<and> er_id ref = i
        \<and> honoured_ref byId d ref)"
    unfolding honouredlyDeletedIds_def by auto
  also have "\<dots> \<longleftrightarrow> deleted_by byId i"
  proof -
    have v: "d \<in> set (dvalues byId) \<longleftrightarrow> (\<exists>j. dget byId j = Some d)" for d
      using map_of_eq_Some_iff [OF assms] by (auto intro: rev_image_eqI)
    have h: "honoured_ref byId d ref \<longleftrightarrow> (\<exists>t. dget byId (er_id ref) = Some t
        \<and> ev_kind t \<noteq> DELETION_KIND \<and> ev_pubkey t = ev_pubkey d)" for d ref
      by (simp add: honoured_ref_def split: option.splits)
    show ?thesis
      unfolding deleted_by_def image_iff v h by blast
  qed
  finally show ?thesis .
qed

lemma deleted_by_iff:
  "deleted_by byId i \<longleftrightarrow>
     (\<exists>d t. (\<exists>j. dget byId j = Some d \<and> ev_kind d = DELETION_KIND) \<and> i \<in> er_id ` set (eTags d)
        \<and> dget byId i = Some t \<and> ev_kind t \<noteq> DELETION_KIND \<and> ev_pubkey t = ev_pubkey d)"
  unfolding deleted_by_def by blast

lemma deleted_by_insert:
  assumes new: "dget byId (ev_id e) = None" and e: "ev_kind e \<noteq> DELETION_KIND"
    and no: "\<And>j d. dget byId j = Some d \<Longrightarrow> ev_id e \<in> er_id ` set (eTags d) \<Longrightarrow>
      \<not> (ev_kind d = DELETION_KIND \<and> ev_pubkey d = ev_pubkey e)"
  shows "deleted_by (dset (ev_id e) e byId) i \<longleftrightarrow> deleted_by byId i"
proof (cases "i = ev_id e")
  case True
  have "\<not> deleted_by (dset (ev_id e) e byId) i"
  proof
    assume "deleted_by (dset (ev_id e) e byId) i"
    then obtain d j where d: "dget (dset (ev_id e) e byId) j = Some d" "ev_kind d = DELETION_KIND"
        "ev_id e \<in> er_id ` set (eTags d)" "ev_pubkey e = ev_pubkey d"
      unfolding deleted_by_def True by auto
    then have "dget byId j = Some d"
      using e by (auto split: if_splits)
    from no [OF this d(3)] d(2,4) show False by simp
  qed
  moreover have "\<not> deleted_by byId i"
    using new by (simp add: deleted_by_def True)
  ultimately show ?thesis by simp
next
  case False
  have t: "dget (dset (ev_id e) e byId) i = dget byId i"
    using False by simp
  have d: "(\<exists>j. dget (dset (ev_id e) e byId) j = Some d \<and> ev_kind d = DELETION_KIND) \<longleftrightarrow>
      (\<exists>j. dget byId j = Some d \<and> ev_kind d = DELETION_KIND)" for d
    using new e unfolding dget_dset by (metis option.distinct(1) option.inject)
  show ?thesis
    unfolding deleted_by_iff d t ..
qed

definition storage_inv :: "event_storage \<Rightarrow> bool" where
  "storage_inv st \<longleftrightarrow> distinct (dkeys (st_byId st)) \<and> (\<forall>i e. dget (st_byId st) i = Some e \<longrightarrow> ev_id e = i)
     \<and> all_indexed st
     \<and> (case st_deletedCache st of None \<Rightarrow> True
        | Some d \<Rightarrow> \<forall>i. i \<in> set d \<longleftrightarrow> deleted_by (st_byId st) i)"

lemma storage_inv_init: "storage_inv createInMemoryEventStorage"
  by (simp add: storage_inv_def createInMemoryEventStorage_def all_indexed_def indexed_Nil)

lemma put_one_byId [simp]: "st_byId (put_one e st) = dset (ev_id e) e (st_byId st)"
  by (simp add: put_one_def Let_def indexEvent_def unindexEvent_def split: option.splits)

lemma put_one_inv:
  assumes "storage_inv st"
  shows "storage_inv (put_one e st)"
proof -
  have d: "distinct (dkeys (st_byId st))" and k: "\<And>i e. dget (st_byId st) i = Some e \<Longrightarrow> ev_id e = i"
    and ix: "all_indexed st"
    using assms unfolding storage_inv_def by blast+
  have cache: "\<forall>i. i \<in> set c \<longleftrightarrow> deleted_by (st_byId st) i" if "st_deletedCache st = Some c" for c
    using assms that unfolding storage_inv_def by simp
  have "all_indexed (put_one e st)"
  proof (cases "dget (st_byId st) (ev_id e)")
    case None
    then show ?thesis
      using ix indexed_insert [OF _ None refl, of "\<lambda>e. [ev_kind e]"]
        indexed_insert [OF _ None refl, of type_tags_of]
        indexed_insert [OF _ None refl, of "\<lambda>e. tagValues e (js ''i'')"]
        indexed_insert [OF _ None refl, of "\<lambda>e. map er_id (eTags e)"]
      by (simp add: put_one_def Let_def all_indexed_def indexEvent_folds)
  next
    case (Some old)
    note o = k [OF Some]
    show ?thesis
      using ix indexed_replace [OF _ Some, of "\<lambda>e. [ev_kind e]" _ e]
        indexed_replace [OF _ Some, of type_tags_of _ e]
        indexed_replace [OF _ Some, of "\<lambda>e. tagValues e (js ''i'')" _ e]
        indexed_replace [OF _ Some, of "\<lambda>e. map er_id (eTags e)" _ e]
      by (simp add: put_one_def Some Let_def all_indexed_def indexEvent_folds unindexEvent_folds o)
  qed
  moreover have "case st_deletedCache (put_one e st) of None \<Rightarrow> True
      | Some c \<Rightarrow> \<forall>i. i \<in> set c \<longleftrightarrow> deleted_by (st_byId (put_one e st)) i"
  proof (cases "st_deletedCache (put_one e st)")
    case (Some c)
    then have new: "dget (st_byId st) (ev_id e) = None" and e: "ev_kind e \<noteq> DELETION_KIND"
      and nf: "\<not> flips_deletion st e" and c: "st_deletedCache st = Some c"
      by (auto simp: put_one_def Let_def indexEvent_def unindexEvent_def split: option.splits if_splits)
    have "\<not> (ev_kind d = DELETION_KIND \<and> ev_pubkey d = ev_pubkey e)"
      if "dget (st_byId st) j = Some d" "ev_id e \<in> er_id ` set (eTags d)" for j d
    proof -
      have "j \<in> set (idx_get (st_eTagIdx st) (ev_id e))"
        using ix that unfolding all_indexed_def indexed_def by auto
      with nf that(1) show ?thesis
        by (auto simp: flips_deletion_def list_ex_iff dest: bspec)
    qed
    from deleted_by_insert [OF new e this] cache [OF c] Some show ?thesis
      by simp
  qed simp
  ultimately show ?thesis
    using d k unfolding storage_inv_def by simp
qed

section \<open>A query is a scan\<close>

lemma set_bucket_of: "set (bucket_of idx values) = (\<Union>v \<in> set values. set (idx_get idx v))"
proof -
  have "set (fold (\<lambda>v s. fold sadd (idx_get idx v) s) vs s) = set s \<union> (\<Union>v \<in> set vs. set (idx_get idx v))" for vs s
    by (induction vs arbitrary: s) auto
  then show ?thesis
    by (simp add: bucket_of_def)
qed

lemma set_intersect: "set (intersect nxt result) = set nxt \<inter> set result"
proof -
  have "set (fold (\<lambda>i pruned. if i \<in> set big then sadd i pruned else pruned) small s) =
      set s \<union> (set small \<inter> set big)" for big small s :: "jsstr list"
    by (induction small arbitrary: s) auto
  then show ?thesis
    by (auto simp: intersect_def Let_def)
qed

lemma in_intersections: "list_all (\<lambda>s. i \<in> set s) (b # bs) \<Longrightarrow> i \<in> set (fold intersect bs b)"
  by (induction bs arbitrary: b) (auto simp: set_intersect)

lemma in_tagBucket:
  assumes ix: "indexed keys byId idx" and e: "dget byId (ev_id e) = Some e"
    and key: "starts_with key (js ''#'')"
    and v: "\<And>v. v \<in> set (tagValues e (drop 1 key)) \<Longrightarrow> (d \<longrightarrow> v \<in> set TYPE_TAG_VALUES) \<Longrightarrow> v \<in> set (keys e)"
    and m: "matchesFilter e f"
  shows "list_all (\<lambda>s. ev_id e \<in> set s) (tagBucket f key idx d)"
proof (cases "dget (ef_tags f) key")
  case None
  then show ?thesis by (simp add: tagBucket_def)
next
  case (Some vs)
  then have "(key, vs) \<in> set (ef_tags f)"
    by (rule map_of_SomeD)
  with m key obtain u where u: "u \<in> set vs" "u \<in> set (tagValues e (drop 1 key))"
    by (auto simp: matchesFilter_def list_all_iff list_ex_iff)
  show ?thesis
  proof (cases "d \<and> (vs = [] \<or> \<not> list_all (\<lambda>v. v \<in> set TYPE_TAG_VALUES) vs)")
    case True
    with Some show ?thesis by (simp add: tagBucket_def)
  next
    case False
    with u have "u \<in> set (keys e)"
      by (intro v) (auto simp: list_all_iff)
    with ix e have "ev_id e \<in> set (idx_get idx u)"
      unfolding indexed_def by blast
    with u(1) have "ev_id e \<in> set (bucket_of idx vs)"
      by (auto simp: set_bucket_of)
    moreover have "tagBucket f key idx d = [bucket_of idx vs]"
      using False Some unfolding tagBucket_def by simp
    ultimately show ?thesis by simp
  qed
qed

lemma drop_js: "drop n (js s) = js (drop n s)"
  by (simp add: js_def drop_map)

lemma hash_keys:
  "starts_with hash_t (js ''#'')" "drop 1 hash_t = js ''t''"
  "starts_with hash_i (js ''#'')" "drop 1 hash_i = js ''i''"
  "starts_with hash_e (js ''#'')" "drop 1 hash_e = js ''e''"
  by (simp_all add: hash_t_def hash_i_def hash_e_def starts_with_def js_def)

lemma candidates_complete:
  assumes "storage_inv st" "e \<in> set (dvalues (st_byId st))" "matchesFilter e f"
  shows "if_given (candidateIds st f) (\<lambda>s. ev_id e \<in> set s)"
proof -
  have ix: "all_indexed st" and e: "dget (st_byId st) (ev_id e) = Some e"
    using assms(1,2) unfolding storage_inv_def by force+
  have ids: "list_all (\<lambda>s. ev_id e \<in> set s) (case ef_ids f of None \<Rightarrow> [] | Some ids \<Rightarrow> [fold sadd ids []])"
    using assms(3) by (simp add: matchesFilter_def if_given_def split: option.splits)
  have kinds: "list_all (\<lambda>s. ev_id e \<in> set s)
      (case ef_kinds f of None \<Rightarrow> [] | Some ks \<Rightarrow> [bucket_of (st_kindIdx st) ks])"
  proof (cases "ef_kinds f")
    case (Some ks)
    then have k: "ev_kind e \<in> set ks"
      using assms(3) by (simp add: matchesFilter_def if_given_def)
    have "ev_id e \<in> set (idx_get (st_kindIdx st) (ev_kind e))"
      using ix e unfolding all_indexed_def indexed_def by auto
    with k Some show ?thesis
      by (auto simp: set_bucket_of)
  qed simp
  have t: "list_all (\<lambda>s. ev_id e \<in> set s) (tagBucket f hash_t (st_typeTagIdx st) True)"
    using ix unfolding all_indexed_def
    by (intro in_tagBucket [OF _ e _ _ assms(3), of type_tags_of]) (auto simp: hash_keys [simplified] type_tags_of_def)
  have i: "list_all (\<lambda>s. ev_id e \<in> set s) (tagBucket f hash_i (st_iTagIdx st) False)"
    using ix unfolding all_indexed_def
    by (intro in_tagBucket [OF _ e _ _ assms(3), of "\<lambda>e. tagValues e (js ''i'')"]) (auto simp: hash_keys [simplified])
  have r: "list_all (\<lambda>s. ev_id e \<in> set s) (tagBucket f hash_e (st_eTagIdx st) False)"
    using ix unfolding all_indexed_def
    by (intro in_tagBucket [OF _ e _ _ assms(3), of "\<lambda>e. map er_id (eTags e)"]) (auto simp: hash_keys [simplified] eTags_id_set)
  show ?thesis
  proof -
    define bs where "bs = (case ef_ids f of None \<Rightarrow> [] | Some ids \<Rightarrow> [fold sadd ids []])
        @ (case ef_kinds f of None \<Rightarrow> [] | Some ks \<Rightarrow> [bucket_of (st_kindIdx st) ks])
        @ tagBucket f hash_t (st_typeTagIdx st) True
        @ tagBucket f hash_i (st_iTagIdx st) False
        @ tagBucket f hash_e (st_eTagIdx st) False"
    have "list_all (\<lambda>s. ev_id e \<in> set s) bs"
      unfolding bs_def list_all_append using ids kinds t i r by blast
    moreover have "candidateIds st f = (case bs of [] \<Rightarrow> None | b # bs \<Rightarrow> Some (fold intersect bs b))"
      by (simp add: candidateIds_def bs_def)
    ultimately show ?thesis
      using in_intersections by (cases bs) (auto simp: if_given_def)
  qed
qed

text \<open>The reference: no index, no cache.\<close>

definition scan :: "event_filter list \<Rightarrow> bool \<Rightarrow> nostr_event dict \<Rightarrow> nostr_event list" where
  "scan filters includeDeleted byId =
     (let visible = (\<lambda>e. includeDeleted \<or> ev_id e \<notin> set (honouredlyDeletedIds byId))
      in if filters = [] then filter visible (dvalues byId)
         else merge_matched (map (\<lambda>f. limited f
                (filter (\<lambda>e. visible e \<and> matchesFilter e f) (dvalues byId))) filters))"

datatype storage_op =
    Op_put "nostr_event list"
  | Op_query "event_filter list" bool

fun storage_step :: "event_storage \<Rightarrow> storage_op \<Rightarrow> event_storage" where
  "storage_step st (Op_put events) = put events st"
| "storage_step st (Op_query filters includeDeleted) = snd (query filters includeDeleted st)"

lemma fill_cache_inv:
  assumes "storage_inv st"
  shows "storage_inv (fill_cache incl st)" "st_byId (fill_cache incl st) = st_byId st"
    and "\<not> incl \<Longrightarrow> \<exists>c. st_deletedCache (fill_cache incl st) = Some c
           \<and> set c = set (honouredlyDeletedIds (st_byId st))"
proof -
  have d: "set (honouredlyDeletedIds (st_byId st)) = {i. deleted_by (st_byId st) i}"
    using assms set_honouredlyDeletedIds [of "st_byId st"] unfolding storage_inv_def by blast
  show "storage_inv (fill_cache incl st)" "st_byId (fill_cache incl st) = st_byId st"
    using assms d by (auto simp: fill_cache_def storage_inv_def all_indexed_def)
  show "\<exists>c. st_deletedCache (fill_cache incl st) = Some c \<and> set c = set (honouredlyDeletedIds (st_byId st))"
    if "\<not> incl"
  proof (cases "st_deletedCache st")
    case None
    with that show ?thesis by (simp add: fill_cache_def)
  next
    case (Some c)
    then have "set c = {i. deleted_by (st_byId st) i}"
      using assms by (auto simp: storage_inv_def)
    with Some d that show ?thesis by (simp add: fill_cache_def)
  qed
qed

lemma storage_step_inv: "storage_inv st \<Longrightarrow> storage_inv (storage_step st op)"
proof (cases op)
  case (Op_put events)
  assume "storage_inv st"
  with Op_put show ?thesis
    by (simp add: put_def fold_keeps [where P = storage_inv] put_one_inv)
qed (simp add: query_def Let_def fill_cache_inv)

lemma query_scan:
  assumes "storage_inv st"
  shows "fst (query filters incl st) = scan filters incl (st_byId st)"
proof -
  let ?st = "fill_cache incl st"
  let ?v = "visible_in incl (if incl then None else st_deletedCache ?st)"
  note fc = fill_cache_inv [OF assms, of incl]
  have v: "?v = (\<lambda>e. incl \<or> ev_id e \<notin> set (honouredlyDeletedIds (st_byId st)))"
    using fc(3) by (cases incl) (auto simp: visible_in_def)
  have pruned: "filter (\<lambda>e. if_given (candidateIds ?st f) (\<lambda>s. ev_id e \<in> set s) \<and> ?v e \<and> matchesFilter e f)
        (dvalues (st_byId ?st)) =
      filter (\<lambda>e. ?v e \<and> matchesFilter e f) (dvalues (st_byId ?st))" for f
    by (rule filter_cong [OF refl]) (use candidates_complete [OF fc(1)] in blast)
  show ?thesis
    unfolding query_def scan_def Let_def filter_events_def fc(2) pruned [unfolded fc(2)] v [symmetric] by simp
qed

interpretation stored: maintained createInMemoryEventStorage storage_step "\<lambda>_ _. True" storage_inv
    "\<lambda>st filters incl. fst (query filters incl st)" "\<lambda>st filters incl. scan filters incl (st_byId st)"
  by unfold_locales (auto simp: storage_inv_init storage_step_inv query_scan)

fun puts :: "storage_op list \<Rightarrow> nostr_event list" where
  "puts [] = []"
| "puts (Op_put events # ops) = events @ puts ops"
| "puts (Op_query filters incl # ops) = puts ops"

definition last_puts :: "nostr_event list \<Rightarrow> nostr_event dict" where
  "last_puts events = fold (\<lambda>e byId. dset (ev_id e) e byId) events []"

lemma storage_run_byId:
  "st_byId (foldl storage_step st ops) = fold (\<lambda>e byId. dset (ev_id e) e byId) (puts ops) (st_byId st)"
proof (induction ops arbitrary: st rule: puts.induct)
  case (2 events ops)
  have "st_byId (put events st) = fold (\<lambda>e byId. dset (ev_id e) e byId) events (st_byId st)" for st
    unfolding put_def by (induction events arbitrary: st) simp_all
  with 2 show ?case by simp
next
  case (3 filters incl ops)
  then show ?case by (simp add: query_def Let_def fill_cache_def)
qed simp

lemma query_run_scan:
  "fst (query filters includeDeleted (foldl storage_step createInMemoryEventStorage ops)) =
     scan filters includeDeleted (last_puts (puts ops))"
proof -
  have "fst (query filters includeDeleted (foldl storage_step createInMemoryEventStorage ops)) =
      scan filters includeDeleted (st_byId (foldl storage_step createInMemoryEventStorage ops))"
    using stored.run_answer [of ops] by (simp add: fun_eq_iff)
  then show ?thesis
    by (simp add: storage_run_byId last_puts_def createInMemoryEventStorage_def)
qed

text \<open>
  C24. The indexed storage is a plain one. Whatever puts and queries came before, a query returns
  exactly what a scan of the stored events returns, in the same order: the four indexes never prune
  a match, and the cached set of deleted ids is never stale. Stored is the last event put for each id.
\<close>

theorem query_is_scan:
  "fst (query filters includeDeleted (foldl storage_step createInMemoryEventStorage ops)) =
     scan filters includeDeleted (last_puts (puts ops))"
  by (rule query_run_scan)

section \<open>What a query returns\<close>

lemma limited_subset: "set (limited f es) \<subseteq> set es"
  by (auto simp: limited_def slice0_def dest: in_set_takeD split: option.splits if_splits)

lemma last_puts_keyed: "distinct (dkeys (last_puts es)) \<and> (\<forall>i e. dget (last_puts es) i = Some e \<longrightarrow> ev_id e = i)"
  unfolding last_puts_def by (rule fold_keeps) auto

lemma merge_matched_set:
  assumes "\<And>a b. a \<in> set (concat rs) \<Longrightarrow> b \<in> set (concat rs) \<Longrightarrow> ev_id a = ev_id b \<Longrightarrow> a = b"
  shows "set (merge_matched rs) = set (concat rs)"
proof -
  have "distinct (dkeys m) \<and> (\<forall>i e. dget m i = Some e \<longleftrightarrow> e \<in> set es \<and> ev_id e = i)"
    if "m = fold (\<lambda>e m. dset (ev_id e) e m) es []" "set es \<subseteq> set (concat rs)" for es m
    using that
  proof (induction es arbitrary: m rule: rev_induct)
    case (snoc e es)
    define m' where "m' = fold (\<lambda>e m. dset (ev_id e) e m) es []"
    have IH: "distinct (dkeys m')" "dget m' i = Some e' \<longleftrightarrow> e' \<in> set es \<and> ev_id e' = i" for i e'
      using snoc.IH [OF m'_def] snoc.prems(2) by simp_all
    have m: "m = dset (ev_id e) e m'"
      by (simp add: snoc.prems(1) m'_def)
    have same: "e' = e" if "e' \<in> set es" "ev_id e' = ev_id e" for e'
      using that snoc.prems(2) by (intro assms) auto
    have "dget m i = Some e' \<longleftrightarrow> e' \<in> set (es @ [e]) \<and> ev_id e' = i" for i e'
    proof (cases "i = ev_id e")
      case True
      then have "dget m i = Some e' \<longleftrightarrow> e' = e"
        by (auto simp: m)
      with same [of e'] True show ?thesis by auto
    next
      case False
      then have "dget m i = Some e' \<longleftrightarrow> e' \<in> set es \<and> ev_id e' = i"
        using IH(2) [of i e'] by (simp add: m)
      with False show ?thesis by auto
    qed
    moreover have "distinct (dkeys m)"
      by (simp add: m IH(1))
    ultimately show ?case by blast
  qed simp
  from this [OF refl, of "concat rs"] show ?thesis
    unfolding merge_matched_def by (auto simp only: dvalues_iff)
qed

text \<open>
  (DEL-1, DEL-4, DEL-6) Without limits, a query returns exactly the stored events that match one of
  its filters, or all of them when there is none, less, unless it includes the deleted, those that a
  stored deletion by their own author names. A deletion is never hidden.
\<close>

theorem query_returns:
  assumes "list_all (\<lambda>f. ef_limit f = None) filters"
  shows "set (fst (query filters includeDeleted (foldl storage_step createInMemoryEventStorage ops))) =
    {e. dget (last_puts (puts ops)) (ev_id e) = Some e
      \<and> (includeDeleted \<or> ev_kind e = DELETION_KIND
         \<or> \<not> list_ex (\<lambda>d. ev_kind d = DELETION_KIND \<and> ev_pubkey d = ev_pubkey e
                  \<and> ev_id e \<in> set (tagValues d (js ''e''))) (dvalues (last_puts (puts ops))))
      \<and> (filters = [] \<or> list_ex (matchesFilter e) filters)}"
proof -
  let ?byId = "last_puts (puts ops)"
  have d: "distinct (dkeys ?byId)" and k: "\<And>i e. dget ?byId i = Some e \<Longrightarrow> ev_id e = i"
    using last_puts_keyed by blast+
  have sv: "e \<in> set (dvalues ?byId) \<longleftrightarrow> dget ?byId (ev_id e) = Some e" for e
  proof -
    show ?thesis
      unfolding dvalues_iff [OF d] using k by metis
  qed
  define visible where "visible = (\<lambda>e :: nostr_event. includeDeleted \<or> ev_id e \<notin> set (honouredlyDeletedIds ?byId))"
  have visible: "visible e \<longleftrightarrow> includeDeleted \<or> ev_kind e = DELETION_KIND
         \<or> \<not> list_ex (\<lambda>d. ev_kind d = DELETION_KIND \<and> ev_pubkey d = ev_pubkey e
                  \<and> ev_id e \<in> set (tagValues d (js ''e''))) (dvalues ?byId)"
    if "dget ?byId (ev_id e) = Some e" for e
  proof -
    have "deleted_by ?byId (ev_id e) \<longleftrightarrow> ev_kind e \<noteq> DELETION_KIND \<and>
        list_ex (\<lambda>d. ev_kind d = DELETION_KIND \<and> ev_pubkey d = ev_pubkey e
                  \<and> ev_id e \<in> set (tagValues d (js ''e''))) (dvalues ?byId)"
    proof -
      have j: "(\<exists>j. dget ?byId j = Some d \<and> ev_kind d = DELETION_KIND) \<longleftrightarrow>
          dget ?byId (ev_id d) = Some d \<and> ev_kind d = DELETION_KIND" for d
        using k by metis
      show ?thesis
        unfolding deleted_by_iff j list_ex_iff Bex_def sv eTags_id_set that by auto
    qed
    then show ?thesis
      unfolding visible_def set_honouredlyDeletedIds [OF d] by blast
  qed
  have "set (scan filters includeDeleted ?byId) =
      {e \<in> set (dvalues ?byId). visible e \<and> (filters = [] \<or> list_ex (matchesFilter e) filters)}"
  proof (cases "filters = []")
    case True
    then show ?thesis by (auto simp: scan_def visible_def)
  next
    case False
    have lim: "limited f es = es" if "f \<in> set filters" for f es
      using assms that by (simp add: limited_def list_all_iff)
    let ?rs = "map (\<lambda>f. limited f (filter (\<lambda>e. visible e \<and> matchesFilter e f) (dvalues ?byId))) filters"
    have rs: "set (concat ?rs) = {e \<in> set (dvalues ?byId). visible e \<and> list_ex (matchesFilter e) filters}"
      using lim by (auto simp: list_ex_iff simp del: set_map) (auto simp: lim)
    have "set (merge_matched ?rs) = set (concat ?rs)"
      by (rule merge_matched_set) (simp only: rs mem_Collect_eq sv, metis option.inject)
    then show ?thesis
      using False rs by (simp add: scan_def visible_def Let_def)
  qed
  then show ?thesis
    unfolding query_run_scan sv using visible by blast
qed

section \<open>Concrete inputs\<close>

text \<open>A product, a query that fills the cache, and the deletion of the product by its author.\<close>

definition sample_puts :: "storage_op list" where
  "sample_puts =
     [Op_put [sample_event ''r'' ''A'' Product []], Op_query [deletionsFor (js ''r'')] False,
      Op_put [(sample_event ''d'' ''A'' Product [e_ref ''r'' []])\<lparr>ev_kind := DELETION_KIND\<rparr>]]"

lemma query_returns_witness:
  "set (fst (query [patchesReferencing (js ''r'')] False (foldl storage_step createInMemoryEventStorage sample_puts))) =
    {e. dget (last_puts (puts sample_puts)) (ev_id e) = Some e
      \<and> (False \<or> ev_kind e = DELETION_KIND
         \<or> \<not> list_ex (\<lambda>d. ev_kind d = DELETION_KIND \<and> ev_pubkey d = ev_pubkey e
                  \<and> ev_id e \<in> set (tagValues d (js ''e''))) (dvalues (last_puts (puts sample_puts))))
      \<and> ([patchesReferencing (js ''r'')] = [] \<or> list_ex (matchesFilter e) [patchesReferencing (js ''r'')])}"
  by (rule query_returns) (simp add: patchesReferencing_def no_filter_def)

end
