(* ===== verification/PatchMatcher.thy ===== *)
theory PatchMatcher
  imports Errors
begin

text \<open>
  \<open>packages/core/src/patch-matcher.ts\<close>: lines, hunks, the search for a hunk's pattern, and the
  splice that replaces it. The diff library is not part of the repository: \<open>structuredPatch\<close> is the
  argument \<open>structured\<close> of \<open>diffHunks\<close> and \<open>widenContext\<close>, from the two contents and the context
  to the raw hunks it produces.
\<close>

section \<open>Lines\<close>

definition LF :: u16 where
  "LF = 10"

definition toLines :: "jsstr \<Rightarrow> jsstr list" where
  "toLines content = split_on LF content"

definition fromLines :: "jsstr list \<Rightarrow> jsstr" where
  "fromLines ls = join_with LF ls"

definition lineCount :: "jsstr list \<Rightarrow> nat" where
  "lineCount ls = (if 0 < length ls \<and> last ls = [] then length ls - 1 else length ls)"

section \<open>Hunks\<close>

record hunk =
  hk_oldPat :: "jsstr list"
  hk_newRep :: "jsstr list"
  hk_oldNoEol :: bool
  hk_newNoEol :: bool
  hk_insertAt :: int

record raw_hunk =
  rw_oldStart :: int
  rw_oldLines :: int
  rw_lines :: "jsstr list"

datatype side = Side_old | Side_new | Side_both

record reduce_state =
  rs_oldPat :: "jsstr list"
  rs_newRep :: "jsstr list"
  rs_oldNoEol :: bool
  rs_newNoEol :: bool
  rs_side :: "side option"

definition reduce_line :: "jsstr \<Rightarrow> reduce_state \<Rightarrow> js_error + reduce_state" where
  "reduce_line line st =
     (case line of
        [] \<Rightarrow> Inr (st\<lparr>rs_oldPat := rs_oldPat st @ [[]], rs_newRep := rs_newRep st @ [[]],
                      rs_side := Some Side_both\<rparr>)
      | c # body \<Rightarrow>
          if c = cu CHR 0x5C then
            Inr (st\<lparr>rs_oldNoEol := (rs_oldNoEol st \<or> rs_side st = Some Side_old
                                      \<or> rs_side st = Some Side_both),
                    rs_newNoEol := (rs_newNoEol st \<or> rs_side st = Some Side_new
                                      \<or> rs_side st = Some Side_both)\<rparr>)
          else if c = cu CHR '' '' then
            Inr (st\<lparr>rs_oldPat := rs_oldPat st @ [body], rs_newRep := rs_newRep st @ [body],
                    rs_side := Some Side_both\<rparr>)
          else if c = cu CHR ''-'' then
            Inr (st\<lparr>rs_oldPat := rs_oldPat st @ [body], rs_side := Some Side_old\<rparr>)
          else if c = cu CHR ''+'' then
            Inr (st\<lparr>rs_newRep := rs_newRep st @ [body], rs_side := Some Side_new\<rparr>)
          else Inl MalformedPayload)"

fun reduce_lines :: "jsstr list \<Rightarrow> reduce_state \<Rightarrow> js_error + reduce_state" where
  "reduce_lines [] st = Inr st"
| "reduce_lines (l # ls) st =
     (case reduce_line l st of Inl e \<Rightarrow> Inl e | Inr st' \<Rightarrow> reduce_lines ls st')"

definition reduceHunk :: "raw_hunk \<Rightarrow> js_error + hunk" where
  "reduceHunk raw =
     (case reduce_lines (rw_lines raw)
             \<lparr>rs_oldPat = [], rs_newRep = [], rs_oldNoEol = False, rs_newNoEol = False,
              rs_side = None\<rparr> of
        Inl e \<Rightarrow> Inl e
      | Inr st \<Rightarrow>
          Inr \<lparr>hk_oldPat = rs_oldPat st, hk_newRep = rs_newRep st, hk_oldNoEol = rs_oldNoEol st,
               hk_newNoEol = rs_newNoEol st, hk_insertAt = rw_oldStart raw - 1\<rparr>)"

fun reduceHunks :: "raw_hunk list \<Rightarrow> js_error + hunk list" where
  "reduceHunks [] = Inr []"
| "reduceHunks (r # rs) =
     (case reduceHunk r of
        Inl e \<Rightarrow> Inl e
      | Inr h \<Rightarrow> (case reduceHunks rs of Inl e \<Rightarrow> Inl e | Inr hs \<Rightarrow> Inr (h # hs)))"

section \<open>The search\<close>

record occurrences =
  oc_count :: nat
  oc_first :: int
  oc_second :: int

text \<open>The inner loop compares element by element and stops at the first difference.\<close>

fun match_from :: "jsstr list \<Rightarrow> jsstr list \<Rightarrow> bool" where
  "match_from ls [] = True"
| "match_from [] (p # ps) = False"
| "match_from (l # ls) (p # ps) = (l = p \<and> match_from ls ps)"

definition occurrence_step ::
    "jsstr list \<Rightarrow> jsstr list \<Rightarrow> nat \<Rightarrow> occurrences \<Rightarrow> occurrences" where
  "occurrence_step ls pattern i oc =
     (if \<not> match_from (drop i ls) pattern then oc
      else if oc_first oc = -1 then oc\<lparr>oc_count := oc_count oc + 1, oc_first := int i\<rparr>
      else if oc_second oc = -1 then oc\<lparr>oc_count := oc_count oc + 1, oc_second := int i\<rparr>
      else oc\<lparr>oc_count := oc_count oc + 1\<rparr>)"

text \<open>The outer loop runs over every \<open>i\<close> with \<open>i + k \<le> lines.length\<close>, never stopping early.\<close>

definition occurrences :: "jsstr list \<Rightarrow> jsstr list \<Rightarrow> occurrences" where
  "occurrences ls pattern =
     fold (occurrence_step ls pattern) [0..<length ls + 1 - length pattern]
       \<lparr>oc_count = 0, oc_first = -1, oc_second = -1\<rparr>"

definition scanCost :: "jsstr list \<Rightarrow> jsstr list \<Rightarrow> nat" where
  "scanCost ls pattern = length ls * foldl (\<lambda>sum line. sum + length line + 1) 0 pattern"

section \<open>The splice\<close>

text \<open>\<open>{ok: true, lines}\<close> is \<open>Some\<close>, \<open>{ok: false}\<close> is \<open>None\<close>.\<close>

definition spliceAt :: "jsstr list \<Rightarrow> hunk \<Rightarrow> nat \<Rightarrow> jsstr list option" where
  "spliceAt ls hunk at =
     (let stop = at + length (hk_oldPat hunk);
          atEnd = (stop = length ls);
          head = take at ls
      in if hk_oldNoEol hunk then
           (if \<not> atEnd then None
            else Some (head @ hk_newRep hunk @ (if hk_newNoEol hunk then [] else [[]])))
         else if hk_newNoEol hunk then
           (if atEnd \<or> (stop + 1 = length ls \<and> ls ! stop = [])
            then Some (head @ hk_newRep hunk)
            else None)
         else Some (head @ hk_newRep hunk @ drop stop ls))"

section \<open>Widening\<close>

type_synonym structured_patch = "jsstr \<Rightarrow> jsstr \<Rightarrow> int \<Rightarrow> raw_hunk list"

definition diffHunks ::
    "structured_patch \<Rightarrow> jsstr \<Rightarrow> jsstr \<Rightarrow> int \<Rightarrow> js_error + hunk list" where
  "diffHunks structured before after context = reduceHunks (structured before after context)"

record widen_result =
  wr_context :: int
  wr_hunks :: "hunk list"
  wr_exhausted :: bool

text \<open>
  One trial: the hunks of one context, each checked against the content the prior ones produced.
  \<open>Trial_work\<close> is the return inside the loop, the other two outcomes set \<open>ambiguous\<close>.
\<close>

datatype trial = Trial_work | Trial_unique nat | Trial_ambiguous nat

fun widen_trial :: "int \<Rightarrow> nat \<Rightarrow> jsstr list \<Rightarrow> hunk list \<Rightarrow> trial" where
  "widen_trial ceilingWork work ls [] = Trial_unique work"
| "widen_trial ceilingWork work ls (h # hs) =
     (if hk_oldPat h = [] then widen_trial ceilingWork work ls hs
      else
        let work' = work + scanCost ls (hk_oldPat h) in
        if ceilingWork < int work' then Trial_work
        else
          let found = occurrences ls (hk_oldPat h) in
          if oc_count found \<noteq> 1 then Trial_ambiguous work'
          else (case spliceAt ls h (nat (oc_first found)) of
                  None \<Rightarrow> Trial_ambiguous work'
                | Some ls' \<Rightarrow> widen_trial ceilingWork work' ls' hs))"

function widen_loop ::
    "structured_patch \<Rightarrow> jsstr \<Rightarrow> jsstr \<Rightarrow> int \<Rightarrow> int \<Rightarrow> nat \<Rightarrow> int \<Rightarrow> js_error + widen_result" where
  "widen_loop structured before after fullContext ceilingWork work context =
     (let capped = min context fullContext in
      case diffHunks structured before after capped of
        Inl e \<Rightarrow> Inl e
      | Inr hunks \<Rightarrow>
          (case widen_trial ceilingWork work (toLines before) hunks of
             Trial_work \<Rightarrow> Inr \<lparr>wr_context = capped, wr_hunks = hunks, wr_exhausted = True\<rparr>
           | Trial_unique _ \<Rightarrow> Inr \<lparr>wr_context = capped, wr_hunks = hunks, wr_exhausted = False\<rparr>
           | Trial_ambiguous work' \<Rightarrow>
               if capped = fullContext
               then Inr \<lparr>wr_context = capped, wr_hunks = hunks, wr_exhausted = True\<rparr>
               else widen_loop structured before after fullContext ceilingWork work' (context + 1)))"
  by pat_completeness auto
termination
  by (relation "measure (\<lambda>(_, _, _, full, _, _, context). nat (full - context))") auto

declare widen_loop.simps [simp del]

definition widenContext ::
    "structured_patch \<Rightarrow> jsstr \<Rightarrow> jsstr \<Rightarrow> int \<Rightarrow> int \<Rightarrow> js_error + widen_result" where
  "widenContext structured before after startContext ceilingWork =
     widen_loop structured before after
       (int (max (lineCount (toLines before)) (lineCount (toLines after))))
       ceilingWork 0 startContext"

section \<open>Facts about lines\<close>

text \<open>
  Splitting content into lines and joining lines into content are inverse to each other: any
  content survives, and so does any non-empty list of lines without line feeds.
\<close>

theorem lines_roundtrip:
  "fromLines (toLines content) = content \<and> toLines content \<noteq> []
   \<and> range toLines = {ls. ls \<noteq> [] \<and> LF \<notin> \<Union> (set ` set ls)}"
proof -
  have "ls \<in> range toLines" if "ls \<noteq> []" "\<forall>l \<in> set ls. LF \<notin> set l" for ls
    using that split_join [of ls LF] by (metis toLines_def rangeI)
  then show ?thesis
    by (auto simp: toLines_def fromLines_def image_iff dest: split_on_parts)
qed

section \<open>What the search finds\<close>

definition matches_at :: "jsstr list \<Rightarrow> jsstr list \<Rightarrow> nat \<Rightarrow> bool" where
  "matches_at ls p i \<longleftrightarrow> i + length p \<le> length ls \<and> take (length p) (drop i ls) = p"

definition hits :: "jsstr list \<Rightarrow> jsstr list \<Rightarrow> nat list" where
  "hits ls p = filter (matches_at ls p) [0..<Suc (length ls)]"

lemma match_from_iff: "match_from ls p \<longleftrightarrow> take (length p) ls = p"
  by (induction ls p rule: match_from.induct) auto

lemma hits_range:
  "hits ls p = filter (\<lambda>i. match_from (drop i ls) p) [0..<length ls + 1 - length p]"
proof -
  let ?n = "length ls + 1 - length p"
  have "?n \<le> Suc (length ls)"
    by simp
  then have "[0..<Suc (length ls)] = [0..<?n] @ [?n..<Suc (length ls)]"
    by (metis le0 upt_add_eq_append le_add_diff_inverse)
  moreover have "filter (matches_at ls p) [?n..<Suc (length ls)] = []"
    by (auto simp: matches_at_def filter_empty_conv simp del: upt_Suc)
  moreover have "filter (matches_at ls p) [0..<?n] = filter (\<lambda>i. match_from (drop i ls) p) [0..<?n]"
    by (intro filter_cong) (auto simp: matches_at_def match_from_iff)
  ultimately show ?thesis
    by (simp add: hits_def del: upt_Suc)
qed

lemma hits_iff [simp]: "i \<in> set (hits ls p) \<longleftrightarrow> matches_at ls p i"
  by (auto simp: hits_def matches_at_def simp del: upt_Suc)

lemma hits_sorted: "sorted_wrt (<) (hits ls p)"
  unfolding hits_def by (rule sorted_wrt_filter) (rule sorted_wrt_upt)

lemma length_hits: "length (hits ls p) = card {i. matches_at ls p i}"
proof -
  have "distinct (hits ls p)"
    by (simp add: hits_def)
  then have "length (hits ls p) = card (set (hits ls p))"
    by (simp add: distinct_card)
  also have "set (hits ls p) = {i. matches_at ls p i}"
    by auto
  finally show ?thesis .
qed

definition hit_at :: "nat list \<Rightarrow> nat \<Rightarrow> int" where
  "hit_at hs k = (case nth_opt hs k of None \<Rightarrow> -1 | Some i \<Rightarrow> int i)"

lemma occurrence_fold:
  "fold (occurrence_step ls p) is \<lparr>oc_count = 0, oc_first = -1, oc_second = -1\<rparr> =
     (let hs = filter (\<lambda>i. match_from (drop i ls) p) is in
      \<lparr>oc_count = length hs, oc_first = hit_at hs 0, oc_second = hit_at hs 1\<rparr>)"
proof (induction "is" rule: rev_induct)
  case (snoc i "is")
  then show ?case
    by (cases "filter (\<lambda>i. match_from (drop i ls) p) is";
        cases "tl (filter (\<lambda>i. match_from (drop i ls) p) is)")
      (auto simp: occurrence_step_def hit_at_def Let_def)
qed (simp add: hit_at_def)

lemma occurrences_hits:
  "occurrences ls p =
     \<lparr>oc_count = length (hits ls p), oc_first = hit_at (hits ls p) 0,
      oc_second = hit_at (hits ls p) 1\<rparr>"
  by (simp add: occurrences_def occurrence_fold hits_range Let_def)

lemma unique_occurrence:
  assumes "oc_count (occurrences ls p) = 1"
  obtains i where "oc_first (occurrences ls p) = int i" "matches_at ls p i"
    "\<And>j. matches_at ls p j \<Longrightarrow> j = i"
proof -
  from assms obtain i where i: "hits ls p = [i]"
    by (auto simp: occurrences_hits length_Suc_conv)
  have "matches_at ls p j \<longleftrightarrow> j = i" for j
    using hits_iff [of j ls p] by (simp add: i)
  then show thesis
    using that by (simp add: occurrences_hits i hit_at_def)
qed

text \<open>
  The search counts every position at which the pattern occurs, overlaps included; the first
  index is the least of them and the second the next, and both are -1 when there is none.
\<close>

theorem occurrences_spec:
  "oc_count (occurrences ls p) = card {i. matches_at ls p i}
   \<and> (if \<forall>i. \<not> matches_at ls p i then oc_first (occurrences ls p) = -1
      else oc_first (occurrences ls p) = int (LEAST i. matches_at ls p i))
   \<and> (if oc_count (occurrences ls p) \<le> 1 then oc_second (occurrences ls p) = -1
      else oc_second (occurrences ls p) =
        int (LEAST i. matches_at ls p i \<and> int i \<noteq> oc_first (occurrences ls p)))"
proof -
  have least: "(LEAST i. P i) = x" if "P x" "\<And>y. P y \<Longrightarrow> x \<le> y" for P and x :: nat
    using that by (rule Least_equality)
  consider "hits ls p = []" | i where "hits ls p = [i]" | i j hs where "hits ls p = i # j # hs"
    by (metis list.exhaust)
  then show ?thesis
  proof cases
    case 1
    then have "\<not> matches_at ls p i" for i
      using hits_iff [of i ls p] by simp
    with 1 show ?thesis
      by (simp add: occurrences_hits hit_at_def)
  next
    case (2 i)
    then have "matches_at ls p = (\<lambda>k. k = i)"
      using hits_iff [of _ ls p] by auto
    moreover have "(LEAST k. k = i) = i"
      by (rule least) simp_all
    ultimately show ?thesis
      using 2 by (simp add: occurrences_hits hit_at_def)
  next
    case (3 i j hs)
    then have m: "matches_at ls p = (\<lambda>k. k = i \<or> k = j \<or> k \<in> set hs)"
      using hits_iff [of _ ls p] by auto
    have lt: "i < j" "\<And>k. k \<in> set hs \<Longrightarrow> j < k"
      using hits_sorted [of ls p] by (auto simp: 3)
    have first: "(LEAST k. matches_at ls p k) = i"
      by (rule least) (use lt in \<open>auto simp: m dest: lt(2)\<close>)
    have second: "(LEAST k. matches_at ls p k \<and> int k \<noteq> int i) = j"
      by (rule least) (use lt in \<open>auto simp: m dest: lt(2)\<close>)
    have "oc_count (occurrences ls p) = card {i. matches_at ls p i}"
      by (simp add: occurrences_hits length_hits)
    moreover have "oc_first (occurrences ls p) = int i" "oc_second (occurrences ls p) = int j"
      "\<not> oc_count (occurrences ls p) \<le> 1" "matches_at ls p i"
      by (simp_all add: occurrences_hits hit_at_def 3 m)
    ultimately show ?thesis
      using first second by auto
  qed
qed

section \<open>Cost\<close>

lemma scanCost_sum: "scanCost ls p = length ls * (\<Sum>l\<leftarrow>p. length l + 1)"
proof -
  have "foldl (\<lambda>s l. s + length l + 1) a p = a + (\<Sum>l\<leftarrow>p. length l + 1)" for a
    by (induction p arbitrary: a) auto
  then show ?thesis
    by (simp add: scanCost_def)
qed

section \<open>What a hunk's lines mean\<close>

text \<open>The body of a line on the side that shows it; a stripped empty line is an empty context line.\<close>

definition line_body :: "jsstr \<Rightarrow> jsstr" where
  "line_body l = tl l"

definition is_marker :: "jsstr \<Rightarrow> bool" where
  "is_marker l \<longleftrightarrow> l \<noteq> [] \<and> hd l = cu CHR 0x5C"

definition on_old :: "jsstr \<Rightarrow> bool" where
  "on_old l \<longleftrightarrow> l = [] \<or> hd l = cu CHR '' '' \<or> hd l = cu CHR ''-''"

definition on_new :: "jsstr \<Rightarrow> bool" where
  "on_new l \<longleftrightarrow> l = [] \<or> hd l = cu CHR '' '' \<or> hd l = cu CHR ''+''"

lemma line_kinds:
  "is_marker l \<Longrightarrow> \<not> on_old l" "is_marker l \<Longrightarrow> \<not> on_new l"
  by (auto simp: is_marker_def on_old_def on_new_def)

lemma reduce_line_sides:
  "reduce_line l st = Inr st' \<Longrightarrow>
     (is_marker l \<or> on_old l \<or> on_new l)
     \<and> rs_oldPat st' = rs_oldPat st @ (if on_old l then [line_body l] else [])
     \<and> rs_newRep st' = rs_newRep st @ (if on_new l then [line_body l] else [])"
  by (auto simp: reduce_line_def is_marker_def on_old_def on_new_def line_body_def
      split: list.splits if_splits)

lemma reduce_line_ok:
  "is_marker l \<or> on_old l \<or> on_new l \<Longrightarrow> \<exists>st'. reduce_line l st = Inr st'"
  by (auto simp: reduce_line_def is_marker_def on_old_def on_new_def split: list.split)

lemma reduce_lines_sides:
  "reduce_lines ls st = Inr st' \<Longrightarrow>
     (\<forall>l \<in> set ls. is_marker l \<or> on_old l \<or> on_new l)
     \<and> rs_oldPat st' = rs_oldPat st @ map line_body (filter on_old ls)
     \<and> rs_newRep st' = rs_newRep st @ map line_body (filter on_new ls)"
proof (induction ls arbitrary: st)
  case (Cons l ls)
  then obtain st1 where "reduce_line l st = Inr st1" "reduce_lines ls st1 = Inr st'"
    by (auto split: sum.splits)
  with Cons.IH [of st1] reduce_line_sides [of l st st1] show ?case
    by auto
qed simp

lemma reduce_lines_ok:
  "\<forall>l \<in> set ls. is_marker l \<or> on_old l \<or> on_new l \<Longrightarrow> \<exists>st'. reduce_lines ls st = Inr st'"
proof (induction ls arbitrary: st)
  case (Cons l ls)
  then obtain st1 where "reduce_line l st = Inr st1"
    using reduce_line_ok by force
  with Cons show ?case
    by auto
qed simp

lemma reduce_lines_error: "reduce_lines ls st = Inl e \<Longrightarrow> e = MalformedPayload"
  by (induction ls arbitrary: st) (auto simp: reduce_line_def split: sum.splits list.splits if_splits)

text \<open>
  A raw hunk reduces exactly when each of its lines is empty or starts with a space, a minus, a
  plus or a backslash. The pattern is then the bodies of the context and removed lines in order,
  the replacement the bodies of the context and added lines in order, whatever the header counts
  say, and the insertion point is one less than the header's start.
\<close>

theorem reduceHunk_spec:
  "case reduceHunk raw of
     Inl e \<Rightarrow> e = MalformedPayload
       \<and> list_ex (\<lambda>l. \<not> is_marker l \<and> \<not> on_old l \<and> \<not> on_new l) (rw_lines raw)
   | Inr h \<Rightarrow> list_all (\<lambda>l. is_marker l \<or> on_old l \<or> on_new l) (rw_lines raw)
       \<and> hk_oldPat h = map line_body (filter on_old (rw_lines raw))
       \<and> hk_newRep h = map line_body (filter on_new (rw_lines raw))
       \<and> hk_insertAt h = rw_oldStart raw - 1"
proof (cases "reduceHunk raw")
  case (Inl e)
  then obtain st where st: "reduce_lines (rw_lines raw) st = Inl e"
    by (auto simp: reduceHunk_def list_all_iff split: sum.splits)
  then have "\<not> (\<forall>l \<in> set (rw_lines raw). is_marker l \<or> on_old l \<or> on_new l)"
    using reduce_lines_ok [of "rw_lines raw" st] by auto
  with Inl reduce_lines_error [OF st] show ?thesis
    by (auto simp: list_ex_iff)
next
  case (Inr h)
  then show ?thesis
    by (auto simp: reduceHunk_def list_all_iff split: sum.splits dest!: reduce_lines_sides)
qed

section \<open>The splice\<close>

lemma spliceAt_plain:
  "\<not> hk_oldNoEol h \<Longrightarrow> \<not> hk_newNoEol h \<Longrightarrow>
     spliceAt ls h i = Some (take i ls @ hk_newRep h @ drop (i + length (hk_oldPat h)) ls)"
  by (simp add: spliceAt_def Let_def)

text \<open>
  Where the pattern matches, the splice replaces it: the content is \<open>head\<close>, the pattern and
  \<open>tail\<close>, and the result is \<open>head\<close>, the replacement and the tail. The end-of-file markers only
  decide the last element: an old-side marker needs the match to end the content, a new-side marker
  needs nothing but the newline bit after it, and the result ends in a newline bit exactly where the
  new side carries no marker.
\<close>

theorem spliceAt_spec:
  assumes "matches_at ls (hk_oldPat h) i"
  shows "\<exists>tail. ls = take i ls @ hk_oldPat h @ tail \<and>
     spliceAt ls h i =
       (if hk_oldNoEol h then
          (if tail = [] then Some (take i ls @ hk_newRep h @ (if hk_newNoEol h then [] else [[]]))
           else None)
        else if hk_newNoEol h then
          (if tail = [] \<or> tail = [[]] then Some (take i ls @ hk_newRep h) else None)
        else Some (take i ls @ hk_newRep h @ tail))"
proof -
  define tail where "tail = drop (i + length (hk_oldPat h)) ls"
  have len: "i + length (hk_oldPat h) \<le> length ls"
    and pat: "take (length (hk_oldPat h)) (drop i ls) = hk_oldPat h"
    using assms by (auto simp: matches_at_def)
  have ls: "ls = take i ls @ hk_oldPat h @ tail"
    by (metis append_take_drop_id drop_drop pat tail_def add.commute)
  have at_end: "i + length (hk_oldPat h) = length ls \<longleftrightarrow> tail = []"
    using len by (auto simp: tail_def)
  have bit: "i + length (hk_oldPat h) + 1 = length ls \<and> ls ! (i + length (hk_oldPat h)) = []
      \<longleftrightarrow> tail = [[]]"
  proof -
    have "length tail = length ls - (i + length (hk_oldPat h))"
      by (simp add: tail_def)
    moreover have "ls ! (i + length (hk_oldPat h)) = tail ! 0" if "tail \<noteq> []"
      using that len by (simp add: tail_def)
    ultimately show ?thesis
      using len by (cases tail; cases "tl tail") auto
  qed
  have "spliceAt ls h i =
       (if hk_oldNoEol h then
          (if tail = [] then Some (take i ls @ hk_newRep h @ (if hk_newNoEol h then [] else [[]]))
           else None)
        else if hk_newNoEol h then
          (if tail = [] \<or> tail = [[]] then Some (take i ls @ hk_newRep h) else None)
        else Some (take i ls @ hk_newRep h @ tail))"
    unfolding spliceAt_def Let_def at_end bit by (simp add: tail_def)
  with ls show ?thesis by blast
qed

lemma spliceAt_spec_witness:
  "matches_at [js ''a'', []] [js ''a''] 0
   \<and> spliceAt [js ''a'', []] \<lparr>hk_oldPat = [js ''a''], hk_newRep = [js ''c''], hk_oldNoEol = False,
       hk_newNoEol = False, hk_insertAt = 0\<rparr> 0 = Some [js ''c'', []]"
proof -
  have m: "matches_at [js ''a'', []] [js ''a''] 0"
    by (simp add: matches_at_def)
  then show ?thesis
    using spliceAt_spec [of "[js ''a'', []]" "\<lparr>hk_oldPat = [js ''a''], hk_newRep = [js ''c''],
      hk_oldNoEol = False, hk_newNoEol = False, hk_insertAt = 0\<rparr>" 0] by auto
qed

end
