(* ===== verification/Fences.thy ===== *)
theory Fences
  imports Errors
begin

text \<open>
  The lower half of \<open>packages/core/src/validate.ts\<close>: where an event's content carries a patch
  payload (fenced code blocks, E1 to E6), and what the payload's header must look like (C1, P2, P3).
  Regular expressions are written out as the scans they perform.
\<close>

section \<open>Fenced blocks\<close>

definition backtick :: u16 where
  "backtick = cu CHR ''`''"

definition tilde :: u16 where
  "tilde = cu CHR ''~''"

definition space :: u16 where
  "space = cu CHR '' ''"

record fenced_block =
  fb_fenceChar :: u16
  fb_info :: jsstr
  fb_payload :: jsstr
  fb_closed :: bool

text \<open>\<open>info.trim().split(/\s+/)[0]?.toLowerCase()\<close> is one of the two words.\<close>

definition isPayloadInfo :: "jsstr \<Rightarrow> bool" where
  "isPayloadInfo info =
     (let first = to_lower (takeWhile (\<lambda>c. \<not> is_space c) (trim info))
      in first = js ''diff'' \<or> first = js ''patch'')"

definition isPayloadBlock :: "fenced_block \<Rightarrow> bool" where
  "isPayloadBlock block \<longleftrightarrow> fb_fenceChar block = backtick \<and> isPayloadInfo (fb_info block)"

text \<open>\<open>^ {0,3}\<close>: what follows the leading spaces, of which there are at most three.\<close>

definition skip_indent :: "jsstr \<Rightarrow> jsstr option" where
  "skip_indent line =
     (if 3 < length (takeWhile (\<lambda>c. c = space) line) then None
      else Some (dropWhile (\<lambda>c. c = space) line))"

text \<open>
  \<open>/^ {0,3}(`{3,}|~{3,})(.*)$/\<close>: the fence character, the fence's length and the info string. \<open>.\<close>
  matches no line terminator, so a line that holds a carriage return opens nothing.
\<close>

definition fence_open :: "jsstr \<Rightarrow> (u16 \<times> nat \<times> jsstr) option" where
  "fence_open line =
     (case skip_indent line of
        None \<Rightarrow> None
      | Some [] \<Rightarrow> None
      | Some (c # r) \<Rightarrow>
          let n = length (takeWhile (\<lambda>d. d = c) (c # r)); info = dropWhile (\<lambda>d. d = c) (c # r) in
          if (c = backtick \<or> c = tilde) \<and> 3 \<le> n \<and> list_all (\<lambda>d. \<not> is_line_terminator d) info
          then Some (c, n, info) else None)"

definition opener :: "jsstr \<Rightarrow> (u16 \<times> nat \<times> jsstr) option" where
  "opener line =
     (case fence_open line of
        None \<Rightarrow> None
      | Some (c, n, info) \<Rightarrow>
          if c = backtick \<and> backtick \<in> set info then None else Some (c, n, info))"

text \<open>\<open>^ {0,3}c{n,}\s*$\<close> for the fence character \<open>c\<close> and the opener's length \<open>n\<close>.\<close>

definition closer :: "u16 \<Rightarrow> nat \<Rightarrow> jsstr \<Rightarrow> bool" where
  "closer c n line =
     (case skip_indent line of
        None \<Rightarrow> False
      | Some r \<Rightarrow>
          n \<le> length (takeWhile (\<lambda>d. d = c) r) \<and> list_all is_space (dropWhile (\<lambda>d. d = c) r))"

text \<open>The inner loop: the body up to the closer, whether there is one, and the lines after it.\<close>

fun fence_body :: "u16 \<Rightarrow> nat \<Rightarrow> jsstr list \<Rightarrow> jsstr list \<times> bool \<times> jsstr list" where
  "fence_body c n [] = ([], False, [])"
| "fence_body c n (l # ls) =
     (if closer c n l then ([], True, ls)
      else case fence_body c n ls of (body, closed, rest) \<Rightarrow> (l # body, closed, rest))"

lemma fence_body_rest: "fence_body c n ls = (body, closed, rest) \<Longrightarrow> length rest \<le> length ls"
  by (induction ls arbitrary: body) (auto split: if_splits prod.splits)

definition body_payload :: "jsstr list \<Rightarrow> jsstr" where
  "body_payload body = (if body = [] then [] else join_with 10 body @ [10])"

function fenced_lines :: "jsstr list \<Rightarrow> fenced_block list" where
  "fenced_lines [] = []"
| "fenced_lines (l # ls) =
     (case opener l of
        None \<Rightarrow> fenced_lines ls
      | Some (c, n, info) \<Rightarrow>
          (case fence_body c n ls of
             (body, closed, rest) \<Rightarrow>
               \<lparr>fb_fenceChar = c, fb_info = info, fb_payload = body_payload body,
                fb_closed = closed\<rparr> # fenced_lines rest))"
  by pat_completeness auto
termination
proof (relation "measure length")
  fix l :: jsstr and ls c n info body closed rest x y z w
  assume "(body, z) = fence_body c n ls" "(closed, rest) = z"
  then show "(rest, l # ls) \<in> measure length"
    using fence_body_rest [of c n ls body closed rest] by simp
qed auto

definition findFencedBlocks :: "jsstr \<Rightarrow> fenced_block list" where
  "findFencedBlocks content = fenced_lines (split_on 10 content)"

definition findPatchPayload :: "jsstr \<Rightarrow> jsstr option" where
  "findPatchPayload content = map_option fb_payload (find isPayloadBlock (findFencedBlocks content))"

section \<open>The payload's grammar\<close>

definition is_high_surrogate :: "u16 \<Rightarrow> bool" where
  "is_high_surrogate c \<longleftrightarrow> 0xD800 \<le> c \<and> c \<le> 0xDBFF"

definition is_low_surrogate :: "u16 \<Rightarrow> bool" where
  "is_low_surrogate c \<longleftrightarrow> 0xDC00 \<le> c \<and> c \<le> 0xDFFF"

text \<open>\<open>LONE_SURROGATE\<close>; the first argument says whether the unit before is a high surrogate.\<close>

fun lone_surrogate :: "bool \<Rightarrow> jsstr \<Rightarrow> bool" where
  "lone_surrogate high [] = False"
| "lone_surrogate high (c # s) =
     ((is_high_surrogate c \<and> (case s of [] \<Rightarrow> True | d # _ \<Rightarrow> \<not> is_low_surrogate d))
      \<or> (is_low_surrogate c \<and> \<not> high)
      \<or> lone_surrogate (is_high_surrogate c) s)"

definition LONE_SURROGATE :: "jsstr \<Rightarrow> bool" where
  "LONE_SURROGATE s = lone_surrogate False s"

definition is_hex :: "u16 \<Rightarrow> bool" where
  "is_hex c \<longleftrightarrow> is_digit c \<or> (97 \<le> c \<and> c \<le> 102)"

text \<open>\<open>/^index [0-9a-f]{4,}\.\.[0-9a-f]{4,}/\<close>; a dot is no hex digit, so the first run is maximal.\<close>

definition index_line :: "jsstr \<Rightarrow> bool" where
  "index_line line \<longleftrightarrow>
     starts_with line (js ''index '') \<and>
     (let r = drop (length ''index '') line;
          rest = dropWhile is_hex r
      in 4 \<le> length (takeWhile is_hex r) \<and> starts_with rest (js ''..'')
         \<and> 4 \<le> length (takeWhile is_hex (drop 2 rest)))"

definition FORBIDDEN_PREAMBLE :: "(jsstr \<Rightarrow> bool) list" where
  "FORBIDDEN_PREAMBLE =
     [index_line,
      \<lambda>l. starts_with l (js ''old mode '') \<or> starts_with l (js ''new mode ''),
      \<lambda>l. starts_with l (js ''new file mode '') \<or> starts_with l (js ''deleted file mode ''),
      \<lambda>l. starts_with l (js ''similarity index ''),
      \<lambda>l. starts_with l (js ''rename from '') \<or> starts_with l (js ''rename to '')
        \<or> starts_with l (js ''copy from '') \<or> starts_with l (js ''copy to '')]"

definition forbidden_line :: "jsstr \<Rightarrow> bool" where
  "forbidden_line line \<longleftrightarrow> (\<exists>re \<in> set FORBIDDEN_PREAMBLE. re line)"

definition checkHeaderPath :: "jsstr option \<Rightarrow> jsstr \<Rightarrow> jsstr \<Rightarrow> issue list" where
  "checkHeaderPath line marker expected =
     (case line of
        None \<Rightarrow> [cite (R_C 1) Sev_error]
      | Some l \<Rightarrow>
          if \<not> starts_with l marker then [cite (R_C 1) Sev_error]
          else if takeWhile (\<lambda>c. \<not> is_space c) (trim_start (drop (length marker) l)) \<noteq> expected
          then [cite (R_C 1) Sev_error]
          else [])"

text \<open>\<open>lines.findIndex(...)\<close>, with \<open>-1\<close> as \<open>None\<close>.\<close>

fun find_index :: "('a \<Rightarrow> bool) \<Rightarrow> 'a list \<Rightarrow> nat option" where
  "find_index P [] = None"
| "find_index P (x # xs) = (if P x then Some 0 else map_option Suc (find_index P xs))"

definition minus_header :: jsstr where
  "minus_header = js ''--- ''"

definition plus_header :: jsstr where
  "plus_header = js ''+++ ''"

text \<open>The payload's lines, less the empty one after the last line feed.\<close>

definition payload_lines :: "jsstr \<Rightarrow> jsstr list" where
  "payload_lines payload =
     (let ls = split_on 10 payload in if at_last ls = Some [] then butlast ls else ls)"

definition checkPayloadGrammar :: "jsstr \<Rightarrow> issue list" where
  "checkPayloadGrammar payload =
     (if payload = [] then [cite (R_C 1) Sev_error]
      else
        let ls = payload_lines payload in
        (if LONE_SURROGATE payload then [cite (R_P 3) Sev_warning] else [])
        @ (if \<exists>l \<in> set ls. at_last l = Some 13 then [cite (R_P 3) Sev_warning] else [])
        @ (case find_index (\<lambda>l. starts_with l minus_header) ls of
             None \<Rightarrow> [cite (R_C 1) Sev_error]
           | Some headerAt \<Rightarrow>
               map (\<lambda>_. cite (R_P 2) Sev_error) (filter forbidden_line (take headerAt ls))
               @ checkHeaderPath (nth_opt ls headerAt) minus_header (js ''a/content'')
               @ checkHeaderPath (nth_opt ls (headerAt + 1)) plus_header (js ''b/content'')))"

definition checkPatchPayload :: "jsstr \<Rightarrow> issue list" where
  "checkPatchPayload content =
     (let blocks = findFencedBlocks content;
          tildeDiff = filter (\<lambda>b. fb_fenceChar b = tilde \<and> isPayloadInfo (fb_info b)) blocks;
          payloadBlocks = filter isPayloadBlock blocks
      in (if tildeDiff \<noteq> [] then [cite (R_E 1) Sev_warning] else [])
         @ (case payloadBlocks of
              [] \<Rightarrow> []
            | block # others \<Rightarrow>
                (if others \<noteq> [] then [cite (R_PT 3) Sev_warning, cite (R_E 6) Sev_warning] else [])
                @ (if \<not> fb_closed block then [cite (R_E 3) Sev_warning] else [])
                @ checkPayloadGrammar (fb_payload block)))"

end
