(* ===== verification/Patch.thy ===== *)
theory Patch
  imports PatchMatcher Fences
begin

text \<open>
  \<open>packages/core/src/patch.ts\<close> and \<open>patch-types.ts\<close>: the application of a patch payload under the
  rules T1 (a unique match), T2 (insertions) and T3 (hunks in sequence), with its two ways to fail,
  the halt and the resource limit. The diff library is not part of the repository: its \<open>parsePatch\<close>
  is the argument \<open>parse_patch\<close>, from a payload to the hunks of each file section, \<open>None\<close> where it
  throws; \<open>formatPatch(structuredPatch(...))\<close> is the argument \<open>format_patch\<close> of \<open>makePatch\<close>.
\<close>

section \<open>Results\<close>

datatype halt_reason = No_match | Ambiguous_match | Eof_mismatch | Malformed_payload

datatype limit_kind = Limit_hunks | Limit_work

datatype noop_shape = Prose_only | Header_only

text \<open>The applied and no-op results carry no issues.\<close>

datatype apply_result =
    PatchApplied jsstr nat nat
  | PatchNoop jsstr noop_shape
  | PatchHalt halt_reason rule_id "nat option" "issue list"
  | PatchLimit limit_kind nat int "issue list"

record apply_options =
  ao_maxHunks :: "int option"
  ao_maxWork :: "int option"

definition DEFAULT_MAX_HUNKS :: int where
  "DEFAULT_MAX_HUNKS = 64"

definition DEFAULT_MAX_WORK :: int where
  "DEFAULT_MAX_WORK = 16 * 1024 * 1024"

definition HALT_RULE :: "halt_reason \<Rightarrow> rule_id" where
  "HALT_RULE reason =
     (case reason of No_match \<Rightarrow> R_T 1 | Ambiguous_match \<Rightarrow> R_T 1 | Eof_mismatch \<Rightarrow> R_C 5
      | Malformed_payload \<Rightarrow> R_H 1)"

definition haltIssues :: "rule_id \<Rightarrow> issue list" where
  "haltIssues code =
     (if code = R_H 1 then [cite (R_H 1) Sev_warning]
      else [cite code Sev_warning, cite (R_H 1) Sev_warning])"

definition halt :: "halt_reason \<Rightarrow> nat option \<Rightarrow> apply_result" where
  "halt reason hunkIndex =
     PatchHalt reason (HALT_RULE reason) hunkIndex (haltIssues (HALT_RULE reason))"

definition limitReached :: "limit_kind \<Rightarrow> nat \<Rightarrow> int \<Rightarrow> apply_result" where
  "limitReached limit observed ceiling =
     PatchLimit limit observed ceiling [cite (R_RL 3) Sev_warning]"

section \<open>Parsing\<close>

type_synonym parse_patch = "jsstr \<Rightarrow> raw_hunk list list option"

text \<open>\<open>/^--- /m\<close>: the header marker at the start of the payload or after a line terminator.\<close>

fun header_line :: "bool \<Rightarrow> jsstr \<Rightarrow> bool" where
  "header_line at_start [] = False"
| "header_line at_start (c # s) =
     ((at_start \<and> starts_with (c # s) (js ''--- '')) \<or> header_line (is_line_terminator c) s)"

definition parseHunks :: "parse_patch \<Rightarrow> jsstr \<Rightarrow> js_error + hunk list" where
  "parseHunks parse_patch payload =
     (if \<not> header_line True payload then Inl MalformedPayload
      else case parse_patch payload of
             None \<Rightarrow> Inl MalformedPayload
           | Some files \<Rightarrow> reduceHunks (concat files))"

section \<open>Application\<close>

definition insertion_point :: "jsstr list \<Rightarrow> int \<Rightarrow> hunk \<Rightarrow> nat" where
  "insertion_point ls shift h =
     nat (min (max (hk_insertAt h + shift) 0) (int (lineCount ls)))"

text \<open>Where a hunk goes: \<open>Inr at\<close>, or \<open>Inl\<close> of the reason to halt.\<close>

definition locate :: "jsstr list \<Rightarrow> int \<Rightarrow> hunk \<Rightarrow> halt_reason + nat" where
  "locate ls shift h =
     (if hk_oldPat h = [] then Inr (insertion_point ls shift h)
      else
        let found = occurrences ls (hk_oldPat h) in
        if oc_count found = 0 then Inl No_match
        else if 1 < oc_count found then Inl Ambiguous_match
        else Inr (nat (oc_first found)))"

fun apply_hunks ::
    "int \<Rightarrow> nat \<Rightarrow> nat \<Rightarrow> nat \<Rightarrow> jsstr list \<Rightarrow> int \<Rightarrow> hunk list \<Rightarrow> apply_result" where
  "apply_hunks maxWork hunkTotal index work ls shift [] = PatchApplied (fromLines ls) hunkTotal work"
| "apply_hunks maxWork hunkTotal index work ls shift (h # hs) =
     (let cost = scanCost ls (hk_oldPat h) in
      if maxWork < int (work + cost) then limitReached Limit_work (work + cost) maxWork
      else
        case locate ls shift h of
          Inl reason \<Rightarrow> halt reason (Some index)
        | Inr at \<Rightarrow>
            (case spliceAt ls h at of
               None \<Rightarrow> halt Eof_mismatch (Some index)
             | Some ls' \<Rightarrow>
                 apply_hunks maxWork hunkTotal (index + 1) (work + cost) ls'
                   (shift + (int (lineCount ls') - int (lineCount ls))) hs))"

definition applyPatchPayload ::
    "parse_patch \<Rightarrow> apply_options \<Rightarrow> jsstr \<Rightarrow> jsstr option \<Rightarrow> apply_result" where
  "applyPatchPayload parse_patch options content payload =
     (case payload of
        None \<Rightarrow> PatchNoop content Prose_only
      | Some bytes \<Rightarrow>
          let maxHunks = (case ao_maxHunks options of None \<Rightarrow> DEFAULT_MAX_HUNKS | Some m \<Rightarrow> m);
              maxWork = (case ao_maxWork options of None \<Rightarrow> DEFAULT_MAX_WORK | Some m \<Rightarrow> m)
          in case parseHunks parse_patch bytes of
               Inl _ \<Rightarrow> halt Malformed_payload None
             | Inr hunks \<Rightarrow>
                 if hunks = [] then PatchNoop content Header_only
                 else if maxHunks < int (length hunks)
                 then limitReached Limit_hunks (length hunks) maxHunks
                 else apply_hunks maxWork (length hunks) 0 0 (toLines content) 0 hunks)"

definition applyPatchContent ::
    "parse_patch \<Rightarrow> apply_options \<Rightarrow> jsstr \<Rightarrow> jsstr \<Rightarrow> apply_result" where
  "applyPatchContent parse_patch options content patchEventContent =
     applyPatchPayload parse_patch options content (findPatchPayload patchEventContent)"

type_synonym format_patch = "jsstr \<Rightarrow> jsstr \<Rightarrow> int \<Rightarrow> jsstr"

definition makePatch :: "format_patch \<Rightarrow> jsstr \<Rightarrow> jsstr \<Rightarrow> int \<Rightarrow> jsstr" where
  "makePatch format_patch before after context =
     (let formatted = format_patch before after context in
      if \<not> starts_with formatted (js ''='') then formatted
      else (case index_of LF formatted of
              None \<Rightarrow> formatted
            | Some firstBreak \<Rightarrow> drop (firstBreak + 1) formatted))"

section \<open>What application does\<close>

text \<open>
  The specification. \<open>located\<close> is T1 and T2: a hunk with a pattern goes where the pattern matches,
  and matches nowhere else; a hunk without one goes to its header's line, shifted and clamped.
  \<open>applies\<close> is T3: each hunk is located in what the ones before it produced.
\<close>

definition located :: "jsstr list \<Rightarrow> int \<Rightarrow> hunk \<Rightarrow> nat \<Rightarrow> bool" where
  "located ls shift h at \<longleftrightarrow>
     (if hk_oldPat h = [] then at = insertion_point ls shift h
      else \<forall>j. matches_at ls (hk_oldPat h) j \<longleftrightarrow> j = at)"

inductive applies ::
    "jsstr list \<Rightarrow> int \<Rightarrow> hunk list \<Rightarrow> jsstr list \<Rightarrow> int \<Rightarrow> nat \<Rightarrow> bool" where
  applies_nil: "applies ls shift [] ls shift 0"
| applies_cons:
    "located ls shift h at \<Longrightarrow> spliceAt ls h at = Some ls' \<Longrightarrow>
     applies ls' (shift + (int (lineCount ls') - int (lineCount ls))) hs ls'' shift' cost \<Longrightarrow>
     applies ls shift (h # hs) ls'' shift' (scanCost ls (hk_oldPat h) + cost)"

inductive_cases applies_nilE: "applies ls shift [] ls' shift' cost"
inductive_cases applies_consE: "applies ls shift (h # hs) ls' shift' cost"
inductive_simps applies_nil_iff [simp]: "applies ls shift [] ls' shift' cost"

lemma matches_card:
  "oc_count (occurrences ls p) = 0 \<longleftrightarrow> (\<forall>j. \<not> matches_at ls p j)"
  "1 < oc_count (occurrences ls p) \<longleftrightarrow> (\<exists>i j. i \<noteq> j \<and> matches_at ls p i \<and> matches_at ls p j)"
proof -
  have "{i. matches_at ls p i} = set (hits ls p)"
    by auto
  then have fin: "finite {i. matches_at ls p i}"
    by (simp only: finite_set)
  have n: "oc_count (occurrences ls p) = card {i. matches_at ls p i}"
    by (simp add: occurrences_hits length_hits)
  from fin show "oc_count (occurrences ls p) = 0 \<longleftrightarrow> (\<forall>j. \<not> matches_at ls p j)"
    by (simp only: n card_0_eq) blast
  have "1 < oc_count (occurrences ls p) \<longleftrightarrow> \<not> card {i. matches_at ls p i} \<le> Suc 0"
    by (simp only: n One_nat_def not_le)
  with fin show "1 < oc_count (occurrences ls p) \<longleftrightarrow>
      (\<exists>i j. i \<noteq> j \<and> matches_at ls p i \<and> matches_at ls p j)"
    by (simp only: card_le_Suc0_iff_eq) blast
qed

lemma located_insertion: "hk_oldPat h = [] \<Longrightarrow> located ls shift h at \<longleftrightarrow> at = insertion_point ls shift h"
  by (simp add: located_def)

lemma unique_occurrence_ex:
  assumes "oc_count (occurrences ls p) = 1"
  shows "\<exists>i. oc_first (occurrences ls p) = int i \<and> (\<forall>j. matches_at ls p j \<longleftrightarrow> j = i)"
proof (rule unique_occurrence [OF assms])
  fix i assume "oc_first (occurrences ls p) = int i" "matches_at ls p i"
    and "\<And>j. matches_at ls p j \<Longrightarrow> j = i"
  then show ?thesis by blast
qed

lemma locate_Inr: "locate ls shift h = Inr at \<longleftrightarrow> located ls shift h at"
proof (cases "hk_oldPat h = []")
  case False
  show ?thesis
  proof
    assume "locate ls shift h = Inr at"
    with False have one: "oc_count (occurrences ls (hk_oldPat h)) = 1"
      and at: "at = nat (oc_first (occurrences ls (hk_oldPat h)))"
      by (auto simp: locate_def Let_def split: if_splits)
    obtain i where i: "oc_first (occurrences ls (hk_oldPat h)) = int i"
        and m: "\<forall>j. matches_at ls (hk_oldPat h) j \<longleftrightarrow> j = i"
      using unique_occurrence_ex [OF one] by (elim exE conjE)
    from i at have "at = i" by simp
    with False m show "located ls shift h at"
      unfolding located_def by (simp only: if_False simp_thms)
  next
    assume "located ls shift h at"
    with False have m: "matches_at ls (hk_oldPat h) j \<longleftrightarrow> j = at" for j
      by (simp add: located_def)
    have "oc_count (occurrences ls (hk_oldPat h)) \<noteq> 0" "\<not> 1 < oc_count (occurrences ls (hk_oldPat h))"
      unfolding matches_card by (simp_all add: m)
    then have one: "oc_count (occurrences ls (hk_oldPat h)) = 1"
      by simp
    obtain i where "oc_first (occurrences ls (hk_oldPat h)) = int i"
        "\<forall>j. matches_at ls (hk_oldPat h) j \<longleftrightarrow> j = i"
      using unique_occurrence_ex [OF one] by (elim exE conjE)
    moreover from this(2) m have "i = at" by blast
    ultimately show "locate ls shift h = Inr at"
      using False one by (simp add: locate_def Let_def)
  qed
qed (auto simp: locate_def located_def)

lemma locate_Inl:
  "locate ls shift h = Inl r \<longleftrightarrow> hk_oldPat h \<noteq> [] \<and>
     ((r = No_match \<and> (\<forall>j. \<not> matches_at ls (hk_oldPat h) j)) \<or>
      (r = Ambiguous_match
        \<and> (\<exists>i j. i \<noteq> j \<and> matches_at ls (hk_oldPat h) i \<and> matches_at ls (hk_oldPat h) j)))"
  unfolding matches_card [symmetric]
  by (auto simp: locate_def Let_def)

text \<open>Why application stopped at the hunk \<open>h\<close>, on the lines \<open>ls\<close>.\<close>

definition stops_at :: "jsstr list \<Rightarrow> int \<Rightarrow> hunk \<Rightarrow> halt_reason \<Rightarrow> bool" where
  "stops_at ls shift h reason \<longleftrightarrow>
     (case reason of
        No_match \<Rightarrow> hk_oldPat h \<noteq> [] \<and> (\<forall>j. \<not> matches_at ls (hk_oldPat h) j)
      | Ambiguous_match \<Rightarrow> hk_oldPat h \<noteq> []
          \<and> (\<exists>i j. i \<noteq> j \<and> matches_at ls (hk_oldPat h) i \<and> matches_at ls (hk_oldPat h) j)
      | Eof_mismatch \<Rightarrow> (\<exists>at. located ls shift h at \<and> spliceAt ls h at = None)
      | Malformed_payload \<Rightarrow> False)"

text \<open>What a run over the hunks \<open>hs\<close> means, from any point of it on.\<close>

definition outcome ::
    "int \<Rightarrow> nat \<Rightarrow> nat \<Rightarrow> nat \<Rightarrow> jsstr list \<Rightarrow> int \<Rightarrow> hunk list \<Rightarrow> apply_result \<Rightarrow> bool" where
  "outcome maxWork hunkTotal index work ls shift hs r \<longleftrightarrow>
     (case r of
        PatchApplied content n w \<Rightarrow> n = hunkTotal \<and> (hs = [] \<or> int w \<le> maxWork)
          \<and> (\<exists>ls' shift' cost. applies ls shift hs ls' shift' cost \<and> w = work + cost
               \<and> content = fromLines ls')
      | PatchNoop _ _ \<Rightarrow> False
      | PatchHalt reason rule i is \<Rightarrow> rule = HALT_RULE reason \<and> is = haltIssues rule
          \<and> (\<exists>pre h post ls' shift' cost. hs = pre @ h # post \<and> i = Some (index + length pre)
               \<and> applies ls shift pre ls' shift' cost \<and> stops_at ls' shift' h reason)
      | PatchLimit kind observed ceiling is \<Rightarrow> kind = Limit_work \<and> ceiling = maxWork
          \<and> maxWork < int observed \<and> is = [cite (R_RL 3) Sev_warning]
          \<and> (\<exists>pre h post ls' shift' cost. hs = pre @ h # post
               \<and> applies ls shift pre ls' shift' cost
               \<and> observed = work + cost + scanCost ls' (hk_oldPat h)))"

lemma outcome_step:
  assumes "located ls shift h at" "spliceAt ls h at = Some ls1"
    and "int (work + scanCost ls (hk_oldPat h)) \<le> maxWork"
    and "outcome maxWork hunkTotal (index + 1) (work + scanCost ls (hk_oldPat h)) ls1
           (shift + (int (lineCount ls1) - int (lineCount ls))) hs r"
  shows "outcome maxWork hunkTotal index work ls shift (h # hs) r"
proof -
  note step = applies_cons [OF assms(1,2)]
  show ?thesis
  proof (cases r)
    case (PatchApplied c n w)
    with assms(3,4) show ?thesis
      by (auto simp: outcome_def add.assoc intro!: exI dest: step)
  next
    case (PatchHalt reason rule i "is")
    with assms(4) obtain pre g post ls' shift' cost where
      "rule = HALT_RULE reason" "is = haltIssues rule" "hs = pre @ g # post"
      "i = Some (index + 1 + length pre)"
      "applies ls1 (shift + (int (lineCount ls1) - int (lineCount ls))) pre ls' shift' cost"
      "stops_at ls' shift' g reason"
      by (auto simp: outcome_def)
    then have "h # hs = (h # pre) @ g # post" "i = Some (index + length (h # pre))"
        "applies ls shift (h # pre) ls' shift' (scanCost ls (hk_oldPat h) + cost)"
      by (simp_all add: step)
    with PatchHalt \<open>stops_at ls' shift' g reason\<close> \<open>rule = _\<close> \<open>is = _\<close> show ?thesis
      unfolding outcome_def by (simp only: apply_result.case) blast
  next
    case (PatchLimit kind observed ceiling "is")
    with assms(4) obtain pre g post ls' shift' cost where
      "kind = Limit_work \<and> ceiling = maxWork \<and> maxWork < int observed \<and> is = [cite (R_RL 3) Sev_warning]"
      "hs = pre @ g # post"
      "applies ls1 (shift + (int (lineCount ls1) - int (lineCount ls))) pre ls' shift' cost"
      "observed = work + scanCost ls (hk_oldPat h) + cost + scanCost ls' (hk_oldPat g)"
      by (auto simp: outcome_def)
    then have "h # hs = (h # pre) @ g # post"
        "applies ls shift (h # pre) ls' shift' (scanCost ls (hk_oldPat h) + cost)"
        "observed = work + (scanCost ls (hk_oldPat h) + cost) + scanCost ls' (hk_oldPat g)"
      by (simp_all add: step)
    with PatchLimit \<open>kind = Limit_work \<and> _\<close> show ?thesis
      unfolding outcome_def by (simp only: apply_result.case) blast
  qed (use assms(4) in \<open>simp add: outcome_def\<close>)
qed

lemma apply_hunks_outcome:
  "outcome maxWork hunkTotal index work ls shift hs (apply_hunks maxWork hunkTotal index work ls shift hs)"
proof (induction hs arbitrary: index work ls shift)
  case Nil
  show ?case by (simp add: outcome_def)
next
  case (Cons h hs)
  let ?cost = "scanCost ls (hk_oldPat h)"
  have here: "h # hs = [] @ h # hs" "index = index + length []" "applies ls shift [] ls shift 0"
    by simp_all
  show ?case
  proof (cases "maxWork < int (work + ?cost)")
    case True
    then show ?thesis
      by (auto simp: Let_def limitReached_def outcome_def intro!: exI [of _ "[]"])
  next
    case False
    show ?thesis
    proof (cases "locate ls shift h")
      case (Inl reason)
      then have "stops_at ls shift h reason"
        unfolding stops_at_def locate_Inl by (elim conjE disjE) (simp, blast?)+
      then have "outcome maxWork hunkTotal index work ls shift (h # hs) (halt reason (Some index))"
        unfolding outcome_def halt_def apply_result.case using here by blast
      with Inl False show ?thesis
        by (simp add: Let_def)
    next
      case (Inr at)
      then have at: "located ls shift h at" by (simp add: locate_Inr)
      show ?thesis
      proof (cases "spliceAt ls h at")
        case None
        with at have "stops_at ls shift h Eof_mismatch"
          by (auto simp: stops_at_def)
        then have "outcome maxWork hunkTotal index work ls shift (h # hs) (halt Eof_mismatch (Some index))"
          unfolding outcome_def halt_def apply_result.case using here by blast
        with Inr False None show ?thesis
          by (simp add: Let_def)
      next
        case (Some ls1)
        with False Inr show ?thesis
          using outcome_step [OF at Some _ Cons.IH] by (simp add: Let_def)
      qed
    qed
  qed
qed


lemma applies_run:
  "applies ls shift hs ls' shift' cost \<Longrightarrow> int (work + cost) \<le> maxWork \<Longrightarrow>
     apply_hunks maxWork hunkTotal index work ls shift hs = PatchApplied (fromLines ls') hunkTotal (work + cost)"
proof (induction arbitrary: index work rule: applies.induct)
  case (applies_cons ls shift h at ls1 hs ls2 shift' cost)
  then show ?case
    by (simp add: Let_def add.assoc locate_Inr [THEN iffD2, OF applies_cons.hyps(1)])
qed simp

definition hunk_ceiling :: "apply_options \<Rightarrow> int" where
  "hunk_ceiling options = (case ao_maxHunks options of None \<Rightarrow> 64 | Some m \<Rightarrow> m)"

definition work_ceiling :: "apply_options \<Rightarrow> int" where
  "work_ceiling options = (case ao_maxWork options of None \<Rightarrow> 16777216 | Some m \<Rightarrow> m)"

lemma applyPatchPayload_cases:
  "applyPatchPayload parse options content payload =
     (case payload of
        None \<Rightarrow> PatchNoop content Prose_only
      | Some bytes \<Rightarrow>
          (case parseHunks parse bytes of
             Inl _ \<Rightarrow> halt Malformed_payload None
           | Inr hunks \<Rightarrow>
               if hunks = [] then PatchNoop content Header_only
               else if hunk_ceiling options < int (length hunks)
               then limitReached Limit_hunks (length hunks) (hunk_ceiling options)
               else apply_hunks (work_ceiling options) (length hunks) 0 0 (toLines content) 0 hunks))"
proof -
  have "DEFAULT_MAX_WORK = 16777216"
    by (simp add: DEFAULT_MAX_WORK_def)
  then show ?thesis
    unfolding applyPatchPayload_def hunk_ceiling_def work_ceiling_def DEFAULT_MAX_HUNKS_def Let_def
    by (simp only:)
qed

text \<open>
  C28. A payload is applied exactly when it parses into at least one hunk and at most the ceiling,
  every hunk in order either matches at exactly one position of what the hunks before it produced
  (T1, T3) or is an insertion at its shifted and clamped line (T2), every splice agrees with the
  end-of-file markers, and the searches stay within the work budget. The result is then the spliced
  content, the number of hunks and the exact cost of the searches.
\<close>

theorem applied_iff:
  "applyPatchPayload parse options content payload = PatchApplied result n w \<longleftrightarrow>
     (\<exists>bytes hunks ls' shift'. payload = Some bytes \<and> parseHunks parse bytes = Inr hunks
        \<and> hunks \<noteq> [] \<and> n = length hunks \<and> int n \<le> hunk_ceiling options
        \<and> applies (toLines content) 0 hunks ls' shift' w \<and> int w \<le> work_ceiling options
        \<and> result = fromLines ls')"
    (is "?l \<longleftrightarrow> ?r")
proof
  assume l: ?l
  then obtain bytes hunks where p: "payload = Some bytes" "parseHunks parse bytes = Inr hunks"
      "hunks \<noteq> []" "int (length hunks) \<le> hunk_ceiling options"
    and run: "apply_hunks (work_ceiling options) (length hunks) 0 0 (toLines content) 0 hunks
      = PatchApplied result n w"
    by (auto simp: applyPatchPayload_cases halt_def limitReached_def split: option.splits sum.splits if_splits)
  have "outcome (work_ceiling options) (length hunks) 0 0 (toLines content) 0 hunks
      (PatchApplied result n w)"
    unfolding run [symmetric] by (rule apply_hunks_outcome)
  with p show ?r
    unfolding outcome_def by auto
next
  assume ?r
  then show ?l
    by (auto simp: applyPatchPayload_cases dest: applies_run [where work = 0])
qed

text \<open>
  C29. Every other outcome is accounted for. A no-op returns the content it was given, and is the
  absence of a payload or a payload that parses to no hunk. A halt is a payload that does not parse,
  or a first hunk (its index reported) that matches nowhere, matches twice, or contradicts an
  end-of-file marker, after all the hunks before it applied. A limit is too many hunks, or a first
  search that would exceed the budget; its observed value exceeds the ceiling reported. So neither a
  halt nor a limit carries content: application is atomic.
\<close>

theorem apply_outcome:
  "case applyPatchPayload parse options content payload of
     PatchApplied _ n _ \<Rightarrow> 0 < n
   | PatchNoop same shape \<Rightarrow> same = content
       \<and> (case shape of Prose_only \<Rightarrow> payload = None
          | Header_only \<Rightarrow> \<exists>bytes. payload = Some bytes \<and> parseHunks parse bytes = Inr [])
   | PatchHalt reason rule None _ \<Rightarrow> reason = Malformed_payload
       \<and> (\<exists>bytes e. payload = Some bytes \<and> parseHunks parse bytes = Inl e)
   | PatchHalt reason rule (Some i) _ \<Rightarrow>
       (\<exists>bytes pre h post ls' shift' cost. payload = Some bytes
          \<and> parseHunks parse bytes = Inr (pre @ h # post) \<and> i = length pre
          \<and> applies (toLines content) 0 pre ls' shift' cost \<and> stops_at ls' shift' h reason)
   | PatchLimit kind observed ceiling _ \<Rightarrow> ceiling < int observed
       \<and> (\<exists>bytes hunks. payload = Some bytes \<and> parseHunks parse bytes = Inr hunks
          \<and> (case kind of
               Limit_hunks \<Rightarrow> observed = length hunks \<and> ceiling = hunk_ceiling options
             | Limit_work \<Rightarrow> ceiling = work_ceiling options
                 \<and> (\<exists>pre h post ls' shift' cost. hunks = pre @ h # post
                      \<and> applies (toLines content) 0 pre ls' shift' cost
                      \<and> observed = cost + scanCost ls' (hk_oldPat h))))"
proof (cases payload)
  case (Some bytes)
  show ?thesis
  proof (cases "parseHunks parse bytes")
    case (Inr hunks)
    let ?run = "apply_hunks (work_ceiling options) (length hunks) 0 0 (toLines content) 0 hunks"
    have o: "outcome (work_ceiling options) (length hunks) 0 0 (toLines content) 0 hunks ?run"
      by (rule apply_hunks_outcome)
    show ?thesis
    proof (cases "hunks = [] \<or> hunk_ceiling options < int (length hunks)")
      case True
      with Some Inr show ?thesis
        by (auto simp: applyPatchPayload_cases limitReached_def)
    next
      case False
      with Some Inr have run: "applyPatchPayload parse options content payload = ?run"
        by (simp add: applyPatchPayload_cases)
      show ?thesis
      proof (cases ?run)
        case (PatchHalt reason rule i "is")
        with o obtain pre h post ls' shift' cost where
          "hunks = pre @ h # post" "i = Some (length pre)"
          "applies (toLines content) 0 pre ls' shift' cost" "stops_at ls' shift' h reason"
          by (auto simp: outcome_def)
        with Some Inr show ?thesis
          unfolding run PatchHalt apply_result.case by (simp only: option.case) blast
      next
        case (PatchLimit kind observed ceiling "is")
        with o have "kind = Limit_work" "ceiling = work_ceiling options" "ceiling < int observed"
          "\<exists>pre h post ls' shift' cost. hunks = pre @ h # post
             \<and> applies (toLines content) 0 pre ls' shift' cost
             \<and> observed = cost + scanCost ls' (hk_oldPat h)"
          by (auto simp: outcome_def)
        with Some Inr show ?thesis
          unfolding run PatchLimit apply_result.case by (simp only: limit_kind.case) blast
      qed (use o False in \<open>auto simp: run outcome_def\<close>)
    qed
  qed (use Some in \<open>simp add: applyPatchPayload_cases halt_def\<close>)
qed (simp add: applyPatchPayload_cases)

definition application_citations :: "rule_id list" where
  "application_citations = [R_T 1, R_C 5, R_H 1, R_RL 3]"

lemma application_citations_sound:
  "\<forall>c \<in> set application_citations. citable c \<and> layer_of c = Some Layer_A"
  by (simp add: application_citations_def registry_simps)

lemmas application_rules [simp] =
  application_citations_sound [unfolded application_citations_def, simplified]

lemma halt_shape:
  assumes "applyPatchPayload parse options content payload = PatchHalt reason rule i is"
  shows "rule = HALT_RULE reason \<and> is = haltIssues rule"
proof -
  from assms consider "PatchHalt reason rule i is = halt Malformed_payload None"
    | hunks where "apply_hunks (work_ceiling options) (length hunks) 0 0 (toLines content) 0 hunks
        = PatchHalt reason rule i is"
    by (auto simp: applyPatchPayload_cases limitReached_def split: option.splits sum.splits if_splits)
  then show ?thesis
  proof cases
    case (2 hunks)
    then have "outcome (work_ceiling options) (length hunks) 0 0 (toLines content) 0 hunks
        (PatchHalt reason rule i is)"
      by (metis apply_hunks_outcome)
    then show ?thesis by (simp add: outcome_def)
  qed (simp add: halt_def)
qed

lemma limit_shape:
  assumes "applyPatchPayload parse options content payload = PatchLimit kind observed ceiling is"
  shows "is = [cite (R_RL 3) Sev_warning]"
proof -
  from assms consider m where "limitReached Limit_hunks m (hunk_ceiling options)
      = PatchLimit kind observed ceiling is"
    | hunks where "apply_hunks (work_ceiling options) (length hunks) 0 0 (toLines content) 0 hunks
        = PatchLimit kind observed ceiling is"
    by (auto simp: applyPatchPayload_cases halt_def split: option.splits sum.splits if_splits)
  then show ?thesis
  proof cases
    case (2 hunks)
    then have "outcome (work_ceiling options) (length hunks) 0 0 (toLines content) 0 hunks
        (PatchLimit kind observed ceiling is)"
      by (metis apply_hunks_outcome)
    then show ?thesis by (simp add: outcome_def)
  qed (simp add: limitReached_def)
qed

text \<open>
  Failures to apply are annotations and nothing more: each issue is a warning that cites a
  citable Application rule. A halt cites H1, and its own rule before it where there is a more
  specific one; a limit cites RL-3 alone, so a limit never reads as a halt.
\<close>

theorem apply_issues:
  "case applyPatchPayload parse options content payload of
     PatchHalt reason rule _ is \<Rightarrow>
       map is_code is = (if reason = Malformed_payload then [R_H 1] else [HALT_RULE reason, R_H 1])
       \<and> rule = HALT_RULE reason \<and> R_RL 3 \<notin> is_code ` set is
       \<and> list_all (\<lambda>i. is_severity i = Sev_warning \<and> is_layer i = Some Layer_A
            \<and> issue (is_code i) Sev_warning = Inr i) is
   | PatchLimit _ _ _ is \<Rightarrow> is = [cite (R_RL 3) Sev_warning]
       \<and> is_layer (cite (R_RL 3) Sev_warning) = Some Layer_A
   | _ \<Rightarrow> True"
proof -
  have halt: "list_all (\<lambda>i. is_severity i = Sev_warning \<and> is_layer i = Some Layer_A
            \<and> issue (is_code i) Sev_warning = Inr i) (haltIssues (HALT_RULE reason))
        \<and> map is_code (haltIssues (HALT_RULE reason))
          = (if reason = Malformed_payload then [R_H 1] else [HALT_RULE reason, R_H 1])" for reason
    by (cases reason) (simp_all add: haltIssues_def HALT_RULE_def cite_layer issue_cite)
  then have codes: "is_code ` set (haltIssues (HALT_RULE reason)) \<subseteq> {R_T 1, R_C 5, R_H 1}" for reason
    by (cases reason) (simp_all add: haltIssues_def HALT_RULE_def)
  show ?thesis
  proof (cases "applyPatchPayload parse options content payload")
    case (PatchHalt reason rule i "is")
    with halt_shape [OF PatchHalt] halt [of reason] codes [of reason] show ?thesis by auto
  next
    case (PatchLimit kind observed ceiling "is")
    with limit_shape [OF PatchLimit] show ?thesis by (simp add: cite_layer)
  qed simp_all
qed


section \<open>Widening\<close>

text \<open>The trial's reading of a hunk list: insertions are skipped, every other hunk is unique.\<close>

fun trial_unique :: "jsstr list \<Rightarrow> hunk list \<Rightarrow> bool" where
  "trial_unique ls [] = True"
| "trial_unique ls (h # hs) =
     (if hk_oldPat h = [] then trial_unique ls hs
      else (case locate ls 0 h of
              Inl _ \<Rightarrow> False
            | Inr at \<Rightarrow> (case spliceAt ls h at of None \<Rightarrow> False | Some ls' \<Rightarrow> trial_unique ls' hs)))"

lemma widen_trial_unique:
  "(\<forall>w. widen_trial ceiling work ls hs = Trial_unique w \<longrightarrow> trial_unique ls hs)
   \<and> (\<forall>w. widen_trial ceiling work ls hs = Trial_ambiguous w \<longrightarrow> \<not> trial_unique ls hs)"
proof (induction hs arbitrary: work ls)
  case (Cons h hs)
  let ?oc = "occurrences ls (hk_oldPat h)"
  have loc: "locate ls 0 h = (if oc_count ?oc = 0 then Inl No_match
      else if 1 < oc_count ?oc then Inl Ambiguous_match else Inr (nat (oc_first ?oc)))"
    if "hk_oldPat h \<noteq> []"
    using that by (simp add: locate_def Let_def)
  show ?case
  proof (cases "hk_oldPat h = [] \<or> oc_count ?oc \<noteq> 1")
    case True
    with Cons loc show ?thesis by (auto simp: Let_def)
  next
    case False
    with loc have "locate ls 0 h = Inr (nat (oc_first ?oc))" by simp
    with False Cons show ?thesis
      by (auto simp: Let_def split: option.splits)
  qed
qed simp

text \<open>With no pure insertion among the hunks, the trial is the applier's own reading of them.\<close>

lemma trial_unique_applies:
  "\<forall>h \<in> set hs. hk_oldPat h \<noteq> [] \<Longrightarrow>
     trial_unique ls hs \<longleftrightarrow> (\<exists>ls' shift' cost. applies ls shift hs ls' shift' cost)"
proof (induction hs arbitrary: ls shift)
  case (Cons h hs)
  have loc: "locate ls 0 h = locate ls shift h"
    using Cons.prems by (simp add: locate_def)
  show ?case
  proof
    assume "trial_unique ls (h # hs)"
    with Cons.prems obtain at ls1 where "locate ls shift h = Inr at" "spliceAt ls h at = Some ls1"
        "trial_unique ls1 hs"
      by (auto simp: loc split: sum.splits option.splits)
    with Cons show "\<exists>ls' shift' cost. applies ls shift (h # hs) ls' shift' cost"
      by (metis applies_cons list.set_intros(2) locate_Inr)
  next
    assume "\<exists>ls' shift' cost. applies ls shift (h # hs) ls' shift' cost"
    then obtain at ls1 s ls' shift' cost where "located ls shift h at" "spliceAt ls h at = Some ls1" and
        run: "applies ls1 s hs ls' shift' cost"
      by (auto elim: applies_consE)
    moreover from this have "locate ls 0 h = Inr at" by (simp add: loc locate_Inr)
    moreover have "trial_unique ls1 hs"
      using Cons.IH [of ls1 s] Cons.prems run by auto
    ultimately show "trial_unique ls (h # hs)"
      using Cons.prems by simp
  qed
qed (auto intro: applies_nil)

lemma widen_loop_spec:
  "ctx \<le> full \<Longrightarrow> widen_loop structured before after full ceiling work ctx = Inr r \<Longrightarrow>
     ctx \<le> wr_context r \<and> wr_context r \<le> full
     \<and> diffHunks structured before after (wr_context r) = Inr (wr_hunks r)
     \<and> (\<not> wr_exhausted r \<longrightarrow> trial_unique (toLines before) (wr_hunks r))
     \<and> (\<forall>c. ctx \<le> c \<and> c < wr_context r \<longrightarrow>
          (\<exists>hs. diffHunks structured before after c = Inr hs \<and> \<not> trial_unique (toLines before) hs))"
proof (induction "nat (full - ctx)" arbitrary: ctx work rule: less_induct)
  case (less ctx)
  from less.prems(1) have cap: "min ctx full = ctx" by simp
  note unf = widen_loop.simps [of structured before after full ceiling work ctx]
  show ?case
  proof (cases "diffHunks structured before after ctx")
    case (Inl e)
    with less.prems show ?thesis by (simp add: unf cap Let_def)
  next
    case (Inr hs)
    show ?thesis
    proof (cases "widen_trial ceiling work (toLines before) hs")
      case Trial_work
      with less.prems Inr show ?thesis by (auto simp: unf cap Let_def)
    next
      case (Trial_unique w)
      moreover from this have "trial_unique (toLines before) hs"
        using widen_trial_unique by blast
      ultimately show ?thesis
        using less.prems Inr by (auto simp: unf cap Let_def)
    next
      case (Trial_ambiguous w)
      then have no: "\<not> trial_unique (toLines before) hs"
        using widen_trial_unique by blast
      show ?thesis
      proof (cases "ctx = full")
        case True
        with less.prems(2) Inr Trial_ambiguous
        have "r = \<lparr>wr_context = full, wr_hunks = hs, wr_exhausted = True\<rparr>"
          unfolding unf by (simp add: Let_def)
        with Inr True show ?thesis by auto
      next
        case False
        with less.prems Inr Trial_ambiguous
        have "widen_loop structured before after full ceiling w (ctx + 1) = Inr r"
          by (simp add: unf cap Let_def)
        with False less.prems(1) less.hyps [of "ctx + 1" w]
        have IH: "ctx + 1 \<le> wr_context r" "wr_context r \<le> full"
            "diffHunks structured before after (wr_context r) = Inr (wr_hunks r)"
            "\<not> wr_exhausted r \<longrightarrow> trial_unique (toLines before) (wr_hunks r)"
            "\<forall>c. ctx + 1 \<le> c \<and> c < wr_context r \<longrightarrow>
              (\<exists>hs. diffHunks structured before after c = Inr hs \<and> \<not> trial_unique (toLines before) hs)"
          by auto
        have "\<exists>hs. diffHunks structured before after c = Inr hs \<and> \<not> trial_unique (toLines before) hs"
          if "ctx \<le> c" "c < wr_context r" for c
          using that IH(5) Inr no by (cases "c = ctx") auto
        with IH show ?thesis by auto
      qed
    qed
  qed
qed


text \<open>
  Widening is the linear search it claims to be. If it ends without exhausting its budget, then
  it ends with the hunks of some context between the starting one and the whole file, the trial finds
  each of them unique, and at every smaller context from the start on some hunk was not. If moreover
  no hunk is a pure insertion, then those hunks apply to the content they were made from, by the
  applier's own specification.
\<close>

theorem widenContext_spec:
  assumes "start \<le> int (max (lineCount (toLines before)) (lineCount (toLines after)))"
    and "widenContext structured before after start ceiling = Inr r"
  shows "start \<le> wr_context r
     \<and> wr_context r \<le> int (max (lineCount (toLines before)) (lineCount (toLines after)))
     \<and> diffHunks structured before after (wr_context r) = Inr (wr_hunks r)
     \<and> (\<forall>c. start \<le> c \<and> c < wr_context r \<longrightarrow>
          (\<exists>hs. diffHunks structured before after c = Inr hs \<and> \<not> trial_unique (toLines before) hs))
     \<and> (\<not> wr_exhausted r \<longrightarrow> trial_unique (toLines before) (wr_hunks r)
          \<and> ((\<forall>h \<in> set (wr_hunks r). hk_oldPat h \<noteq> []) \<longrightarrow>
               (\<exists>ls' shift' cost. applies (toLines before) 0 (wr_hunks r) ls' shift' cost)))"
proof -
  have "start \<le> wr_context r
     \<and> wr_context r \<le> int (max (lineCount (toLines before)) (lineCount (toLines after)))
     \<and> diffHunks structured before after (wr_context r) = Inr (wr_hunks r)
     \<and> (\<not> wr_exhausted r \<longrightarrow> trial_unique (toLines before) (wr_hunks r))
     \<and> (\<forall>c. start \<le> c \<and> c < wr_context r \<longrightarrow>
          (\<exists>hs. diffHunks structured before after c = Inr hs \<and> \<not> trial_unique (toLines before) hs))"
    using assms unfolding widenContext_def by (rule widen_loop_spec)
  then show ?thesis
    using trial_unique_applies [of "wr_hunks r" "toLines before" 0] by blast
qed

text \<open>A diff of the contents \<open>a\n\<close> and \<open>c\n\<close> at any context: one hunk.\<close>

definition sample_structured :: "jsstr \<Rightarrow> jsstr \<Rightarrow> int \<Rightarrow> raw_hunk list" where
  "sample_structured before after context =
     [\<lparr>rw_oldStart = 1, rw_oldLines = 1, rw_lines = [js ''-a'', js ''+c'']\<rparr>]"

lemmas sample_patch_simps = sample_structured_def widenContext_def widen_loop.simps diffHunks_def
  reduceHunk_def reduce_line_def toLines_def LF_def js_def cu_def lineCount_def scanCost_def
  occurrences_def occurrence_step_def spliceAt_def

lemma widenContext_spec_witness:
  "\<exists>r. widenContext sample_structured (js ''a'' @ [LF]) (js ''c'' @ [LF]) 0 1000 = Inr r
     \<and> wr_context r = 0
     \<and> (\<exists>ls' shift' cost. applies (toLines (js ''a'' @ [LF])) 0 (wr_hunks r) ls' shift' cost)"
proof -
  have h: "diffHunks sample_structured b a c =
      Inr [\<lparr>hk_oldPat = [js ''a''], hk_newRep = [js ''c''], hk_oldNoEol = False,
            hk_newNoEol = False, hk_insertAt = 0\<rparr>]" for b a c
    by (simp add: sample_patch_simps)
  have run: "widenContext sample_structured (js ''a'' @ [LF]) (js ''c'' @ [LF]) 0 1000 =
      Inr \<lparr>wr_context = 0, wr_hunks = [\<lparr>hk_oldPat = [js ''a''], hk_newRep = [js ''c''],
            hk_oldNoEol = False, hk_newNoEol = False, hk_insertAt = 0\<rparr>], wr_exhausted = False\<rparr>"
    unfolding widenContext_def
    by (subst widen_loop.simps) (simp add: h; simp add: sample_patch_simps)
  have "(0 :: int) \<le> int (max (lineCount (toLines (js ''a'' @ [LF]))) (lineCount (toLines (js ''c'' @ [LF]))))"
    by simp
  from widenContext_spec [OF this run] run show ?thesis
    by simp
qed

lemma toLines_empty: "set content \<subseteq> {LF} \<longleftrightarrow> set (toLines content) \<subseteq> {[]}"
  unfolding toLines_def
  by (induction content) (auto split: list.splits)

lemma tl_snoc_eq: "tl (p @ [x]) = p \<longleftrightarrow> set p \<subseteq> {x}"
proof (induction p)
  case (Cons y p)
  show ?case
    by (cases p) (use Cons in auto)
qed simp

text \<open>
  A pattern that spans the whole file occurs once, unless the file holds nothing but line
  feeds: then it occurs twice, at the start and over the element that carries the final newline.
\<close>

theorem full_file_pattern:
  "oc_count (occurrences (toLines content) (take (lineCount (toLines content)) (toLines content))) =
     (if set content \<subseteq> {LF} then 2 else 1)"
proof -
  define ls where "ls = toLines content"
  define p where "p = take (lineCount ls) ls"
  have ne: "ls \<noteq> []"
    by (simp add: ls_def toLines_def)
  have count: "oc_count (occurrences ls p) = card {i. matches_at ls p i}"
    by (simp add: occurrences_hits length_hits)
  show ?thesis
  proof (cases "last ls = []")
    case False
    then have "p = ls" by (simp add: p_def lineCount_def)
    then have "{i. matches_at ls p i} = {0}"
      by (auto simp: matches_at_def)
    moreover have "\<not> set content \<subseteq> {LF}"
      using False ne last_in_set [OF ne] unfolding toLines_empty ls_def [symmetric] by blast
    ultimately show ?thesis
      using count by (simp add: ls_def [symmetric] p_def [symmetric])
  next
    case True
    then have "p = butlast ls"
      using ne by (simp add: p_def lineCount_def butlast_conv_take)
    then have p: "ls = p @ [[]]"
      using append_butlast_last_id [OF ne] True by simp
    then have "matches_at ls p 0" "matches_at ls p 1 \<longleftrightarrow> tl (p @ [[]]) = p"
      by (simp_all add: matches_at_def drop_Suc del: tl_append2) (cases p; simp)
    moreover have "matches_at ls p i \<Longrightarrow> i \<le> 1" for i
      using p by (auto simp: matches_at_def)
    ultimately have "{i. matches_at ls p i} = (if set p \<subseteq> {[]} then {0, 1} else {0})"
      unfolding tl_snoc_eq by (auto simp: le_Suc_eq)
    moreover have "set content \<subseteq> {LF} \<longleftrightarrow> set p \<subseteq> {[]}"
      unfolding toLines_empty ls_def [symmetric] by (subst p) auto
    ultimately show ?thesis
      using count by (simp add: ls_def [symmetric] p_def [symmetric])
  qed
qed

text \<open>
  The trial skips a pure insertion without splicing it, and the applier does not: a hunk list
  that widening calls unique can be ambiguous to the applier. The hunks here insert a line \<open>b\<close> at the
  top and then replace the line \<open>b\<close>, over the content \<open>a\nb\n\<close>.
\<close>

theorem widening_skips_insertions:
  "let ls = toLines (js ''a'' @ [LF] @ js ''b'' @ [LF]);
       hunks = [\<lparr>hk_oldPat = [], hk_newRep = [js ''b''], hk_oldNoEol = False, hk_newNoEol = False,
                 hk_insertAt = 0\<rparr>,
                \<lparr>hk_oldPat = [js ''b''], hk_newRep = [js ''c''], hk_oldNoEol = False,
                 hk_newNoEol = False, hk_insertAt = 1\<rparr>]
   in widen_trial 1000 0 ls hunks = Trial_unique 6
      \<and> apply_hunks 1000 2 0 0 ls 0 hunks = halt Ambiguous_match (Some 1)"
  by (simp add: sample_patch_simps locate_def insertion_point_def upt_rec)

end
