(* ===== verification/Resolve.thy ===== *)
theory Resolve
  imports Patch Events
begin

text \<open>
  \<open>packages/core/src/resolve.ts\<close>: the canonical chain of a product or metadata event, forks, halts,
  and the overlays of other authors. \<open>resolve\<close> takes the observed events in some order and is the
  composition of the phases of the code: the partition of the observed set, deletions, the memoised
  lineage classification, the deletion cascade, the walk, the application with overlays classified
  in step, and the assembly of the result. Messages of annotations are left out.
\<close>

section \<open>Results\<close>

datatype absent_reason = Root_unobserved | Root_not_patchable

datatype chain_state =
    Chain_resolved jsstr jsstr "jsstr list"
  | Chain_halted jsstr jsstr "jsstr list" jsstr halt_reason
  | Chain_forked jsstr jsstr "jsstr list"
  | Chain_aborted jsstr jsstr "jsstr list" jsstr limit_kind
  | Chain_absent absent_reason

datatype overlay_state = Clean | Conflict | Stale | Orphaned | Unclassified

datatype degradation = Alpha | Beta

record overlay =
  ov_id :: jsstr
  ov_author :: jsstr
  ov_targetId :: jsstr
  ov_state :: overlay_state
  ov_degradation :: "degradation option"

record fork_branch =
  fb_id :: jsstr
  fb_author :: jsstr
  fb_createdAt :: int

datatype annotation =
    Protocol_error jsstr jsstr halt_reason "issue list"
  | Resource_limit jsstr jsstr "issue list"
  | Self_fork jsstr "fork_branch list" "issue list"

record resolution =
  re_chain :: chain_state
  re_overlays :: "overlay list"
  re_pending :: "jsstr list"
  re_annotations :: "annotation list"

section \<open>Deletions and the cascade\<close>

definition honours :: "nostr_event dict \<Rightarrow> nostr_event \<Rightarrow> e_tag_ref \<Rightarrow> bool" where
  "honours byId deletion ref \<longleftrightarrow>
     (case dget byId (er_id ref) of
        None \<Rightarrow> False
      | Some target \<Rightarrow> ev_kind target \<noteq> DELETION_KIND \<and> ev_pubkey target = ev_pubkey deletion)"

definition honouredDeletions :: "nostr_event list \<Rightarrow> nostr_event dict \<Rightarrow> jsstr list" where
  "honouredDeletions deletions byId =
     fold (\<lambda>deletion deleted.
         fold (\<lambda>ref deleted. if honours byId deletion ref then sadd (er_id ref) deleted else deleted)
           (eTags deletion) deleted)
       deletions []"

text \<open>One round of the fixed point, and the rounds until nothing changes.\<close>

definition cascade_step :: "nostr_event \<Rightarrow> jsstr list \<times> bool \<Rightarrow> jsstr list \<times> bool" where
  "cascade_step patch st =
     (case st of (removed, changed) \<Rightarrow>
        if ev_id patch \<in> set removed then st
        else (case replyTarget patch of
                None \<Rightarrow> st
              | Some parent \<Rightarrow>
                  if parent \<in> set removed then (sadd (ev_id patch) removed, True) else st))"

definition cascade_round :: "nostr_event list \<Rightarrow> jsstr list \<Rightarrow> jsstr list \<times> bool" where
  "cascade_round candidates removed = fold cascade_step candidates (removed, False)"

lemma cascade_step_facts:
  assumes "cascade_step p (r, c) = (r', c')"
  shows "set r \<subseteq> set r' \<and> set r' \<subseteq> insert (ev_id p) (set r) \<and> (c' \<longrightarrow> c \<or> ev_id p \<in> set r' - set r)"
  using assms by (auto simp: cascade_step_def split: if_splits option.splits)

lemma cascade_fold_facts:
  "fold cascade_step ps (r, c) = (r', c') \<Longrightarrow>
     set r \<subseteq> set r' \<and> set r' \<subseteq> ev_id ` set ps \<union> set r
     \<and> (c' \<longrightarrow> c \<or> (\<exists>x \<in> ev_id ` set ps. x \<in> set r' - set r))"
proof (induction ps arbitrary: r c)
  case (Cons p ps)
  obtain r1 c1 where step: "cascade_step p (r, c) = (r1, c1)"
    by fastforce
  with Cons.prems have "fold cascade_step ps (r1, c1) = (r', c')" by simp
  from Cons.IH [OF this] cascade_step_facts [OF step] show ?case
    by auto
qed simp

function cascade_loop :: "nostr_event list \<Rightarrow> jsstr list \<Rightarrow> jsstr list" where
  "cascade_loop candidates removed =
     (case cascade_round candidates removed of
        (removed', changed) \<Rightarrow> if changed then cascade_loop candidates removed' else removed')"
  by pat_completeness auto
termination
proof (relation "measure (\<lambda>(cs, r). card (ev_id ` set cs - set r))")
  fix cs r r' c
  assume "(r', c) = cascade_round cs r" and c
  then have "fold cascade_step cs (r, False) = (r', True)"
    by (simp add: cascade_round_def)
  then have "set r \<subseteq> set r'" "\<exists>x \<in> ev_id ` set cs. x \<in> set r' - set r"
    using cascade_fold_facts [of cs r False r' True] by auto
  then have "ev_id ` set cs - set r' \<subset> ev_id ` set cs - set r"
    by blast
  then show "((cs, r'), (cs, r)) \<in> measure (\<lambda>(cs, r). card (ev_id ` set cs - set r))"
    by (simp add: psubset_card_mono)
qed simp

declare cascade_loop.simps [simp del]

definition cascade :: "nostr_event list \<Rightarrow> jsstr list \<Rightarrow> jsstr list" where
  "cascade candidates deleted =
     cascade_loop candidates
       (set_of (map ev_id (filter (\<lambda>p. ev_id p \<in> set deleted) candidates)))"

section \<open>Lineage\<close>

datatype eligibility = El_chain | El_held | El_ignored

function classify ::
    "nostr_event dict \<Rightarrow> jsstr \<Rightarrow> jsstr \<Rightarrow> nostr_event \<Rightarrow> eligibility dict \<Rightarrow>
     eligibility \<times> eligibility dict" where
  "classify byId rootId rootKey patch memo =
     (case dget memo (ev_id patch) of
        Some prior \<Rightarrow> (prior, memo)
      | None \<Rightarrow>
          let memo1 = dset (ev_id patch) El_ignored memo in
          (case replyTarget patch of
             None \<Rightarrow> (El_ignored, dset (ev_id patch) El_ignored memo1)
           | Some parentId \<Rightarrow>
               if parentId = rootId then (El_chain, dset (ev_id patch) El_chain memo1)
               else
                 (case dget byId parentId of
                    None \<Rightarrow> (El_held, dset (ev_id patch) El_held memo1)
                  | Some parent \<Rightarrow>
                      if ev_pubkey parent \<noteq> rootKey
                      then (El_ignored, dset (ev_id patch) El_ignored memo1)
                      else
                        (case classify byId rootId rootKey parent memo1 of
                           (cls, memo2) \<Rightarrow> (cls, dset (ev_id patch) cls memo2)))))"
  by pat_completeness auto
termination
proof (relation "measure (\<lambda>(byId, _, _, patch, memo).
    let ids = ev_id ` set (dvalues byId) in
    2 * card (ids - dom (dget memo)) + (if ev_id patch \<in> ids then 0 else 1))")
  fix byId :: "nostr_event dict" and rootId rootKey parentId :: jsstr and patch parent :: nostr_event
    and memo memo1 :: "eligibility dict"
  let ?ids = "ev_id ` set (dvalues byId)"
  assume none: "dget memo (ev_id patch) = None" and m1: "memo1 = dset (ev_id patch) El_ignored memo"
    and par: "dget byId parentId = Some parent"
  have parent: "ev_id parent \<in> ?ids"
    using map_of_SomeD [OF par] by force
  have "dom (dget memo1) = insert (ev_id patch) (dom (dget memo))"
    by (auto simp: m1 dom_def split: if_splits)
  then have "?ids - dom (dget memo1) = (?ids - dom (dget memo)) - {ev_id patch}"
    by blast
  then have "2 * card (?ids - dom (dget memo1)) < 2 * card (?ids - dom (dget memo))
      + (if ev_id patch \<in> ?ids then 0 else 1)"
    using none by (auto intro!: card_Diff1_less)
  with parent show "((byId, rootId, rootKey, parent, memo1), (byId, rootId, rootKey, patch, memo))
      \<in> measure (\<lambda>(byId, _, _, patch, memo).
        let ids = ev_id ` set (dvalues byId) in
        2 * card (ids - dom (dget memo)) + (if ev_id patch \<in> ids then 0 else 1))"
    by (simp add: Let_def)
qed simp

declare classify.simps [simp del]

definition classify_all ::
    "nostr_event dict \<Rightarrow> jsstr \<Rightarrow> jsstr \<Rightarrow> nostr_event list \<Rightarrow> eligibility dict" where
  "classify_all byId rootId rootKey patches =
     fold (\<lambda>patch memo. snd (classify byId rootId rootKey patch memo)) patches []"

section \<open>The walk\<close>

type_synonym fork = "(jsstr \<times> nostr_event list) option"

definition children_of :: "nostr_event list \<Rightarrow> (jsstr \<times> nostr_event list) list" where
  "children_of surviving = buckets replyTarget surviving"

function walk ::
    "(jsstr \<times> nostr_event list) list \<Rightarrow> jsstr list \<Rightarrow> jsstr \<Rightarrow> nostr_event list \<times> fork" where
  "walk children visited position =
     (case dget children position of
        None \<Rightarrow> ([], None)
      | Some kids \<Rightarrow>
          (case kids of
             [] \<Rightarrow> ([], None)
           | next # [] \<Rightarrow>
               if ev_id next \<in> set visited then ([], None)
               else (case walk children (sadd (ev_id next) visited) (ev_id next) of
                       (chainPatches, fork) \<Rightarrow> (next # chainPatches, fork))
           | _ \<Rightarrow> ([], Some (position, kids))))"
  by pat_completeness auto
termination
proof (relation "measure (\<lambda>(ch, visited, _).
    card (ev_id ` set (concat (dvalues ch)) - set visited))")
  fix ch :: "(jsstr \<times> nostr_event list) list" and visited :: "jsstr list" and position :: jsstr
    and kids :: "nostr_event list" and "next" :: nostr_event and rest :: "nostr_event list"
  assume kids: "dget ch position = Some kids" "kids = next # rest" and "rest = []" and new: "ev_id next \<notin> set visited"
  then have "ev_id next \<in> ev_id ` set (concat (dvalues ch))"
    by (force dest: map_of_SomeD)
  with new have "card (ev_id ` set (concat (dvalues ch)) - set (sadd (ev_id next) visited))
      < card (ev_id ` set (concat (dvalues ch)) - set visited)"
    by (intro psubset_card_mono) auto
  then show "((ch, sadd (ev_id next) visited, ev_id next), ch, visited, position)
      \<in> measure (\<lambda>(ch, visited, _). card (ev_id ` set (concat (dvalues ch)) - set visited))"
    by simp
qed simp

declare walk.simps [simp del]

section \<open>Application\<close>

type_synonym overlay_run = "bool dict \<times> annotation list"

definition applyOverlay ::
    "parse_patch \<Rightarrow> apply_options \<Rightarrow> jsstr \<Rightarrow> nostr_event \<Rightarrow> overlay_run \<Rightarrow> overlay_run" where
  "applyOverlay parse options content overlay run =
     (case run of (appliesMap, annotations) \<Rightarrow>
        (case applyPatchContent parse options content (ev_content overlay) of
           PatchLimit _ _ _ issues \<Rightarrow>
             (appliesMap, annotations @ [Resource_limit (ev_id overlay) (ev_pubkey overlay) issues])
         | PatchHalt _ _ _ _ \<Rightarrow> (dset (ev_id overlay) False appliesMap, annotations)
         | PatchApplied _ _ _ \<Rightarrow> (dset (ev_id overlay) True appliesMap, annotations)
         | PatchNoop _ _ \<Rightarrow> (dset (ev_id overlay) True appliesMap, annotations)))"

definition classifyAgainst ::
    "parse_patch \<Rightarrow> apply_options \<Rightarrow> (jsstr \<times> nostr_event list) list \<Rightarrow> jsstr \<Rightarrow> jsstr \<Rightarrow>
     overlay_run \<Rightarrow> overlay_run" where
  "classifyAgainst parse options overlaysByTarget positionId content run =
     (case dget overlaysByTarget positionId of
        None \<Rightarrow> run
      | Some bucket \<Rightarrow> fold (applyOverlay parse options content) bucket run)"

text \<open>How the application loop ended.\<close>

datatype stop = Went_through | Halted nostr_event halt_reason | Aborted nostr_event limit_kind

record chain_run =
  cr_content :: jsstr
  cr_applied :: "jsstr list"
  cr_stop :: stop
  cr_run :: overlay_run

fun apply_chain ::
    "parse_patch \<Rightarrow> apply_options \<Rightarrow> (jsstr \<times> nostr_event list) list \<Rightarrow> nostr_event list \<Rightarrow>
     jsstr \<Rightarrow> jsstr list \<Rightarrow> overlay_run \<Rightarrow> chain_run" where
  "apply_chain parse options overlaysByTarget [] content applied run =
     \<lparr>cr_content = content, cr_applied = applied, cr_stop = Went_through, cr_run = run\<rparr>"
| "apply_chain parse options overlaysByTarget (patch # rest) content applied run =
     (case applyPatchContent parse options content (ev_content patch) of
        PatchHalt reason _ _ issues \<Rightarrow>
          \<lparr>cr_content = content, cr_applied = applied, cr_stop = Halted patch reason,
           cr_run = (fst run, snd run
             @ [Protocol_error (ev_id patch) (ev_pubkey patch) reason issues])\<rparr>
      | PatchLimit limit _ _ issues \<Rightarrow>
          \<lparr>cr_content = content, cr_applied = applied, cr_stop = Aborted patch limit,
           cr_run = (fst run, snd run @ [Resource_limit (ev_id patch) (ev_pubkey patch) issues])\<rparr>
      | PatchApplied content' _ _ \<Rightarrow>
          apply_chain parse options overlaysByTarget rest content' (applied @ [ev_id patch])
            (classifyAgainst parse options overlaysByTarget (ev_id patch) content' run)
      | PatchNoop content' _ \<Rightarrow>
          apply_chain parse options overlaysByTarget rest content' (applied @ [ev_id patch])
            (classifyAgainst parse options overlaysByTarget (ev_id patch) content' run))"

section \<open>Assembly\<close>

definition overlayState ::
    "jsstr \<Rightarrow> jsstr \<Rightarrow> jsstr list \<Rightarrow> nostr_event dict \<Rightarrow> bool dict \<Rightarrow> jsstr option \<Rightarrow>
     overlay_state \<times> degradation option" where
  "overlayState overlayId targetId definedPositions byId appliesMap tipId =
     (if targetId \<notin> set definedPositions
      then (Orphaned, Some (if dhas byId targetId then Alpha else Beta))
      else (case dget appliesMap overlayId of
              None \<Rightarrow> (Unclassified, None)
            | Some applied \<Rightarrow>
                if \<not> applied then (Conflict, None)
                else if Some targetId = tipId then (Clean, None) else (Stale, None)))"

definition overlay_of ::
    "jsstr list \<Rightarrow> nostr_event dict \<Rightarrow> bool dict \<Rightarrow> jsstr option \<Rightarrow> jsstr \<Rightarrow> nostr_event \<Rightarrow> overlay" where
  "overlay_of definedPositions byId appliesMap tipId targetId event =
     (case overlayState (ev_id event) targetId definedPositions byId appliesMap tipId of
        (state, degradation) \<Rightarrow>
          \<lparr>ov_id = ev_id event, ov_author = ev_pubkey event, ov_targetId = targetId,
           ov_state = state, ov_degradation = degradation\<rparr>)"

fun ann_key :: "annotation \<Rightarrow> jsstr \<times> jsstr" where
  "ann_key (Protocol_error eventId _ _ _) = (js ''protocol-error'', eventId)"
| "ann_key (Resource_limit eventId _ _) = (js ''resource-limit'', eventId)"
| "ann_key (Self_fork parentId _ _) = (js ''self-fork'', parentId)"

definition branch_of :: "nostr_event \<Rightarrow> fork_branch" where
  "branch_of b = \<lparr>fb_id = ev_id b, fb_author = ev_pubkey b, fb_createdAt = ev_created_at b\<rparr>"

definition fork_annotation :: "fork \<Rightarrow> annotation list" where
  "fork_annotation fork =
     (case fork of
        None \<Rightarrow> []
      | Some (parentId, branches) \<Rightarrow>
          [Self_fork parentId (sort_key fb_id (map branch_of branches))
             [cite (R_SF 3) Sev_warning]])"

definition chain_state :: "jsstr \<Rightarrow> fork \<Rightarrow> chain_run \<Rightarrow> chain_state" where
  "chain_state tip fork run =
     (case cr_stop run of
        Halted patch reason \<Rightarrow>
          Chain_halted (cr_content run) tip (cr_applied run) (ev_id patch) reason
      | Aborted patch limit \<Rightarrow>
          Chain_aborted (cr_content run) tip (cr_applied run) (ev_id patch) limit
      | Went_through \<Rightarrow>
          (case fork of
             Some (parentId, branches) \<Rightarrow>
               Chain_forked (cr_content run) parentId (sort (map ev_id branches))
           | None \<Rightarrow> Chain_resolved tip (cr_content run) (cr_applied run)))"

definition is_forked :: "chain_state \<Rightarrow> bool" where
  "is_forked chain = (case chain of Chain_forked _ _ _ \<Rightarrow> True | _ \<Rightarrow> False)"

text \<open>The partition of the observed events: patches of this root, and deletions.\<close>

definition root_patches :: "jsstr \<Rightarrow> nostr_event dict \<Rightarrow> nostr_event list" where
  "root_patches rootId byId =
     filter (\<lambda>e. ev_kind e \<noteq> DELETION_KIND \<and> scrutinyEventType e = Some Patch
        \<and> rootTarget e = Some rootId) (dvalues byId)"

definition deletion_events :: "nostr_event dict \<Rightarrow> nostr_event list" where
  "deletion_events byId = filter (\<lambda>e. ev_kind e = DELETION_KIND) (dvalues byId)"

definition overlays_by_target :: "nostr_event list \<Rightarrow> jsstr list \<Rightarrow> (jsstr \<times> nostr_event list) list" where
  "overlays_by_target foreign deleted =
     buckets replyTarget (filter (\<lambda>o'. ev_id o' \<notin> set deleted) foreign)"

text \<open>Resolution once the root is known to be observed and patchable.\<close>

definition resolve_root ::
    "parse_patch \<Rightarrow> apply_options \<Rightarrow> nostr_event dict \<Rightarrow> jsstr \<Rightarrow> nostr_event \<Rightarrow> resolution" where
  "resolve_root parse options byId rootId root =
     (let patches = root_patches rootId byId;
          deleted = honouredDeletions (deletion_events byId) byId;
          rootAuthored = filter (\<lambda>p. ev_pubkey p = ev_pubkey root) patches;
          foreign = filter (\<lambda>p. ev_pubkey p \<noteq> ev_pubkey root) patches;
          eligibility = classify_all byId rootId (ev_pubkey root) rootAuthored;
          linkable = filter (\<lambda>p. dget eligibility (ev_id p) = Some El_chain) rootAuthored;
          removed = cascade linkable deleted;
          surviving = filter (\<lambda>p. ev_id p \<notin> set removed) linkable;
          (chainPatches, fork) = walk (children_of surviving) [rootId] rootId;
          overlaysByTarget = overlays_by_target foreign deleted;
          run = apply_chain parse options overlaysByTarget chainPatches (ev_content root) []
                  (classifyAgainst parse options overlaysByTarget rootId (ev_content root) ([], []));
          tip = (case at_last (cr_applied run) of None \<Rightarrow> rootId | Some t \<Rightarrow> t);
          chain = chain_state tip fork run;
          tipForOverlays = (if is_forked chain then None else Some tip);
          definedPositions = set_of (rootId # cr_applied run);
          overlays = concat (map (\<lambda>(targetId, bucket).
              map (overlay_of definedPositions byId (fst (cr_run run)) tipForOverlays targetId) bucket)
            overlaysByTarget);
          pending = map ev_id (filter (\<lambda>p. dget eligibility (ev_id p) = Some El_held
            \<and> ev_id p \<notin> set deleted) rootAuthored)
      in \<lparr>re_chain = chain,
          re_overlays = sort_key (\<lambda>o'. (ov_targetId o', ov_id o')) overlays,
          re_pending = sort pending,
          re_annotations = sort_key ann_key (snd (cr_run run) @ fork_annotation fork)\<rparr>)"

definition resolve ::
    "parse_patch \<Rightarrow> apply_options \<Rightarrow> jsstr \<Rightarrow> nostr_event list \<Rightarrow> resolution" where
  "resolve parse options rootId events =
     (let byId = dedupeById events in
      case dget byId rootId of
        None \<Rightarrow>
          \<lparr>re_chain = Chain_absent Root_unobserved, re_overlays = [],
           re_pending = sort (map ev_id (root_patches rootId byId)), re_annotations = []\<rparr>
      | Some root \<Rightarrow>
          if scrutinyEventType root \<noteq> Some Product \<and> scrutinyEventType root \<noteq> Some Metadata
          then \<lparr>re_chain = Chain_absent Root_not_patchable, re_overlays = [], re_pending = [],
                re_annotations = []\<rparr>
          else resolve_root parse options byId rootId root)"

section \<open>Lineage, without the memo\<close>

text \<open>One look at a patch: its class, or the parent whose class it takes.\<close>

definition parent_step ::
    "nostr_event dict \<Rightarrow> jsstr \<Rightarrow> jsstr \<Rightarrow> nostr_event \<Rightarrow> eligibility + nostr_event" where
  "parent_step byId rootId rootKey patch =
     (case replyTarget patch of
        None \<Rightarrow> Inl El_ignored
      | Some parentId \<Rightarrow>
          if parentId = rootId then Inl El_chain
          else (case dget byId parentId of
                  None \<Rightarrow> Inl El_held
                | Some parent \<Rightarrow>
                    if ev_pubkey parent \<noteq> rootKey then Inl El_ignored else Inr parent))"

inductive settles ::
    "nostr_event dict \<Rightarrow> jsstr \<Rightarrow> jsstr \<Rightarrow> nostr_event \<Rightarrow> eligibility \<Rightarrow> bool"
  for byId rootId rootKey where
  settles_here: "parent_step byId rootId rootKey p = Inl c \<Longrightarrow> settles byId rootId rootKey p c"
| settles_up: "parent_step byId rootId rootKey p = Inr q \<Longrightarrow> settles byId rootId rootKey q c \<Longrightarrow>
    settles byId rootId rootKey p c"

inductive_cases settlesE: "settles byId rootId rootKey p c"
inductive_simps settles_unfold: "settles byId rootId rootKey p c"

lemma settles_step:
  "parent_step byId rootId rootKey p = Inr q \<Longrightarrow>
     settles byId rootId rootKey p c \<longleftrightarrow> settles byId rootId rootKey q c"
  by (subst settles_unfold) simp

lemma settles_end:
  "parent_step byId rootId rootKey p = Inl d \<Longrightarrow> settles byId rootId rootKey p c \<longleftrightarrow> c = d"
  by (subst settles_unfold) auto

lemma settles_unique: "settles b r k p c \<Longrightarrow> settles b r k p d \<Longrightarrow> c = d"
  by (induction rule: settles.induct) (simp_all add: settles_end settles_step)

text \<open>A line that never ends, because it runs into a cycle, is ignored.\<close>

definition lineage :: "nostr_event dict \<Rightarrow> jsstr \<Rightarrow> jsstr \<Rightarrow> nostr_event \<Rightarrow> eligibility" where
  "lineage byId rootId rootKey p =
     (if settles byId rootId rootKey p El_chain then El_chain
      else if settles byId rootId rootKey p El_held then El_held else El_ignored)"

lemma lineage_step:
  "parent_step byId rootId rootKey p = Inr q \<Longrightarrow>
     lineage byId rootId rootKey p = lineage byId rootId rootKey q"
  by (simp add: lineage_def settles_step)

lemma lineage_end: "parent_step byId rootId rootKey p = Inl c \<Longrightarrow> lineage byId rootId rootKey p = c"
  by (cases c) (simp_all add: lineage_def settles_end)

lemma lineage_settles: "settles b r k p c \<Longrightarrow> lineage b r k p = c"
  by (cases c) (auto simp: lineage_def dest: settles_unique)

lemma lineage_chain_iff: "lineage b r k p = El_chain \<longleftrightarrow> settles b r k p El_chain"
  by (auto simp: lineage_def)

definition steps_to ::
    "nostr_event dict \<Rightarrow> jsstr \<Rightarrow> jsstr \<Rightarrow> nostr_event \<Rightarrow> nostr_event \<Rightarrow> bool" where
  "steps_to byId rootId rootKey = (\<lambda>p q. parent_step byId rootId rootKey p = Inr q)\<^sup>+\<^sup>+"

lemma steps_to_trans: "steps_to b r k x p \<Longrightarrow> parent_step b r k p = Inr q \<Longrightarrow> steps_to b r k x q"
  unfolding steps_to_def by (rule tranclp.trancl_into_trancl)

lemma settles_no_cycle: "settles b r k p c \<Longrightarrow> \<not> steps_to b r k p p"
proof (induction rule: settles.induct)
  case (settles_here p c)
  then show ?case
    by (auto simp: steps_to_def dest: tranclpD)
next
  case (settles_up p q c)
  show ?case
  proof
    assume "steps_to b r k p p"
    then obtain z where "parent_step b r k p = Inr z" "(\<lambda>p q. parent_step b r k p = Inr q)\<^sup>*\<^sup>* z p"
      unfolding steps_to_def by (auto dest: tranclpD)
    with settles_up.hyps(1) have "(\<lambda>p q. parent_step b r k p = Inr q)\<^sup>*\<^sup>* q p" by simp
    with settles_up.hyps(1) have "steps_to b r k q q"
      unfolding steps_to_def by (metis (mono_tags, lifting) rtranclp_into_tranclp1)
    with settles_up.IH show False ..
  qed
qed

lemma lineage_cycle: "steps_to b r k p p \<Longrightarrow> lineage b r k p = El_ignored"
  using settles_no_cycle by (auto simp: lineage_def)

section \<open>The memoised classification\<close>

lemma classify_step:
  "classify byId rootId rootKey patch memo =
     (case dget memo (ev_id patch) of
        Some prior \<Rightarrow> (prior, memo)
      | None \<Rightarrow>
          (case parent_step byId rootId rootKey patch of
             Inl c \<Rightarrow> (c, dset (ev_id patch) c (dset (ev_id patch) El_ignored memo))
           | Inr parent \<Rightarrow>
               (case classify byId rootId rootKey parent (dset (ev_id patch) El_ignored memo) of
                  (cls, memo2) \<Rightarrow> (cls, dset (ev_id patch) cls memo2))))"
  by (subst classify.simps) (auto simp: parent_step_def Let_def split: option.split prod.split)

definition keyed :: "nostr_event dict \<Rightarrow> bool" where
  "keyed byId \<longleftrightarrow> (\<forall>k e. dget byId k = Some e \<longrightarrow> ev_id e = k)"

definition observed :: "nostr_event dict \<Rightarrow> nostr_event \<Rightarrow> bool" where
  "observed byId e \<longleftrightarrow> dget byId (ev_id e) = Some e"

lemma observed_unique: "observed b e \<Longrightarrow> observed b f \<Longrightarrow> ev_id e = ev_id f \<Longrightarrow> e = f"
  by (simp add: observed_def)

lemma parent_step_observed:
  "keyed b \<Longrightarrow> parent_step b r k p = Inr q \<Longrightarrow> observed b q"
  by (auto simp: parent_step_def keyed_def observed_def split: option.splits if_splits)

text \<open>Every entry of the memo is right, except for the patches \<open>P\<close> being classified.\<close>

definition memo_ok ::
    "nostr_event dict \<Rightarrow> jsstr \<Rightarrow> jsstr \<Rightarrow> jsstr set \<Rightarrow> eligibility dict \<Rightarrow> bool" where
  "memo_ok byId rootId rootKey P memo \<longleftrightarrow>
     (\<forall>e c. observed byId e \<and> ev_id e \<notin> P \<and> dget memo (ev_id e) = Some c \<longrightarrow>
        c = lineage byId rootId rootKey e)"

lemma classify_invariant:
  assumes "keyed byId"
  shows "observed byId patch \<Longrightarrow> memo_ok byId rootId rootKey P memo \<Longrightarrow>
     (\<forall>i \<in> P. dget memo i = Some El_ignored) \<Longrightarrow>
     (\<forall>e. observed byId e \<and> ev_id e \<in> P \<longrightarrow> steps_to byId rootId rootKey e patch) \<Longrightarrow>
     classify byId rootId rootKey patch memo = (c, memo') \<Longrightarrow>
     c = lineage byId rootId rootKey patch \<and> dget memo' (ev_id patch) = Some c
     \<and> memo_ok byId rootId rootKey P memo'
     \<and> (\<forall>i v. dget memo i = Some v \<longrightarrow> dget memo' i = Some v)"
proof (induction "card (dom (dget byId) - dom (dget memo))" arbitrary: patch memo P c memo'
    rule: less_induct)
  case less
  show ?case
  proof (cases "dget memo (ev_id patch)")
    case (Some prior)
    with less.prems(5) have eq: "c = prior" "memo' = memo"
      by (auto simp: classify_step [of byId rootId rootKey patch])
    have "prior = lineage byId rootId rootKey patch"
    proof (cases "ev_id patch \<in> P")
      case True
      with less.prems(1,3,4) Some show ?thesis
        by (simp add: lineage_cycle)
    next
      case False
      with less.prems(1,2) Some show ?thesis
        by (auto simp: memo_ok_def)
    qed
    with eq Some less.prems(2) show ?thesis by simp
  next
    case None
    then have notP: "ev_id patch \<notin> P"
      using less.prems(3) by force
    let ?memo1 = "dset (ev_id patch) El_ignored memo"
    show ?thesis
    proof (cases "parent_step byId rootId rootKey patch")
      case (Inl d)
      with None less.prems(5) have "c = d" "memo' = dset (ev_id patch) d ?memo1"
        by (auto simp: classify_step [of byId rootId rootKey patch])
      moreover have "d = lineage byId rootId rootKey e" if "observed byId e" "ev_id e = ev_id patch" for e
        using observed_unique [OF that(1) less.prems(1) that(2)] Inl by (simp add: lineage_end)
      ultimately show ?thesis
        using Inl None less.prems(1,2) by (auto simp: memo_ok_def)
    next
      case (Inr parent)
      obtain memo2 where rec: "classify byId rootId rootKey parent ?memo1 = (c, memo2)"
          and memo': "memo' = dset (ev_id patch) c memo2"
        using None Inr less.prems(5)
        by (auto simp: classify_step [of byId rootId rootKey patch memo] split: prod.splits)
      have "dom (dget byId) - dom (dget ?memo1) \<subset> dom (dget byId) - dom (dget memo)"
        using None less.prems(1) by (auto simp: observed_def split: if_splits)
      then have small: "card (dom (dget byId) - dom (dget ?memo1)) < card (dom (dget byId) - dom (dget memo))"
        by (intro psubset_card_mono) (simp_all add: finite_dom_map_of)
      have "c = lineage byId rootId rootKey parent \<and> dget memo2 (ev_id parent) = Some c
         \<and> memo_ok byId rootId rootKey (insert (ev_id patch) P) memo2
         \<and> (\<forall>i v. dget ?memo1 i = Some v \<longrightarrow> dget memo2 i = Some v)"
      proof (rule less.hyps [OF small])
        show "observed byId parent"
          using assms Inr by (rule parent_step_observed)
        show "memo_ok byId rootId rootKey (insert (ev_id patch) P) ?memo1"
          using less.prems(2) by (auto simp: memo_ok_def)
        show "\<forall>i \<in> insert (ev_id patch) P. dget ?memo1 i = Some El_ignored"
          using less.prems(3) by simp
        show "\<forall>e. observed byId e \<and> ev_id e \<in> insert (ev_id patch) P \<longrightarrow>
            steps_to byId rootId rootKey e parent"
        proof (intro allI impI)
          fix e assume e: "observed byId e \<and> ev_id e \<in> insert (ev_id patch) P"
          show "steps_to byId rootId rootKey e parent"
          proof (cases "ev_id e = ev_id patch")
            case True
            with e less.prems(1) have "e = patch" by (auto dest: observed_unique)
            with Inr show ?thesis by (simp add: steps_to_def tranclp.r_into_trancl)
          next
            case False
            with e less.prems(4) Inr show ?thesis by (auto intro: steps_to_trans)
          qed
        qed
        show "classify byId rootId rootKey parent ?memo1 = (c, memo2)" by (rule rec)
      qed
      moreover have "lineage byId rootId rootKey e = lineage byId rootId rootKey parent"
        if "observed byId e" "ev_id e = ev_id patch" for e
        using observed_unique [OF that(1) less.prems(1) that(2)] Inr by (simp add: lineage_step)
      ultimately show ?thesis
        using None notP Inr less.prems(1) unfolding memo' memo_ok_def
        by (auto simp: lineage_step split: if_splits)
    qed
  qed
qed

lemma classify_all_lineage:
  assumes "keyed byId" "\<forall>p \<in> set patches. observed byId p"
  shows "\<forall>p \<in> set patches.
     dget (classify_all byId rootId rootKey patches) (ev_id p) = Some (lineage byId rootId rootKey p)"
proof -
  have "memo_ok byId rootId rootKey {} (classify_all byId rootId rootKey patches)
      \<and> (\<forall>p \<in> set patches. dget (classify_all byId rootId rootKey patches) (ev_id p)
            = Some (lineage byId rootId rootKey p))"
    using assms(2)
  proof (induction patches rule: rev_induct)
    case Nil
    then show ?case by (simp add: classify_all_def memo_ok_def)
  next
    case (snoc p ps)
    let ?memo = "classify_all byId rootId rootKey ps"
    obtain c memo' where run: "classify byId rootId rootKey p ?memo = (c, memo')"
      by fastforce
    have "c = lineage byId rootId rootKey p \<and> dget memo' (ev_id p) = Some c
       \<and> memo_ok byId rootId rootKey {} memo'
       \<and> (\<forall>i v. dget ?memo i = Some v \<longrightarrow> dget memo' i = Some v)"
      by (rule classify_invariant [OF assms(1) _ _ _ _ run]) (use snoc in auto)
    moreover have "classify_all byId rootId rootKey (ps @ [p]) = memo'"
      using run by (simp add: classify_all_def)
    ultimately show ?case
      using snoc by auto
  qed
  then show ?thesis by simp
qed

section \<open>The cascade is the closure of the deletions\<close>

inductive cascaded :: "nostr_event set \<Rightarrow> jsstr set \<Rightarrow> jsstr \<Rightarrow> bool" for candidates deleted where
  cascaded_deleted: "p \<in> candidates \<Longrightarrow> ev_id p \<in> deleted \<Longrightarrow> cascaded candidates deleted (ev_id p)"
| cascaded_child: "p \<in> candidates \<Longrightarrow> replyTarget p = Some parent \<Longrightarrow>
    cascaded candidates deleted parent \<Longrightarrow> cascaded candidates deleted (ev_id p)"

inductive_cases cascadedE: "cascaded candidates deleted i"

lemma cascade_fold_sound:
  "fold cascade_step ps (r, c) = (r', c') \<Longrightarrow> set ps \<subseteq> C \<Longrightarrow>
     (\<forall>i \<in> set r. cascaded C D i) \<Longrightarrow> (\<forall>i \<in> set r'. cascaded C D i)"
proof (induction ps arbitrary: r c)
  case (Cons p ps)
  obtain r1 c1 where step: "cascade_step p (r, c) = (r1, c1)" by fastforce
  with Cons.prems have "\<forall>i \<in> set r1. cascaded C D i"
    using cascaded_child [of p C _ D]
    by (auto simp: cascade_step_def split: if_splits option.splits)
  moreover have "fold cascade_step ps (r1, c1) = (r', c')" "set ps \<subseteq> C"
    using Cons.prems step by simp_all
  ultimately show ?case by (rule Cons.IH [rotated 2])
qed simp

lemma cascade_fold_flag: "fold cascade_step ps (r, True) = (r', c') \<Longrightarrow> c'"
proof (induction ps arbitrary: r)
  case (Cons p ps)
  have "\<exists>r1. cascade_step p (r, True) = (r1, True)"
    by (auto simp: cascade_step_def split: option.split)
  then obtain r1 where "cascade_step p (r, True) = (r1, True)" ..
  with Cons show ?case by auto
qed simp

lemma cascade_fold_closed:
  "fold cascade_step ps (r, False) = (r', False) \<Longrightarrow>
     r' = r \<and> (\<forall>p \<in> set ps. \<forall>q. replyTarget p = Some q \<longrightarrow> q \<in> set r \<longrightarrow> ev_id p \<in> set r)"
proof (induction ps)
  case (Cons p ps)
  obtain r1 c1 where step: "cascade_step p (r, False) = (r1, c1)" by fastforce
  with Cons.prems have "\<not> c1"
    using cascade_fold_flag [of ps r1 r' False] by (cases c1) auto
  with step have "r1 = r" "\<forall>q. replyTarget p = Some q \<longrightarrow> q \<in> set r \<longrightarrow> ev_id p \<in> set r"
    by (auto simp: cascade_step_def split: if_splits option.splits)
  with Cons step \<open>\<not> c1\<close> show ?case by auto
qed simp

lemma cascade_loop_spec:
  "(\<forall>i \<in> set r. cascaded (set cs) D i) \<Longrightarrow>
     set r \<subseteq> set (cascade_loop cs r) \<and> (\<forall>i \<in> set (cascade_loop cs r). cascaded (set cs) D i)
     \<and> (\<forall>p \<in> set cs. \<forall>q. replyTarget p = Some q \<longrightarrow> q \<in> set (cascade_loop cs r) \<longrightarrow>
          ev_id p \<in> set (cascade_loop cs r))"
proof (induction cs r rule: cascade_loop.induct)
  case (1 cs r)
  obtain r' c where round: "cascade_round cs r = (r', c)" by fastforce
  then have fold: "fold cascade_step cs (r, False) = (r', c)"
    by (simp add: cascade_round_def)
  have sound: "\<forall>i \<in> set r'. cascaded (set cs) D i"
    using fold subset_refl 1(2) by (rule cascade_fold_sound)
  show ?case
  proof (cases c)
    case True
    then have eq: "cascade_loop cs r = cascade_loop cs r'"
      using round by (subst cascade_loop.simps) simp
    have "set r' \<subseteq> set (cascade_loop cs r') \<and> (\<forall>i \<in> set (cascade_loop cs r'). cascaded (set cs) D i)
     \<and> (\<forall>p \<in> set cs. \<forall>q. replyTarget p = Some q \<longrightarrow> q \<in> set (cascade_loop cs r') \<longrightarrow>
          ev_id p \<in> set (cascade_loop cs r'))"
      using round [symmetric] True sound by (rule 1(1))
    with cascade_fold_facts [OF fold] show ?thesis
      unfolding eq by blast
  next
    case False
    then have "cascade_loop cs r = r'"
      using round by (subst cascade_loop.simps) simp
    from False fold have closed: "r' = r \<and> (\<forall>p \<in> set cs. \<forall>q. replyTarget p = Some q \<longrightarrow>
        q \<in> set r \<longrightarrow> ev_id p \<in> set r)"
      using cascade_fold_closed [of cs r r'] by simp
    with sound show ?thesis
      unfolding \<open>cascade_loop cs r = r'\<close> by blast
  qed
qed

lemma set_cascade: "set (cascade cs deleted) = {i. cascaded (set cs) (set deleted) i}"
proof -
  let ?r = "set_of (map ev_id (filter (\<lambda>p. ev_id p \<in> set deleted) cs))"
  have start: "\<forall>i \<in> set ?r. cascaded (set cs) (set deleted) i"
    by (auto intro: cascaded_deleted)
  note loop = cascade_loop_spec [OF start]
  have "i \<in> set (cascade_loop cs ?r)" if "cascaded (set cs) (set deleted) i" for i
    using that
  proof (induction rule: cascaded.induct)
    case (cascaded_deleted p)
    then have "ev_id p \<in> set ?r" by auto
    with loop show ?case by blast
  next
    case (cascaded_child p parent)
    with loop show ?case by blast
  qed
  with loop show ?thesis
    unfolding cascade_def by blast
qed

section \<open>Nothing depends on the order of the events\<close>

definition perm_map :: "('k \<times> 'a list) list \<Rightarrow> ('k \<times> 'a list) list \<Rightarrow> bool" where
  "perm_map m m' \<longleftrightarrow> (\<forall>k. rel_option (\<lambda>a b. mset a = mset b) (dget m k) (dget m' k))"

lemma perm_buckets:
  assumes "mset xs = mset ys"
  shows "perm_map (buckets key xs) (buckets key ys)"
proof -
  have "mset (filter (\<lambda>x. key x = Some k) xs) = mset (filter (\<lambda>x. key x = Some k) ys)" for k
    using assms by simp
  moreover from this have "filter (\<lambda>x. key x = Some k) xs = [] \<longleftrightarrow> filter (\<lambda>x. key x = Some k) ys = []" for k
    by (metis mset_zero_iff)
  ultimately show ?thesis
    by (auto simp: perm_map_def dget_buckets Let_def)
qed

definition same_fork :: "fork \<Rightarrow> fork \<Rightarrow> bool" where
  "same_fork f f' \<longleftrightarrow> rel_option (\<lambda>(p, b) (p', b'). p = p' \<and> mset b = mset b') f f'"

lemma mset_length: "mset a = mset b \<Longrightarrow> length a = length b"
  by (metis size_mset)

lemma walk_perm:
  "perm_map ch ch' \<Longrightarrow>
     fst (walk ch v pos) = fst (walk ch' v pos) \<and> same_fork (snd (walk ch v pos)) (snd (walk ch' v pos))"
proof (induction ch v pos rule: walk.induct)
  case (1 ch v pos)
  then have rel: "rel_option (\<lambda>a b. mset a = mset b) (dget ch pos) (dget ch' pos)"
    by (simp add: perm_map_def)
  show ?case
  proof (cases "dget ch pos")
    case None
    with rel show ?thesis
      by (subst (1 2 3 4) walk.simps) (simp add: same_fork_def)
  next
    case (Some kids)
    with rel obtain kids' where kids': "dget ch' pos = Some kids'" "mset kids = mset kids'"
      by (auto simp: option_rel_Some1)
    consider "kids = []" | n where "kids = [n]" | a b r where "kids = a # b # r"
      by (metis list.exhaust)
    then show ?thesis
    proof cases
      case 1
      with Some kids' show ?thesis
        by (subst (1 2 3 4) walk.simps) (simp add: same_fork_def)
    next
      case (2 n)
      with kids' have "kids' = [n]"
        by (metis mset_single_iff mset_single_iff_right)
      have "ev_id n \<notin> set v \<Longrightarrow>
          fst (walk ch (sadd (ev_id n) v) (ev_id n)) = fst (walk ch' (sadd (ev_id n) v) (ev_id n))
          \<and> same_fork (snd (walk ch (sadd (ev_id n) v) (ev_id n)))
              (snd (walk ch' (sadd (ev_id n) v) (ev_id n)))"
        using 1(1) [of kids n "[]"] Some 2 1(2) by simp
      with Some 2 kids' \<open>kids' = [n]\<close> show ?thesis
        by (subst (1 2 3 4) walk.simps)
          (simp add: case_prod_beta same_fork_def)
    next
      case (3 a b r)
      with kids' obtain a' b' r' where "kids' = a' # b' # r'"
        using mset_length [OF kids'(2)] by (cases kids'; cases "tl kids'") auto
      with Some 3 kids' show ?thesis
        by (subst (1 2 3 4) walk.simps) (simp add: same_fork_def)
    qed
  qed
qed

lemma find_perm:
  assumes "mset xs = mset ys" "distinct (map f xs)"
  shows "find (\<lambda>x. f x = k) xs = find (\<lambda>x. f x = k) ys"
proof -
  have d: "distinct (map f ys)" "set ys = set xs"
    using assms by (metis mset_eq_imp_distinct_iff mset_map, metis set_mset_mset)
  have "find (\<lambda>x. f x = k) zs = Some x \<longleftrightarrow> x \<in> set zs \<and> f x = k" if "distinct (map f zs)" for zs x
    using that by (auto simp: find_Some_iff in_set_conv_nth distinct_conv_nth intro: find_by_distinct_key)
  with assms(2) d show ?thesis
    by (metis option.exhaust)
qed

subsection \<open>Overlays at a position\<close>

definition overlay_verdict ::
    "parse_patch \<Rightarrow> apply_options \<Rightarrow> jsstr \<Rightarrow> nostr_event \<Rightarrow> bool option" where
  "overlay_verdict parse options content o' =
     (case applyPatchContent parse options content (ev_content o') of
        PatchLimit _ _ _ _ \<Rightarrow> None | PatchHalt _ _ _ _ \<Rightarrow> Some False | _ \<Rightarrow> Some True)"

definition limit_annotation :: "nostr_event \<Rightarrow> annotation" where
  "limit_annotation e = Resource_limit (ev_id e) (ev_pubkey e) [cite (R_RL 3) Sev_warning]"

definition overlay_limits ::
    "parse_patch \<Rightarrow> apply_options \<Rightarrow> jsstr \<Rightarrow> nostr_event \<Rightarrow> annotation list" where
  "overlay_limits parse options content o' =
     (if overlay_verdict parse options content o' = None then [limit_annotation o'] else [])"

lemma applyOverlay_eq:
  "applyOverlay parse options content o' (m, ann) =
     ((case overlay_verdict parse options content o' of None \<Rightarrow> m | Some b \<Rightarrow> dset (ev_id o') b m),
      ann @ overlay_limits parse options content o')"
  by (auto simp: applyOverlay_def overlay_verdict_def overlay_limits_def limit_annotation_def
      applyPatchContent_def split: apply_result.split dest: limit_shape)

lemma overlay_fold_annotations:
  "snd (fold (applyOverlay parse options content) os run) =
     snd run @ concat (map (overlay_limits parse options content) os)"
proof (induction os arbitrary: run)
  case (Cons o' os)
  then show ?case by (cases run) (simp add: applyOverlay_eq)
qed simp

lemma overlay_fold_verdicts:
  "distinct (map ev_id os) \<Longrightarrow>
   dget (fst (fold (applyOverlay parse options content) os run)) i =
     (case find (\<lambda>o'. ev_id o' = i) os of
        None \<Rightarrow> dget (fst run) i
      | Some o' \<Rightarrow> (case overlay_verdict parse options content o' of
          None \<Rightarrow> dget (fst run) i | Some b \<Rightarrow> Some b))"
proof (induction os arbitrary: run)
  case (Cons o' os)
  obtain m ann where run: "run = (m, ann)" by fastforce
  have "find (\<lambda>x. ev_id x = ev_id o') os = None"
    using Cons.prems by (simp add: find_None_iff) (metis image_eqI)
  with Cons run show ?case
    by (auto simp: applyOverlay_eq split: option.split)
qed simp

definition same_run :: "overlay_run \<Rightarrow> overlay_run \<Rightarrow> bool" where
  "same_run r r' \<longleftrightarrow> dget (fst r) = dget (fst r') \<and> mset (snd r) = mset (snd r')"

definition distinct_buckets :: "(jsstr \<times> nostr_event list) list \<Rightarrow> bool" where
  "distinct_buckets m \<longleftrightarrow> (\<forall>k b. dget m k = Some b \<longrightarrow> distinct (map ev_id b))"

lemma mset_concat_map_perm: "mset xs = mset ys \<Longrightarrow> mset (concat (map f xs)) = mset (concat (map f ys))"
  by (simp add: mset_concat) (metis mset_map sum_mset_sum_list)

lemma classifyAgainst_perm:
  assumes "perm_map m m'" "distinct_buckets m" "same_run r r'"
  shows "same_run (classifyAgainst parse options m pos content r)
           (classifyAgainst parse options m' pos content r')"
proof (cases "dget m pos")
  case None
  have "rel_option (\<lambda>a b. mset a = mset b) (dget m pos) (dget m' pos)"
    using assms(1) unfolding perm_map_def by (rule spec)
  with None have "dget m' pos = None" by simp
  with None assms(3) show ?thesis by (simp add: classifyAgainst_def)
next
  case (Some b)
  have "rel_option (\<lambda>a b. mset a = mset b) (dget m pos) (dget m' pos)"
    using assms(1) unfolding perm_map_def by (rule spec)
  with Some obtain b' where b': "dget m' pos = Some b'" "mset b = mset b'"
    by (auto simp: option_rel_Some1)
  have d: "distinct (map ev_id b)" "distinct (map ev_id b')"
  proof -
    show "distinct (map ev_id b)"
      using Some assms(2) by (simp add: distinct_buckets_def)
    moreover have "mset (map ev_id b) = mset (map ev_id b')"
      using b'(2) by (simp only: mset_map)
    ultimately show "distinct (map ev_id b')"
      by (metis mset_eq_imp_distinct_iff)
  qed
  have "dget (fst (fold (applyOverlay parse options content) b r)) =
      dget (fst (fold (applyOverlay parse options content) b' r'))"
    using assms(3) find_perm [OF b'(2) d(1)] d
    by (auto simp: fun_eq_iff overlay_fold_verdicts same_run_def split: option.split)
  moreover have "mset (snd (fold (applyOverlay parse options content) b r)) =
      mset (snd (fold (applyOverlay parse options content) b' r'))"
    using assms(3) mset_concat_map_perm [OF b'(2)]
    by (simp add: overlay_fold_annotations same_run_def)
  ultimately show ?thesis
    using Some b'(1) by (simp add: classifyAgainst_def same_run_def)
qed

lemma apply_chain_perm:
  "perm_map m m' \<Longrightarrow> distinct_buckets m \<Longrightarrow> same_run r r' \<Longrightarrow>
     cr_content (apply_chain parse options m ps c a r) = cr_content (apply_chain parse options m' ps c a r')
     \<and> cr_applied (apply_chain parse options m ps c a r) = cr_applied (apply_chain parse options m' ps c a r')
     \<and> cr_stop (apply_chain parse options m ps c a r) = cr_stop (apply_chain parse options m' ps c a r')
     \<and> same_run (cr_run (apply_chain parse options m ps c a r)) (cr_run (apply_chain parse options m' ps c a r'))"
proof (induction ps arbitrary: c a r r')
  case (Cons p ps)
  have run: "same_run (classifyAgainst parse options m (ev_id p) x r)
      (classifyAgainst parse options m' (ev_id p) x r')" for x
    using Cons.prems by (rule classifyAgainst_perm)
  show ?case
  proof (cases "applyPatchContent parse options c (ev_content p)")
    case (PatchApplied x n w)
    with Cons.IH [OF Cons.prems(1,2) run] show ?thesis by simp
  next
    case (PatchNoop x s)
    with Cons.IH [OF Cons.prems(1,2) run] show ?thesis by simp
  qed (use Cons.prems(3) in \<open>simp_all add: same_run_def\<close>)
qed simp


subsection \<open>The annotations have distinct keys\<close>

definition stop_annotation :: "stop \<Rightarrow> annotation set" where
  "stop_annotation s =
     (case s of Halted p reason \<Rightarrow>
        {Protocol_error (ev_id p) (ev_pubkey p) reason (haltIssues (HALT_RULE reason))}
      | _ \<Rightarrow> {})"

definition bucket_events :: "(jsstr \<times> nostr_event list) list \<Rightarrow> nostr_event set" where
  "bucket_events m = \<Union> (set ` snd ` set m)"

lemma classifyAgainst_annotations:
  "set (snd (classifyAgainst parse options m pos content r)) \<subseteq>
     set (snd r) \<union> limit_annotation ` bucket_events m"
proof (cases "dget m pos")
  case (Some b)
  then have "set b \<subseteq> bucket_events m"
    by (force simp: bucket_events_def dest: map_of_SomeD)
  with Some show ?thesis
    by (auto simp: classifyAgainst_def overlay_fold_annotations overlay_limits_def split: if_splits)
qed (simp add: classifyAgainst_def)

lemma apply_chain_annotations:
  "set (snd (cr_run (apply_chain parse options m ps c a r))) \<subseteq>
     set (snd r) \<union> limit_annotation ` (bucket_events m \<union> set ps)
     \<union> stop_annotation (cr_stop (apply_chain parse options m ps c a r))"
proof (induction ps arbitrary: c a r)
  case (Cons p ps)
  show ?case
  proof (cases "applyPatchContent parse options c (ev_content p)")
    case (PatchApplied x n w)
    with Cons.IH [of x "a @ [ev_id p]" "classifyAgainst parse options m (ev_id p) x r"]
      classifyAgainst_annotations [of parse options m "ev_id p" x r]
    show ?thesis by auto
  next
    case (PatchNoop x s)
    with Cons.IH [of x "a @ [ev_id p]" "classifyAgainst parse options m (ev_id p) x r"]
      classifyAgainst_annotations [of parse options m "ev_id p" x r]
    show ?thesis by auto
  next
    case (PatchHalt reason rule i "is")
    then show ?thesis
      using halt_shape [OF PatchHalt [unfolded applyPatchContent_def]]
      by (auto simp: stop_annotation_def)
  next
    case (PatchLimit limit n ceiling "is")
    then show ?thesis
      using limit_shape [OF PatchLimit [unfolded applyPatchContent_def]]
      by (auto simp: limit_annotation_def)
  qed
qed auto

lemma annotation_keys:
  assumes "inj_on ev_id E" "A \<subseteq> limit_annotation ` E \<union> stop_annotation s \<union> set (fork_annotation f)"
  shows "inj_on ann_key A"
proof (rule inj_onI)
  fix a b assume ab: "a \<in> A" "b \<in> A" "ann_key a = ann_key b"
  have e: "ev_pubkey e = ev_pubkey e'" if "ev_id e = ev_id e'" "e \<in> E" "e' \<in> E" for e e'
    using assms(1) that by (metis inj_onD)
  have kinds: "(\<exists>e \<in> E. x = limit_annotation e) \<or> x \<in> stop_annotation s \<or> x \<in> set (fork_annotation f)"
    if "x \<in> A" for x
    using assms(2) that by blast
  from kinds [OF ab(1)] kinds [OF ab(2)] ab(3) show "a = b"
    by (auto simp: limit_annotation_def stop_annotation_def fork_annotation_def
        intro: e split: stop.splits option.splits)
qed

subsection \<open>The overlays\<close>

lemma mset_update:
  "distinct (map fst m) \<Longrightarrow> dget m k = Some b \<Longrightarrow>
     mset (concat (map g (dset k v m))) + mset (g (k, b)) = mset (concat (map g m)) + mset (g (k, v))"
proof (induction m)
  case (Cons x m)
  then show ?case
    by (cases x) (auto simp: add.assoc [symmetric] split: if_splits)
qed simp

lemma mset_buckets:
  "mset (concat (map (\<lambda>(k, b). map (f k) b) (buckets key xs))) =
     mset (concat (map (\<lambda>x. case key x of None \<Rightarrow> [] | Some k \<Rightarrow> [f k x]) xs))"
proof (induction xs rule: rev_induct)
  case (snoc x xs)
  let ?g = "\<lambda>(k, b). map (f k) b"
  have step: "mset (concat (map ?g (bucket_add key x (buckets key xs)))) =
      mset (concat (map ?g (buckets key xs))) + mset (case key x of None \<Rightarrow> [] | Some k \<Rightarrow> [f k x])"
  proof (cases "key x")
    case (Some k)
    show ?thesis
    proof (cases "dget (buckets key xs) k")
      case None
      with Some show ?thesis by (simp add: bucket_add_def dset_absent)
    next
      case (Some b)
      with \<open>key x = Some k\<close> mset_update [OF distinct_keys_buckets Some, of ?g "b @ [x]"]
      show ?thesis by (simp add: bucket_add_def)
    qed
  qed (simp add: bucket_add_def)
  show ?case
    unfolding buckets_snoc step snoc by simp
qed (simp add: buckets_def)

section \<open>Resolution is confluent\<close>

lemma set_honouredDeletions:
  "set (honouredDeletions ds byId) = {er_id ref |ref d. d \<in> set ds \<and> ref \<in> set (eTags d) \<and> honours byId d ref}"
proof -
  have inner: "set (fold (\<lambda>ref deleted. if honours byId d ref then sadd (er_id ref) deleted else deleted) refs r)
      = set r \<union> {er_id ref |ref. ref \<in> set refs \<and> honours byId d ref}" for d refs r
    by (induction refs arbitrary: r) auto
  have "set (fold (\<lambda>d deleted. fold (\<lambda>ref deleted. if honours byId d ref then sadd (er_id ref) deleted
          else deleted) (eTags d) deleted) ds r)
      = set r \<union> {er_id ref |ref d. d \<in> set ds \<and> ref \<in> set (eTags d) \<and> honours byId d ref}" for r
    by (induction ds arbitrary: r) (auto simp: inner)
  then show ?thesis
    by (simp add: honouredDeletions_def)
qed

lemma honours_cong: "dget byId = dget byId' \<Longrightarrow> honours byId = honours byId'"
  by (intro ext) (simp add: honours_def)

lemma settles_transfer:
  "settles b r k p c \<Longrightarrow> parent_step b = parent_step b' \<Longrightarrow> settles b' r k p c"
  by (induction rule: settles.induct) (auto intro: settles.intros)

lemma lineage_cong:
  assumes "dget byId = dget byId'"
  shows "lineage byId = lineage byId'"
proof -
  have "parent_step byId = parent_step byId'"
    unfolding parent_step_def assms by (rule refl)
  then have "settles byId r k p c \<longleftrightarrow> settles byId' r k p c" for r k p c
    by (metis settles_transfer)
  then show ?thesis
    by (intro ext) (simp add: lineage_def)
qed

lemma overlay_of_cong:
  "dhas byId t = dhas byId' t \<Longrightarrow> dget m = dget m' \<Longrightarrow>
     overlay_of ps byId m tip t e = overlay_of ps byId' m' tip t e"
  by (simp add: overlay_of_def overlayState_def)

text \<open>The patches of the walk, by set: on the chain's lineage and not removed by a deletion.\<close>

definition surviving :: "nostr_event dict \<Rightarrow> jsstr \<Rightarrow> nostr_event \<Rightarrow> nostr_event list" where
  "surviving byId rootId root =
     (let linkable = filter (\<lambda>p. ev_pubkey p = ev_pubkey root
            \<and> lineage byId rootId (ev_pubkey root) p = El_chain) (root_patches rootId byId)
      in filter (\<lambda>p. ev_id p \<notin> set (cascade linkable (honouredDeletions (deletion_events byId) byId)))
           linkable)"

definition held :: "nostr_event dict \<Rightarrow> jsstr \<Rightarrow> nostr_event \<Rightarrow> nostr_event list" where
  "held byId rootId root =
     filter (\<lambda>p. ev_pubkey p = ev_pubkey root \<and> lineage byId rootId (ev_pubkey root) p = El_held
        \<and> ev_id p \<notin> set (honouredDeletions (deletion_events byId) byId)) (root_patches rootId byId)"

definition root_overlays ::
    "nostr_event dict \<Rightarrow> jsstr \<Rightarrow> nostr_event \<Rightarrow> (jsstr \<times> nostr_event list) list" where
  "root_overlays byId rootId root =
     overlays_by_target (filter (\<lambda>p. ev_pubkey p \<noteq> ev_pubkey root) (root_patches rootId byId))
       (honouredDeletions (deletion_events byId) byId)"

definition chain_run_of ::
    "parse_patch \<Rightarrow> apply_options \<Rightarrow> (jsstr \<times> nostr_event list) list \<Rightarrow> jsstr \<Rightarrow> jsstr \<Rightarrow>
     nostr_event list \<Rightarrow> chain_run" where
  "chain_run_of parse options ovs rootId content ps =
     apply_chain parse options ovs ps content []
       (classifyAgainst parse options ovs rootId content ([], []))"

definition tip_of :: "jsstr \<Rightarrow> chain_run \<Rightarrow> jsstr" where
  "tip_of rootId run = (case at_last (cr_applied run) of None \<Rightarrow> rootId | Some t \<Rightarrow> t)"

lemma resolve_root_unfold:
  assumes "keyed byId" "\<forall>p \<in> set (root_patches rootId byId). observed byId p"
  shows "resolve_root parse options byId rootId root =
     (let (chainPatches, fork) = walk (children_of (surviving byId rootId root)) [rootId] rootId;
          ovs = root_overlays byId rootId root;
          run = chain_run_of parse options ovs rootId (ev_content root) chainPatches;
          chain = chain_state (tip_of rootId run) fork run;
          tip = (if is_forked chain then None else Some (tip_of rootId run))
      in \<lparr>re_chain = chain,
          re_overlays = sort_key (\<lambda>o'. (ov_targetId o', ov_id o'))
            (concat (map (\<lambda>(t, b). map (overlay_of (set_of (rootId # cr_applied run)) byId
               (fst (cr_run run)) tip t) b) ovs)),
          re_pending = sort (map ev_id (held byId rootId root)),
          re_annotations = sort_key ann_key (snd (cr_run run) @ fork_annotation fork)\<rparr>)"
proof -
  let ?authored = "filter (\<lambda>p. ev_pubkey p = ev_pubkey root) (root_patches rootId byId)"
  let ?el = "classify_all byId rootId (ev_pubkey root) ?authored"
  have el: "dget ?el (ev_id p) = Some (lineage byId rootId (ev_pubkey root) p)" if "p \<in> set ?authored" for p
    using classify_all_lineage [OF assms(1), of ?authored rootId "ev_pubkey root"] assms(2) that by simp
  have "filter (\<lambda>p. dget ?el (ev_id p) = Some El_chain) ?authored =
      filter (\<lambda>p. ev_pubkey p = ev_pubkey root \<and> lineage byId rootId (ev_pubkey root) p = El_chain)
        (root_patches rootId byId)"
    unfolding filter_filter by (rule filter_cong) (use el in auto)
  moreover have "filter (\<lambda>p. dget ?el (ev_id p) = Some El_held
        \<and> ev_id p \<notin> set (honouredDeletions (deletion_events byId) byId)) ?authored = held byId rootId root"
    unfolding held_def filter_filter by (rule filter_cong) (use el in auto)
  ultimately show ?thesis
    unfolding resolve_root_def surviving_def root_overlays_def chain_run_of_def tip_of_def Let_def
    by (simp only:)
qed


definition same_events :: "nostr_event dict \<Rightarrow> nostr_event dict \<Rightarrow> bool" where
  "same_events byId byId' \<longleftrightarrow> dget byId = dget byId' \<and> mset (dvalues byId) = mset (dvalues byId')"

definition distinct_ids :: "nostr_event dict \<Rightarrow> bool" where
  "distinct_ids byId \<longleftrightarrow> distinct (map ev_id (dvalues byId))"

lemma mset_filter_cong:
  assumes "mset xs = mset ys" "\<And>x. x \<in> set xs \<Longrightarrow> P x = Q x"
  shows "mset (filter P xs) = mset (filter Q ys)"
proof -
  have "set ys = set xs"
    using assms(1) by (rule mset_eq_setD [symmetric])
  with assms(2) have "filter P ys = filter Q ys"
    by (intro filter_cong) auto
  with assms(1) show ?thesis by (metis mset_filter)
qed

lemma same_patches: "same_events b b' \<Longrightarrow> mset (root_patches r b) = mset (root_patches r b')"
  unfolding same_events_def root_patches_def by (intro mset_filter_cong) simp_all

lemma same_deleted:
  assumes "same_events b b'"
  shows "set (honouredDeletions (deletion_events b) b) = set (honouredDeletions (deletion_events b') b')"
proof -
  have "set (deletion_events b) = set (deletion_events b')"
    unfolding deletion_events_def
    by (intro mset_eq_setD mset_filter_cong) (use assms in \<open>simp_all add: same_events_def\<close>)
  moreover have "honours b = honours b'"
    by (rule honours_cong) (use assms in \<open>simp add: same_events_def\<close>)
  ultimately show ?thesis
    by (simp add: set_honouredDeletions)
qed

lemma same_lineage: "same_events b b' \<Longrightarrow> lineage b = lineage b'"
  by (rule lineage_cong) (simp add: same_events_def)

text \<open>
  All that the resolution of a root reads of the observed events: the patches on it, which of them
  are deleted, the lineage of those by its own author, and which of their targets are observed.
\<close>

definition agree :: "jsstr \<Rightarrow> nostr_event \<Rightarrow> nostr_event dict \<Rightarrow> nostr_event dict \<Rightarrow> bool" where
  "agree r root b b' \<longleftrightarrow>
     mset (root_patches r b) = mset (root_patches r b')
     \<and> (\<forall>p \<in> set (root_patches r b).
          (ev_id p \<in> set (honouredDeletions (deletion_events b) b)
             \<longleftrightarrow> ev_id p \<in> set (honouredDeletions (deletion_events b') b'))
          \<and> (ev_pubkey p = ev_pubkey root \<longrightarrow>
               lineage b r (ev_pubkey root) p = lineage b' r (ev_pubkey root) p)
          \<and> (\<forall>t. replyTarget p = Some t \<longrightarrow> dhas b t = dhas b' t))"

lemma same_agree:
  assumes "same_events b b'"
  shows "agree r root b b'"
proof -
  have "dhas b = dhas b'"
    using assms by (intro ext) (simp add: same_events_def dhas_def)
  then show ?thesis
    unfolding agree_def by (simp add: same_patches [OF assms] same_deleted [OF assms] same_lineage [OF assms])
qed

lemma agreeD:
  assumes "agree r root b b'" "p \<in> set (root_patches r b)"
  shows "ev_id p \<in> set (honouredDeletions (deletion_events b) b)
      \<longleftrightarrow> ev_id p \<in> set (honouredDeletions (deletion_events b') b')"
    and "ev_pubkey p = ev_pubkey root \<Longrightarrow> lineage b r (ev_pubkey root) p = lineage b' r (ev_pubkey root) p"
    and "replyTarget p = Some t \<Longrightarrow> dhas b t = dhas b' t"
  using assms unfolding agree_def by blast+

lemma agree_patches: "agree r root b b' \<Longrightarrow> mset (root_patches r b) = mset (root_patches r b')"
  by (simp add: agree_def)

lemma cascaded_cong:
  "cascaded C D i \<Longrightarrow> (\<And>p. p \<in> C \<Longrightarrow> ev_id p \<in> D \<Longrightarrow> ev_id p \<in> D') \<Longrightarrow> cascaded C D' i"
  by (induction rule: cascaded.induct) (auto intro: cascaded.intros)

lemma same_surviving:
  assumes "agree r root b b'"
  shows "mset (surviving b r root) = mset (surviving b' r root)"
proof -
  let ?P = "\<lambda>b p. ev_pubkey p = ev_pubkey root \<and> lineage b r (ev_pubkey root) p = El_chain"
  let ?D = "\<lambda>b. set (honouredDeletions (deletion_events b) b)"
  have l: "mset (filter (?P b) (root_patches r b)) = mset (filter (?P b') (root_patches r b'))"
    using agree_patches [OF assms] by (rule mset_filter_cong) (use agreeD(2) [OF assms] in auto)
  then have sets: "set (filter (?P b) (root_patches r b)) = set (filter (?P b') (root_patches r b'))"
    by (rule mset_eq_setD)
  have D: "ev_id p \<in> ?D b \<longleftrightarrow> ev_id p \<in> ?D b'" if "p \<in> set (filter (?P b) (root_patches r b))" for p
    using that by (intro agreeD(1) [OF assms]) simp
  have "cascaded (set (filter (?P b) (root_patches r b))) (?D b) i \<longleftrightarrow>
      cascaded (set (filter (?P b) (root_patches r b))) (?D b') i" for i
    by (rule iffI; erule cascaded_cong; simp only: D)
  then have removed: "set (cascade (filter (?P b) (root_patches r b)) (honouredDeletions (deletion_events b) b)) =
      set (cascade (filter (?P b') (root_patches r b')) (honouredDeletions (deletion_events b') b'))"
    by (simp only: set_cascade sets)
  show ?thesis
    unfolding surviving_def Let_def removed
    using l by (rule mset_filter_cong) (rule refl)
qed

lemma same_held:
  assumes "agree r root b b'"
  shows "mset (held b r root) = mset (held b' r root)"
  unfolding held_def
  using agree_patches [OF assms] by (rule mset_filter_cong) (use agreeD [OF assms] in auto)

definition live_overlays :: "nostr_event dict \<Rightarrow> jsstr \<Rightarrow> nostr_event \<Rightarrow> nostr_event list" where
  "live_overlays b r root =
     filter (\<lambda>o'. ev_id o' \<notin> set (honouredDeletions (deletion_events b) b))
       (filter (\<lambda>p. ev_pubkey p \<noteq> ev_pubkey root) (root_patches r b))"

lemma root_overlays_buckets: "root_overlays b r root = buckets replyTarget (live_overlays b r root)"
  by (simp add: root_overlays_def overlays_by_target_def live_overlays_def)

lemma same_live_overlays:
  assumes "agree r root b b'"
  shows "mset (live_overlays b r root) = mset (live_overlays b' r root)"
  unfolding live_overlays_def filter_filter
  using agree_patches [OF assms] by (rule mset_filter_cong) (use agreeD(1) [OF assms] in auto)

lemma distinct_map_filter': "distinct (map f xs) \<Longrightarrow> distinct (map f (filter P xs))"
  by (rule distinct_map_filter)

lemma inj_ids:
  assumes "distinct_ids b"
  shows "inj_on ev_id (set (root_patches r b))" "distinct (map ev_id (live_overlays b r root))"
    "distinct_buckets (root_overlays b r root)"
proof -
  have d: "distinct (map ev_id (root_patches r b))"
    using assms unfolding distinct_ids_def root_patches_def by (rule distinct_map_filter)
  then show "inj_on ev_id (set (root_patches r b))"
    by (simp add: distinct_map)
  show l: "distinct (map ev_id (live_overlays b r root))"
    unfolding live_overlays_def by (intro distinct_map_filter d)
  show "distinct_buckets (root_overlays b r root)"
    unfolding distinct_buckets_def root_overlays_buckets
    by (auto simp: dget_buckets Let_def intro!: distinct_map_filter l split: if_splits)
qed

lemma walk_events: "set (fst (walk ch v pos)) \<subseteq> bucket_events ch"
proof (induction ch v pos rule: walk.induct)
  case (1 ch v pos)
  show ?case
  proof (cases "dget ch pos")
    case (Some kids)
    then have sub: "set kids \<subseteq> bucket_events ch"
      by (force simp: bucket_events_def dest: map_of_SomeD)
    consider "kids = []" | n where "kids = [n]" | a b r where "kids = a # b # r"
      by (metis list.exhaust)
    then show ?thesis
    proof cases
      case (2 n)
      have "ev_id n \<notin> set v \<Longrightarrow> set (fst (walk ch (sadd (ev_id n) v) (ev_id n))) \<subseteq> bucket_events ch"
        using 1 [of kids n "[]"] Some 2 by simp
      with Some 2 sub show ?thesis
        by (subst walk.simps) (auto simp: case_prod_beta)
    qed (use Some in \<open>subst walk.simps; simp\<close>)+
  qed (subst walk.simps; simp)
qed

lemma walk_fork: "snd (walk ch v pos) = Some (p, bs) \<Longrightarrow> dget ch p = Some bs"
proof (induction ch v pos rule: walk.induct)
  case (1 ch v pos)
  show ?case
  proof (cases "dget ch pos")
    case None
    with 1(2) show ?thesis by (subst (asm) walk.simps) simp
  next
    case (Some kids)
    consider "kids = []" | n where "kids = [n]" | a b r where "kids = a # b # r"
      by (metis list.exhaust)
    then show ?thesis
    proof cases
      case (2 n)
      have "ev_id n \<notin> set v \<Longrightarrow> snd (walk ch (sadd (ev_id n) v) (ev_id n)) = Some (p, bs) \<Longrightarrow>
          dget ch p = Some bs"
        using 1(1) [of kids n "[]"] Some 2 by simp
      with 1(2) Some 2 show ?thesis
        by (subst (asm) walk.simps) (auto simp: case_prod_beta split: if_splits)
    qed (use Some 1(2) in \<open>subst (asm) walk.simps; simp\<close>)+
  qed
qed

lemma bucket_events_buckets: "bucket_events (buckets key xs) \<subseteq> set xs"
  by (auto simp: bucket_events_def buckets_entries)

lemma surviving_subset: "set (surviving b r root) \<subseteq> set (root_patches r b)"
  by (auto simp: surviving_def Let_def)

lemma live_overlays_subset: "set (live_overlays b r root) \<subseteq> set (root_patches r b)"
  by (auto simp: live_overlays_def)

lemma overlay_of_ids [simp]:
  "ov_id (overlay_of P b m tip t e) = ev_id e" "ov_targetId (overlay_of P b m tip t e) = t"
  by (simp_all add: overlay_of_def split: prod.split)

lemma overlay_keys:
  assumes "distinct (map ev_id xs)"
  shows "inj_on (\<lambda>o'. (ov_targetId o', ov_id o')) (set (concat (map (\<lambda>x. case replyTarget x of
     None \<Rightarrow> [] | Some t \<Rightarrow> [overlay_of P b m tip t x]) xs)))"
proof (rule inj_onI)
  fix u v
  assume "u \<in> set (concat (map (\<lambda>x. case replyTarget x of
       None \<Rightarrow> [] | Some t \<Rightarrow> [overlay_of P b m tip t x]) xs))"
    and "v \<in> set (concat (map (\<lambda>x. case replyTarget x of
       None \<Rightarrow> [] | Some t \<Rightarrow> [overlay_of P b m tip t x]) xs))"
    and key: "(ov_targetId u, ov_id u) = (ov_targetId v, ov_id v)"
  then obtain x t y s where "u = overlay_of P b m tip t x" "v = overlay_of P b m tip s y"
      "x \<in> set xs" "y \<in> set xs"
    by (auto split: option.splits)
  moreover from this key assms have "x = y"
    by (auto simp: distinct_map inj_on_def)
  ultimately show "u = v"
    using key by simp
qed

lemma resolution_cong:
  "c = c' \<Longrightarrow> ov = ov' \<Longrightarrow> p = p' \<Longrightarrow> a = a' \<Longrightarrow>
     \<lparr>re_chain = c, re_overlays = ov, re_pending = p, re_annotations = a\<rparr> =
     \<lparr>re_chain = c', re_overlays = ov', re_pending = p', re_annotations = a'\<rparr>"
  by simp

lemma resolve_root_confluent:
  assumes same: "agree r root b b'" and "distinct_ids b" "keyed b" and k': "keyed b'"
    and obs: "\<forall>p \<in> set (root_patches r b). observed b p"
    and obs': "\<forall>p \<in> set (root_patches r b'). observed b' p"
  shows "resolve_root parse options b r root = resolve_root parse options b' r root"
proof -
  obtain ps f where w: "walk (children_of (surviving b r root)) [r] r = (ps, f)" by fastforce
  obtain ps' f' where w': "walk (children_of (surviving b' r root)) [r] r = (ps', f')" by fastforce
  have "perm_map (children_of (surviving b r root)) (children_of (surviving b' r root))"
    unfolding children_of_def by (rule perm_buckets) (rule same_surviving [OF same])
  from walk_perm [OF this, of "[r]" r] w w' have ps: "ps' = ps" and ff: "same_fork f f'"
    by simp_all
  let ?ovs = "root_overlays b r root" and ?ovs' = "root_overlays b' r root"
  have ovs: "perm_map ?ovs ?ovs'"
    unfolding root_overlays_buckets by (rule perm_buckets) (rule same_live_overlays [OF same])
  note dist = inj_ids [OF assms(2), of r]
  let ?run = "chain_run_of parse options ?ovs r (ev_content root) ps"
  let ?run' = "chain_run_of parse options ?ovs' r (ev_content root) ps"
  have "same_run (classifyAgainst parse options ?ovs r (ev_content root) ([], []))
      (classifyAgainst parse options ?ovs' r (ev_content root) ([], []))"
    by (rule classifyAgainst_perm [OF ovs dist(3)]) (simp add: same_run_def)
  from apply_chain_perm [OF ovs dist(3) this]
  have run: "cr_content ?run = cr_content ?run'" "cr_applied ?run = cr_applied ?run'"
      "cr_stop ?run = cr_stop ?run'" "same_run (cr_run ?run) (cr_run ?run')"
    unfolding chain_run_of_def by blast+
  have tip: "tip_of r ?run = tip_of r ?run'"
    by (simp add: tip_of_def run)
  have forks: "fork_annotation f = fork_annotation f' \<and>
      map_option (\<lambda>(p, bs). (p, sort (map ev_id bs))) f
        = map_option (\<lambda>(p, bs). (p, sort (map ev_id bs))) f'"
  proof (cases f)
    case (Some pf)
    obtain p bs where pf: "f = Some (p, bs)" using Some by (cases pf) simp
    with ff obtain bs' where f': "f' = Some (p, bs')" and m: "mset bs = mset bs'"
      by (auto simp: same_fork_def option_rel_Some1)
    have "dget (children_of (surviving b r root)) p = Some bs"
      using w pf by (intro walk_fork [of _ "[r]" r]) simp
    then have "set bs \<subseteq> set (root_patches r b)"
      using surviving_subset [of b r root]
      by (auto simp: children_of_def dget_buckets Let_def split: if_splits)
    then have "inj_on ev_id (set bs)"
      using dist(1) by (rule inj_on_subset [rotated])
    then have "inj_on fb_id (set (map branch_of bs))"
      by (auto simp: inj_on_def branch_of_def)
    moreover have "mset (map branch_of bs) = mset (map branch_of bs')"
      using m by (simp only: mset_map)
    moreover have "sort (map ev_id bs) = sort (map ev_id bs')"
      using m by (intro sort_perm) (simp only: mset_map)
    ultimately show ?thesis
      using sort_key_perm [of "map branch_of bs" "map branch_of bs'" fb_id] pf f'
      by (simp add: fork_annotation_def)
  qed (use ff in \<open>simp add: same_fork_def\<close>)
  have chain: "chain_state (tip_of r ?run) f ?run = chain_state (tip_of r ?run') f' ?run'"
    using forks by (cases f; cases f') (auto simp: chain_state_def run tip split: stop.split prod.splits)
  have "inj_on ann_key (set (snd (cr_run ?run) @ fork_annotation f))"
  proof (rule annotation_keys [OF dist(1)])
    have "set ps \<subseteq> set (root_patches r b)"
      using walk_events [of "children_of (surviving b r root)" "[r]" r] w
        bucket_events_buckets [of replyTarget "surviving b r root"] surviving_subset [of b r root]
      by (auto simp: children_of_def)
    moreover have "bucket_events ?ovs \<subseteq> set (root_patches r b)"
      unfolding root_overlays_buckets
      using bucket_events_buckets live_overlays_subset by blast
    ultimately have "limit_annotation ` (bucket_events ?ovs \<union> set ps) \<subseteq> limit_annotation ` set (root_patches r b)"
      by (intro image_mono Un_least)
    moreover have "set (snd (cr_run ?run)) \<subseteq>
        limit_annotation ` (bucket_events ?ovs \<union> set ps) \<union> stop_annotation (cr_stop ?run)"
      using apply_chain_annotations [of parse options ?ovs ps "ev_content root" "[]"]
        classifyAgainst_annotations [of parse options ?ovs r "ev_content root" "([], [])"]
      unfolding chain_run_of_def by fastforce
    ultimately show "set (snd (cr_run ?run) @ fork_annotation f) \<subseteq>
        limit_annotation ` set (root_patches r b) \<union> stop_annotation (cr_stop ?run)
        \<union> set (fork_annotation f)"
      unfolding set_append by blast
  qed
  then have ann: "sort_key ann_key (snd (cr_run ?run) @ fork_annotation f) =
      sort_key ann_key (snd (cr_run ?run') @ fork_annotation f')"
    using run(4) forks by (intro sort_key_perm) (simp_all add: same_run_def)
  let ?tip = "if is_forked (chain_state (tip_of r ?run) f ?run) then None else Some (tip_of r ?run)"
  let ?f = "overlay_of (set_of (r # cr_applied ?run)) b (fst (cr_run ?run)) ?tip"
  let ?g = "overlay_of (set_of (r # cr_applied ?run')) b' (fst (cr_run ?run')) ?tip"
  have fg: "?g t x = ?f t x" if "(t, bs) \<in> set ?ovs'" "x \<in> set bs" for t bs x
  proof -
    have "replyTarget x = Some t" "x \<in> set (root_patches r b')"
      using that live_overlays_subset [of b' r root] unfolding root_overlays_buckets by (auto simp: buckets_entries)
    then have "dhas b t = dhas b' t"
      using agreeD(3) [OF same] mset_eq_setD [OF agree_patches [OF same]] by blast
    then show ?thesis
      unfolding run(2) using run(4) by (intro overlay_of_cong) (simp_all add: same_run_def)
  qed
  have fgs: "concat (map (\<lambda>(t, bs). map (?g t) bs) ?ovs') = concat (map (\<lambda>(t, bs). map (?f t) bs) ?ovs')"
  proof (rule arg_cong [of _ _ concat], rule map_cong [OF refl])
    fix y assume "y \<in> set ?ovs'"
    then have y: "y = (fst y, snd y)" "(fst y, snd y) \<in> set ?ovs'" by simp_all
    show "(case y of (t, bs) \<Rightarrow> map (?g t) bs) = (case y of (t, bs) \<Rightarrow> map (?f t) bs)"
      by (subst (1 2) y(1), unfold prod.case) (rule map_cong [OF refl], rule fg [OF y(2)])
  qed
  let ?h = "\<lambda>x. case replyTarget x of None \<Rightarrow> [] | Some t \<Rightarrow> [?f t x]"
  have cat: "mset (concat (map (\<lambda>(t, bs). map (?f t) bs) ?ovs)) = mset (concat (map ?h (live_overlays b r root)))"
    and cat': "mset (concat (map (\<lambda>(t, bs). map (?f t) bs) ?ovs')) = mset (concat (map ?h (live_overlays b' r root)))"
    unfolding root_overlays_buckets by (rule mset_buckets)+
  have "inj_on (\<lambda>o'. (ov_targetId o', ov_id o')) (set (concat (map (\<lambda>(t, bs). map (?f t) bs) ?ovs)))"
    unfolding mset_eq_setD [OF cat] by (rule overlay_keys [OF dist(2)])
  then have ovl: "sort_key (\<lambda>o'. (ov_targetId o', ov_id o')) (concat (map (\<lambda>(t, bs). map (?f t) bs) ?ovs)) =
      sort_key (\<lambda>o'. (ov_targetId o', ov_id o')) (concat (map (\<lambda>(t, bs). map (?f t) bs) ?ovs'))"
    using cat cat' mset_concat_map_perm [OF same_live_overlays [OF same], of ?h]
    by (intro sort_key_perm) simp_all
  have pend: "sort (map ev_id (held b r root)) = sort (map ev_id (held b' r root))"
    using same_held [OF same] by (intro sort_perm) (simp only: mset_map)
  have "(if is_forked (chain_state (tip_of r ?run') f' ?run') then None else Some (tip_of r ?run')) = ?tip"
    unfolding chain [symmetric] unfolding tip by (rule refl)
  then have primed: "overlay_of (set_of (r # cr_applied ?run')) b' (fst (cr_run ?run'))
      (if is_forked (chain_state (tip_of r ?run') f' ?run') then None else Some (tip_of r ?run')) = ?g"
    by (simp only:)
  show ?thesis
    unfolding resolve_root_unfold [OF assms(3) obs] resolve_root_unfold [OF k' obs'] Let_def w w' ps
      prod.case primed fgs
    by (rule resolution_cong [OF chain ovl pend ann])
qed

lemma dedupe_observed:
  "keyed (dedupeById es)" "distinct_ids (dedupeById es)"
  "\<forall>p \<in> set (root_patches r (dedupeById es)). observed (dedupeById es) p"
proof -
  show k: "keyed (dedupeById es)"
    unfolding keyed_def by (metis dedupeById_entry map_of_SomeD)
  show "distinct_ids (dedupeById es)"
    by (simp add: distinct_ids_def del: map_map)
  show "\<forall>p \<in> set (root_patches r (dedupeById es)). observed (dedupeById es) p"
  proof
    fix p assume "p \<in> set (root_patches r (dedupeById es))"
    then obtain i where "(i, p) \<in> set (dedupeById es)"
      by (auto simp: root_patches_def)
    then have "dget (dedupeById es) i = Some p"
      by simp
    with k show "observed (dedupeById es) p"
      by (auto simp: keyed_def observed_def)
  qed
qed

text \<open>
  C20. Resolution is confluent (UR-1): it depends on the set of events observed, and neither on the
  order they arrived in nor on repetitions. Ids are content hashes, so that two observed events with
  the same id are the same event. Nothing else is assumed: the result is the same chain, overlays,
  pending set and annotations, through every fork, halt, deletion and limit.
\<close>

theorem resolve_confluent:
  assumes "id_consistent (set es)" and "set es = set es'"
  shows "resolve parse options rootId es = resolve parse options rootId es'"
proof -
  note perm = dedupe_perm [OF assms]
  have same: "same_events (dedupeById es) (dedupeById es')"
    using perm by (simp add: same_events_def)
  have "resolve_root parse options (dedupeById es) rootId root =
      resolve_root parse options (dedupeById es') rootId root" for root
    by (rule resolve_root_confluent [OF same_agree [OF same] dedupe_observed(2,1,1,3,3)])
  moreover have "sort (map ev_id (root_patches rootId (dedupeById es))) =
      sort (map ev_id (root_patches rootId (dedupeById es')))"
    using same_patches [OF same, of rootId] by (intro sort_perm) (simp only: mset_map)
  ultimately show ?thesis
    unfolding resolve_def Let_def perm(2) by (simp only:)
qed

section \<open>Resolution is local\<close>

text \<open>
  A patch replies to its root or to a patch on the same root. Then the lineage of a patch stays among
  the patches of its root.
\<close>

definition replies_on_root :: "jsstr \<Rightarrow> nostr_event dict \<Rightarrow> bool" where
  "replies_on_root r b \<longleftrightarrow>
     (\<forall>p \<in> set (root_patches r b). \<forall>t q. replyTarget p = Some t \<longrightarrow> t \<noteq> r \<longrightarrow> dget b t = Some q \<longrightarrow>
        q \<in> set (root_patches r b))"

definition same_root_view :: "jsstr \<Rightarrow> nostr_event dict \<Rightarrow> nostr_event dict \<Rightarrow> bool" where
  "same_root_view r b b' \<longleftrightarrow>
     dget b r = dget b' r \<and> set (root_patches r b) = set (root_patches r b')
     \<and> (\<forall>p \<in> set (root_patches r b). (\<forall>t. replyTarget p = Some t \<longrightarrow> dget b t = dget b' t)
          \<and> (\<forall>d. ev_kind d = DELETION_KIND \<longrightarrow> ev_id p \<in> er_id ` set (eTags d) \<longrightarrow>
               d \<in> set (dvalues b) \<longleftrightarrow> d \<in> set (dvalues b')))"

lemma settles_local:
  assumes v: "same_root_view r b b'" and c: "replies_on_root r b"
  shows "settles b r k p c \<Longrightarrow> p \<in> set (root_patches r b) \<Longrightarrow> settles b' r k p c"
proof (induction rule: settles.induct)
  case (settles_here p c)
  have "parent_step b' r k p = parent_step b r k p"
    using v settles_here.prems unfolding parent_step_def same_root_view_def by (auto split: option.split)
  with settles_here show ?case
    by (intro settles.settles_here) simp
next
  case (settles_up p q c)
  have step: "parent_step b' r k p = parent_step b r k p"
    using v settles_up.prems unfolding parent_step_def same_root_view_def by (auto split: option.split)
  obtain t where "replyTarget p = Some t" "t \<noteq> r" "dget b t = Some q"
    using settles_up.hyps(1) unfolding parent_step_def by (auto split: option.splits if_splits)
  then have "q \<in> set (root_patches r b)"
    using c settles_up.prems unfolding replies_on_root_def by blast
  with settles_up step show ?case
    by (intro settles.settles_up [of b' r k p q]) simp_all
qed

lemma root_patch_observed:
  "keyed b \<Longrightarrow> distinct (dkeys b) \<Longrightarrow> p \<in> set (root_patches r b) \<Longrightarrow> dget b (ev_id p) = Some p"
  by (force simp: root_patches_def keyed_def)

lemma honoured_patch_iff:
  assumes "keyed b" "distinct (dkeys b)" "p \<in> set (root_patches r b)"
  shows "ev_id p \<in> set (honouredDeletions (deletion_events b) b) \<longleftrightarrow>
    (\<exists>d \<in> set (dvalues b). ev_kind d = DELETION_KIND \<and> ev_id p \<in> er_id ` set (eTags d) \<and> ev_pubkey d = ev_pubkey p)"
proof -
  have g: "dget b (ev_id p) = Some p"
    by (rule root_patch_observed [OF assms])
  have k: "ev_kind p \<noteq> DELETION_KIND"
    using assms(3) by (simp add: root_patches_def)
  have h: "er_id ref = ev_id p \<Longrightarrow> honours b d ref \<longleftrightarrow> ev_pubkey d = ev_pubkey p" for d ref
    using g k by (auto simp: honours_def)
  show ?thesis
    unfolding set_honouredDeletions deletion_events_def set_filter image_iff
    using h by (auto simp del: set_map) metis+
qed

lemma agree_local:
  assumes v: "same_root_view r b b'" and c: "replies_on_root r b"
    and b: "keyed b" "distinct (dkeys b)" and b': "keyed b'" "distinct (dkeys b')"
  shows "agree r root b b'"
proof -
  have sets: "set (root_patches r b) = set (root_patches r b')"
    using v by (simp add: same_root_view_def)
  have d: "distinct (root_patches r x)" if "keyed x" "distinct (dkeys x)" for x
  proof -
    have "inj_on snd (set x)"
    proof (rule inj_onI)
      fix u v assume uv: "u \<in> set x" "v \<in> set x" "snd u = snd v"
      have "dget x (fst u) = Some (snd u)" "dget x (fst v) = Some (snd v)"
        using uv(1,2) by (intro map_of_is_SomeI [OF that(2)], simp)+
      then have "ev_id (snd u) = fst u" "ev_id (snd v) = fst v"
        using that(1) unfolding keyed_def by blast+
      with uv(3) show "u = v" by (metis prod.collapse)
    qed
    then have "distinct (dvalues x)"
      using that(2) by (simp add: distinct_map)
    then show ?thesis
      by (simp add: root_patches_def)
  qed
  have m: "mset (root_patches r b) = mset (root_patches r b')"
    using d [OF b] d [OF b'] sets by (simp add: set_eq_iff_mset_eq_distinct)
  have sym: "same_root_view r b' b"
    using v unfolding same_root_view_def by force
  have c': "replies_on_root r b'"
    using c v unfolding replies_on_root_def same_root_view_def by metis
  have deleted: "ev_id p \<in> set (honouredDeletions (deletion_events b) b) \<longleftrightarrow>
      ev_id p \<in> set (honouredDeletions (deletion_events b') b')" if "p \<in> set (root_patches r b)" for p
    unfolding honoured_patch_iff [OF b that] honoured_patch_iff [OF b' that [unfolded sets]]
    using v that unfolding same_root_view_def by blast
  have "settles b r k p x \<longleftrightarrow> settles b' r k p x" if "p \<in> set (root_patches r b)" for p k x
    using settles_local [OF v c] settles_local [OF sym c'] that sets by metis
  then have lin: "lineage b r k p = lineage b' r k p" if "p \<in> set (root_patches r b)" for p k
    using that by (simp add: lineage_def)
  have "dhas b t = dhas b' t" if "p \<in> set (root_patches r b)" "replyTarget p = Some t" for p t
    using v that unfolding same_root_view_def dhas_def by metis
  then show ?thesis
    unfolding agree_def using m deleted lin by blast
qed

lemma resolve_view:
  assumes v: "same_root_view r (dedupeById es) (dedupeById es')" and c: "replies_on_root r (dedupeById es)"
  shows "resolve parse options r es = resolve parse options r es'"
proof -
  note a = agree_local [OF v c dedupe_observed(1) keys_dedupeById dedupe_observed(1) keys_dedupeById]
  have "resolve_root parse options (dedupeById es) r root = resolve_root parse options (dedupeById es') r root"
    for root
    by (rule resolve_root_confluent [OF a dedupe_observed(2,1,1,3,3)])
  moreover have "sort (map ev_id (root_patches r (dedupeById es))) =
      sort (map ev_id (root_patches r (dedupeById es')))"
    using agree_patches [OF a] by (intro sort_perm) (simp only: mset_map)
  moreover have "dget (dedupeById es) r = dget (dedupeById es') r"
    using v by (simp add: same_root_view_def)
  ultimately show ?thesis
    unfolding resolve_def Let_def by (simp only:)
qed

text \<open>
  Resolution is local: as long as patches reply to their root or to a patch on the same root, the
  resolution of a root is not changed by any event other than the root, a patch on it, an event
  such a patch replies to, or a deletion that names such a patch. This is what lets a client fetch
  a root by its id, its patches and their deletions only, and what per-root caching rests on.
\<close>

theorem resolve_local:
  assumes "id_consistent (set es \<union> set extra)"
    and "\<And>p q. p \<in> set es \<Longrightarrow> q \<in> set es \<Longrightarrow> scrutinyEventType p = Some Patch \<Longrightarrow> rootTarget p = Some r \<Longrightarrow>
      replyTarget p = Some (ev_id q) \<Longrightarrow> ev_id q \<noteq> r \<Longrightarrow>
      ev_kind q \<noteq> DELETION_KIND \<and> scrutinyEventType q = Some Patch \<and> rootTarget q = Some r"
    and "\<And>x. x \<in> set extra \<Longrightarrow> ev_id x \<noteq> r \<and> \<not> (scrutinyEventType x = Some Patch \<and> rootTarget x = Some r)"
    and "\<And>x p. x \<in> set extra \<Longrightarrow> p \<in> set es \<Longrightarrow> scrutinyEventType p = Some Patch \<Longrightarrow> rootTarget p = Some r \<Longrightarrow>
      replyTarget p \<noteq> Some (ev_id x) \<and> \<not> (ev_kind x = DELETION_KIND \<and> ev_id p \<in> er_id ` set (eTags x))"
  shows "resolve parse options r (es @ extra) = resolve parse options r es"
proof -
  let ?b = "dedupeById es" and ?b' = "dedupeById (es @ extra)"
  have ce: "id_consistent (set es)" and c: "id_consistent (set (es @ extra))"
    using assms(1) by (auto intro: id_consistent_subset)
  note dg = dget_dedupe_consistent [OF ce] and dg' = dget_dedupe_consistent [OF c]
  have sv: "set (dvalues ?b) = set es" "set (dvalues ?b') = set es \<union> set extra"
    using set_dedupe_consistent [OF ce] set_dedupe_consistent [OF c] by simp_all
  have rp: "set (root_patches r ?b) = {e \<in> set es. ev_kind e \<noteq> DELETION_KIND \<and> scrutinyEventType e = Some Patch
      \<and> rootTarget e = Some r}"
    "set (root_patches r ?b') = set (root_patches r ?b)"
    unfolding root_patches_def set_filter sv using assms(3) by blast+
  have lookup: "dget ?b i = dget ?b' i" if "\<And>x. x \<in> set extra \<Longrightarrow> ev_id x \<noteq> i" for i
  proof (cases "dget ?b' i")
    case None
    then have "dget ?b i = None"
      using dg [of i] dg' [of i] by (metis UnI1 not_None_eq set_append)
    with None show ?thesis by simp
  next
    case (Some e)
    then have "e \<in> set es" "ev_id e = i"
      using that unfolding dg' by auto
    then have "dget ?b i = Some e"
      unfolding dg by blast
    with Some show ?thesis by simp
  qed
  have view: "same_root_view r ?b ?b'"
    unfolding same_root_view_def
  proof (intro conjI ballI allI impI)
    show "dget ?b r = dget ?b' r"
      by (rule lookup) (use assms(3) in blast)
    show "set (root_patches r ?b) = set (root_patches r ?b')"
      by (simp add: rp(2))
    fix p assume p: "p \<in> set (root_patches r ?b)"
    show "dget ?b t = dget ?b' t" if "replyTarget p = Some t" for t
      by (rule lookup) (use assms(4) p that in \<open>auto simp: rp(1)\<close>)
    show "d \<in> set (dvalues ?b) \<longleftrightarrow> d \<in> set (dvalues ?b')"
      if "ev_kind d = DELETION_KIND" "ev_id p \<in> er_id ` set (eTags d)" for d
      unfolding sv using assms(4) p that unfolding rp(1) by blast
  qed
  moreover have "replies_on_root r ?b"
    unfolding replies_on_root_def
  proof (intro ballI allI impI)
    fix p t q assume p: "p \<in> set (root_patches r ?b)" and t: "replyTarget p = Some t" "t \<noteq> r"
      and "dget ?b t = Some q"
    then have "q \<in> set es" "ev_id q = t"
      unfolding dg by blast+
    with p t assms(2) [of p q] show "q \<in> set (root_patches r ?b)"
      unfolding rp(1) by blast
  qed
  ultimately show ?thesis
    by (rule resolve_view [symmetric])
qed

section \<open>The canonical chain\<close>

text \<open>
  The specification of the chain: the patches of the root's author that reply to a position and are
  not deleted. A position with one of them advances, with none ends, with several forks.
\<close>

definition direct_children ::
    "nostr_event dict \<Rightarrow> jsstr \<Rightarrow> nostr_event \<Rightarrow> jsstr \<Rightarrow> nostr_event list" where
  "direct_children byId rootId root position =
     filter (\<lambda>p. ev_pubkey p = ev_pubkey root \<and> replyTarget p = Some position
        \<and> ev_id p \<notin> set (honouredDeletions (deletion_events byId) byId)) (root_patches rootId byId)"

fun chain_path :: "(jsstr \<Rightarrow> nostr_event list) \<Rightarrow> jsstr \<Rightarrow> nostr_event list \<Rightarrow> bool" where
  "chain_path kids position [] = True"
| "chain_path kids position (p # ps) = (kids position = [p] \<and> chain_path kids (ev_id p) ps)"

definition end_of :: "jsstr \<Rightarrow> nostr_event list \<Rightarrow> jsstr" where
  "end_of position ps = (if ps = [] then position else ev_id (last ps))"

lemma end_of_simps [simp]: "end_of pos [] = pos" "end_of pos (p # ps) = end_of (ev_id p) ps"
  by (simp_all add: end_of_def)

fun content_after ::
    "parse_patch \<Rightarrow> apply_options \<Rightarrow> jsstr \<Rightarrow> nostr_event list \<Rightarrow> jsstr option" where
  "content_after parse options content [] = Some content"
| "content_after parse options content (p # ps) =
     (case applyPatchContent parse options content (ev_content p) of
        PatchApplied c _ _ \<Rightarrow> content_after parse options c ps
      | PatchNoop c _ \<Rightarrow> content_after parse options c ps
      | _ \<Rightarrow> None)"

subsection \<open>The walk finds it\<close>

definition kids_in :: "nostr_event list \<Rightarrow> jsstr \<Rightarrow> nostr_event list" where
  "kids_in S pos = filter (\<lambda>p. replyTarget p = Some pos) S"

lemma dget_children: "dget (children_of S) pos = (if kids_in S pos = [] then None else Some (kids_in S pos))"
  by (simp add: children_of_def dget_buckets kids_in_def Let_def)

definition visited_ok :: "nostr_event list \<Rightarrow> jsstr list \<Rightarrow> jsstr \<Rightarrow> bool" where
  "visited_ok S visited pos \<longleftrightarrow> pos \<in> set visited \<and>
     (\<forall>x \<in> set S. ev_id x \<in> set visited \<longrightarrow>
        (\<exists>q. replyTarget x = Some q \<and> q \<in> set visited \<and> q \<noteq> pos))"

lemma walk_spec:
  assumes "distinct (map ev_id S)"
  shows "visited_ok S visited pos \<Longrightarrow> walk (children_of S) visited pos = (ps, f) \<Longrightarrow>
     chain_path (kids_in S) pos ps
     \<and> (case f of None \<Rightarrow> kids_in S (end_of pos ps) = []
        | Some (p, bs) \<Rightarrow> p = end_of pos ps \<and> bs = kids_in S p \<and> 2 \<le> length bs)"
proof (induction "children_of S" visited pos arbitrary: ps f rule: walk.induct)
  case (1 visited pos)
  consider "kids_in S pos = []" | n where "kids_in S pos = [n]" | a b r where "kids_in S pos = a # b # r"
    by (metis list.exhaust)
  then show ?case
  proof cases
    case 1
    with "1.prems"(2) show ?thesis
      by (subst (asm) walk.simps) (auto simp: dget_children)
  next
    case (2 n)
    then have n: "n \<in> set S" "replyTarget n = Some pos"
      by (auto simp: kids_in_def filter_eq_Cons_iff)
    have new: "ev_id n \<notin> set visited"
      using n "1.prems"(1) unfolding visited_ok_def by auto
    have ok: "visited_ok S (sadd (ev_id n) visited) (ev_id n)"
      unfolding visited_ok_def
    proof (intro conjI ballI impI)
      fix x assume x: "x \<in> set S" "ev_id x \<in> set (sadd (ev_id n) visited)"
      show "\<exists>q. replyTarget x = Some q \<and> q \<in> set (sadd (ev_id n) visited) \<and> q \<noteq> ev_id n"
      proof (cases "ev_id x = ev_id n")
        case True
        with assms x n have "x = n"
          by (auto simp: distinct_map inj_on_def)
        with n new "1.prems"(1) show ?thesis by (auto simp: visited_ok_def)
      next
        case False
        with x have "ev_id x \<in> set visited" by simp
        with x(1) "1.prems"(1) new show ?thesis
          unfolding visited_ok_def by (metis insertCI set_sadd)
      qed
    qed simp
    obtain ps' f' where rec: "walk (children_of S) (sadd (ev_id n) visited) (ev_id n) = (ps', f')"
      by fastforce
    have "ps = n # ps' \<and> f = f'"
      using "1.prems"(2) 2 new rec by (subst (asm) walk.simps) (auto simp: dget_children)
    moreover have "chain_path (kids_in S) (ev_id n) ps'
     \<and> (case f' of None \<Rightarrow> kids_in S (end_of (ev_id n) ps') = []
        | Some (p, bs) \<Rightarrow> p = end_of (ev_id n) ps' \<and> bs = kids_in S p \<and> 2 \<le> length bs)"
      by (rule "1.hyps" [of "[n]" n "[]"]) (use 2 new ok rec in \<open>simp_all add: dget_children\<close>)
    ultimately show ?thesis using 2 by (auto split: option.split)
  next
    case (3 a b r)
    with "1.prems"(2) have "ps = []" "f = Some (pos, a # b # r)"
      by (subst (asm) walk.simps, simp add: dget_children)+
    with 3 show ?thesis by simp
  qed
qed

text \<open>What the application of the chain's patches \<open>ps\<close> to \<open>content\<close> returned.\<close>

definition applied_run ::
    "parse_patch \<Rightarrow> apply_options \<Rightarrow> jsstr \<Rightarrow> jsstr list \<Rightarrow> nostr_event list \<Rightarrow> chain_run \<Rightarrow> bool" where
  "applied_run parse options content applied ps run \<longleftrightarrow>
     (\<exists>pre post. ps = pre @ post \<and> cr_applied run = applied @ map ev_id pre
        \<and> content_after parse options content pre = Some (cr_content run)
        \<and> (case cr_stop run of
             Went_through \<Rightarrow> post = []
           | Halted p reason \<Rightarrow> (\<exists>rest rule i is. post = p # rest
               \<and> applyPatchContent parse options (cr_content run) (ev_content p)
                   = PatchHalt reason rule i is)
           | Aborted p limit \<Rightarrow> (\<exists>rest n ceiling is. post = p # rest
               \<and> applyPatchContent parse options (cr_content run) (ev_content p)
                   = PatchLimit limit n ceiling is)))"

lemma applied_run_step:
  assumes "applied_run parse options c' (applied @ [ev_id p]) ps run"
    and "\<And>qs. content_after parse options c (p # qs) = content_after parse options c' qs"
  shows "applied_run parse options c applied (p # ps) run"
proof -
  obtain pre post where *: "ps = pre @ post" "cr_applied run = (applied @ [ev_id p]) @ map ev_id pre"
      "content_after parse options c' pre = Some (cr_content run)"
      "case cr_stop run of
             Went_through \<Rightarrow> post = []
           | Halted p reason \<Rightarrow> (\<exists>rest rule i is. post = p # rest
               \<and> applyPatchContent parse options (cr_content run) (ev_content p)
                   = PatchHalt reason rule i is)
           | Aborted p limit \<Rightarrow> (\<exists>rest n ceiling is. post = p # rest
               \<and> applyPatchContent parse options (cr_content run) (ev_content p)
                   = PatchLimit limit n ceiling is)"
    using assms(1) unfolding applied_run_def by blast
  show ?thesis
    unfolding applied_run_def
    by (rule exI [of _ "p # pre"], rule exI [of _ post]) (use * assms(2) in simp)
qed

lemma apply_chain_spec:
  "applied_run parse options c applied ps (apply_chain parse options m ps c applied r)"
proof (induction ps arbitrary: c applied r)
  case (Cons p ps)
  show ?case
  proof (cases "applyPatchContent parse options c (ev_content p)")
    case (PatchApplied x n w)
    have "applied_run parse options c applied (p # ps) (apply_chain parse options m ps x (applied @ [ev_id p])
        (classifyAgainst parse options m (ev_id p) x r))"
      using Cons.IH by (rule applied_run_step) (simp add: PatchApplied)
    with PatchApplied show ?thesis by simp
  next
    case (PatchNoop x s)
    have "applied_run parse options c applied (p # ps) (apply_chain parse options m ps x (applied @ [ev_id p])
        (classifyAgainst parse options m (ev_id p) x r))"
      using Cons.IH by (rule applied_run_step) (simp add: PatchNoop)
    with PatchNoop show ?thesis by simp
  next
    case (PatchHalt reason rule i "is")
    then show ?thesis
      unfolding applied_run_def by (intro exI [of _ "[]"] exI [of _ "p # ps"]) simp
  next
    case (PatchLimit limit n ceiling "is")
    then show ?thesis
      unfolding applied_run_def by (intro exI [of _ "[]"] exI [of _ "p # ps"]) simp
  qed
qed (simp add: applied_run_def)

subsection \<open>Surviving patches and direct children\<close>

text \<open>At a position the walk can reach, the two agree.\<close>

definition reachable_position :: "nostr_event dict \<Rightarrow> jsstr \<Rightarrow> nostr_event \<Rightarrow> jsstr \<Rightarrow> bool" where
  "reachable_position b r root pos \<longleftrightarrow>
     pos = r \<or> (\<exists>p \<in> set (surviving b r root). pos = ev_id p)"

lemma surviving_iff:
  "p \<in> set (surviving b r root) \<longleftrightarrow> p \<in> set (root_patches r b) \<and> ev_pubkey p = ev_pubkey root
     \<and> lineage b r (ev_pubkey root) p = El_chain
     \<and> \<not> cascaded {q \<in> set (root_patches r b). ev_pubkey q = ev_pubkey root
            \<and> lineage b r (ev_pubkey root) q = El_chain}
          (set (honouredDeletions (deletion_events b) b)) (ev_id p)"
  by (auto simp: surviving_def Let_def set_cascade)

lemma direct_children_eq:
  assumes obs: "\<forall>p \<in> set (root_patches r b). observed b p" and inj: "inj_on ev_id (set (root_patches r b))"
    and root: "dget b r = Some root" "ev_id root = r" "scrutinyEventType root \<noteq> Some Patch"
    and reach: "reachable_position b r root pos"
  shows "kids_in (surviving b r root) pos = direct_children b r root pos"
proof -
  let ?L = "{q \<in> set (root_patches r b). ev_pubkey q = ev_pubkey root
            \<and> lineage b r (ev_pubkey root) q = El_chain}"
  let ?D = "set (honouredDeletions (deletion_events b) b)"
  have notroot: "ev_id p \<noteq> r" if "p \<in> set (root_patches r b)" for p
  proof
    assume "ev_id p = r"
    moreover have "dget b (ev_id p) = Some p"
      using that obs by (simp add: observed_def)
    ultimately have "p = root" using root(1) by simp
    with that root(3) show False by (simp add: root_patches_def)
  qed
  have "p \<in> set (surviving b r root) \<longleftrightarrow> ev_pubkey p = ev_pubkey root \<and> ev_id p \<notin> ?D"
    if p: "p \<in> set (root_patches r b)" "replyTarget p = Some pos" for p
  proof
    assume "p \<in> set (surviving b r root)"
    with p show "ev_pubkey p = ev_pubkey root \<and> ev_id p \<notin> ?D"
      unfolding surviving_iff by (blast intro: cascaded_deleted)
  next
    assume mine: "ev_pubkey p = ev_pubkey root \<and> ev_id p \<notin> ?D"
    have parent: "(pos = r \<or> (\<exists>q. q \<in> set (surviving b r root) \<and> pos = ev_id q \<and> pos \<noteq> r))"
      using reach notroot surviving_subset unfolding reachable_position_def by blast
    have chain: "lineage b r (ev_pubkey root) p = El_chain"
      using parent
    proof
      assume "pos = r"
      with p show ?thesis by (intro lineage_end) (simp add: parent_step_def)
    next
      assume "\<exists>q. q \<in> set (surviving b r root) \<and> pos = ev_id q \<and> pos \<noteq> r"
      then obtain q where q: "q \<in> set (surviving b r root)" "pos = ev_id q" "pos \<noteq> r" by blast
      then have "observed b q" "ev_pubkey q = ev_pubkey root"
        using obs by (auto simp: surviving_iff)
      with p q have "parent_step b r (ev_pubkey root) p = Inr q"
        by (simp add: parent_step_def observed_def)
      with q(1) show ?thesis by (simp add: lineage_step surviving_iff)
    qed
    have "\<not> cascaded ?L ?D (ev_id p)"
    proof
      assume "cascaded ?L ?D (ev_id p)"
      then show False
      proof (rule cascadedE)
        fix x assume "ev_id p = ev_id x" "ev_id x \<in> ?D"
        with mine show False by simp
      next
        fix x parent
        assume x: "ev_id p = ev_id x" "x \<in> ?L" "replyTarget x = Some parent" "cascaded ?L ?D parent"
        with inj p(1) have "x = p" by (auto dest: inj_onD)
        with x p(2) have pos: "cascaded ?L ?D pos" by simp
        then have "\<exists>y \<in> ?L. pos = ev_id y"
          by (auto elim: cascadedE)
        with notroot have "pos \<noteq> r" by auto
        with parent obtain q where "q \<in> set (surviving b r root)" "pos = ev_id q" by blast
        with pos show False by (simp add: surviving_iff)
      qed
    qed
    with p(1) mine chain show "p \<in> set (surviving b r root)"
      by (simp add: surviving_iff)
  qed
  note iff = this
  let ?S = "surviving b r root"
  have "?S = filter (\<lambda>p. p \<in> set ?S) (root_patches r b)"
    by (subst surviving_def) (auto simp: Let_def surviving_def intro!: filter_cong)
  then have "kids_in ?S pos = filter (\<lambda>p. replyTarget p = Some pos) (filter (\<lambda>p. p \<in> set ?S) (root_patches r b))"
    unfolding kids_in_def by (rule arg_cong)
  then show ?thesis
    unfolding direct_children_def filter_filter by (rule trans) (rule filter_cong, use iff in auto)
qed

lemma walk_path_eq:
  assumes eq: "\<And>pos. pos = r \<or> (\<exists>p \<in> set S. pos = ev_id p) \<Longrightarrow> kids_in S pos = K pos"
  shows "pos = r \<or> (\<exists>p \<in> set S. pos = ev_id p) \<Longrightarrow> chain_path (kids_in S) pos ps \<Longrightarrow>
    chain_path K pos ps \<and> kids_in S (end_of pos ps) = K (end_of pos ps)"
proof (induction ps arbitrary: pos)
  case (Cons p ps)
  then have "p \<in> set S"
    by (auto simp: kids_in_def filter_eq_Cons_iff)
  with Cons eq [of pos] show ?case by auto
qed (simp add: eq)

text \<open>The chain of the observed events \<open>es\<close>, with the root event \<open>root\<close>, is \<open>chain\<close>.\<close>

definition canonical ::
    "parse_patch \<Rightarrow> apply_options \<Rightarrow> (jsstr \<Rightarrow> nostr_event list) \<Rightarrow> nostr_event \<Rightarrow> chain_state \<Rightarrow> bool" where
  "canonical parse options kids root chain \<longleftrightarrow>
     (case chain of
        Chain_resolved tip content applied \<Rightarrow>
          (\<exists>ps. chain_path kids (ev_id root) ps \<and> applied = map ev_id ps \<and> tip = end_of (ev_id root) ps
             \<and> kids tip = [] \<and> content_after parse options (ev_content root) ps = Some content)
      | Chain_forked content parent branches \<Rightarrow>
          (\<exists>ps. chain_path kids (ev_id root) ps \<and> parent = end_of (ev_id root) ps
             \<and> 2 \<le> length (kids parent) \<and> branches = sort (map ev_id (kids parent))
             \<and> content_after parse options (ev_content root) ps = Some content)
      | Chain_halted content tip applied haltedAt reason \<Rightarrow>
          (\<exists>ps p rule i is. chain_path kids (ev_id root) (ps @ [p]) \<and> applied = map ev_id ps
             \<and> tip = end_of (ev_id root) ps \<and> haltedAt = ev_id p
             \<and> content_after parse options (ev_content root) ps = Some content
             \<and> applyPatchContent parse options content (ev_content p) = PatchHalt reason rule i is)
      | Chain_aborted content tip applied abortedAt limit \<Rightarrow>
          (\<exists>ps p n ceiling is. chain_path kids (ev_id root) (ps @ [p]) \<and> applied = map ev_id ps
             \<and> tip = end_of (ev_id root) ps \<and> abortedAt = ev_id p
             \<and> content_after parse options (ev_content root) ps = Some content
             \<and> applyPatchContent parse options content (ev_content p) = PatchLimit limit n ceiling is)
      | Chain_absent _ \<Rightarrow> False)"

lemma chain_path_append:
  "chain_path K pos (ps @ qs) \<longleftrightarrow> chain_path K pos ps \<and> chain_path K (end_of pos ps) qs"
  by (induction ps arbitrary: pos) auto

lemma tip_of_end:
  "cr_applied run = map ev_id ps \<Longrightarrow> tip_of r run = end_of r ps"
  by (auto simp: tip_of_def at_last_def end_of_def last_map)

lemma chain_state_canonical:
  assumes path: "chain_path K (ev_id root) ps"
    and fork: "case f of None \<Rightarrow> K (end_of (ev_id root) ps) = []
        | Some (p, bs) \<Rightarrow> p = end_of (ev_id root) ps \<and> bs = K p \<and> 2 \<le> length bs"
    and run: "applied_run parse options (ev_content root) [] ps run"
  shows "canonical parse options K root (chain_state (tip_of (ev_id root) run) f run)"
proof -
  obtain pre post where r: "ps = pre @ post" "cr_applied run = map ev_id pre"
      "content_after parse options (ev_content root) pre = Some (cr_content run)"
      and stop: "case cr_stop run of
             Went_through \<Rightarrow> post = []
           | Halted p reason \<Rightarrow> (\<exists>rest rule i is. post = p # rest
               \<and> applyPatchContent parse options (cr_content run) (ev_content p)
                   = PatchHalt reason rule i is)
           | Aborted p limit \<Rightarrow> (\<exists>rest n ceiling is. post = p # rest
               \<and> applyPatchContent parse options (cr_content run) (ev_content p)
                   = PatchLimit limit n ceiling is)"
    using run unfolding applied_run_def by auto
  have tip: "tip_of (ev_id root) run = end_of (ev_id root) pre"
    using r(2) by (rule tip_of_end)
  have pre: "chain_path K (ev_id root) pre"
    using path r(1) by (simp add: chain_path_append)
  show ?thesis
  proof (cases "cr_stop run")
    case Went_through
    with stop r(1) have ps: "pre = ps" by simp
    show ?thesis
    proof (cases f)
      case None
      have cs: "chain_state (tip_of (ev_id root) run) f run =
          Chain_resolved (end_of (ev_id root) ps) (cr_content run) (map ev_id ps)"
        using Went_through None tip r(2) unfolding ps by (simp add: chain_state_def)
      show ?thesis
        unfolding cs canonical_def chain_state.case
        by (rule exI [of _ ps]) (use path fork None r(3) [unfolded ps] in simp)
    next
      case (Some pb)
      then obtain p bs where f: "f = Some (p, bs)" by (cases pb) auto
      have cs: "chain_state (tip_of (ev_id root) run) f run =
          Chain_forked (cr_content run) p (sort (map ev_id bs))"
        using Went_through f by (simp add: chain_state_def)
      have fork': "p = end_of (ev_id root) ps" "bs = K p" "2 \<le> length bs"
      proof -
        have "p = end_of (ev_id root) ps \<and> bs = K p \<and> 2 \<le> length bs"
          using fork unfolding f option.case prod.case .
        then show "p = end_of (ev_id root) ps" "bs = K p" "2 \<le> length bs" by blast+
      qed
      show ?thesis
        unfolding cs canonical_def chain_state.case
        by (rule exI [of _ ps]) (use path fork' r(3) [unfolded ps] in auto)
    qed
  next
    case (Halted p reason)
    with stop obtain rest rule i "is" where post: "post = p # rest"
        "applyPatchContent parse options (cr_content run) (ev_content p) = PatchHalt reason rule i is"
      by auto
    have "chain_path K (ev_id root) (pre @ [p])"
      using path r(1) post(1) by (simp add: chain_path_append)
    with Halted r tip post show ?thesis
      unfolding chain_state_def canonical_def by (simp only: stop.case chain_state.case) blast
  next
    case (Aborted p limit)
    with stop obtain rest n ceiling "is" where post: "post = p # rest"
        "applyPatchContent parse options (cr_content run) (ev_content p) = PatchLimit limit n ceiling is"
      by auto
    have "chain_path K (ev_id root) (pre @ [p])"
      using path r(1) post(1) by (simp add: chain_path_append)
    with Aborted r tip post show ?thesis
      unfolding chain_state_def canonical_def by (simp only: stop.case chain_state.case) blast
  qed
qed

lemma resolve_root_canonical:
  assumes obs: "\<forall>p \<in> set (root_patches r b). observed b p" and "keyed b" "distinct_ids b"
    and root: "dget b r = Some root" "scrutinyEventType root \<noteq> Some Patch"
  shows "canonical parse options (direct_children b r root) root
    (re_chain (resolve_root parse options b r root))"
proof -
  have r: "ev_id root = r"
    using assms(2) root(1) by (simp add: keyed_def)
  let ?S = "surviving b r root"
  obtain ps f where w: "walk (children_of ?S) [r] r = (ps, f)" by fastforce
  have inj: "inj_on ev_id (set (root_patches r b))"
    by (rule inj_ids(1) [OF assms(3)])
  have notroot: "ev_id p \<noteq> r" if "p \<in> set ?S" for p
  proof
    assume "ev_id p = r"
    moreover have "dget b (ev_id p) = Some p"
      using that obs surviving_subset [of b r root] by (auto simp: observed_def)
    ultimately have "p = root" using root(1) by simp
    with that root(2) surviving_subset [of b r root] show False by (auto simp: root_patches_def)
  qed
  have "distinct (map ev_id ?S)"
    using assms(3) unfolding surviving_def Let_def root_patches_def distinct_ids_def
    by (intro distinct_map_filter)
  moreover have "visited_ok ?S [r] r"
    using notroot by (auto simp: visited_ok_def)
  ultimately have spec: "chain_path (kids_in ?S) r ps
     \<and> (case f of None \<Rightarrow> kids_in ?S (end_of r ps) = []
        | Some (p, bs) \<Rightarrow> p = end_of r ps \<and> bs = kids_in ?S p \<and> 2 \<le> length bs)"
    using w by (rule walk_spec)
  have eq: "kids_in ?S pos = direct_children b r root pos" if "pos = r \<or> (\<exists>p \<in> set ?S. pos = ev_id p)" for pos
    by (rule direct_children_eq [OF obs inj root(1) r root(2)])
      (use that in \<open>simp add: reachable_position_def\<close>)
  have path: "chain_path (direct_children b r root) r ps \<and>
      kids_in ?S (end_of r ps) = direct_children b r root (end_of r ps)"
    by (rule walk_path_eq [where S = ?S and r = r]) (use spec eq in auto)
  let ?run = "chain_run_of parse options (root_overlays b r root) r (ev_content root) ps"
  have "re_chain (resolve_root parse options b r root) = chain_state (tip_of (ev_id root) ?run) f ?run"
    unfolding resolve_root_unfold [OF assms(2) obs] Let_def w prod.case r by simp
  moreover have "canonical parse options (direct_children b r root) root
      (chain_state (tip_of (ev_id root) ?run) f ?run)"
  proof (rule chain_state_canonical)
    show "applied_run parse options (ev_content root) [] ps ?run"
      unfolding chain_run_of_def by (rule apply_chain_spec)
    show "case f of None \<Rightarrow> direct_children b r root (end_of (ev_id root) ps) = []
        | Some (p, bs) \<Rightarrow> p = end_of (ev_id root) ps \<and> bs = direct_children b r root p \<and> 2 \<le> length bs"
      using spec path r by (auto split: option.splits)
    show "chain_path (direct_children b r root) (ev_id root) ps"
      using path r by simp
  qed
  ultimately show ?thesis by simp
qed


text \<open>
  C21. The chain is the canonical one. From the root, each applied patch is the only undeleted patch
  of the root's author that replies to the position before it. A resolved chain ends where there is
  none; a forked one at the first position with two or more, which are its branches, and never at
  one of them; a halted or aborted one at the first patch of the path that the applier refuses. The
  content is the root's, with exactly the applied patches applied in order.
\<close>

theorem resolve_canonical:
  "case find (\<lambda>e. ev_id e = rootId) es of
     None \<Rightarrow> re_chain (resolve parse options rootId es) = Chain_absent Root_unobserved
   | Some root \<Rightarrow>
       if scrutinyEventType root = Some Product \<or> scrutinyEventType root = Some Metadata
       then canonical parse options (direct_children (dedupeById es) rootId root) root
              (re_chain (resolve parse options rootId es))
       else re_chain (resolve parse options rootId es) = Chain_absent Root_not_patchable"
proof (cases "find (\<lambda>e. ev_id e = rootId) es")
  case (Some root)
  then have get: "dget (dedupeById es) rootId = Some root"
    by (simp add: dget_dedupeById)
  show ?thesis
  proof (cases "scrutinyEventType root = Some Product \<or> scrutinyEventType root = Some Metadata")
    case True
    then have "canonical parse options (direct_children (dedupeById es) rootId root) root
        (re_chain (resolve_root parse options (dedupeById es) rootId root))"
      by (intro resolve_root_canonical dedupe_observed get) auto
    with True Some get show ?thesis by (auto simp: resolve_def)
  qed (use Some get in \<open>simp add: resolve_def\<close>)
qed (simp add: resolve_def dget_dedupeById)

section \<open>No other author decides the chain\<close>

lemma apply_chain_core:
  "cr_content (apply_chain parse options m ps c a r) = cr_content (apply_chain parse options m' ps c a r')
   \<and> cr_applied (apply_chain parse options m ps c a r) = cr_applied (apply_chain parse options m' ps c a r')
   \<and> cr_stop (apply_chain parse options m ps c a r) = cr_stop (apply_chain parse options m' ps c a r')"
proof (induction ps arbitrary: c a r r')
  case (Cons p ps)
  show ?case
    by (cases "applyPatchContent parse options c (ev_content p)") (simp_all, (rule Cons.IH)+)
qed simp

definition authored :: "jsstr \<Rightarrow> nostr_event set \<Rightarrow> nostr_event set" where
  "authored key E = {e \<in> E. ev_pubkey e = key}"

definition events_of :: "nostr_event dict \<Rightarrow> nostr_event set" where
  "events_of b = set (dvalues b)"

lemma parent_chain_transfer:
  assumes "settles b r k p El_chain"
    and "\<And>i e. dget b i = Some e \<Longrightarrow> ev_pubkey e = k \<Longrightarrow> dget b' i = Some e"
  shows "settles b' r k p El_chain"
  using assms(1)
proof (induction p "El_chain" rule: settles.induct)
  case (settles_here p)
  then show ?case
    by (intro settles.settles_here) (auto simp: parent_step_def split: option.splits if_splits)
next
  case (settles_up p q)
  from settles_up(1) obtain i where i: "replyTarget p = Some i" "i \<noteq> r" "dget b i = Some q" "ev_pubkey q = k"
    by (auto simp: parent_step_def split: option.splits if_splits)
  then have "dget b' i = Some q" by (intro assms(2))
  with i have "parent_step b' r k p = Inr q" by (simp add: parent_step_def)
  then show ?case
    using settles_up.hyps(3) by (rule settles.settles_up)
qed


lemma surviving_transfer:
  assumes own: "\<And>i e. dget b i = Some e \<Longrightarrow> ev_pubkey e = ev_pubkey root \<Longrightarrow> dget b' i = Some e"
    and own': "\<And>i e. dget b' i = Some e \<Longrightarrow> ev_pubkey e = ev_pubkey root \<Longrightarrow> dget b i = Some e"
    and patches: "set (filter (\<lambda>p. ev_pubkey p = ev_pubkey root) (root_patches r b)) =
      set (filter (\<lambda>p. ev_pubkey p = ev_pubkey root) (root_patches r b'))"
    and obs: "\<forall>p \<in> set (root_patches r b). observed b p" "\<forall>p \<in> set (root_patches r b'). observed b' p"
    and dels: "{d \<in> set (deletion_events b). ev_pubkey d = ev_pubkey root} =
      {d \<in> set (deletion_events b'). ev_pubkey d = ev_pubkey root}"
  shows "set (surviving b r root) = set (surviving b' r root)"
proof -
  let ?k = "ev_pubkey root"
  let ?L = "\<lambda>b. {q \<in> set (root_patches r b). ev_pubkey q = ?k \<and> lineage b r ?k q = El_chain}"
  let ?D = "\<lambda>b. set (honouredDeletions (deletion_events b) b)"
  have lin: "lineage b r ?k p = El_chain \<longleftrightarrow> lineage b' r ?k p = El_chain" for p
    unfolding lineage_chain_iff using own own' by (blast intro: parent_chain_transfer)
  have L: "?L b = ?L b'"
    using patches lin by (auto simp: set_eq_iff)
  have del1: "ev_id p \<in> ?D b'" if "ev_id p \<in> ?D b" "p \<in> ?L b" "observed b p"
      and own: "\<And>i e. dget b i = Some e \<Longrightarrow> ev_pubkey e = ?k \<Longrightarrow> dget b' i = Some e"
      and dels: "\<And>d. d \<in> set (deletion_events b) \<Longrightarrow> ev_pubkey d = ?k \<Longrightarrow> d \<in> set (deletion_events b')"
    for p b b'
  proof -
    from that(1) obtain ref d where d: "er_id ref = ev_id p" "d \<in> set (deletion_events b)"
        "ref \<in> set (eTags d)" "honours b d ref"
      by (auto simp: set_honouredDeletions)
    from d(1,4) that(2,3) have "ev_pubkey d = ?k" "ev_kind p \<noteq> DELETION_KIND"
      by (auto simp: honours_def observed_def)
    moreover have "dget b' (ev_id p) = Some p"
      using that(2,3) own by (auto simp: observed_def)
    ultimately have "honours b' d ref" "d \<in> set (deletion_events b')"
      using d that(2) dels by (auto simp: honours_def)
    with d show ?thesis
      unfolding set_honouredDeletions by force
  qed
  have D: "ev_id p \<in> ?D b \<longleftrightarrow> ev_id p \<in> ?D b'" if p: "p \<in> ?L b" for p
  proof
    have p': "p \<in> ?L b'" using p L by blast
    show "ev_id p \<in> ?D b'" if "ev_id p \<in> ?D b"
      by (rule del1 [OF that p]) (use p obs(1) own dels in auto)
    show "ev_id p \<in> ?D b" if "ev_id p \<in> ?D b'"
      by (rule del1 [OF that p']) (use p' obs(2) own' dels in auto)
  qed
  have "cascaded (?L b) (?D b) i \<Longrightarrow> cascaded (?L b) (?D b') i" for i
    by (induction rule: cascaded.induct) (auto intro: cascaded_deleted cascaded_child simp: D)
  moreover have "cascaded (?L b) (?D b') i \<Longrightarrow> cascaded (?L b) (?D b) i" for i
    by (induction rule: cascaded.induct) (auto intro: cascaded_deleted cascaded_child simp: D)
  ultimately have "cascaded (?L b) (?D b) = cascaded (?L b') (?D b')"
    unfolding L [symmetric] by blast
  with L show ?thesis
    by (auto simp: surviving_iff set_eq_iff)
qed


lemma chain_state_cong:
  assumes "same_fork f f'" "cr_content run = cr_content run'" "cr_applied run = cr_applied run'"
    "cr_stop run = cr_stop run'"
  shows "chain_state (tip_of r run) f run = chain_state (tip_of r run') f' run'"
proof -
  have tip: "tip_of r run = tip_of r run'"
    using assms(3) by (simp add: tip_of_def)
  show ?thesis
  proof (cases f)
    case None
    with assms(1) have "f' = None" by (simp add: same_fork_def)
    with None assms tip show ?thesis by (simp add: chain_state_def split: stop.split)
  next
    case (Some pb)
    then obtain p bs where f: "f = Some (p, bs)" by (cases pb) auto
    with assms(1) obtain bs' where f': "f' = Some (p, bs')" and m: "mset bs = mset bs'"
      by (auto simp: same_fork_def option_rel_Some1)
    have "sort (map ev_id bs) = sort (map ev_id bs')"
      using m by (intro sort_perm) (simp only: mset_map)
    with f f' assms(2,3,4) tip show ?thesis by (simp add: chain_state_def split: stop.split)
  qed
qed

lemma resolve_root_chain:
  assumes "keyed b" "\<forall>p \<in> set (root_patches r b). observed b p"
    and "walk (children_of (surviving b r root)) [r] r = (ps, f)"
  shows "re_chain (resolve_root parse options b r root) =
    (let run = chain_run_of parse options (root_overlays b r root) r (ev_content root) ps
     in chain_state (tip_of r run) f run)"
  unfolding resolve_root_unfold [OF assms(1,2)] Let_def assms(3) prod.case by simp

lemma resolve_root_author_only:
  assumes "keyed b" "keyed b'" "distinct_ids b" "distinct_ids b'"
    and obs: "\<forall>p \<in> set (root_patches r b). observed b p" "\<forall>p \<in> set (root_patches r b'). observed b' p"
    and S: "set (surviving b r root) = set (surviving b' r root)"
  shows "re_chain (resolve_root parse options b r root) = re_chain (resolve_root parse options b' r root)"
proof -
  have "distinct (surviving b r root)" if "distinct_ids b" for b
    using that unfolding distinct_ids_def surviving_def Let_def root_patches_def
    by (intro distinct_filter) (metis distinct_map)
  with S assms(3,4) have "mset (surviving b r root) = mset (surviving b' r root)"
    by (simp add: set_eq_iff_mset_eq_distinct)
  then have perm: "perm_map (children_of (surviving b r root)) (children_of (surviving b' r root))"
    unfolding children_of_def by (rule perm_buckets)
  obtain ps f where w: "walk (children_of (surviving b r root)) [r] r = (ps, f)" by fastforce
  obtain ps' f' where w': "walk (children_of (surviving b' r root)) [r] r = (ps', f')" by fastforce
  from walk_perm [OF perm, of "[r]" r] w w' have ps: "ps' = ps" and ff: "same_fork f f'"
    by simp_all
  show ?thesis
    unfolding resolve_root_chain [OF assms(1) obs(1) w] resolve_root_chain [OF assms(2) obs(2) w'] Let_def ps
    by (rule chain_state_cong [OF ff]; simp only: chain_run_of_def; metis apply_chain_core)
qed

text \<open>
  C22. Nothing that another author publishes changes the chain: two observed sets that contain the
  root and agree on what the root's author signed have the same chain, whatever patches, deletions,
  bindings or replies by others they contain. In particular the chain reads no trust (TR-7).
\<close>

theorem chain_author_only:
  assumes "id_consistent (set es)" "id_consistent (set es')" "root \<in> set es" "root \<in> set es'"
    and "authored (ev_pubkey root) (set es) = authored (ev_pubkey root) (set es')"
  shows "re_chain (resolve parse options (ev_id root) es) = re_chain (resolve parse options (ev_id root) es')"
proof -
  let ?b = "dedupeById es" and ?b' = "dedupeById es'" and ?r = "ev_id root"
  have get: "dget ?b ?r = Some root" "dget ?b' ?r = Some root"
    using assms(3,4) dget_dedupe_consistent [OF assms(1), of ?r root]
      dget_dedupe_consistent [OF assms(2), of ?r root] by blast+
  have own: "e \<in> set es \<longleftrightarrow> e \<in> set es'" if "ev_pubkey e = ev_pubkey root" for e
    using assms(5) that by (auto simp: authored_def set_eq_iff)
  have "set (surviving ?b ?r root) = set (surviving ?b' ?r root)"
  proof (rule surviving_transfer)
    show "dget ?b' i = Some e" if "dget ?b i = Some e" "ev_pubkey e = ev_pubkey root" for i e
      using that own unfolding dget_dedupe_consistent [OF assms(1)] dget_dedupe_consistent [OF assms(2)]
      by blast
    show "dget ?b i = Some e" if "dget ?b' i = Some e" "ev_pubkey e = ev_pubkey root" for i e
      using that own unfolding dget_dedupe_consistent [OF assms(1)] dget_dedupe_consistent [OF assms(2)]
      by blast
    show "set (filter (\<lambda>p. ev_pubkey p = ev_pubkey root) (root_patches ?r ?b)) =
        set (filter (\<lambda>p. ev_pubkey p = ev_pubkey root) (root_patches ?r ?b'))"
      using own set_dedupe_consistent [OF assms(1)] set_dedupe_consistent [OF assms(2)]
      unfolding root_patches_def set_filter by blast
    show "{d \<in> set (deletion_events ?b). ev_pubkey d = ev_pubkey root} =
        {d \<in> set (deletion_events ?b'). ev_pubkey d = ev_pubkey root}"
      using own set_dedupe_consistent [OF assms(1)] set_dedupe_consistent [OF assms(2)]
      unfolding deletion_events_def set_filter by blast
  qed (rule dedupe_observed)+
  then have "re_chain (resolve_root parse options ?b ?r root) = re_chain (resolve_root parse options ?b' ?r root)"
    by (intro resolve_root_author_only dedupe_observed)
  with get show ?thesis
    by (simp add: resolve_def)
qed


definition no_options :: apply_options where
  "no_options = \<lparr>ao_maxHunks = None, ao_maxWork = None\<rparr>"

definition sample_root :: nostr_event where
  "sample_root = sample_event ''r'' ''A'' Product []"

definition sample_patch :: "string \<Rightarrow> string \<Rightarrow> string \<Rightarrow> nostr_event" where
  "sample_patch i author target =
     sample_event i author Patch [e_ref ''r'' ''root'', e_ref target ''reply'']"

lemma resolve_confluent_witness:
  "id_consistent (set [sample_root, sample_patch ''p'' ''A'' ''r''])
   \<and> resolve (\<lambda>_. None) no_options (js ''r'') [sample_root, sample_patch ''p'' ''A'' ''r'']
      = resolve (\<lambda>_. None) no_options (js ''r'')
          [sample_patch ''p'' ''A'' ''r'', sample_root, sample_patch ''p'' ''A'' ''r'']"
proof -
  have "id_consistent (set [sample_root, sample_patch ''p'' ''A'' ''r''])"
    by (simp add: id_consistent_def sample_root_def sample_patch_def sample_event_def)
  then show ?thesis
    using resolve_confluent [of "[sample_root, sample_patch ''p'' ''A'' ''r'']"
        "[sample_patch ''p'' ''A'' ''r'', sample_root, sample_patch ''p'' ''A'' ''r'']"]
    by auto
qed

lemma chain_author_only_witness:
  "re_chain (resolve (\<lambda>_. None) no_options (ev_id sample_root) [sample_root, sample_patch ''p'' ''B'' ''r''])
     = re_chain (resolve (\<lambda>_. None) no_options (ev_id sample_root) [sample_root])"
proof (rule chain_author_only)
  show "id_consistent (set [sample_root, sample_patch ''p'' ''B'' ''r''])" "id_consistent (set [sample_root])"
    by (simp_all add: id_consistent_def sample_root_def sample_patch_def sample_event_def)
  show "authored (ev_pubkey sample_root) (set [sample_root, sample_patch ''p'' ''B'' ''r''])
      = authored (ev_pubkey sample_root) (set [sample_root])"
    by (auto simp: authored_def sample_root_def sample_patch_def sample_event_def)
qed simp_all

lemma resolve_local_witness:
  "resolve (\<lambda>_. None) no_options (js ''r'')
     ([sample_root, sample_patch ''p'' ''A'' ''r''] @ [sample_event ''x'' ''B'' Metadata []])
   = resolve (\<lambda>_. None) no_options (js ''r'') [sample_root, sample_patch ''p'' ''A'' ''r'']"
  by (rule resolve_local)
    (auto simp: id_consistent_def sample_root_def sample_patch_def sample_simps first_id_def
      rootTarget_def replyTarget_def)

end
