(* ===== verification/Admit.thy ===== *)
theory Admit
  imports Resolve Runs
begin

text \<open>
  \<open>packages/core/src/admit.ts\<close>: which events trust admits, and why. \<open>computeAdmission\<close> is the full
  recompute, \<open>applyDelta\<close> the incremental update of an \<open>admit_state\<close>. A reason is the string the
  code uses. A record keyed by event ids is an association list read through \<open>dget\<close>; only its
  lookups are observed. \<open>trust.isTrusted\<close> is an argument.
\<close>

section \<open>Reasons and the index\<close>

type_synonym reason = jsstr
type_synonym trust = "jsstr \<Rightarrow> bool"

definition direct_trust :: reason where
  "direct_trust = js ''direct-trust''"

definition bindingReason :: "jsstr \<Rightarrow> reason" where
  "bindingReason bindingId = js ''binding:'' @ bindingId"

definition rootChainReason :: "jsstr \<Rightarrow> reason" where
  "rootChainReason rootId = js ''root-chain:'' @ rootId"

datatype reason_kind = Kind_direct_trust | Kind_binding | Kind_root_chain

definition reasonKind :: "reason \<Rightarrow> reason_kind" where
  "reasonKind r =
     (if r = direct_trust then Kind_direct_trust
      else if starts_with r (js ''binding:'') then Kind_binding else Kind_root_chain)"

record admission_index =
  ai_reasons :: "reason list dict"

definition isAdmitted :: "admission_index \<Rightarrow> jsstr \<Rightarrow> bool" where
  "isAdmitted index eventId \<longleftrightarrow>
     (case dget (ai_reasons index) eventId of None \<Rightarrow> False | Some rs \<Rightarrow> 0 < length rs)"

section \<open>Shared predicates\<close>

record binding_endpoints =
  be_rootId :: jsstr
  be_linkId :: jsstr

definition bindingEndpoints :: "nostr_event \<Rightarrow> binding_endpoints option" where
  "bindingEndpoints b =
     (case (eTagsWithMarker b (js ''root''), eTagsWithMarker b (js ''link'')) of
        ([rootRef], [linkRef]) \<Rightarrow> Some \<lparr>be_rootId = er_id rootRef, be_linkId = er_id linkRef\<rparr>
      | _ \<Rightarrow> None)"

definition bindingEndpointsWellTyped :: "binding_endpoints \<Rightarrow> nostr_event dict \<Rightarrow> bool" where
  "bindingEndpointsWellTyped endpoints byId \<longleftrightarrow>
     (case dget byId (be_rootId endpoints) of
        None \<Rightarrow> True | Some root \<Rightarrow> scrutinyEventType root = Some Product)
     \<and> (case dget byId (be_linkId endpoints) of
        None \<Rightarrow> True | Some link \<Rightarrow> scrutinyEventType link = Some Metadata)"

definition isHonouredDeletion :: "jsstr \<Rightarrow> jsstr \<Rightarrow> nostr_event list \<Rightarrow> bool" where
  "isHonouredDeletion targetId targetPubkey deletions \<longleftrightarrow>
     list_ex (\<lambda>d. ev_pubkey d = targetPubkey \<and> list_ex (\<lambda>ref. er_id ref = targetId) (eTags d)) deletions"

definition isDefaultViewRetracted :: "nostr_event \<Rightarrow> nostr_event list \<Rightarrow> bool" where
  "isDefaultViewRetracted event deletions = isHonouredDeletion (ev_id event) (ev_pubkey event) deletions"

definition rootChainMembers ::
    "nostr_event \<Rightarrow> nostr_event list \<Rightarrow> nostr_event list \<Rightarrow> jsstr list" where
  "rootChainMembers root patches kind5s =
     (let candidatePatches = filter (\<lambda>p. ev_pubkey p = ev_pubkey root
            \<and> rootTarget p = Some (ev_id root)) patches;
          patchIds = set_of (map ev_id candidatePatches);
          candidateDeletions = filter (\<lambda>d. ev_pubkey d = ev_pubkey root
            \<and> list_ex (\<lambda>ref. er_id ref = ev_id root \<or> er_id ref \<in> set patchIds) (eTags d)) kind5s
      in set_of (patchIds @ map ev_id candidateDeletions))"

definition isRoot :: "nostr_event \<Rightarrow> bool" where
  "isRoot e \<longleftrightarrow> scrutinyEventType e = Some Product \<or> scrutinyEventType e = Some Metadata"

section \<open>Reason sets\<close>

text \<open>A map of sets; \<open>credit\<close> adds a reason to the set of an id, \<open>uncredit\<close> takes one away.\<close>

type_synonym reasons = "reason list dict"

definition credit :: "jsstr \<Rightarrow> reason \<Rightarrow> reasons \<Rightarrow> reasons" where
  "credit i r m = (case dget m i of None \<Rightarrow> dset i [r] m | Some s \<Rightarrow> dset i (sadd r s) m)"

definition uncredit :: "jsstr \<Rightarrow> reason \<Rightarrow> reasons \<Rightarrow> reasons" where
  "uncredit i r m = (case dget m i of None \<Rightarrow> m | Some s \<Rightarrow> dset i (sdel r s) m)"

definition reasons_of :: "reasons \<Rightarrow> jsstr \<Rightarrow> reason list" where
  "reasons_of m i = (case dget m i of None \<Rightarrow> [] | Some s \<Rightarrow> s)"

text \<open>The record of the non-empty sets, each sorted.\<close>

definition sorted_record :: "reasons \<Rightarrow> reason list dict" where
  "sorted_record m = map (\<lambda>(i, s). (i, sort s)) (filter (\<lambda>(i, s). 0 < length s) m)"

section \<open>The oracle\<close>

definition kind5_events :: "nostr_event list \<Rightarrow> nostr_event list" where
  "kind5_events events = filter (\<lambda>e. ev_kind e = DELETION_KIND) events"

definition events_typed :: "sc_type \<Rightarrow> nostr_event list \<Rightarrow> nostr_event list" where
  "events_typed ty events = filter (\<lambda>e. scrutinyEventType e = Some ty) events"

definition credit_direct :: "trust \<Rightarrow> nostr_event \<Rightarrow> reasons \<Rightarrow> reasons" where
  "credit_direct isTrusted event m =
     (if isTrusted (ev_pubkey event) then credit (ev_id event) direct_trust m else m)"

definition credit_binding ::
    "nostr_event dict \<Rightarrow> nostr_event list \<Rightarrow> nostr_event \<Rightarrow> reasons \<Rightarrow> reasons" where
  "credit_binding byId kind5s b m =
     (case bindingEndpoints b of
        None \<Rightarrow> m
      | Some endpoints \<Rightarrow>
          if \<not> bindingEndpointsWellTyped endpoints byId then m
          else if direct_trust \<notin> set (reasons_of m (ev_id b)) then m
          else if isHonouredDeletion (ev_id b) (ev_pubkey b) kind5s then m
          else credit (be_linkId endpoints) (bindingReason (ev_id b))
                 (credit (be_rootId endpoints) (bindingReason (ev_id b)) m))"

definition credit_root_chain ::
    "nostr_event list \<Rightarrow> nostr_event list \<Rightarrow> nostr_event \<Rightarrow> reasons \<Rightarrow> reasons" where
  "credit_root_chain patches kind5s root m =
     (if reasons_of m (ev_id root) = [] then m
      else fold (\<lambda>memberId. credit memberId (rootChainReason (ev_id root)))
             (rootChainMembers root patches kind5s) m)"

definition oracle_reasons :: "nostr_event dict \<Rightarrow> trust \<Rightarrow> reasons" where
  "oracle_reasons byId isTrusted =
     (let all = dvalues byId;
          kind5s = kind5_events all;
          direct = fold (credit_direct isTrusted) all [];
          bound = fold (credit_binding byId kind5s) (events_typed Binding all) direct
      in fold (credit_root_chain (events_typed Patch all) kind5s) (filter isRoot all) bound)"

definition computeAdmission :: "nostr_event list \<Rightarrow> trust \<Rightarrow> admission_index" where
  "computeAdmission events isTrusted =
     \<lparr>ai_reasons = sorted_record (oracle_reasons (dedupeById events) isTrusted)\<rparr>"

section \<open>Views\<close>

type_synonym admission_view = "jsstr \<Rightarrow> bool"

definition trustedView :: "admission_index \<Rightarrow> admission_view" where
  "trustedView index = isAdmitted index"

definition openView :: admission_view where
  "openView = (\<lambda>_. True)"

definition visibleOverlays :: "overlay list \<Rightarrow> admission_view \<Rightarrow> overlay list" where
  "visibleOverlays overlays view = filter (\<lambda>o'. view (ov_id o')) overlays"

section \<open>The incremental state\<close>

record admit_state =
  as_reasons :: reasons
  as_liveBindings :: "binding_endpoints dict"
  as_trusted :: "jsstr list"
  as_observedById :: "nostr_event dict"

definition EMPTY_ADMIT_STATE :: admit_state where
  "EMPTY_ADMIT_STATE =
     \<lparr>as_reasons = [], as_liveBindings = [], as_trusted = [], as_observedById = []\<rparr>"

definition toIndex :: "admit_state \<Rightarrow> admission_index" where
  "toIndex st = \<lparr>ai_reasons = as_reasons st\<rparr>"

datatype admission_delta =
    Observe "nostr_event list"
  | Trust "jsstr list"
  | Unobserve "jsstr list"
  | Untrust "jsstr list"

text \<open>Defined on the two forward deltas; the type of the argument excludes the others.\<close>

fun invertDelta :: "admission_delta \<Rightarrow> admission_delta" where
  "invertDelta (Observe events) = Unobserve (map ev_id events)"
| "invertDelta (Trust pubkeys) = Untrust pubkeys"
| "invertDelta (Unobserve eventIds) = Unobserve eventIds"
| "invertDelta (Untrust pubkeys) = Untrust pubkeys"

text \<open>The working copy has the fields of the state, with sets for lists.\<close>

definition fromState :: "admit_state \<Rightarrow> admit_state" where
  "fromState st = st\<lparr>as_reasons := map (\<lambda>(i, rs). (i, set_of rs)) (as_reasons st),
     as_trusted := set_of (as_trusted st)\<rparr>"

definition toState :: "admit_state \<Rightarrow> admit_state" where
  "toState w = w\<lparr>as_reasons := sorted_record (as_reasons w), as_trusted := sort (as_trusted w)\<rparr>"

definition credit_w :: "jsstr \<Rightarrow> reason \<Rightarrow> admit_state \<Rightarrow> admit_state" where
  "credit_w i r w = w\<lparr>as_reasons := credit i r (as_reasons w)\<rparr>"

definition uncredit_w :: "jsstr \<Rightarrow> reason \<Rightarrow> admit_state \<Rightarrow> admit_state" where
  "uncredit_w i r w = w\<lparr>as_reasons := uncredit i r (as_reasons w)\<rparr>"

definition isAdmittedIn :: "admit_state \<Rightarrow> jsstr \<Rightarrow> bool" where
  "isAdmittedIn w i \<longleftrightarrow> 0 < length (reasons_of (as_reasons w) i)"

definition bindingIsLive :: "admit_state \<Rightarrow> nostr_event \<Rightarrow> nostr_event list \<Rightarrow> bool" where
  "bindingIsLive w b kind5s =
     (if direct_trust \<notin> set (reasons_of (as_reasons w) (ev_id b)) then False
      else (case bindingEndpoints b of
              None \<Rightarrow> False
            | Some endpoints \<Rightarrow>
                if \<not> bindingEndpointsWellTyped endpoints (as_observedById w) then False
                else \<not> isHonouredDeletion (ev_id b) (ev_pubkey b) kind5s))"

definition activateBinding :: "nostr_event \<Rightarrow> admit_state \<Rightarrow> admit_state" where
  "activateBinding b w =
     (case bindingEndpoints b of
        None \<Rightarrow> w
      | Some endpoints \<Rightarrow>
          credit_w (be_linkId endpoints) (bindingReason (ev_id b))
            (credit_w (be_rootId endpoints) (bindingReason (ev_id b))
              (w\<lparr>as_liveBindings := dset (ev_id b) endpoints (as_liveBindings w)\<rparr>)))"

definition deactivateBinding :: "jsstr \<Rightarrow> admit_state \<Rightarrow> admit_state" where
  "deactivateBinding bindingId w =
     (case dget (as_liveBindings w) bindingId of
        None \<Rightarrow> w
      | Some endpoints \<Rightarrow>
          uncredit_w (be_linkId endpoints) (bindingReason bindingId)
            (uncredit_w (be_rootId endpoints) (bindingReason bindingId)
              (w\<lparr>as_liveBindings := ddel bindingId (as_liveBindings w)\<rparr>)))"

definition resyncBinding :: "nostr_event list \<Rightarrow> nostr_event \<Rightarrow> admit_state \<Rightarrow> admit_state" where
  "resyncBinding kind5s b w =
     (let shouldBeLive = bindingIsLive w b kind5s; isLive = dhas (as_liveBindings w) (ev_id b)
      in if shouldBeLive \<and> \<not> isLive then activateBinding b w
         else if \<not> shouldBeLive \<and> isLive then deactivateBinding (ev_id b) w
         else w)"

definition resyncRootChain ::
    "nostr_event list \<Rightarrow> nostr_event list \<Rightarrow> nostr_event \<Rightarrow> admit_state \<Rightarrow> admit_state" where
  "resyncRootChain patches kind5s root w =
     (let admitted = isAdmittedIn w (ev_id root);
          reason = rootChainReason (ev_id root);
          members = rootChainMembers root patches kind5s;
          w1 = fold (\<lambda>memberId. if admitted then credit_w memberId reason
                                else uncredit_w memberId reason) members w
      in fold (\<lambda>(i, rs) w. if i \<notin> set members \<and> reason \<in> set rs then uncredit_w i reason w else w)
           (as_reasons w1) w1)"

definition resync :: "admit_state \<Rightarrow> admit_state" where
  "resync w =
     (let all = dvalues (as_observedById w);
          patches = events_typed Patch all;
          kind5s = kind5_events all;
          w1 = fold (\<lambda>e w. if scrutinyEventType e = Some Binding then resyncBinding kind5s e w else w) all w
      in fold (\<lambda>e w. if isRoot e then resyncRootChain patches kind5s e w else w) all w1)"

section \<open>Deltas\<close>

definition observe_one :: "nostr_event \<Rightarrow> admit_state \<Rightarrow> admit_state" where
  "observe_one e w =
     (if dhas (as_observedById w) (ev_id e) then w
      else
        let w1 = w\<lparr>as_observedById := dset (ev_id e) e (as_observedById w)\<rparr>
        in if ev_pubkey e \<in> set (as_trusted w1) then credit_w (ev_id e) direct_trust w1 else w1)"

definition uncascade ::
    "nostr_event list \<Rightarrow> nostr_event list \<Rightarrow> jsstr \<Rightarrow> nostr_event \<Rightarrow> admit_state \<Rightarrow> admit_state" where
  "uncascade patches kind5s i e w =
     fold (\<lambda>memberId. uncredit_w memberId (rootChainReason i))
       (rootChainMembers e patches kind5s) w"

definition strip_reasons :: "jsstr \<Rightarrow> admit_state \<Rightarrow> admit_state" where
  "strip_reasons i w =
     fold (\<lambda>r w. if r = direct_trust \<or> reasonKind r = Kind_root_chain then uncredit_w i r w else w)
       (reasons_of (as_reasons w) i) w"

definition unobserve_one ::
    "nostr_event list \<Rightarrow> nostr_event list \<Rightarrow> jsstr \<Rightarrow> admit_state \<Rightarrow> admit_state" where
  "unobserve_one patches kind5s i w =
     (case dget (as_observedById w) i of
        None \<Rightarrow> w
      | Some e \<Rightarrow>
          let w1 = (if dhas (as_liveBindings w) i then deactivateBinding i w else w);
              w2 = (if isRoot e \<and> isAdmittedIn w1 i then uncascade patches kind5s i e w1 else w1);
              w3 = strip_reasons i w2
          in w3\<lparr>as_observedById := ddel i (as_observedById w3)\<rparr>)"

definition apply_delta_step :: "admission_delta \<Rightarrow> admit_state \<Rightarrow> admit_state" where
  "apply_delta_step delta w =
     (case delta of
        Observe events \<Rightarrow> fold observe_one events w
      | Unobserve eventIds \<Rightarrow>
          (let all = dvalues (as_observedById w)
           in fold (unobserve_one (events_typed Patch all) (kind5_events all)) eventIds w)
      | Trust pubkeys \<Rightarrow>
          (let newly = filter (\<lambda>pk. pk \<notin> set (as_trusted w)) pubkeys;
               w1 = w\<lparr>as_trusted := fold sadd newly (as_trusted w)\<rparr>
           in fold (\<lambda>e w. if ev_pubkey e \<in> set newly then credit_w (ev_id e) direct_trust w else w)
                (dvalues (as_observedById w1)) w1)
      | Untrust pubkeys \<Rightarrow>
          (let newly = filter (\<lambda>pk. pk \<in> set (as_trusted w)) pubkeys;
               w1 = w\<lparr>as_trusted := fold sdel newly (as_trusted w)\<rparr>
           in fold (\<lambda>e w. if ev_pubkey e \<in> set newly then uncredit_w (ev_id e) direct_trust w else w)
                (dvalues (as_observedById w1)) w1))"

definition applyDelta :: "admit_state \<Rightarrow> admission_delta \<Rightarrow> admit_state" where
  "applyDelta st delta = toState (resync (apply_delta_step delta (fromState st)))"

section \<open>Reasons as sets\<close>

named_theorems reason_simps "what a credit or an uncredit does to the set of reasons of an id"

abbreviation reason_set :: "reasons \<Rightarrow> jsstr \<Rightarrow> reason set" where
  "reason_set m i \<equiv> set (reasons_of m i)"

lemma reason_credit [reason_simps]:
  "reason_set (credit j r m) i = (if i = j then insert r (reason_set m i) else reason_set m i)"
  by (auto simp: credit_def reasons_of_def split: option.splits)

lemma reason_uncredit [reason_simps]:
  "reason_set (uncredit j r m) i = (if i = j then reason_set m i - {r} else reason_set m i)"
  by (auto simp: uncredit_def reasons_of_def split: option.splits)

lemma reason_credits [reason_simps]:
  "reason_set (fold (\<lambda>j. credit j r) ids m) i =
     (if i \<in> set ids then insert r (reason_set m i) else reason_set m i)"
  by (induction ids arbitrary: m) (auto simp: reason_simps)

lemma reason_Nil [simp]: "reasons_of [] i = []"
  by (simp add: reasons_of_def)

lemma reasons_differ [simp]:
  "direct_trust \<noteq> bindingReason b" "bindingReason b \<noteq> direct_trust"
  "direct_trust \<noteq> rootChainReason r" "rootChainReason r \<noteq> direct_trust"
  "bindingReason b \<noteq> rootChainReason r" "rootChainReason r \<noteq> bindingReason b"
  by (simp_all add: direct_trust_def bindingReason_def rootChainReason_def js_def)

lemma reasons_inject [simp]:
  "bindingReason b = bindingReason b' \<longleftrightarrow> b = b'"
  "rootChainReason r = rootChainReason r' \<longleftrightarrow> r = r'"
  by (simp_all add: bindingReason_def rootChainReason_def)

lemma reasonKind_simps [simp]:
  "reasonKind direct_trust = Kind_direct_trust"
  "reasonKind (bindingReason b) = Kind_binding"
  "reasonKind (rootChainReason r) = Kind_root_chain"
  by (simp_all add: reasonKind_def)
    (simp_all add: bindingReason_def rootChainReason_def js_def starts_with_def)

text \<open>A table of reasons: every id once, every reason of an id once.\<close>

definition tabled :: "reasons \<Rightarrow> bool" where
  "tabled m \<longleftrightarrow> distinct (dkeys m) \<and> (\<forall>i. distinct (reasons_of m i))"

lemma tabled_Nil [simp]: "tabled []"
  by (simp add: tabled_def)

lemma tabled_credit [simp]: "tabled m \<Longrightarrow> tabled (credit i r m)"
  by (auto simp: tabled_def credit_def reasons_of_def split: option.splits)

lemma tabled_uncredit [simp]: "tabled m \<Longrightarrow> tabled (uncredit i r m)"
  by (auto simp: tabled_def uncredit_def reasons_of_def split: option.splits)

lemma dget_sorted_record:
  assumes "tabled m"
  shows "dget (sorted_record m) i = (if reasons_of m i = [] then None else Some (sort (reasons_of m i)))"
  using assms unfolding sorted_record_def tabled_def
  by (auto simp: map_of_map dget_filter_values reasons_of_def split: option.splits)

lemma tabled_sorted_record: "tabled m \<Longrightarrow> tabled (sorted_record m)"
proof -
  assume t: "tabled m"
  have "distinct (dkeys (sorted_record m))"
    using t by (auto simp: sorted_record_def tabled_def distinct_map comp_def case_prod_beta inj_on_def)
  then show ?thesis
    using t by (auto simp: tabled_def reasons_of_def dget_sorted_record [OF t] split: option.splits)
qed

lemma reason_sorted_record [simp]: "tabled m \<Longrightarrow> reason_set (sorted_record m) i = reason_set m i"
  by (simp add: reasons_of_def [of "sorted_record m"] dget_sorted_record)

lemma sorted_record_cong:
  assumes "tabled m" "tabled m'" "\<And>i. reason_set m i = reason_set m' i"
  shows "dget (sorted_record m) = dget (sorted_record m')"
proof
  fix i
  have "sort (reasons_of m i) = sort (reasons_of m' i)"
    using assms by (intro sort_set_eq) (auto simp: tabled_def)
  moreover have "reasons_of m i = [] \<longleftrightarrow> reasons_of m' i = []"
    using assms(3) [of i] by (metis set_empty)
  ultimately show "dget (sorted_record m) i = dget (sorted_record m') i"
    using assms by (simp add: dget_sorted_record)
qed

section \<open>What trust admits\<close>

definition live_binding :: "nostr_event dict \<Rightarrow> trust \<Rightarrow> nostr_event \<Rightarrow> binding_endpoints \<Rightarrow> bool" where
  "live_binding byId T b ep \<longleftrightarrow>
     b \<in> set (dvalues byId) \<and> scrutinyEventType b = Some Binding \<and> T (ev_pubkey b)
     \<and> bindingEndpoints b = Some ep \<and> bindingEndpointsWellTyped ep byId
     \<and> \<not> isHonouredDeletion (ev_id b) (ev_pubkey b) (kind5_events (dvalues byId))"

definition endpoint :: "binding_endpoints \<Rightarrow> jsstr \<Rightarrow> bool" where
  "endpoint ep i \<longleftrightarrow> i = be_rootId ep \<or> i = be_linkId ep"

definition root_chain :: "nostr_event dict \<Rightarrow> nostr_event \<Rightarrow> jsstr list" where
  "root_chain byId r =
     rootChainMembers r (events_typed Patch (dvalues byId)) (kind5_events (dvalues byId))"

definition vouched :: "nostr_event dict \<Rightarrow> trust \<Rightarrow> nostr_event \<Rightarrow> bool" where
  "vouched byId T e \<longleftrightarrow> T (ev_pubkey e) \<or> (\<exists>b ep. live_binding byId T b ep \<and> endpoint ep (ev_id e))"

inductive admits :: "nostr_event dict \<Rightarrow> trust \<Rightarrow> jsstr \<Rightarrow> reason \<Rightarrow> bool"
  for byId :: "nostr_event dict" and T :: trust where
  trusted_author: "e \<in> set (dvalues byId) \<Longrightarrow> T (ev_pubkey e) \<Longrightarrow> admits byId T (ev_id e) direct_trust"
| bound: "live_binding byId T b ep \<Longrightarrow> endpoint ep i \<Longrightarrow> admits byId T i (bindingReason (ev_id b))"
| chained: "r \<in> set (dvalues byId) \<Longrightarrow> isRoot r \<Longrightarrow> vouched byId T r \<Longrightarrow> i \<in> set (root_chain byId r)
    \<Longrightarrow> admits byId T i (rootChainReason (ev_id r))"

inductive_simps admits_simps:
  "admits byId T i r"
  "admits byId T i direct_trust"
  "admits byId T i (bindingReason b)"
  "admits byId T i (rootChainReason r)"

text \<open>No observed deletion is also typed as a root.\<close>

definition no_root_deletions :: "nostr_event list \<Rightarrow> bool" where
  "no_root_deletions es \<longleftrightarrow> list_all (\<lambda>e. \<not> (ev_kind e = DELETION_KIND \<and> isRoot e)) es"

lemma set_events_typed [simp]:
  "set (events_typed ty es) = {e \<in> set es. scrutinyEventType e = Some ty}"
  by (auto simp: events_typed_def)

lemma set_kind5_events [simp]: "set (kind5_events es) = {e \<in> set es. ev_kind e = DELETION_KIND}"
  by (auto simp: kind5_events_def)

lemma root_chain_member:
  "i \<in> set (rootChainMembers r ps ks) \<longleftrightarrow>
     (\<exists>p \<in> set ps. ev_id p = i \<and> ev_pubkey p = ev_pubkey r \<and> rootTarget p = Some (ev_id r))
   \<or> (\<exists>d \<in> set ks. ev_id d = i \<and> ev_pubkey d = ev_pubkey r
        \<and> (\<exists>ref \<in> set (eTags d). er_id ref = ev_id r
          \<or> (\<exists>p \<in> set ps. ev_id p = er_id ref \<and> ev_pubkey p = ev_pubkey r \<and> rootTarget p = Some (ev_id r))))"
  unfolding rootChainMembers_def Let_def list_ex_iff set_of_facts set_append set_map set_filter
    Un_iff image_filter_iff ..

lemma honoured_iff:
  "isHonouredDeletion i pk ds \<longleftrightarrow> (\<exists>d \<in> set ds. ev_pubkey d = pk \<and> i \<in> er_id ` set (eTags d))"
  by (auto simp: isHonouredDeletion_def list_ex_iff)

lemma root_chain_sets:
  "set ps = set ps' \<Longrightarrow> set ks = set ks' \<Longrightarrow>
     set (rootChainMembers r ps ks) = set (rootChainMembers r ps' ks')"
  by (intro set_eqI) (simp add: root_chain_member)

lemma root_chain_nonroot:
  assumes "no_root_deletions (dvalues byId)" "i \<in> set (root_chain byId r)"
  obtains e where "e \<in> set (dvalues byId)" "ev_id e = i" "\<not> isRoot e" "ev_pubkey e = ev_pubkey r"
proof -
  obtain e where "e \<in> set (dvalues byId)" "ev_id e = i" "ev_pubkey e = ev_pubkey r"
    "scrutinyEventType e = Some Patch \<or> ev_kind e = DELETION_KIND"
    using assms(2) unfolding root_chain_def root_chain_member by auto
  with assms(1) show thesis
    by (intro that [of e]) (auto simp: no_root_deletions_def list_all_iff isRoot_def)
qed

section \<open>The oracle computes what trust admits\<close>

lemma reason_direct:
  "reason_set (fold (credit_direct T) es m) i =
     reason_set m i \<union> {direct_trust |e. e \<in> set es \<and> ev_id e = i \<and> T (ev_pubkey e)}"
  by (induction es arbitrary: m) (auto simp: credit_direct_def reason_simps)

lemma tabled_oracle: "tabled (oracle_reasons byId T)"
  unfolding oracle_reasons_def Let_def
  by (intro fold_keeps [where P = tabled])
    (auto simp: credit_direct_def credit_binding_def credit_root_chain_def Let_def
      intro!: fold_keeps [where P = tabled] split: option.splits)

definition creditable :: "nostr_event dict \<Rightarrow> nostr_event list \<Rightarrow> nostr_event \<Rightarrow> binding_endpoints \<Rightarrow> bool" where
  "creditable byId ks b ep \<longleftrightarrow> bindingEndpoints b = Some ep \<and> bindingEndpointsWellTyped ep byId
     \<and> \<not> isHonouredDeletion (ev_id b) (ev_pubkey b) ks"

lemma credit_binding_cases:
  "credit_binding byId ks b m =
     (case bindingEndpoints b of None \<Rightarrow> m
      | Some ep \<Rightarrow> if creditable byId ks b ep \<and> direct_trust \<in> reason_set m (ev_id b)
          then credit (be_linkId ep) (bindingReason (ev_id b))
                 (credit (be_rootId ep) (bindingReason (ev_id b)) m)
          else m)"
  by (auto simp: credit_binding_def creditable_def split: option.splits)

lemma reason_bound_one:
  "reason_set (credit_binding byId ks b m) i = reason_set m i \<union>
     {r. r = bindingReason (ev_id b) \<and> direct_trust \<in> reason_set m (ev_id b)
       \<and> (\<exists>ep. creditable byId ks b ep \<and> endpoint ep i)}"
proof (cases "bindingEndpoints b")
  case None
  then show ?thesis
    by (simp add: credit_binding_cases creditable_def)
next
  case (Some ep)
  then have "(\<exists>ep'. creditable byId ks b ep' \<and> endpoint ep' i) \<longleftrightarrow> creditable byId ks b ep \<and> endpoint ep i"
    by (auto simp: creditable_def)
  with Some show ?thesis
    by (auto simp: credit_binding_cases reason_simps endpoint_def)
qed

lemma reason_bound:
  assumes "\<And>b. b \<in> set bs \<Longrightarrow> direct_trust \<in> reason_set m (ev_id b) \<longleftrightarrow> T (ev_pubkey b)"
  shows "reason_set (fold (credit_binding byId ks) bs m) i = reason_set m i \<union>
    {r. \<exists>b \<in> set bs. r = bindingReason (ev_id b) \<and> T (ev_pubkey b)
       \<and> (\<exists>ep. creditable byId ks b ep \<and> endpoint ep i)}"
  using assms
proof (induction bs arbitrary: m)
  case (Cons b bs)
  have "direct_trust \<in> reason_set (credit_binding byId ks b m) j \<longleftrightarrow> direct_trust \<in> reason_set m j" for j
    by (auto simp: reason_bound_one)
  then have "reason_set (fold (credit_binding byId ks) bs (credit_binding byId ks b m)) i =
    reason_set (credit_binding byId ks b m) i \<union> {r. \<exists>b \<in> set bs. r = bindingReason (ev_id b)
      \<and> T (ev_pubkey b) \<and> (\<exists>ep. creditable byId ks b ep \<and> endpoint ep i)}"
    using Cons.prems by (intro Cons.IH) simp
  then show ?case
    using Cons.prems [of b] by (auto simp: reason_bound_one)
qed simp

lemma reason_chained:
  assumes "\<And>r r'. r \<in> set rs \<Longrightarrow> r' \<in> set rs \<Longrightarrow> ev_id r \<notin> set (rootChainMembers r' ps ks)"
  shows "reason_set (fold (credit_root_chain ps ks) rs m) i = reason_set m i \<union>
    {rootChainReason (ev_id r) |r. r \<in> set rs \<and> reason_set m (ev_id r) \<noteq> {}
       \<and> i \<in> set (rootChainMembers r ps ks)}"
  using assms
proof (induction rs arbitrary: m)
  case (Cons r rs)
  have same: "reason_set (credit_root_chain ps ks r m) (ev_id r') = reason_set m (ev_id r')"
    if "r' \<in> set rs" for r'
    using that Cons.prems [of r' r] by (simp add: credit_root_chain_def reason_simps)
  have "reason_set (credit_root_chain ps ks r m) i = reason_set m i \<union>
    {rootChainReason (ev_id r) |u. reason_set m (ev_id r) \<noteq> {} \<and> i \<in> set (rootChainMembers r ps ks)}"
    by (auto simp: credit_root_chain_def reason_simps)
  moreover have "reason_set (fold (credit_root_chain ps ks) rs (credit_root_chain ps ks r m)) i =
    reason_set (credit_root_chain ps ks r m) i \<union>
    {rootChainReason (ev_id r') |r'. r' \<in> set rs \<and> reason_set (credit_root_chain ps ks r m) (ev_id r') \<noteq> {}
       \<and> i \<in> set (rootChainMembers r' ps ks)}"
    using Cons.prems by (intro Cons.IH) simp
  moreover have "reason_set (credit_root_chain ps ks r m) (ev_id r') \<noteq> {} \<longleftrightarrow> reason_set m (ev_id r') \<noteq> {}"
    if "r' \<in> set rs" for r'
    using same [OF that] by (rule arg_cong)
  ultimately show ?case
    by (auto simp del: set_empty)
qed simp

lemma keyed_values:
  assumes "keyed byId" "distinct (dkeys byId)"
  shows "e \<in> set (dvalues byId) \<longleftrightarrow> dget byId (ev_id e) = Some e"
proof -
  have "e \<in> set (dvalues byId) \<longleftrightarrow> (\<exists>i. dget byId i = Some e)"
    using map_of_eq_Some_iff [OF assms(2)] by (auto intro: rev_image_eqI)
  then show ?thesis
    using assms(1) unfolding keyed_def by metis
qed

lemma vouched_iff:
  assumes "keyed byId" "distinct (dkeys byId)" "e \<in> set (dvalues byId)"
  shows "vouched byId T e \<longleftrightarrow> (\<exists>r. admits byId T (ev_id e) r \<and> reasonKind r \<noteq> Kind_root_chain)"
proof
  assume "vouched byId T e"
  then consider "T (ev_pubkey e)" | b ep where "live_binding byId T b ep" "endpoint ep (ev_id e)"
    unfolding vouched_def by blast
  then show "\<exists>r. admits byId T (ev_id e) r \<and> reasonKind r \<noteq> Kind_root_chain"
  proof cases
    case 1
    then show ?thesis
      using trusted_author [OF assms(3), of T] by (intro exI [of _ direct_trust]) simp
  next
    case 2
    then show ?thesis
      using bound [OF 2] by (intro exI [of _ "bindingReason (ev_id b)"]) simp
  qed
next
  assume "\<exists>r. admits byId T (ev_id e) r \<and> reasonKind r \<noteq> Kind_root_chain"
  then obtain r where r: "admits byId T (ev_id e) r" "reasonKind r \<noteq> Kind_root_chain" by blast
  from r(1) show "vouched byId T e"
  proof cases
    case (trusted_author e')
    then have "e' = e"
      using assms by (metis keyed_values option.inject)
    with trusted_author show ?thesis by (simp add: vouched_def)
  next
    case bound
    then show ?thesis by (auto simp: vouched_def)
  next
    case chained
    then show ?thesis using r(2) by simp
  qed
qed

lemma chained_iff:
  "admits byId T i x \<and> reasonKind x = Kind_root_chain \<longleftrightarrow>
     (\<exists>r. x = rootChainReason (ev_id r) \<and> r \<in> set (dvalues byId) \<and> isRoot r \<and> vouched byId T r
        \<and> i \<in> set (root_chain byId r))"
  by (auto simp: admits_simps(1))

lemma reason_oracle:
  assumes k: "keyed byId" "distinct (dkeys byId)" and n: "no_root_deletions (dvalues byId)"
  shows "reason_set (oracle_reasons byId T) i = {r. admits byId T i r}"
proof -
  let ?all = "dvalues byId" let ?ks = "kind5_events ?all"
  let ?direct = "fold (credit_direct T) ?all []"
  let ?bound = "fold (credit_binding byId ?ks) (events_typed Binding ?all) ?direct"
  have uniq: "e = e'" if "e \<in> set ?all" "e' \<in> set ?all" "ev_id e = ev_id e'" for e e'
    using that k by (metis keyed_values option.inject)
  have direct: "reason_set ?direct j = {r. r = direct_trust \<and> admits byId T j r}" for j
    by (auto simp: reason_direct admits_simps)
  have bound: "reason_set ?bound j = {r. admits byId T j r \<and> reasonKind r \<noteq> Kind_root_chain}" for j
  proof -
    have "direct_trust \<in> reason_set ?direct (ev_id b) \<longleftrightarrow> T (ev_pubkey b)" if "b \<in> set ?all" for b
      unfolding direct admits_simps(2) mem_Collect_eq using that uniq unfolding set_map by metis
    then show ?thesis
      by (subst reason_bound) (auto simp: direct admits_simps live_binding_def creditable_def)
  qed
  have admitted: "reason_set ?bound (ev_id r) \<noteq> {} \<longleftrightarrow> vouched byId T r" if "r \<in> set ?all" for r
    unfolding bound vouched_iff [OF k that] by blast
  have members: "set (rootChainMembers r (events_typed Patch ?all) ?ks) = set (root_chain byId r)" for r
    by (simp add: root_chain_def)
  have "reason_set (oracle_reasons byId T) i = reason_set ?bound i \<union>
    {rootChainReason (ev_id r) |r. r \<in> set (filter isRoot ?all) \<and> reason_set ?bound (ev_id r) \<noteq> {}
       \<and> i \<in> set (rootChainMembers r (events_typed Patch ?all) ?ks)}"
    unfolding oracle_reasons_def Let_def
  proof (rule reason_chained)
    fix r r' assume "r \<in> set (filter isRoot ?all)"
    then have r: "r \<in> set ?all" "isRoot r" by auto
    show "ev_id r \<notin> set (rootChainMembers r' (events_typed Patch ?all) ?ks)"
      unfolding members using root_chain_nonroot [OF n, of "ev_id r" r'] uniq r by metis
  qed
  also have "\<dots> = {r. admits byId T i r}"
  proof -
    have "{rootChainReason (ev_id r) |r. r \<in> set (filter isRoot ?all)
        \<and> reason_set ?bound (ev_id r) \<noteq> {} \<and> i \<in> set (rootChainMembers r (events_typed Patch ?all) ?ks)} =
      {x. admits byId T i x \<and> reasonKind x = Kind_root_chain}"
      unfolding members set_filter mem_Collect_eq chained_iff using admitted by blast
    then show ?thesis
      unfolding bound by blast
  qed
  finally show ?thesis .
qed

section \<open>The incremental bookkeeping\<close>

abbreviation held :: "admit_state \<Rightarrow> jsstr \<Rightarrow> reason set" where
  "held w i \<equiv> reason_set (as_reasons w) i"

abbreviation trusts :: "admit_state \<Rightarrow> trust" where
  "trusts w \<equiv> (\<lambda>pk. pk \<in> set (as_trusted w))"

definition well_keyed :: "admit_state \<Rightarrow> bool" where
  "well_keyed w \<longleftrightarrow> keyed (as_observedById w) \<and> distinct (dkeys (as_observedById w))
     \<and> tabled (as_reasons w) \<and> no_root_deletions (dvalues (as_observedById w))"

text \<open>
  The bookkeeping between the guarded transitions of a delta and \<open>resync\<close>: direct trust is exact,
  each binding credit belongs to a live binding, and each root-chain credit names an observed root
  and sits on an observed event that is no root.
\<close>

definition direct_exact :: "admit_state \<Rightarrow> bool" where
  "direct_exact w \<longleftrightarrow> (\<forall>i. direct_trust \<in> held w i \<longleftrightarrow>
     (\<exists>e. dget (as_observedById w) i = Some e \<and> trusts w (ev_pubkey e)))"

definition bindings_exact :: "admit_state \<Rightarrow> bool" where
  "bindings_exact w \<longleftrightarrow>
     (\<forall>b i. bindingReason b \<in> held w i \<longleftrightarrow> (\<exists>ep. dget (as_liveBindings w) b = Some ep \<and> endpoint ep i))
     \<and> (\<forall>b ep. dget (as_liveBindings w) b = Some ep \<longrightarrow> (\<exists>e. dget (as_observedById w) b = Some e
          \<and> scrutinyEventType e = Some Binding \<and> bindingEndpoints e = Some ep))"

definition chains_placed :: "admit_state \<Rightarrow> bool" where
  "chains_placed w \<longleftrightarrow> (\<forall>r i. rootChainReason r \<in> held w i \<longrightarrow>
     (\<exists>e. dget (as_observedById w) r = Some e \<and> isRoot e)
     \<and> (\<exists>e. dget (as_observedById w) i = Some e \<and> \<not> isRoot e))"

definition reasons_shaped :: "admit_state \<Rightarrow> bool" where
  "reasons_shaped w \<longleftrightarrow> (\<forall>i r. r \<in> held w i \<longrightarrow>
     r = direct_trust \<or> r \<in> range bindingReason \<or> r \<in> range rootChainReason)"

definition books :: "admit_state \<Rightarrow> bool" where
  "books w \<longleftrightarrow> well_keyed w \<and> direct_exact w \<and> bindings_exact w \<and> chains_placed w \<and> reasons_shaped w"

text \<open>After \<open>resync\<close>: exactly the reasons that trust gives, and exactly the live bindings.\<close>

definition synced :: "admit_state \<Rightarrow> bool" where
  "synced w \<longleftrightarrow> well_keyed w
     \<and> (\<forall>i. held w i = {r. admits (as_observedById w) (trusts w) i r})
     \<and> (\<forall>b ep. dget (as_liveBindings w) b = Some ep \<longleftrightarrow>
          (\<exists>e. live_binding (as_observedById w) (trusts w) e ep \<and> ev_id e = b))"

lemmas books_parts = books_def direct_exact_def bindings_exact_def chains_placed_def reasons_shaped_def

lemma credit_w_fields [simp]:
  "as_reasons (credit_w i r w) = credit i r (as_reasons w)"
  "as_liveBindings (credit_w i r w) = as_liveBindings w"
  "as_trusted (credit_w i r w) = as_trusted w"
  "as_observedById (credit_w i r w) = as_observedById w"
  by (simp_all add: credit_w_def)

lemma uncredit_w_fields [simp]:
  "as_reasons (uncredit_w i r w) = uncredit i r (as_reasons w)"
  "as_liveBindings (uncredit_w i r w) = as_liveBindings w"
  "as_trusted (uncredit_w i r w) = as_trusted w"
  "as_observedById (uncredit_w i r w) = as_observedById w"
  by (simp_all add: uncredit_w_def)

lemma well_keyed_credit [simp]: "well_keyed w \<Longrightarrow> well_keyed (credit_w i r w)"
  by (simp add: well_keyed_def)

lemma well_keyed_uncredit [simp]: "well_keyed w \<Longrightarrow> well_keyed (uncredit_w i r w)"
  by (simp add: well_keyed_def)

lemma observed_dget:
  "well_keyed w \<Longrightarrow> e \<in> set (dvalues (as_observedById w)) \<longleftrightarrow> dget (as_observedById w) (ev_id e) = Some e"
  using keyed_values by (auto simp: well_keyed_def)

lemma dget_observed_id: "well_keyed w \<Longrightarrow> dget (as_observedById w) i = Some e \<Longrightarrow> ev_id e = i"
  by (auto simp: well_keyed_def keyed_def)

lemma books_live:
  "books w \<Longrightarrow> dget (as_liveBindings w) b = Some ep \<Longrightarrow> \<exists>e. dget (as_observedById w) b = Some e
     \<and> scrutinyEventType e = Some Binding \<and> bindingEndpoints e = Some ep"
  unfolding books_def bindings_exact_def by blast

subsection \<open>Bindings\<close>

definition due :: "admit_state \<Rightarrow> nostr_event \<Rightarrow> binding_endpoints option" where
  "due w b = (if \<exists>ep. live_binding (as_observedById w) (trusts w) b ep then bindingEndpoints b else None)"

lemma due_iff: "due w b = Some ep \<longleftrightarrow> live_binding (as_observedById w) (trusts w) b ep"
  by (auto simp: due_def live_binding_def)

lemma due_cong: "as_observedById w = as_observedById w' \<Longrightarrow> as_trusted w = as_trusted w' \<Longrightarrow> due w = due w'"
  by (intro ext) (simp add: due_def)

lemma bindingIsLive_iff:
  assumes "books w" "b \<in> set (dvalues (as_observedById w))" "scrutinyEventType b = Some Binding"
  shows "bindingIsLive w b (kind5_events (dvalues (as_observedById w))) \<longleftrightarrow> due w b \<noteq> None"
proof -
  have "dget (as_observedById w) (ev_id b) = Some b"
    using assms observed_dget books_def by blast
  then have "direct_trust \<in> held w (ev_id b) \<longleftrightarrow> trusts w (ev_pubkey b)"
    using assms(1) by (simp add: books_def direct_exact_def)
  then show ?thesis
    using assms(2,3) by (auto simp: bindingIsLive_def due_def live_binding_def split: option.splits)
qed

lemma resyncBinding_spec:
  assumes w: "books w" and b: "b \<in> set (dvalues (as_observedById w))" "scrutinyEventType b = Some Binding"
    and w': "w' = resyncBinding (kind5_events (dvalues (as_observedById w))) b w"
  shows "books w'" "as_observedById w' = as_observedById w" "as_trusted w' = as_trusted w"
    "dget (as_liveBindings w') = (dget (as_liveBindings w)) (ev_id b := due w b)"
proof -
  have ob: "dget (as_observedById w) (ev_id b) = Some b"
    using w b observed_dget books_def by blast
  have old: "bindingEndpoints b = Some ep" if "dget (as_liveBindings w) (ev_id b) = Some ep" for ep
    using books_live [OF w that] ob by auto
  consider (on) ep where "due w b = Some ep" "dget (as_liveBindings w) (ev_id b) = None" "bindingEndpoints b = Some ep"
      "w' = activateBinding b w"
    | (off) ep where "due w b = None" "dget (as_liveBindings w) (ev_id b) = Some ep" "w' = deactivateBinding (ev_id b) w"
    | (same) "due w b = dget (as_liveBindings w) (ev_id b)" "w' = w"
    using old unfolding w' resyncBinding_def bindingIsLive_iff [OF w b] Let_def dhas_def
    by (cases "due w b"; cases "dget (as_liveBindings w) (ev_id b)") (auto simp: due_def split: if_splits)
  note cs = this
  show "books w'"
    using cs
  proof cases
    case on
    have "held w' i = (if endpoint ep i then insert (bindingReason (ev_id b)) (held w i) else held w i)" for i
      using on(3) unfolding on(4) by (auto simp: activateBinding_def reason_simps endpoint_def)
    moreover have "as_liveBindings w' = dset (ev_id b) ep (as_liveBindings w)"
      "as_observedById w' = as_observedById w" "as_trusted w' = as_trusted w" "well_keyed w'"
      using on(3) w unfolding on(4) by (simp_all add: activateBinding_def books_def well_keyed_def)
    ultimately show ?thesis
      using w on(2,3) b ob unfolding books_parts by auto
  next
    case off
    have "held w' i = (if endpoint ep i then held w i - {bindingReason (ev_id b)} else held w i)" for i
      using off(2) unfolding off(3) by (auto simp: deactivateBinding_def reason_simps endpoint_def)
    moreover have "as_liveBindings w' = ddel (ev_id b) (as_liveBindings w)"
      "as_observedById w' = as_observedById w" "as_trusted w' = as_trusted w" "well_keyed w'"
      using off(2) w unfolding off(3) by (simp_all add: deactivateBinding_def books_def well_keyed_def)
    ultimately show ?thesis
      using w off(2) unfolding books_parts by auto
  qed (use w in simp)
  show "dget (as_liveBindings w') = (dget (as_liveBindings w)) (ev_id b := due w b)"
    using cs by cases (auto simp: activateBinding_def deactivateBinding_def)
  show "as_observedById w' = as_observedById w" "as_trusted w' = as_trusted w"
    using cs by (cases; simp add: activateBinding_def deactivateBinding_def)+
qed

definition resync_bindings :: "admit_state \<Rightarrow> admit_state" where
  "resync_bindings w = fold (\<lambda>e w'. if scrutinyEventType e = Some Binding
     then resyncBinding (kind5_events (dvalues (as_observedById w))) e w' else w')
     (dvalues (as_observedById w)) w"

lemma resync_bindings_fold:
  assumes "books w" "set es \<subseteq> set (dvalues (as_observedById w))"
    and "w' = fold (\<lambda>e w'. if scrutinyEventType e = Some Binding
     then resyncBinding (kind5_events (dvalues (as_observedById w))) e w' else w') es w"
  shows "books w' \<and> as_observedById w' = as_observedById w \<and> as_trusted w' = as_trusted w
    \<and> (\<forall>e \<in> set es. scrutinyEventType e = Some Binding \<longrightarrow> dget (as_liveBindings w') (ev_id e) = due w e)"
  using assms(2,3)
proof (induction es arbitrary: w' rule: rev_induct)
  case Nil
  then show ?case using assms(1) by simp
next
  case (snoc e es)
  let ?f = "\<lambda>e w'. if scrutinyEventType e = Some Binding
     then resyncBinding (kind5_events (dvalues (as_observedById w))) e w' else w'"
  define u where "u = fold ?f es w"
  have IH: "books u" "as_observedById u = as_observedById w" "as_trusted u = as_trusted w"
    "\<And>e. e \<in> set es \<Longrightarrow> scrutinyEventType e = Some Binding \<Longrightarrow> dget (as_liveBindings u) (ev_id e) = due w e"
    using snoc.IH [OF _ u_def] snoc.prems(1) by auto
  have w': "w' = ?f e u"
    using snoc.prems(2) by (simp add: u_def)
  have dueu: "due u = due w"
    by (rule due_cong) (simp_all add: IH)
  show ?case
  proof (cases "scrutinyEventType e = Some Binding")
    case True
    have e: "e \<in> set (dvalues (as_observedById u))"
      using snoc.prems(1) IH(2) by simp
    have w'': "w' = resyncBinding (kind5_events (dvalues (as_observedById u))) e u"
      using w' True IH(2) by simp
    note s = resyncBinding_spec [OF IH(1) e True w'']
    have w0: "well_keyed w"
      using assms(1) by (simp add: books_def)
    have uniq: "e' = e" if "e' \<in> set es" "ev_id e' = ev_id e" for e'
    proof -
      have "e' \<in> set (dvalues (as_observedById w))" "e \<in> set (dvalues (as_observedById w))"
        using that(1) by (intro subsetD [OF snoc.prems(1)]; simp)+
      then have "dget (as_observedById w) (ev_id e') = Some e'" "dget (as_observedById w) (ev_id e) = Some e"
        by (simp_all only: observed_dget [OF w0])
      then show ?thesis
        unfolding that(2) by (metis option.inject)
    qed
    have "dget (as_liveBindings w') (ev_id e') = due w e'"
      if "e' \<in> set (es @ [e])" "scrutinyEventType e' = Some Binding" for e'
    proof (cases "ev_id e' = ev_id e")
      case True
      with that uniq have "e' = e" by auto
      then show ?thesis unfolding s(4) dueu by simp
    next
      case False
      with that IH(4) show ?thesis unfolding s(4) by auto
    qed
    then show ?thesis
      using s(1-3) IH(2,3) by simp
  next
    case False
    then show ?thesis using w' IH by auto
  qed
qed

lemma resync_bindings_spec:
  assumes w: "books w" and w': "w' = resync_bindings w"
  shows "books w'" "as_observedById w' = as_observedById w" "as_trusted w' = as_trusted w"
    "dget (as_liveBindings w') b = Some ep \<longleftrightarrow>
       (\<exists>e. live_binding (as_observedById w) (trusts w) e ep \<and> ev_id e = b)"
proof -
  have all: "books w' \<and> as_observedById w' = as_observedById w \<and> as_trusted w' = as_trusted w
    \<and> (\<forall>e \<in> set (dvalues (as_observedById w)). scrutinyEventType e = Some Binding \<longrightarrow>
         dget (as_liveBindings w') (ev_id e) = due w e)"
    by (rule resync_bindings_fold [OF w]) (simp_all add: w' resync_bindings_def)
  then show keep: "books w'" "as_observedById w' = as_observedById w" "as_trusted w' = as_trusted w"
    by auto
  show "dget (as_liveBindings w') b = Some ep \<longleftrightarrow>
       (\<exists>e. live_binding (as_observedById w) (trusts w) e ep \<and> ev_id e = b)"
  proof
    assume l: "dget (as_liveBindings w') b = Some ep"
    then obtain e where e: "dget (as_observedById w) b = Some e" "scrutinyEventType e = Some Binding"
      using books_live [OF keep(1) l] keep(2) by auto
    then have id: "ev_id e = b"
      using w by (auto simp: books_def intro: dget_observed_id)
    with e have "e \<in> set (dvalues (as_observedById w))"
      using w by (simp add: books_def observed_dget del: set_map)
    with all e(2) id l have "due w e = Some ep" by force
    with id show "\<exists>e. live_binding (as_observedById w) (trusts w) e ep \<and> ev_id e = b"
      by (auto simp: due_iff)
  next
    assume "\<exists>e. live_binding (as_observedById w) (trusts w) e ep \<and> ev_id e = b"
    then obtain e where e: "live_binding (as_observedById w) (trusts w) e ep" "ev_id e = b" by blast
    then have "e \<in> set (dvalues (as_observedById w))" "scrutinyEventType e = Some Binding"
      unfolding live_binding_def by blast+
    with all e have "dget (as_liveBindings w') b = due w e" by force
    with e(1) show "dget (as_liveBindings w') b = Some ep"
      by (simp add: due_iff)
  qed
qed

subsection \<open>Root chains\<close>

lemma as_reasons_id [simp]: "w\<lparr>as_reasons := as_reasons w\<rparr> = w"
  by simp

lemma fold_credit_w:
  "fold (\<lambda>j. credit_w j r) ids w = w\<lparr>as_reasons := fold (\<lambda>j. credit j r) ids (as_reasons w)\<rparr>"
  by (induction ids arbitrary: w) (simp_all add: credit_w_def)

lemma fold_uncredit_w:
  "fold (\<lambda>j. uncredit_w j r) ids w = w\<lparr>as_reasons := fold (\<lambda>j. uncredit j r) ids (as_reasons w)\<rparr>"
  by (induction ids arbitrary: w) (simp_all add: uncredit_w_def)

lemma reason_uncredits [reason_simps]:
  "reason_set (fold (\<lambda>j. uncredit j r) ids m) i =
     (if i \<in> set ids then reason_set m i - {r} else reason_set m i)"
  by (induction ids arbitrary: m) (auto simp: reason_simps)

lemma tabled_credits [simp]: "tabled m \<Longrightarrow> tabled (fold (\<lambda>j. credit j r) ids m)"
  by (rule fold_keeps [where P = tabled]) auto

lemma tabled_uncredits [simp]: "tabled m \<Longrightarrow> tabled (fold (\<lambda>j. uncredit j r) ids m)"
  by (rule fold_keeps [where P = tabled]) auto

lemma fold_sweep:
  "fold (\<lambda>(i, rs) w. if P i rs then uncredit_w i r w else w) es w =
     fold (\<lambda>j. uncredit_w j r) (map fst (filter (\<lambda>(i, rs). P i rs) es)) w"
  by (induction es arbitrary: w) auto

lemma resyncRootChain_spec:
  assumes w: "tabled (as_reasons w)" and w': "w' = resyncRootChain ps ks r w"
  shows "held w' i =
      held w i - {rootChainReason (ev_id r)} \<union>
        (if isAdmittedIn w (ev_id r) \<and> i \<in> set (rootChainMembers r ps ks) then {rootChainReason (ev_id r)} else {})"
    and "as_liveBindings w' = as_liveBindings w" "as_observedById w' = as_observedById w"
    and "as_trusted w' = as_trusted w" "tabled (as_reasons w')"
proof -
  let ?x = "rootChainReason (ev_id r)" and ?ms = "rootChainMembers r ps ks"
  define w1 where "w1 = fold (\<lambda>j. if isAdmittedIn w (ev_id r) then credit_w j ?x else uncredit_w j ?x) ?ms w"
  define stale where "stale = map fst (filter (\<lambda>(i, rs). i \<notin> set ?ms \<and> ?x \<in> set rs) (as_reasons w1))"
  have w1: "w1 = w\<lparr>as_reasons := fold (\<lambda>j. if isAdmittedIn w (ev_id r) then credit j ?x else uncredit j ?x)
      ?ms (as_reasons w)\<rparr>"
    unfolding w1_def by (cases "isAdmittedIn w (ev_id r)") (simp_all add: fold_credit_w fold_uncredit_w)
  have t1: "tabled (as_reasons w1)"
    unfolding w1 using w by (cases "isAdmittedIn w (ev_id r)") simp_all
  have h1: "held w1 i = (if i \<in> set ?ms then (if isAdmittedIn w (ev_id r) then insert ?x (held w i)
      else held w i - {?x}) else held w i)" for i
    unfolding w1 by (cases "isAdmittedIn w (ev_id r)") (simp_all add: reason_simps)
  have r': "w' = w1\<lparr>as_reasons := fold (\<lambda>j. uncredit j ?x) stale (as_reasons w1)\<rparr>"
    unfolding w' resyncRootChain_def Let_def w1_def [symmetric] fold_sweep stale_def [symmetric]
    by (rule fold_uncredit_w)
  have st: "i \<in> set stale \<longleftrightarrow> i \<notin> set ?ms \<and> ?x \<in> held w1 i" for i
  proof -
    have "dget (as_reasons w1) i = Some rs \<longleftrightarrow> (i, rs) \<in> set (as_reasons w1)" for rs
      using t1 by (simp add: tabled_def)
    then show ?thesis
      by (force simp: stale_def reasons_of_def split: option.splits)
  qed
  show "held w' i = held w i - {?x} \<union> (if isAdmittedIn w (ev_id r) \<and> i \<in> set ?ms then {?x} else {})"
    unfolding r' using h1 [of i] st [of i] by (auto simp: reason_simps)
  show "as_liveBindings w' = as_liveBindings w" "as_observedById w' = as_observedById w"
    "as_trusted w' = as_trusted w" "tabled (as_reasons w')"
    using t1 by (simp_all add: r') (simp_all add: w1)
qed

text \<open>The reasons the roots \<open>rs\<close> still have to rewrite are left alone by the others.\<close>

definition resync_roots :: "admit_state \<Rightarrow> admit_state" where
  "resync_roots w = fold (\<lambda>e w'. if isRoot e
     then resyncRootChain (events_typed Patch (dvalues (as_observedById w)))
            (kind5_events (dvalues (as_observedById w))) e w' else w')
     (dvalues (as_observedById w)) w"

lemma no_chain_on_root:
  "chains_placed w \<Longrightarrow> dget (as_observedById w) i = Some e \<Longrightarrow> isRoot e \<Longrightarrow> rootChainReason r \<notin> held w i"
  unfolding chains_placed_def by fastforce

definition bindings_synced :: "admit_state \<Rightarrow> bool" where
  "bindings_synced w \<longleftrightarrow> books w \<and> (\<forall>b ep. dget (as_liveBindings w) b = Some ep \<longleftrightarrow>
       (\<exists>e. live_binding (as_observedById w) (trusts w) e ep \<and> ev_id e = b))"

lemma bindings_synced_reasons:
  assumes "bindings_synced w" "reasonKind r \<noteq> Kind_root_chain"
  shows "r \<in> held w i \<longleftrightarrow> admits (as_observedById w) (trusts w) i r"
proof (cases "r = direct_trust")
  case True
  have "(\<exists>e. dget (as_observedById w) i = Some e \<and> trusts w (ev_pubkey e)) \<longleftrightarrow>
    (\<exists>e. i = ev_id e \<and> e \<in> set (dvalues (as_observedById w)) \<and> trusts w (ev_pubkey e))"
    using assms(1) observed_dget dget_observed_id unfolding bindings_synced_def books_def by metis
  then show ?thesis
    using assms(1) unfolding True admits_simps(2) set_map bindings_synced_def books_def direct_exact_def by simp
next
  case False
  show ?thesis
  proof (cases "r \<in> range bindingReason")
    case True
    then obtain b where b: "r = bindingReason b" by blast
    have "r \<in> held w i \<longleftrightarrow> (\<exists>ep. dget (as_liveBindings w) b = Some ep \<and> endpoint ep i)"
      using assms(1) unfolding b bindings_synced_def books_def bindings_exact_def by blast
    also have "\<dots> \<longleftrightarrow> admits (as_observedById w) (trusts w) i r"
    proof -
      have "dget (as_liveBindings w) b = Some ep \<longleftrightarrow>
          (\<exists>e. live_binding (as_observedById w) (trusts w) e ep \<and> ev_id e = b)" for ep
        using assms(1) unfolding bindings_synced_def by blast
      then show ?thesis
        unfolding b admits_simps(3) by metis
    qed
    finally show ?thesis .
  next
    case nb: False
    then have "r \<notin> held w i"
      using assms False unfolding bindings_synced_def books_def reasons_shaped_def by fastforce
    moreover have "\<not> admits (as_observedById w) (trusts w) i r"
      using nb False assms(2) by (auto simp: admits_simps(1))
    ultimately show ?thesis by simp
  qed
qed

lemma root_admitted:
  assumes "bindings_synced w" "e \<in> set (dvalues (as_observedById w))" "isRoot e"
  shows "isAdmittedIn w (ev_id e) \<longleftrightarrow> vouched (as_observedById w) (trusts w) e"
proof -
  have wk: "well_keyed w" and ch: "chains_placed w" and sh: "reasons_shaped w"
    using assms(1) by (simp_all add: bindings_synced_def books_def)
  have ob: "dget (as_observedById w) (ev_id e) = Some e"
    using assms(2) by (simp only: observed_dget [OF wk])
  have "reasonKind r \<noteq> Kind_root_chain" if "r \<in> held w (ev_id e)" for r
    using that sh no_chain_on_root [OF ch ob assms(3)] unfolding reasons_shaped_def by fastforce
  then have "held w (ev_id e) \<noteq> {} \<longleftrightarrow>
      (\<exists>r. admits (as_observedById w) (trusts w) (ev_id e) r \<and> reasonKind r \<noteq> Kind_root_chain)"
    using bindings_synced_reasons [OF assms(1)] by (metis (mono_tags) ex_in_conv)
  also have "\<dots> \<longleftrightarrow> vouched (as_observedById w) (trusts w) e"
    using wk assms(2) by (intro vouched_iff [symmetric]) (simp_all add: well_keyed_def)
  finally show ?thesis
    by (simp add: isAdmittedIn_def)
qed

lemma resync_one_root:
  assumes w: "bindings_synced w" and e: "e \<in> set (dvalues (as_observedById w))" "isRoot e"
    and w': "w' = resyncRootChain (events_typed Patch (dvalues (as_observedById w)))
      (kind5_events (dvalues (as_observedById w))) e w"
  shows "bindings_synced w'" "as_observedById w' = as_observedById w" "as_trusted w' = as_trusted w"
    and "rootChainReason r \<in> held w' i \<longleftrightarrow>
      (if r = ev_id e then vouched (as_observedById w) (trusts w) e \<and> i \<in> set (root_chain (as_observedById w) e)
       else rootChainReason r \<in> held w i)"
proof -
  have wk: "well_keyed w" and b: "books w"
    using w by (simp_all add: bindings_synced_def books_def)
  note s = resyncRootChain_spec [OF _ w', unfolded root_admitted [OF w e]]
  have t: "tabled (as_reasons w)" using wk by (simp add: well_keyed_def)
  have h: "held w' i = held w i - {rootChainReason (ev_id e)} \<union>
     (if vouched (as_observedById w) (trusts w) e \<and> i \<in> set (root_chain (as_observedById w) e)
      then {rootChainReason (ev_id e)} else {})" for i
    unfolding root_chain_def by (rule s(1) [OF t])
  show o: "as_observedById w' = as_observedById w" "as_trusted w' = as_trusted w"
    using s(3,4) [OF t] by simp_all
  show c: "rootChainReason r \<in> held w' i \<longleftrightarrow>
      (if r = ev_id e then vouched (as_observedById w) (trusts w) e \<and> i \<in> set (root_chain (as_observedById w) e)
       else rootChainReason r \<in> held w i)" for r i
    unfolding h by auto
  have keep: "x \<in> held w' i \<longleftrightarrow> x \<in> held w i" if "x \<notin> range rootChainReason" for x i
    using that unfolding h by auto
  have member: "\<exists>d. dget (as_observedById w) i = Some d \<and> \<not> isRoot d"
    if m: "i \<in> set (root_chain (as_observedById w) e)" for i
  proof -
    obtain d where "d \<in> set (dvalues (as_observedById w))" "ev_id d = i" "\<not> isRoot d"
      using root_chain_nonroot [OF _ m] wk unfolding well_keyed_def by blast
    then show ?thesis
      using observed_dget [OF wk, of d] by blast
  qed
  have "well_keyed w'"
    using wk s(5) [OF t] by (simp add: well_keyed_def o)
  moreover have "direct_exact w'"
    using b keep [of direct_trust] by (simp add: books_def direct_exact_def o image_iff)
  moreover have "bindings_exact w'"
    using b keep [of "bindingReason _"] by (simp add: books_def bindings_exact_def o s(2) [OF t] image_iff)
  moreover have "chains_placed w'"
    unfolding chains_placed_def c o
  proof (intro allI impI)
    fix r i
    assume a: "if r = ev_id e then vouched (as_observedById w) (trusts w) e \<and> i \<in> set (root_chain (as_observedById w) e)
       else rootChainReason r \<in> held w i"
    show "(\<exists>e. dget (as_observedById w) r = Some e \<and> isRoot e) \<and> (\<exists>e. dget (as_observedById w) i = Some e \<and> \<not> isRoot e)"
    proof (cases "r = ev_id e")
      case True
      then show ?thesis using a e member observed_dget [OF wk, of e] by auto
    next
      case False
      with a b show ?thesis unfolding books_def chains_placed_def by simp
    qed
  qed
  moreover have "reasons_shaped w'"
    using b keep unfolding books_def reasons_shaped_def by (metis rangeI)
  ultimately show "bindings_synced w'"
    using w s(2) [OF t] by (simp add: bindings_synced_def books_def o)
qed

lemma resync_roots_fold:
  assumes w: "bindings_synced w" and "set es \<subseteq> set (dvalues (as_observedById w))"
    and "w' = fold (\<lambda>e w'. if isRoot e
     then resyncRootChain (events_typed Patch (dvalues (as_observedById w)))
            (kind5_events (dvalues (as_observedById w))) e w' else w') es w"
  shows "bindings_synced w' \<and> as_observedById w' = as_observedById w \<and> as_trusted w' = as_trusted w
    \<and> (\<forall>r i. rootChainReason r \<in> held w' i \<longleftrightarrow>
         (if \<exists>e \<in> set es. isRoot e \<and> ev_id e = r
          then \<exists>e \<in> set es. isRoot e \<and> ev_id e = r \<and> vouched (as_observedById w) (trusts w) e
                 \<and> i \<in> set (root_chain (as_observedById w) e)
          else rootChainReason r \<in> held w i))"
  using assms(2,3)
proof (induction es arbitrary: w' rule: rev_induct)
  case Nil
  then show ?case using w by simp
next
  case (snoc e es)
  let ?obs = "as_observedById w" and ?T = "trusts w"
  let ?f = "\<lambda>e w'. if isRoot e then resyncRootChain (events_typed Patch (dvalues ?obs))
            (kind5_events (dvalues ?obs)) e w' else w'"
  define u where "u = fold ?f es w"
  have sub: "set es \<subseteq> set (dvalues ?obs)" and e: "e \<in> set (dvalues ?obs)"
    using snoc.prems(1) by simp_all
  have IH: "bindings_synced u" "as_observedById u = ?obs" "as_trusted u = as_trusted w"
    "\<And>r i. rootChainReason r \<in> held u i \<longleftrightarrow>
         (if \<exists>e \<in> set es. isRoot e \<and> ev_id e = r
          then \<exists>e \<in> set es. isRoot e \<and> ev_id e = r \<and> vouched ?obs ?T e \<and> i \<in> set (root_chain ?obs e)
          else rootChainReason r \<in> held w i)"
    using snoc.IH [OF sub u_def] by blast+
  have w': "w' = ?f e u"
    using snoc.prems(2) by (simp add: u_def)
  have wk: "well_keyed w"
    using w by (simp add: bindings_synced_def books_def)
  have uniq: "e' = e" if "e' \<in> set es" "ev_id e' = ev_id e" for e'
  proof -
    have "e' \<in> set (dvalues ?obs)" using that(1) sub by blast
    then have "dget ?obs (ev_id e') = Some e'" "dget ?obs (ev_id e) = Some e"
      using e by (simp_all only: observed_dget [OF wk])
    then show ?thesis
      unfolding that(2) by (metis option.inject)
  qed
  show ?case
  proof (cases "isRoot e")
    case False
    then have "w' = u" by (simp add: w')
    with IH False show ?thesis by auto
  next
    case True
    have eu: "e \<in> set (dvalues (as_observedById u))"
      using e IH(2) by simp
    have w'': "w' = resyncRootChain (events_typed Patch (dvalues (as_observedById u)))
      (kind5_events (dvalues (as_observedById u))) e u"
      using w' True IH(2) by simp
    note s = resync_one_root [OF IH(1) eu True w'', unfolded IH(2,3)]
    have "rootChainReason r \<in> held w' i \<longleftrightarrow>
         (if \<exists>e \<in> set (es @ [e]). isRoot e \<and> ev_id e = r
          then \<exists>e \<in> set (es @ [e]). isRoot e \<and> ev_id e = r \<and> vouched ?obs ?T e
                 \<and> i \<in> set (root_chain ?obs e)
          else rootChainReason r \<in> held w i)" for r i
    proof (cases "r = ev_id e")
      case r: True
      have "(\<exists>e' \<in> set (es @ [e]). isRoot e' \<and> ev_id e' = r \<and> vouched ?obs ?T e' \<and> i \<in> set (root_chain ?obs e'))
        \<longleftrightarrow> vouched ?obs ?T e \<and> i \<in> set (root_chain ?obs e)"
        using uniq True unfolding r by auto
      then show ?thesis
        using True unfolding s(4) r by auto
    next
      case False
      then show ?thesis
        unfolding s(4) IH(4) by auto
    qed
    with s(1-3) show ?thesis by blast
  qed
qed

lemma resync_roots_spec:
  assumes w: "bindings_synced w" and w': "w' = resync_roots w"
  shows "synced w'" "as_observedById w' = as_observedById w" "as_trusted w' = as_trusted w"
proof -
  let ?obs = "as_observedById w" and ?T = "trusts w"
  have all: "bindings_synced w' \<and> as_observedById w' = ?obs \<and> as_trusted w' = as_trusted w
    \<and> (\<forall>r i. rootChainReason r \<in> held w' i \<longleftrightarrow>
         (if \<exists>e \<in> set (dvalues ?obs). isRoot e \<and> ev_id e = r
          then \<exists>e \<in> set (dvalues ?obs). isRoot e \<and> ev_id e = r \<and> vouched ?obs ?T e \<and> i \<in> set (root_chain ?obs e)
          else rootChainReason r \<in> held w i))"
    by (rule resync_roots_fold [OF w]) (simp_all add: w' resync_roots_def)
  then show keep: "as_observedById w' = ?obs" "as_trusted w' = as_trusted w" by auto
  have b': "bindings_synced w'" using all by blast
  have wk: "well_keyed w'"
    using b' by (simp add: bindings_synced_def books_def)
  have chain: "rootChainReason r \<in> held w' i \<longleftrightarrow> admits ?obs ?T i (rootChainReason r)" for r i
  proof -
    have "rootChainReason r \<in> held w' i \<longleftrightarrow> (\<exists>e \<in> set (dvalues ?obs). isRoot e \<and> ev_id e = r
        \<and> vouched ?obs ?T e \<and> i \<in> set (root_chain ?obs e))"
    proof (cases "\<exists>e \<in> set (dvalues ?obs). isRoot e \<and> ev_id e = r")
      case True
      with all show ?thesis by simp
    next
      case False
      have "rootChainReason r \<notin> held w i"
      proof
        assume "rootChainReason r \<in> held w i"
        then obtain e where e: "dget ?obs r = Some e" "isRoot e"
          using w unfolding bindings_synced_def books_def chains_placed_def by blast
        have "well_keyed w"
          using w by (simp add: bindings_synced_def books_def)
        with e have "e \<in> set (dvalues ?obs)" "ev_id e = r"
          by (simp_all add: observed_dget dget_observed_id del: set_map)
        with False e(2) show False by blast
      qed
      with all False show ?thesis by auto
    qed
    then show ?thesis
      unfolding admits_simps(4) set_map by blast
  qed
  have "x \<in> held w' i \<longleftrightarrow> admits ?obs ?T i x" for x i
  proof (cases "reasonKind x = Kind_root_chain")
    case False
    then show ?thesis using bindings_synced_reasons [OF b'] keep by simp
  next
    case True
    show ?thesis
    proof (cases "x \<in> range rootChainReason")
      case True
      then show ?thesis using chain by blast
    next
      case nr: False
      have "x \<notin> held w' i"
        using b' nr True unfolding bindings_synced_def books_def reasons_shaped_def by fastforce
      moreover have "\<not> admits ?obs ?T i x"
        using nr True by (auto simp: admits_simps(1))
      ultimately show ?thesis by simp
    qed
  qed
  then show "synced w'"
    using b' wk unfolding synced_def bindings_synced_def keep by blast
qed

lemma resync_parts: "books w \<Longrightarrow> resync w = resync_roots (resync_bindings w)"
  using resync_bindings_spec(2) [OF _ refl, of w]
  unfolding resync_def resync_roots_def Let_def resync_bindings_def [symmetric]
  by (simp cong: if_cong)

lemma resync_synced: "books w \<Longrightarrow> synced (resync w)"
  and resync_observed: "books w \<Longrightarrow> as_observedById (resync w) = as_observedById w"
  and resync_trusted: "books w \<Longrightarrow> as_trusted (resync w) = as_trusted w"
proof -
  assume w: "books w"
  note b = resync_bindings_spec [OF w refl]
  have "bindings_synced (resync_bindings w)"
    using b by (simp add: bindings_synced_def)
  from resync_roots_spec [OF this refl] b(2,3)
  show "synced (resync w)" "as_observedById (resync w) = as_observedById w"
    "as_trusted (resync w) = as_trusted w"
    by (simp_all add: resync_parts [OF w])
qed

lemma synced_bindings:
  assumes w: "synced w"
  shows "bindings_synced w"
proof -
  let ?obs = "as_observedById w"
  have wk: "well_keyed w" and h: "\<And>i. held w i = {r. admits ?obs (trusts w) i r}"
    and live: "\<And>b ep. dget (as_liveBindings w) b = Some ep \<longleftrightarrow>
          (\<exists>e. live_binding ?obs (trusts w) e ep \<and> ev_id e = b)"
    using w unfolding synced_def by blast+
  have dg: "(\<exists>e. P e \<and> e \<in> set (dvalues ?obs) \<and> ev_id e = i) \<longleftrightarrow> (\<exists>e. dget ?obs i = Some e \<and> P e)" for P i
    using observed_dget [OF wk] dget_observed_id [OF wk] by metis
  have "direct_exact w"
    unfolding direct_exact_def h mem_Collect_eq admits_simps(2)
    using dg [of "\<lambda>e. trusts w (ev_pubkey e)"] unfolding set_map by metis
  moreover have "bindings_exact w"
    unfolding bindings_exact_def
  proof (intro conjI allI impI)
    show "bindingReason b \<in> held w i \<longleftrightarrow> (\<exists>ep. dget (as_liveBindings w) b = Some ep \<and> endpoint ep i)" for b i
      unfolding h mem_Collect_eq admits_simps(3) live by blast
    fix b ep assume "dget (as_liveBindings w) b = Some ep"
    then obtain e where "live_binding ?obs (trusts w) e ep" "ev_id e = b"
      unfolding live by blast
    then show "\<exists>e. dget ?obs b = Some e \<and> scrutinyEventType e = Some Binding \<and> bindingEndpoints e = Some ep"
      using observed_dget [OF wk, of e] unfolding live_binding_def by blast
  qed
  moreover have "chains_placed w"
    unfolding chains_placed_def h mem_Collect_eq
  proof (intro allI impI)
    fix r i assume "admits ?obs (trusts w) i (rootChainReason r)"
    then obtain e where e: "e \<in> set (dvalues ?obs)" "isRoot e" "ev_id e = r" "i \<in> set (root_chain ?obs e)"
      unfolding admits_simps(4) set_map by blast
    obtain d where d: "d \<in> set (dvalues ?obs)" "ev_id d = i" "\<not> isRoot d"
      using root_chain_nonroot [OF _ e(4)] wk unfolding well_keyed_def by blast
    show "(\<exists>e. dget ?obs r = Some e \<and> isRoot e) \<and> (\<exists>e. dget ?obs i = Some e \<and> \<not> isRoot e)"
      using e d observed_dget [OF wk, of e] observed_dget [OF wk, of d] by blast
  qed
  moreover have "reasons_shaped w"
    unfolding reasons_shaped_def h by (auto simp: admits_simps(1))
  ultimately show ?thesis
    using wk live by (simp add: bindings_synced_def books_def)
qed

lemma synced_books: "synced w \<Longrightarrow> books w"
  using synced_bindings by (simp add: bindings_synced_def)

subsection \<open>Deltas keep the books\<close>

text \<open>
  The deltas the bookkeeping is exact for. An observed deletion is not also a root; and in one
  \<open>unobserve\<close> no live binding comes before one of its own endpoints.
\<close>

fun unobserve_ordered :: "binding_endpoints dict \<Rightarrow> jsstr list \<Rightarrow> bool" where
  "unobserve_ordered live [] = True"
| "unobserve_ordered live (i # ids) =
     ((case dget live i of None \<Rightarrow> True
       | Some ep \<Rightarrow> be_rootId ep \<notin> set ids \<and> be_linkId ep \<notin> set ids) \<and> unobserve_ordered live ids)"

fun delta_ok :: "admit_state \<Rightarrow> admission_delta \<Rightarrow> bool" where
  "delta_ok st (Observe es) = no_root_deletions es"
| "delta_ok st (Unobserve ids) = unobserve_ordered (as_liveBindings st) ids"
| "delta_ok st (Trust pks) = True"
| "delta_ok st (Untrust pks) = True"

lemma observe_one_books:
  assumes "books w" "\<not> (ev_kind e = DELETION_KIND \<and> isRoot e)"
  shows "books (observe_one e w)"
proof (cases "dhas (as_observedById w) (ev_id e)")
  case True
  with assms show ?thesis by (simp add: observe_one_def)
next
  case False
  let ?w = "observe_one e w"
  have new: "dget (as_observedById w) (ev_id e) = None"
    using False by (simp add: dhas_def)
  have f: "as_observedById ?w = dset (ev_id e) e (as_observedById w)" "as_trusted ?w = as_trusted w"
    "as_liveBindings ?w = as_liveBindings w"
    using False by (simp_all add: observe_one_def Let_def)
  have h: "held ?w i = held w i \<union> (if i = ev_id e \<and> trusts w (ev_pubkey e) then {direct_trust} else {})" for i
    using False by (simp add: observe_one_def Let_def reason_simps)
  have wk: "well_keyed ?w"
  proof -
    have "tabled (as_reasons ?w)"
      using False assms(1) by (simp add: observe_one_def Let_def books_def well_keyed_def)
    moreover have "keyed (as_observedById ?w)"
      using assms(1) by (simp add: f books_def well_keyed_def keyed_def)
    moreover have "no_root_deletions (dvalues (as_observedById ?w))"
      using assms by (simp add: f dset_absent [OF new] books_def well_keyed_def no_root_deletions_def)
    ultimately show ?thesis
      using assms(1) by (simp add: f books_def well_keyed_def)
  qed
  have old: "direct_trust \<notin> held w (ev_id e)"
    using assms(1) new by (simp add: books_def direct_exact_def)
  have d: "direct_trust \<in> held w i \<longleftrightarrow> (\<exists>e. dget (as_observedById w) i = Some e \<and> trusts w (ev_pubkey e))" for i
    using assms(1) by (simp add: books_def direct_exact_def)
  have kept: "dget (as_observedById ?w) i = Some e'" if "dget (as_observedById w) i = Some e'" for i e'
    using that new by (auto simp: f)
  have other: "x \<in> held ?w i \<longleftrightarrow> x \<in> held w i" if "x \<noteq> direct_trust" for x i
    using that by (simp add: h)
  have "direct_trust \<in> held ?w i \<longleftrightarrow> (\<exists>e. dget (as_observedById ?w) i = Some e \<and> trusts ?w (ev_pubkey e))" for i
    unfolding h f using old by (cases "i = ev_id e") (simp_all add: d)
  then have "direct_exact ?w"
    by (simp add: direct_exact_def)
  moreover have "bindings_exact ?w"
    using assms(1) kept unfolding books_def bindings_exact_def f(3) other [OF reasons_differ(2)] by blast
  moreover have "chains_placed ?w"
    using assms(1) kept unfolding books_def chains_placed_def other [OF reasons_differ(4)] by blast
  moreover have "reasons_shaped ?w"
    using assms(1) unfolding books_def reasons_shaped_def h by auto
  ultimately show ?thesis
    using wk by (simp add: books_def)
qed

lemma trust_books:
  assumes w: "books w"
    and w': "w' = (w\<lparr>as_trusted := ts, as_reasons := fold (\<lambda>j. credit j direct_trust)
      (map ev_id (filter (\<lambda>e. ev_pubkey e \<in> new) (dvalues (as_observedById w)))) (as_reasons w)\<rparr>)"
    and ts: "set ts = set (as_trusted w) \<union> new"
  shows "books w'"
proof -
  have wk: "well_keyed w" using w by (simp add: books_def)
  have f: "as_observedById w' = as_observedById w" "as_liveBindings w' = as_liveBindings w"
    "as_trusted w' = ts"
    by (simp_all add: w')
  have "i \<in> set (map ev_id (filter (\<lambda>e. ev_pubkey e \<in> new) (dvalues (as_observedById w)))) \<longleftrightarrow>
      (\<exists>e. dget (as_observedById w) i = Some e \<and> ev_pubkey e \<in> new)" for i
    using observed_dget [OF wk] dget_observed_id [OF wk] unfolding set_map [of ev_id] set_filter image_iff
    by (metis (mono_tags, lifting) mem_Collect_eq)
  then have h: "x \<in> held w' i \<longleftrightarrow> x \<in> held w i \<or>
      x = direct_trust \<and> (\<exists>e. dget (as_observedById w) i = Some e \<and> ev_pubkey e \<in> new)" for x i
    unfolding w' by (auto simp: reason_simps simp del: set_map)
  have "well_keyed w'"
    using wk by (simp add: well_keyed_def w')
  moreover have "direct_exact w'"
    using w unfolding books_def direct_exact_def f h ts by blast
  moreover have "bindings_exact w'" "chains_placed w'" "reasons_shaped w'"
    using w unfolding books_def bindings_exact_def chains_placed_def reasons_shaped_def f h by auto
  ultimately show ?thesis by (simp add: books_def)
qed

lemma untrust_books:
  assumes w: "books w"
    and w': "w' = (w\<lparr>as_trusted := ts, as_reasons := fold (\<lambda>j. uncredit j direct_trust)
      (map ev_id (filter (\<lambda>e. ev_pubkey e \<in> gone) (dvalues (as_observedById w)))) (as_reasons w)\<rparr>)"
    and ts: "set ts = set (as_trusted w) - gone"
  shows "books w'"
proof -
  have wk: "well_keyed w" using w by (simp add: books_def)
  have f: "as_observedById w' = as_observedById w" "as_liveBindings w' = as_liveBindings w"
    "as_trusted w' = ts"
    by (simp_all add: w')
  have "i \<in> set (map ev_id (filter (\<lambda>e. ev_pubkey e \<in> gone) (dvalues (as_observedById w)))) \<longleftrightarrow>
      (\<exists>e. dget (as_observedById w) i = Some e \<and> ev_pubkey e \<in> gone)" for i
    using observed_dget [OF wk] dget_observed_id [OF wk] unfolding set_map [of ev_id] set_filter image_iff
    by (metis (mono_tags, lifting) mem_Collect_eq)
  then have h: "x \<in> held w' i \<longleftrightarrow> x \<in> held w i \<and>
      \<not> (x = direct_trust \<and> (\<exists>e. dget (as_observedById w) i = Some e \<and> ev_pubkey e \<in> gone))" for x i
    unfolding w' by (auto simp: reason_simps simp del: set_map)
  have "well_keyed w'"
    using wk by (simp add: well_keyed_def w')
  moreover have "direct_exact w'"
    using w unfolding books_def direct_exact_def f h ts by (metis Diff_iff option.inject)
  moreover have "bindings_exact w'" "chains_placed w'" "reasons_shaped w'"
    using w unfolding books_def bindings_exact_def chains_placed_def reasons_shaped_def f h by auto
  ultimately show ?thesis by (simp add: books_def)
qed

lemma strip_reasons_spec:
  shows "held (strip_reasons i w) j = (if j = i then {r \<in> held w i. reasonKind r = Kind_binding} else held w j)"
    and "as_observedById (strip_reasons i w) = as_observedById w"
    and "as_trusted (strip_reasons i w) = as_trusted w"
    and "as_liveBindings (strip_reasons i w) = as_liveBindings w"
    and "tabled (as_reasons w) \<Longrightarrow> tabled (as_reasons (strip_reasons i w))"
proof -
  have s: "strip_reasons i w = fold (uncredit_w i)
      (filter (\<lambda>r. r = direct_trust \<or> reasonKind r = Kind_root_chain) (reasons_of (as_reasons w) i)) w"
    unfolding strip_reasons_def by (rule fold_when)
  have k: "r = direct_trust \<or> reasonKind r = Kind_root_chain \<longleftrightarrow> reasonKind r \<noteq> Kind_binding" for r
    by (auto simp: reasonKind_def)
  have all: "held (fold (uncredit_w i) rs u) j = (if j = i then held u i - set rs else held u j)
    \<and> as_observedById (fold (uncredit_w i) rs u) = as_observedById u
    \<and> as_trusted (fold (uncredit_w i) rs u) = as_trusted u
    \<and> as_liveBindings (fold (uncredit_w i) rs u) = as_liveBindings u
    \<and> (tabled (as_reasons u) \<longrightarrow> tabled (as_reasons (fold (uncredit_w i) rs u)))" for rs u
    by (induction rs arbitrary: u) (auto simp: reason_simps)
  show "held (strip_reasons i w) j = (if j = i then {r \<in> held w i. reasonKind r = Kind_binding} else held w j)"
    unfolding s using all [of _ w] by (auto simp: k)
  show "as_observedById (strip_reasons i w) = as_observedById w"
    "as_trusted (strip_reasons i w) = as_trusted w"
    "as_liveBindings (strip_reasons i w) = as_liveBindings w"
    "tabled (as_reasons w) \<Longrightarrow> tabled (as_reasons (strip_reasons i w))"
    unfolding s using all [of _ w] by blast+
qed

text \<open>
  Inside an \<open>unobserve\<close>: every root-chain credit was conferred over the snapshot \<open>ps\<close>, \<open>ks\<close>, and
  a root still to be removed that has conferred credits is still admitted.
\<close>

definition unobserving ::
    "nostr_event list \<Rightarrow> nostr_event list \<Rightarrow> jsstr list \<Rightarrow> admit_state \<Rightarrow> bool" where
  "unobserving ps ks ids w \<longleftrightarrow> books w \<and> unobserve_ordered (as_liveBindings w) ids
     \<and> (\<forall>r i. rootChainReason r \<in> held w i \<longrightarrow>
          (\<exists>e. dget (as_observedById w) r = Some e \<and> i \<in> set (rootChainMembers e ps ks))
          \<and> (r \<in> set ids \<longrightarrow> held w r \<noteq> {}))"

lemma unobserve_ordered_less:
  "unobserve_ordered live ids \<Longrightarrow> (\<And>b. dget live' b = None \<or> dget live' b = dget live b)
     \<Longrightarrow> unobserve_ordered live' ids"
proof (induction ids)
  case (Cons i ids)
  then show ?case
  proof -
    have "unobserve_ordered live' ids"
      using Cons by simp
    then show ?thesis
      using Cons.prems(1) Cons.prems(2) [of i] by (elim disjE) simp_all
  qed
qed simp

lemma unobserve_one_fields:
  assumes e: "dget (as_observedById w) i = Some e" and w': "w' = unobserve_one ps ks i w"
    and w: "books w"
    and conferred: "\<forall>j. rootChainReason i \<in> held w j \<longrightarrow>
      j \<in> set (rootChainMembers e ps ks) \<and> held w i \<noteq> {}"
  shows "as_observedById w' = ddel i (as_observedById w)" "as_trusted w' = as_trusted w"
    and "as_liveBindings w' = (if dhas (as_liveBindings w) i then ddel i (as_liveBindings w) else as_liveBindings w)"
    and "x \<in> held w' j \<longleftrightarrow> x \<in> held w j \<and> x \<noteq> bindingReason i \<and> x \<noteq> rootChainReason i
          \<and> (j = i \<longrightarrow> reasonKind x = Kind_binding)"
    and "tabled (as_reasons w')"
proof -
  define w1 where "w1 = (if dhas (as_liveBindings w) i then deactivateBinding i w else w)"
  define w2 where "w2 = (if isRoot e \<and> isAdmittedIn w1 i then uncascade ps ks i e w1 else w1)"
  have w'2: "w' = (strip_reasons i w2)\<lparr>as_observedById := ddel i (as_observedById (strip_reasons i w2))\<rparr>"
    by (simp add: w' unobserve_one_def e w1_def w2_def Let_def)
  have f1: "as_observedById w1 = as_observedById w" "as_trusted w1 = as_trusted w"
    "as_liveBindings w1 = (if dhas (as_liveBindings w) i then ddel i (as_liveBindings w) else as_liveBindings w)"
    "tabled (as_reasons w1)"
    using w by (auto simp: w1_def deactivateBinding_def books_def well_keyed_def split: option.splits)
      (simp add: dhas_def)
  have h1: "held w1 j = held w j - {bindingReason i}" for j
  proof (cases "dget (as_liveBindings w) i")
    case None
    then have "bindingReason i \<notin> held w j"
      using w by (simp add: books_def bindings_exact_def)
    with None show ?thesis by (simp add: w1_def dhas_def)
  next
    case (Some ep)
    then have "bindingReason i \<in> held w j \<longleftrightarrow> endpoint ep j"
      using w by (simp add: books_def bindings_exact_def)
    with Some show ?thesis
      by (auto simp: w1_def dhas_def deactivateBinding_def reason_simps endpoint_def)
  qed
  have f2: "as_observedById w2 = as_observedById w1" "as_trusted w2 = as_trusted w1"
    "as_liveBindings w2 = as_liveBindings w1" "tabled (as_reasons w2)"
    using f1(4) by (simp_all add: w2_def uncascade_def fold_uncredit_w)
  have h2: "held w2 j = held w1 j - {rootChainReason i}" for j
  proof (cases "rootChainReason i \<in> held w j")
    case False
    then show ?thesis
      by (auto simp: w2_def uncascade_def fold_uncredit_w reason_simps h1)
  next
    case True
    then have r: "isRoot e"
      using w e unfolding books_def chains_placed_def by fastforce
    have "dget (as_liveBindings w) i = None"
      using books_live [OF w, of i] e r by (cases "dget (as_liveBindings w) i") (auto simp: isRoot_def)
    then have "w1 = w" by (simp add: w1_def dhas_def)
    with conferred True r show ?thesis
      by (auto simp: w2_def uncascade_def fold_uncredit_w reason_simps isAdmittedIn_def)
  qed
  show "as_observedById w' = ddel i (as_observedById w)" "as_trusted w' = as_trusted w"
    "as_liveBindings w' = (if dhas (as_liveBindings w) i then ddel i (as_liveBindings w) else as_liveBindings w)"
    "tabled (as_reasons w')"
    using strip_reasons_spec(5) [OF f2(4)] by (simp_all add: w'2 strip_reasons_spec f2 f1)
  show "x \<in> held w' j \<longleftrightarrow> x \<in> held w j \<and> x \<noteq> bindingReason i \<and> x \<noteq> rootChainReason i
          \<and> (j = i \<longrightarrow> reasonKind x = Kind_binding)"
    by (auto simp: w'2 strip_reasons_spec h2 h1)
qed

lemma unobserve_one_keeps:
  assumes u: "unobserving ps ks (i # ids) w"
  shows "unobserving ps ks ids (unobserve_one ps ks i w)"
proof (cases "dget (as_observedById w) i")
  case None
  with u show ?thesis
    by (simp add: unobserve_one_def unobserving_def)
next
  case (Some e)
  define w' where "w' = unobserve_one ps ks i w"
  have w: "books w" and ordered: "unobserve_ordered (as_liveBindings w) (i # ids)"
    and conf: "\<And>r i'. rootChainReason r \<in> held w i' \<Longrightarrow>
          (\<exists>e. dget (as_observedById w) r = Some e \<and> i' \<in> set (rootChainMembers e ps ks))
          \<and> (r \<in> set (i # ids) \<longrightarrow> held w r \<noteq> {})"
    using u unfolding unobserving_def by blast+
  have conferred: "\<forall>j. rootChainReason i \<in> held w j \<longrightarrow>
      j \<in> set (rootChainMembers e ps ks) \<and> held w i \<noteq> {}"
    using conf Some by fastforce
  note f = unobserve_one_fields [OF Some w'_def w conferred]
  have live: "dget (as_liveBindings w') b = (if b = i then None else dget (as_liveBindings w) b)" for b
    using f(3) by (auto simp: dhas_def)
  have wk: "well_keyed w" using w by (simp add: books_def)
  have "keyed (as_observedById w')"
    using wk by (simp add: f(1) well_keyed_def keyed_def del: map_of_eq_Some_iff)
  moreover have "no_root_deletions (dvalues (as_observedById w'))"
    using wk by (auto simp: f(1) well_keyed_def no_root_deletions_def list_all_iff AList.delete_eq)
  ultimately have "well_keyed w'"
    using wk f(5) by (simp add: well_keyed_def f(1))
  moreover have "direct_exact w'"
    using w unfolding books_def direct_exact_def f(1,2,4) by auto
  moreover have "bindings_exact w'"
    unfolding bindings_exact_def
  proof (intro conjI allI impI)
    fix b j
    show "bindingReason b \<in> held w' j \<longleftrightarrow> (\<exists>ep. dget (as_liveBindings w') b = Some ep \<and> endpoint ep j)"
      using w unfolding books_def bindings_exact_def f(4) live by simp
    fix ep assume "dget (as_liveBindings w') b = Some ep"
    then have "b \<noteq> i" "dget (as_liveBindings w) b = Some ep"
      unfolding live by (auto split: if_splits)
    then show "\<exists>e. dget (as_observedById w') b = Some e \<and> scrutinyEventType e = Some Binding
        \<and> bindingEndpoints e = Some ep"
      using books_live [OF w] by (simp add: f(1))
  qed
  moreover have "chains_placed w'"
    using w unfolding books_def chains_placed_def f(1,4) by auto
  moreover have "reasons_shaped w'"
    using w unfolding books_def reasons_shaped_def f(4) by blast
  ultimately have b': "books w'"
    by (simp add: books_def)
  have "unobserve_ordered (as_liveBindings w') ids"
  proof (rule unobserve_ordered_less [of "as_liveBindings w"])
    show "unobserve_ordered (as_liveBindings w) ids"
      using ordered by simp
    show "dget (as_liveBindings w') b = None \<or> dget (as_liveBindings w') b = dget (as_liveBindings w) b" for b
      unfolding live by simp
  qed
  moreover have "(\<exists>e. dget (as_observedById w') r = Some e \<and> j \<in> set (rootChainMembers e ps ks))
      \<and> (r \<in> set ids \<longrightarrow> held w' r \<noteq> {})" if c: "rootChainReason r \<in> held w' j" for r j
  proof -
    from c have cw: "rootChainReason r \<in> held w j" and ri: "r \<noteq> i"
      by (simp_all add: f(4))
    obtain e' where e': "dget (as_observedById w) r = Some e'" "isRoot e'"
      using w cw unfolding books_def chains_placed_def by blast
    have "held w' r \<noteq> {}" if "r \<in> set ids"
    proof -
      obtain x where x: "x \<in> held w r"
        using conjunct2 [OF conf [OF cw]] \<open>r \<in> set ids\<close> by (metis ex_in_conv list.set_intros(2))
      have "x \<noteq> rootChainReason i"
        using no_chain_on_root [OF _ e', of i] w x by (auto simp: books_def)
      moreover have "x \<noteq> bindingReason i"
      proof
        assume "x = bindingReason i"
        then obtain ep where "dget (as_liveBindings w) i = Some ep" "endpoint ep r"
          using w x unfolding books_def bindings_exact_def by blast
        with ordered \<open>r \<in> set ids\<close> show False by (auto simp: endpoint_def)
      qed
      ultimately have "x \<in> held w' r"
        using x ri unfolding f(4) by simp
      then show ?thesis by (metis empty_iff)
    qed
    then show ?thesis
      using conf [OF cw] ri by (auto simp: f(1))
  qed
  ultimately show ?thesis
    using b' unfolding unobserving_def w'_def [symmetric] by blast
qed

lemma unobserve_books:
  "unobserving ps ks ids w \<Longrightarrow> books (fold (unobserve_one ps ks) ids w)"
  by (induction ids arbitrary: w) (simp_all add: unobserve_one_keeps unobserving_def [of _ _ "[]"])

lemma synced_unobserving:
  assumes w: "synced w" and o: "unobserve_ordered (as_liveBindings w) ids"
  shows "unobserving (events_typed Patch (dvalues (as_observedById w)))
    (kind5_events (dvalues (as_observedById w))) ids w"
  unfolding unobserving_def
proof (intro conjI allI impI o synced_books w)
  fix r i assume c: "rootChainReason r \<in> held w i"
  have wk: "well_keyed w" using w by (simp add: synced_def)
  from c w have "admits (as_observedById w) (trusts w) i (rootChainReason r)"
    by (simp add: synced_def)
  then obtain e where e: "e \<in> set (dvalues (as_observedById w))" "isRoot e" "ev_id e = r"
    "vouched (as_observedById w) (trusts w) e" "i \<in> set (root_chain (as_observedById w) e)"
    unfolding admits_simps(4) set_map by blast
  then show "\<exists>e. dget (as_observedById w) r = Some e \<and> i \<in> set (rootChainMembers e
      (events_typed Patch (dvalues (as_observedById w))) (kind5_events (dvalues (as_observedById w))))"
    using observed_dget [OF wk, of e] unfolding root_chain_def by blast
  show "held w r \<noteq> {}"
    using root_admitted [OF synced_bindings [OF w] e(1,2)] e(3,4) by (auto simp: isAdmittedIn_def)
qed

subsection \<open>From one state to the next\<close>

lemma tabled_fromState: "tabled m \<Longrightarrow> tabled (map (\<lambda>(i, rs). (i, set_of rs)) m)"
  by (auto simp: tabled_def reasons_of_def map_of_map comp_def case_prod_beta split: option.splits)

lemma reason_fromState: "reason_set (map (\<lambda>(i, rs). (i, set_of rs)) m) i = reason_set m i"
  by (auto simp: reasons_of_def map_of_map split: option.splits)

lemma synced_held:
  assumes "synced w" "as_observedById w' = as_observedById w" "as_liveBindings w' = as_liveBindings w"
    and "set (as_trusted w') = set (as_trusted w)" "\<And>i. held w' i = held w i" "tabled (as_reasons w')"
  shows "synced w'"
  using assms by (simp add: synced_def well_keyed_def)

lemma synced_fromState: "synced st \<Longrightarrow> synced (fromState st)"
  by (rule synced_held [of st])
    (simp_all add: fromState_def reason_fromState tabled_fromState synced_def well_keyed_def)

lemma synced_toState: "synced w \<Longrightarrow> synced (toState w)"
  by (rule synced_held [of w])
    (simp_all add: toState_def tabled_sorted_record synced_def well_keyed_def)

lemma apply_delta_step_books:
  assumes w: "synced w" and ok: "delta_ok w d"
  shows "books (apply_delta_step d w)"
proof (cases d)
  case (Observe es)
  have "books (fold observe_one es w)"
  proof (rule fold_keeps)
    show "books w" by (rule synced_books [OF w])
    show "books (observe_one e u)" if "e \<in> set es" "books u" for e u
      using that ok Observe by (intro observe_one_books) (auto simp: no_root_deletions_def list_all_iff)
  qed
  with Observe show ?thesis by (simp add: apply_delta_step_def)
next
  case (Unobserve ids)
  then show ?thesis
    using unobserve_books [OF synced_unobserving [OF w]] ok by (simp add: apply_delta_step_def Let_def)
next
  case (Trust pks)
  define new where "new = filter (\<lambda>pk. pk \<notin> set (as_trusted w)) pks"
  have "apply_delta_step d w = (w\<lparr>as_trusted := fold sadd new (as_trusted w),
      as_reasons := fold (\<lambda>j. credit j direct_trust)
        (map ev_id (filter (\<lambda>e. ev_pubkey e \<in> set new) (dvalues (as_observedById w)))) (as_reasons w)\<rparr>)"
    unfolding Trust apply_delta_step_def admission_delta.case Let_def new_def [symmetric]
      fold_when fold_map_arg [of "\<lambda>i. credit_w i direct_trust" ev_id] fold_credit_w
    by simp
  then show ?thesis
    by (rule trust_books [OF synced_books [OF w]]) simp
next
  case (Untrust pks)
  define gone where "gone = filter (\<lambda>pk. pk \<in> set (as_trusted w)) pks"
  have "apply_delta_step d w = (w\<lparr>as_trusted := fold sdel gone (as_trusted w),
      as_reasons := fold (\<lambda>j. uncredit j direct_trust)
        (map ev_id (filter (\<lambda>e. ev_pubkey e \<in> set gone) (dvalues (as_observedById w)))) (as_reasons w)\<rparr>)"
    unfolding Untrust apply_delta_step_def admission_delta.case Let_def gone_def [symmetric]
      fold_when fold_map_arg [of "\<lambda>i. uncredit_w i direct_trust" ev_id] fold_uncredit_w
    by simp
  then show ?thesis
    by (rule untrust_books [OF synced_books [OF w]]) simp
qed

lemma delta_ok_fromState: "delta_ok (fromState st) d = delta_ok st d"
  by (cases d) (simp_all add: fromState_def)

text \<open>A state of the API: synced, and its table sorted with no empty entries.\<close>

definition admit_inv :: "admit_state \<Rightarrow> bool" where
  "admit_inv st \<longleftrightarrow> synced st \<and> (\<exists>m. tabled m \<and> as_reasons st = sorted_record m)"

lemma admit_inv_init: "admit_inv EMPTY_ADMIT_STATE"
proof -
  have "synced EMPTY_ADMIT_STATE"
    by (simp add: synced_def EMPTY_ADMIT_STATE_def well_keyed_def keyed_def no_root_deletions_def
        admits_simps(1) live_binding_def)
  moreover have "as_reasons EMPTY_ADMIT_STATE = sorted_record []"
    by (simp add: EMPTY_ADMIT_STATE_def sorted_record_def)
  ultimately show ?thesis
    unfolding admit_inv_def using tabled_Nil by blast
qed

lemma applyDelta_inv: "admit_inv st \<Longrightarrow> delta_ok st d \<Longrightarrow> admit_inv (applyDelta st d)"
proof -
  assume "admit_inv st" "delta_ok st d"
  then have b: "books (apply_delta_step d (fromState st))"
    by (intro apply_delta_step_books synced_fromState) (simp_all add: admit_inv_def delta_ok_fromState)
  have s: "synced (resync (apply_delta_step d (fromState st)))"
    by (rule resync_synced [OF b])
  have "as_reasons (applyDelta st d) = sorted_record (as_reasons (resync (apply_delta_step d (fromState st))))"
    by (simp add: applyDelta_def toState_def)
  moreover have "tabled (as_reasons (resync (apply_delta_step d (fromState st))))"
    using s by (simp add: synced_def well_keyed_def)
  ultimately show "admit_inv (applyDelta st d)"
    using synced_toState [OF s] unfolding admit_inv_def applyDelta_def by blast
qed

lemma dedupe_values: "distinct (dkeys d) \<Longrightarrow> keyed d \<Longrightarrow> dedupeById (dvalues d) = d"
proof (induction d rule: rev_induct)
  case Nil
  then show ?case by (simp add: dedupeById_def)
next
  case (snoc x d)
  obtain k e where x: "x = (k, e)" by force
  have d: "distinct (dkeys d)" "dget d k = None"
    using snoc.prems(1) by (auto simp: x map_of_eq_None_iff)
  have kd: "keyed d"
    unfolding keyed_def
  proof (intro allI impI)
    fix j e' assume "dget d j = Some e'"
    then have "dget (d @ [x]) j = Some e'"
      using d(2) by (auto simp: map_add_def x)
    then show "ev_id e' = j"
      using snoc.prems(2) unfolding keyed_def by blast
  qed
  have e: "ev_id e = k"
  proof -
    have "dget (d @ [x]) k = Some e"
      using d(2) by (auto simp: x map_add_def split: option.splits)
    then show ?thesis
      using snoc.prems(2) unfolding keyed_def by blast
  qed
  have "dedupeById (dvalues (d @ [x])) = dset_new (ev_id e) e (dedupeById (dvalues d))"
    by (simp add: dedupeById_def x)
  also have "\<dots> = dset_new k e d"
    using snoc.IH d(1) kd e by simp
  also have "\<dots> = d @ [x]"
    by (simp add: dset_new_def dhas_def d(2) dset_absent x)
  finally show ?case .
qed

lemma admit_inv_oracle:
  assumes "admit_inv st"
  shows "dget (ai_reasons (toIndex st)) =
    dget (ai_reasons (computeAdmission (dvalues (as_observedById st)) (trusts st)))"
proof -
  let ?obs = "as_observedById st"
  have s: "synced st" and wk: "keyed ?obs" "distinct (dkeys ?obs)" "no_root_deletions (dvalues ?obs)"
    using assms by (simp_all add: admit_inv_def synced_def well_keyed_def)
  obtain m where m: "tabled m" "as_reasons st = sorted_record m"
    using assms unfolding admit_inv_def by blast
  have "dget (sorted_record m) = dget (sorted_record (oracle_reasons ?obs (trusts st)))"
  proof (rule sorted_record_cong [OF m(1) tabled_oracle])
    fix i
    have "reason_set m i = held st i"
      using m by simp
    also have "\<dots> = {r. admits ?obs (trusts st) i r}"
      using s unfolding synced_def by blast
    finally show "reason_set m i = reason_set (oracle_reasons ?obs (trusts st)) i"
      by (simp add: reason_oracle [OF wk])
  qed
  then show ?thesis
    by (simp add: toIndex_def m(2) computeAdmission_def dedupe_values [OF wk(2,1)])
qed

section \<open>The index is maintained\<close>

interpretation ag: maintained EMPTY_ADMIT_STATE applyDelta delta_ok admit_inv
    "\<lambda>st. dget (ai_reasons (toIndex st))"
    "\<lambda>st. dget (ai_reasons (computeAdmission (dvalues (as_observedById st)) (trusts st)))"
  by unfold_locales (simp_all add: admit_inv_init applyDelta_inv admit_inv_oracle)

text \<open>
  C26. (AG1) Whatever sequence of deltas is applied to the empty state, the index kept incrementally
  holds, for every event id, exactly the sorted reasons that a full recompute over the observed
  events and the trusted keys finds. The deltas are those \<open>delta_ok\<close> allows: no observed deletion
  is typed as a product or a metadata, and no \<open>unobserve\<close> lists a live binding before its endpoint.
\<close>

theorem applyDelta_maintains_admission:
  "run_ok applyDelta delta_ok EMPTY_ADMIT_STATE ds \<Longrightarrow>
     (let st = foldl applyDelta EMPTY_ADMIT_STATE ds
      in dget (ai_reasons (toIndex st)) =
           dget (ai_reasons (computeAdmission (dvalues (as_observedById st))
             (\<lambda>pk. pk \<in> set (as_trusted st)))))"
  unfolding Let_def by (rule ag.run_answer)

section \<open>Undoing\<close>

lemma resync_fields [simp]:
  "as_observedById (resync w) = as_observedById w" "as_trusted (resync w) = as_trusted w"
proof -
  have b: "as_observedById (resyncBinding ks e u) = as_observedById u \<and> as_trusted (resyncBinding ks e u) = as_trusted u"
    for ks e u
    by (auto simp: resyncBinding_def Let_def activateBinding_def deactivateBinding_def split: option.splits)
  have r: "as_observedById (resyncRootChain ps ks e u) = as_observedById u
      \<and> as_trusted (resyncRootChain ps ks e u) = as_trusted u" for ps ks e u
    unfolding resyncRootChain_def Let_def
    by (intro fold_keeps [where P = "\<lambda>v. as_observedById v = as_observedById u \<and> as_trusted v = as_trusted u"])
      auto
  have "as_observedById (resync w) = as_observedById w \<and> as_trusted (resync w) = as_trusted w"
    unfolding resync_def Let_def
    by (intro fold_keeps [where P = "\<lambda>v. as_observedById v = as_observedById w \<and> as_trusted v = as_trusted w"])
      (auto simp: b r)
  then show "as_observedById (resync w) = as_observedById w" "as_trusted (resync w) = as_trusted w"
    by auto
qed

lemma observe_one_fields:
  "set (dkeys (as_observedById (observe_one e w))) = insert (ev_id e) (set (dkeys (as_observedById w)))"
  "as_trusted (observe_one e w) = as_trusted w"
  by (auto simp: observe_one_def Let_def dhas_def keys_dset simp del: set_map dest: dget_in_keys)

lemma unobserve_one_shrinks:
  "set (dkeys (as_observedById (unobserve_one ps ks i w))) = set (dkeys (as_observedById w)) - {i}"
  "as_trusted (unobserve_one ps ks i w) = as_trusted w"
proof -
  have d: "as_observedById (deactivateBinding b u) = as_observedById u \<and> as_trusted (deactivateBinding b u) = as_trusted u"
    for b u
    by (simp add: deactivateBinding_def split: option.splits)
  have u: "as_observedById (uncascade ps ks j e u) = as_observedById u \<and> as_trusted (uncascade ps ks j e u) = as_trusted u"
    for j e u
    by (simp add: uncascade_def fold_uncredit_w)
  have "i \<notin> set (dkeys (as_observedById w))" if "dget (as_observedById w) i = None"
    using that by (simp add: map_of_eq_None_iff)
  then show "set (dkeys (as_observedById (unobserve_one ps ks i w))) = set (dkeys (as_observedById w)) - {i}"
    "as_trusted (unobserve_one ps ks i w) = as_trusted w"
    by (auto simp: unobserve_one_def Let_def strip_reasons_spec d u keys_ddel simp del: set_map
        split: option.splits)
qed

definition seen :: "admit_state \<Rightarrow> jsstr set" where
  "seen st = set (dkeys (as_observedById st))"

lemma applyDelta_seen:
  "seen (applyDelta st (Observe es)) = seen st \<union> ev_id ` set es"
  "seen (applyDelta st (Unobserve ids)) = seen st - set ids"
  "seen (applyDelta st (Trust pks)) = seen st"
proof -
  have o: "seen (fold observe_one es w) = seen w \<union> ev_id ` set es" for w
    by (induction es arbitrary: w) (auto simp: seen_def observe_one_fields simp del: set_map)
  have u: "seen (fold (unobserve_one ps ks) ids w) = seen w - set ids" for ps ks w
    by (induction ids arbitrary: w) (auto simp: seen_def unobserve_one_shrinks simp del: set_map)
  show "seen (applyDelta st (Observe es)) = seen st \<union> ev_id ` set es"
    using o [of "fromState st"] by (simp add: applyDelta_def apply_delta_step_def toState_def fromState_def seen_def)
  show "seen (applyDelta st (Unobserve ids)) = seen st - set ids"
    using u [of _ _ "fromState st"]
    by (simp add: applyDelta_def apply_delta_step_def toState_def fromState_def seen_def Let_def)
  show "seen (applyDelta st (Trust pks)) = seen st"
    by (simp add: applyDelta_def apply_delta_step_def toState_def fromState_def seen_def Let_def
        fold_when fold_map_arg [of "\<lambda>i. credit_w i direct_trust" ev_id] fold_credit_w)
qed

lemma applyDelta_trusted:
  "set (as_trusted (applyDelta st (Observe es))) = set (as_trusted st)"
  "set (as_trusted (applyDelta st (Unobserve ids))) = set (as_trusted st)"
  "set (as_trusted (applyDelta st (Trust pks))) = set (as_trusted st) \<union> set pks"
  "set (as_trusted (applyDelta st (Untrust pks))) = set (as_trusted st) - set pks"
proof -
  have o: "as_trusted (fold observe_one es w) = as_trusted w" for w
    by (induction es arbitrary: w) (auto simp: observe_one_fields)
  have u: "as_trusted (fold (unobserve_one ps ks) ids w) = as_trusted w" for ps ks w
    by (induction ids arbitrary: w) (auto simp: unobserve_one_shrinks)
  show "set (as_trusted (applyDelta st (Observe es))) = set (as_trusted st)"
    "set (as_trusted (applyDelta st (Unobserve ids))) = set (as_trusted st)"
    by (simp_all add: applyDelta_def apply_delta_step_def toState_def fromState_def Let_def o u)
  show "set (as_trusted (applyDelta st (Trust pks))) = set (as_trusted st) \<union> set pks"
    "set (as_trusted (applyDelta st (Untrust pks))) = set (as_trusted st) - set pks"
    by (auto simp: applyDelta_def apply_delta_step_def toState_def fromState_def Let_def
        fold_when fold_map_arg [of "\<lambda>i. credit_w i direct_trust" ev_id] fold_credit_w
        fold_map_arg [of "\<lambda>i. uncredit_w i direct_trust" ev_id] fold_uncredit_w)
qed

lemma applyDelta_seen_untrust: "seen (applyDelta st (Untrust pks)) = seen st"
  by (simp add: applyDelta_def apply_delta_step_def toState_def fromState_def seen_def Let_def
      fold_when fold_map_arg [of "\<lambda>i. uncredit_w i direct_trust" ev_id] fold_uncredit_w)

fun is_forward :: "admission_delta \<Rightarrow> bool" where
  "is_forward (Observe es) = True"
| "is_forward (Trust pks) = True"
| "is_forward (Unobserve ids) = False"
| "is_forward (Untrust pks) = False"

fun delta_ids :: "admission_delta \<Rightarrow> jsstr set" where
  "delta_ids (Observe es) = ev_id ` set es"
| "delta_ids (Unobserve ids) = set ids"
| "delta_ids _ = {}"

fun delta_keys :: "admission_delta \<Rightarrow> jsstr set" where
  "delta_keys (Trust pks) = set pks"
| "delta_keys (Untrust pks) = set pks"
| "delta_keys _ = {}"

lemmas delta_effects = applyDelta_seen applyDelta_seen_untrust applyDelta_trusted

lemma forward_effect:
  "is_forward d \<Longrightarrow> seen (applyDelta st d) = seen st \<union> delta_ids d
     \<and> set (as_trusted (applyDelta st d)) = set (as_trusted st) \<union> delta_keys d"
  by (cases d) (simp_all add: delta_effects)

lemma inverse_effect:
  "is_forward d \<Longrightarrow> seen (applyDelta st (invertDelta d)) = seen st - delta_ids d
     \<and> set (as_trusted (applyDelta st (invertDelta d))) = set (as_trusted st) - delta_keys d"
  by (cases d) (simp_all add: delta_effects)

lemma undo_effect:
  "list_all is_forward ds \<Longrightarrow>
     seen (foldl applyDelta (foldl applyDelta st ds) (rev (map invertDelta ds))) \<subseteq> seen st
   \<and> set (as_trusted (foldl applyDelta (foldl applyDelta st ds) (rev (map invertDelta ds)))) \<subseteq> set (as_trusted st)"
proof (induction ds arbitrary: st)
  case (Cons d ds)
  then have d: "is_forward d" and ds: "list_all is_forward ds" by simp_all
  note * = Cons.IH [OF ds, of "applyDelta st d"]
  show ?case
    using * by (auto simp: inverse_effect [OF d] forward_effect [OF d])
qed simp

lemma admit_inv_empty:
  assumes "admit_inv st" "seen st = {}" "set (as_trusted st) = {}"
  shows "st = EMPTY_ADMIT_STATE"
proof -
  have o: "as_observedById st = []" "as_trusted st = []"
    using assms(2,3) by (simp_all add: seen_def)
  obtain m where m: "tabled m" "as_reasons st = sorted_record m"
    using assms(1) unfolding admit_inv_def by blast
  have no: "held st i = {}" "dget (as_liveBindings st) b = None" for i b
    using assms(1) unfolding admit_inv_def synced_def o by (auto simp: admits_simps(1) live_binding_def)
  have "s = []" if "(i, s) \<in> set m" for i s
  proof -
    have "dget m i = Some s"
      using that m(1) by (simp add: tabled_def)
    moreover have "reason_set m i = {}"
      using no(1) [of i] m by simp
    ultimately show ?thesis by (simp add: reasons_of_def)
  qed
  then have "as_reasons st = []"
    by (auto simp: m(2) sorted_record_def filter_empty_conv)
  moreover have "as_liveBindings st = []"
    using no(2) [of "fst (hd (as_liveBindings st))"] by (cases "as_liveBindings st") auto
  ultimately show ?thesis
    using o by (simp add: EMPTY_ADMIT_STATE_def)
qed

text \<open>
  C38. (AG2) A sequence of \<open>observe\<close> and \<open>trust\<close> deltas, undone by their inverses in reverse order,
  leads back to exactly the empty state, repeats of an event or a key included, when every delta of the whole
  sequence, the undoing ones included, is one the bookkeeping is exact for: no observed deletion is also typed as
  a root, and no removal lists a live binding before one of its own endpoints.
\<close>

theorem undo_restores_empty:
  "list_all is_forward ds \<Longrightarrow>
     run_ok applyDelta delta_ok EMPTY_ADMIT_STATE (ds @ rev (map invertDelta ds)) \<Longrightarrow>
     foldl applyDelta EMPTY_ADMIT_STATE (ds @ rev (map invertDelta ds)) = EMPTY_ADMIT_STATE"
proof -
  assume f: "list_all is_forward ds"
    and ok: "run_ok applyDelta delta_ok EMPTY_ADMIT_STATE (ds @ rev (map invertDelta ds))"
  let ?st = "foldl applyDelta EMPTY_ADMIT_STATE (ds @ rev (map invertDelta ds))"
  have "admit_inv ?st"
    by (rule ag.run_inv [OF ok])
  moreover have "seen ?st \<subseteq> {}" "set (as_trusted ?st) \<subseteq> {}"
    using undo_effect [OF f, of EMPTY_ADMIT_STATE] by (simp_all add: seen_def EMPTY_ADMIT_STATE_def)
  ultimately show "?st = EMPTY_ADMIT_STATE"
    by (intro admit_inv_empty) auto
qed

section \<open>The oracle\<close>

lemma isAdmitted_oracle:
  "isAdmitted (computeAdmission es T) i \<longleftrightarrow> reason_set (oracle_reasons (dedupeById es) T) i \<noteq> {}"
  by (simp add: isAdmitted_def computeAdmission_def dget_sorted_record tabled_oracle)

lemma dedupe_no_root_deletions:
  "no_root_deletions es \<Longrightarrow> no_root_deletions (dvalues (dedupeById es))"
  using dedupeById_subset [of es] by (auto simp: no_root_deletions_def list_all_iff)

lemma keyed_dedupe: "keyed (dedupeById es)"
  by (rule dedupe_observed(1))

text \<open>
  C36. (TR-2 to TR-5, DEL-5) When no event is both a deletion (kind 5) and typed as a product or a metadata, the reasons
  the recompute records for an id are exactly those of the rules:
  direct trust in the author of an observed event; a binding that is observed, by a trusted author,
  well typed as far as its endpoints are observed and not deleted by its author, for its two
  endpoints; and, for the patches of a root's author on that root and the deletions by the same
  author of the root or of those patches, the root, when its own author is trusted or a live
  binding names it. They are listed once each, in order, and an id without reasons has no entry.
\<close>

theorem computeAdmission_reasons:
  assumes "no_root_deletions es"
  shows "(case dget (ai_reasons (computeAdmission es T)) i of
            None \<Rightarrow> {r. admits (dedupeById es) T i r} = {}
          | Some rs \<Rightarrow> rs \<noteq> [] \<and> set rs = {r. admits (dedupeById es) T i r} \<and> distinct rs \<and> sorted rs)"
proof -
  let ?m = "oracle_reasons (dedupeById es) T"
  have "reason_set ?m i = {r. admits (dedupeById es) T i r}"
    by (rule reason_oracle [OF keyed_dedupe keys_dedupeById dedupe_no_root_deletions [OF assms]])
  then show ?thesis
    using tabled_oracle [of "dedupeById es" T]
    by (auto simp: computeAdmission_def dget_sorted_record tabled_def sort_Nil_iff)
qed

lemma oracle_sub:
  "reason_set (oracle_reasons byId T) i \<subseteq>
     {r. r = direct_trust \<and> (\<exists>e \<in> set (dvalues byId). ev_id e = i \<and> T (ev_pubkey e))}
     \<union> {bindingReason (ev_id b) |b ep. b \<in> set (dvalues byId) \<and> bindingEndpoints b = Some ep
          \<and> bindingEndpointsWellTyped ep byId \<and> endpoint ep i}
     \<union> {rootChainReason (ev_id r) |r. r \<in> set (dvalues byId) \<and> isRoot r \<and> i \<in> set (root_chain byId r)}"
  and oracle_direct: "e \<in> set (dvalues byId) \<Longrightarrow> T (ev_pubkey e) \<Longrightarrow>
     direct_trust \<in> reason_set (oracle_reasons byId T) (ev_id e)"
proof -
  let ?all = "dvalues byId" let ?ks = "kind5_events ?all"
  let ?direct = "fold (credit_direct T) ?all []"
  let ?bound = "fold (credit_binding byId ?ks) (events_typed Binding ?all) ?direct"
  have direct: "reason_set ?direct j = {r. r = direct_trust \<and> (\<exists>e \<in> set ?all. ev_id e = j \<and> T (ev_pubkey e))}" for j
    by (auto simp: reason_direct)
  have b: "reason_set m j \<subseteq> reason_set (fold (credit_binding byId ks) bs m) j
      \<and> reason_set (fold (credit_binding byId ks) bs m) j \<subseteq> reason_set m j \<union>
      {bindingReason (ev_id b) |b ep. b \<in> set bs \<and> creditable byId ks b ep \<and> endpoint ep j}" for ks bs m j
  proof (induction bs arbitrary: m)
    case (Cons b bs)
    have "reason_set (credit_binding byId ks b m) j \<subseteq> reason_set m j \<union>
        {x. x = bindingReason (ev_id b) \<and> (\<exists>ep. creditable byId ks b ep \<and> endpoint ep j)}"
      "reason_set m j \<subseteq> reason_set (credit_binding byId ks b m) j"
      by (auto simp: reason_bound_one)
    with Cons.IH [of "credit_binding byId ks b m"] show ?case
      unfolding fold.simps o_apply set_simps by blast
  qed simp
  have c: "reason_set m j \<subseteq> reason_set (fold (credit_root_chain ps ks) rs m) j
      \<and> reason_set (fold (credit_root_chain ps ks) rs m) j \<subseteq> reason_set m j \<union>
      {rootChainReason (ev_id r) |r. r \<in> set rs \<and> j \<in> set (rootChainMembers r ps ks)}" for ps ks rs m j
  proof (induction rs arbitrary: m)
    case (Cons r rs)
    have "reason_set (credit_root_chain ps ks r m) j \<subseteq> reason_set m j \<union>
        {x. x = rootChainReason (ev_id r) \<and> j \<in> set (rootChainMembers r ps ks)}"
      "reason_set m j \<subseteq> reason_set (credit_root_chain ps ks r m) j"
      by (auto simp: credit_root_chain_def reason_simps)
    with Cons.IH [of "credit_root_chain ps ks r m"] show ?case
      unfolding fold.simps o_apply set_simps by blast
  qed simp
  note bb = b [of ?direct _ ?ks "events_typed Binding ?all"]
  note cc = c [of ?bound _ "events_typed Patch ?all" ?ks "filter isRoot ?all"]
  show "reason_set (oracle_reasons byId T) i \<subseteq>
     {r. r = direct_trust \<and> (\<exists>e \<in> set ?all. ev_id e = i \<and> T (ev_pubkey e))}
     \<union> {bindingReason (ev_id b) |b ep. b \<in> set ?all \<and> bindingEndpoints b = Some ep
          \<and> bindingEndpointsWellTyped ep byId \<and> endpoint ep i}
     \<union> {rootChainReason (ev_id r) |r. r \<in> set ?all \<and> isRoot r \<and> i \<in> set (root_chain byId r)}"
    using bb [of i] cc [of i] unfolding oracle_reasons_def Let_def direct root_chain_def creditable_def
      set_filter set_events_typed by blast
  show "direct_trust \<in> reason_set (oracle_reasons byId T) (ev_id e)"
    if "e \<in> set ?all" "T (ev_pubkey e)"
    using that bb [of "ev_id e"] cc [of "ev_id e"] unfolding oracle_reasons_def Let_def direct by blast
qed

lemma overlay_of_fields:
  "ov_id (overlay_of dp byId m tip k e) = ev_id e" "ov_author (overlay_of dp byId m tip k e) = ev_pubkey e"
  by (simp_all add: overlay_of_def split: prod.splits)

lemma in_concat_map:
  "x \<in> set (concat (map (\<lambda>(k, bk). map (g k) bk) xs)) \<Longrightarrow>
     \<exists>k bk e. (k, bk) \<in> set xs \<and> e \<in> set bk \<and> x = g k e"
  by auto

lemma overlay_origin:
  assumes "o' \<in> set (re_overlays (resolve parse options R es))"
  obtains e root where "e \<in> set (root_patches R (dedupeById es))" "dget (dedupeById es) R = Some root"
    "ev_pubkey e \<noteq> ev_pubkey root" "ov_id o' = ev_id e" "ov_author o' = ev_pubkey e"
proof -
  let ?byId = "dedupeById es"
  obtain root where root: "dget ?byId R = Some root"
    "scrutinyEventType root = Some Product \<or> scrutinyEventType root = Some Metadata"
    using assms by (auto simp: resolve_def Let_def split: option.splits if_splits)
  have res: "resolve parse options R es = resolve_root parse options ?byId R root"
    using root by (auto simp: resolve_def Let_def)
  let ?deleted = "honouredDeletions (deletion_events ?byId) ?byId"
  let ?by = "overlays_by_target (filter (\<lambda>p. ev_pubkey p \<noteq> ev_pubkey root) (root_patches R ?byId)) ?deleted"
  have "\<exists>k bk e. (k, bk) \<in> set ?by \<and> e \<in> set bk \<and> ov_id o' = ev_id e \<and> ov_author o' = ev_pubkey e"
  proof -
    have "\<exists>dp m tip. re_overlays (resolve_root parse options ?byId R root) = sort_key (\<lambda>o'. (ov_targetId o', ov_id o'))
        (concat (map (\<lambda>(k, bk). map (overlay_of dp ?byId m tip k) bk) ?by))"
      unfolding resolve_root_def Let_def case_prod_beta resolution.select_convs by (rule exI, rule exI, rule exI, rule refl)
    then obtain dp m tip where ov: "re_overlays (resolve_root parse options ?byId R root) = sort_key (\<lambda>o'. (ov_targetId o', ov_id o'))
        (concat (map (\<lambda>(k, bk). map (overlay_of dp ?byId m tip k) bk) ?by))"
      by (elim exE)
    have "o' \<in> set (concat (map (\<lambda>(k, bk). map (overlay_of dp ?byId m tip k) bk) ?by))"
      using assms unfolding res ov set_sort .
    then obtain k bk e where "(k, bk) \<in> set ?by" "e \<in> set bk" "o' = overlay_of dp ?byId m tip k e"
      using in_concat_map [of o' "overlay_of dp ?byId m tip" ?by] by metis
    then show ?thesis
      using overlay_of_fields by metis
  qed
  then obtain k bk e where e: "(k, bk) \<in> set ?by" "e \<in> set bk" "ov_id o' = ev_id e" "ov_author o' = ev_pubkey e"
    by blast
  have "e \<in> set (root_patches R ?byId)" "ev_pubkey e \<noteq> ev_pubkey root"
    using e(1,2) by (auto simp: overlays_by_target_def buckets_entries)
  then show thesis
    using that root(1) e(3,4) by blast
qed

lemma overlay_admitted:
  assumes o': "o' \<in> set (re_overlays (resolve parse options R es'))"
    and sub: "dget (dedupeById es') \<subseteq>\<^sub>m dget (dedupeById es)"
  shows "isAdmitted (computeAdmission es T) (ov_id o') \<longleftrightarrow> T (ov_author o')"
proof -
  obtain e root where e': "e \<in> set (root_patches R (dedupeById es'))" "dget (dedupeById es') R = Some root"
    "ev_pubkey e \<noteq> ev_pubkey root" "ov_id o' = ev_id e" "ov_author o' = ev_pubkey e"
    using o' by (rule overlay_origin)
  have p': "dget (dedupeById es') (ev_id e) = Some e" "ev_kind e \<noteq> DELETION_KIND"
    "scrutinyEventType e = Some Patch" "rootTarget e = Some R"
    using e'(1) keyed_values [OF keyed_dedupe keys_dedupeById] by (auto simp: root_patches_def simp del: set_map)
  have at: "dget (dedupeById es') i = Some x \<Longrightarrow> dget (dedupeById es) i = Some x" for i x
    using sub unfolding map_le_def by (metis domI)
  have "e \<in> set (root_patches R (dedupeById es))" "dget (dedupeById es) R = Some root"
    using at [OF p'(1)] at [OF e'(2)] p'(2-4) keyed_values [OF keyed_dedupe keys_dedupeById]
    by (auto simp: root_patches_def simp del: set_map)
  note e = this e'(3-5)
  let ?all = "dvalues (dedupeById es)"
  have p: "e \<in> set ?all" "ev_kind e \<noteq> DELETION_KIND" "scrutinyEventType e = Some Patch" "rootTarget e = Some R"
    using e(1) by (auto simp: root_patches_def)
  note byId = keyed_values [OF keyed_dedupe keys_dedupeById]
  have uniq: "e' = e" if "e' \<in> set ?all" "ev_id e' = ev_id e" for e'
    using that p(1) unfolding byId by simp
  have "r = direct_trust \<and> T (ev_pubkey e)"
    if r: "r \<in> reason_set (oracle_reasons (dedupeById es) T) (ev_id e)" for r
  proof -
    have "\<not> endpoint ep (ev_id e)" if "bindingEndpointsWellTyped ep (dedupeById es)" for ep
      using that p(1,3) unfolding byId by (auto simp: endpoint_def bindingEndpointsWellTyped_def)
    moreover have "ev_id e \<notin> set (root_chain (dedupeById es) r')" if r': "r' \<in> set ?all" for r'
    proof
      assume "ev_id e \<in> set (root_chain (dedupeById es) r')"
      then obtain p' where "p' \<in> set ?all" "ev_id p' = ev_id e" "ev_pubkey p' = ev_pubkey r'"
        "scrutinyEventType p' = Some Patch \<and> rootTarget p' = Some (ev_id r') \<or> ev_kind p' = DELETION_KIND"
        unfolding root_chain_def root_chain_member set_events_typed set_kind5_events by blast
      moreover from this have "p' = e" by (intro uniq)
      ultimately have *: "ev_pubkey e = ev_pubkey r'" "R = ev_id r'" using p by simp_all
      with r' e(2) have "r' = root" unfolding byId by simp
      with * e(3) show False by simp
    qed
    ultimately show ?thesis
      using subsetD [OF oracle_sub r] uniq by blast
  qed
  then have "isAdmitted (computeAdmission es T) (ev_id e) \<longleftrightarrow> T (ev_pubkey e)"
    unfolding isAdmitted_oracle using oracle_direct [OF p(1), of T] by fastforce
  then show ?thesis
    by (simp add: e)
qed

text \<open>
  (OV-7) A foreign overlay that resolution reports is admitted exactly when its own author is
  trusted: neither a binding nor the root's admission can ever admit it. So filtering the overlays by the
  trusted view shows exactly the overlays of trusted authors.
\<close>

theorem visible_overlays_trusted:
  "visibleOverlays (re_overlays (resolve parse options R es)) (trustedView (computeAdmission es T))
     = filter (\<lambda>o'. T (ov_author o')) (re_overlays (resolve parse options R es))"
  unfolding visibleOverlays_def trustedView_def
  by (rule filter_cong [OF refl]) (rule overlay_admitted [OF _ map_le_refl])

lemma computeAdmission_set:
  assumes "id_consistent (set es)" "set es = set es'" "no_root_deletions es"
  shows "dget (ai_reasons (computeAdmission es T)) = dget (ai_reasons (computeAdmission es' T))"
proof -
  let ?d = "dedupeById es" and ?d' = "dedupeById es'"
  have n': "no_root_deletions es'"
    using assms(2,3) by (simp add: no_root_deletions_def list_all_iff)
  have dg: "dget ?d = dget ?d'"
    by (rule dedupe_perm(2) [OF assms(1,2)])
  have sv: "set (dvalues ?d) = set (dvalues ?d')"
    using dedupe_perm(1) [OF assms(1,2)] by (rule mset_eq_setD)
  have live: "live_binding ?d T = live_binding ?d' T"
    by (intro ext) (simp only: live_binding_def sv bindingEndpointsWellTyped_def dg honoured_iff set_kind5_events)
  have members: "set (root_chain ?d r) = set (root_chain ?d' r)" for r
    unfolding root_chain_def by (rule root_chain_sets) (simp_all only: set_events_typed set_kind5_events sv)
  have "admits ?d T i x \<longleftrightarrow> admits ?d' T i x" for i x
    unfolding admits_simps(1) vouched_def live members sv [unfolded set_map] ..
  then have "{r. admits ?d T i r} = {r. admits ?d' T i r}" for i
    by simp
  then have "reason_set (oracle_reasons ?d T) i = reason_set (oracle_reasons ?d' T) i" for i
    by (simp add: reason_oracle keyed_dedupe dedupe_no_root_deletions assms(3) n')
  then show ?thesis
    unfolding computeAdmission_def admission_index.select_convs
    by (intro sorted_record_cong tabled_oracle)
qed

text \<open>
  Admission is confluent: it depends on the set of observed events, not on their order or on
  redeliveries, as long as ids are content hashes and no deletion is typed as a root.
\<close>

theorem computeAdmission_confluent:
  assumes "id_consistent (set es)" "set es = set es'" "no_root_deletions es"
  shows "dget (ai_reasons (computeAdmission es T)) = dget (ai_reasons (computeAdmission es' T))"
  using assms by (rule computeAdmission_set)

section \<open>Concrete inputs\<close>

text \<open>A product by an untrusted author, a binding by a trusted one that names it, a patch on it.\<close>

definition sample_binding :: nostr_event where
  "sample_binding = sample_event ''b'' ''B'' Binding [e_ref ''r'' ''root'', e_ref ''m'' ''link'']"

definition sample_deltas :: "admission_delta list" where
  "sample_deltas = [Trust [js ''B''], Observe [sample_root, sample_patch ''p'' ''A'' ''r'', sample_binding]]"

lemmas admit_eval = sample_simps sample_root_def sample_patch_def sample_binding_def sample_deltas_def

lemma applyDelta_maintains_admission_witness:
  "let st = foldl applyDelta EMPTY_ADMIT_STATE sample_deltas
   in dget (ai_reasons (toIndex st)) =
        dget (ai_reasons (computeAdmission (dvalues (as_observedById st))
          (\<lambda>pk. pk \<in> set (as_trusted st))))"
  by (rule applyDelta_maintains_admission) code_simp

lemma undo_restores_empty_witness:
  "foldl applyDelta EMPTY_ADMIT_STATE (sample_deltas @ rev (map invertDelta sample_deltas)) = EMPTY_ADMIT_STATE"
  by (rule undo_restores_empty) code_simp+

lemma computeAdmission_reasons_witness:
  "case dget (ai_reasons (computeAdmission [sample_root] (\<lambda>_. True))) (js ''r'') of
            None \<Rightarrow> {r. admits (dedupeById [sample_root]) (\<lambda>_. True) (js ''r'') r} = {}
          | Some rs \<Rightarrow> rs \<noteq> [] \<and> set rs = {r. admits (dedupeById [sample_root]) (\<lambda>_. True) (js ''r'') r}
              \<and> distinct rs \<and> sorted rs"
  by (rule computeAdmission_reasons) code_simp

lemma computeAdmission_confluent_witness:
  "dget (ai_reasons (computeAdmission [sample_root, sample_binding] (\<lambda>_. True))) =
   dget (ai_reasons (computeAdmission [sample_binding, sample_root, sample_binding] (\<lambda>_. True)))"
  by (rule computeAdmission_confluent)
    (simp add: id_consistent_def sample_root_def sample_binding_def sample_event_def, force, code_simp)

text \<open>
  The order \<open>delta_ok\<close> asks for matters: removing the binding before the product it names leaves
  the patch with a root-chain reason of a product that is gone.
\<close>

lemma unobserve_strands_credit:
  "let st = foldl applyDelta EMPTY_ADMIT_STATE (sample_deltas @ [Unobserve [js ''b'', js ''r'']])
   in isAdmitted (toIndex st) (js ''p'')
      \<and> \<not> isAdmitted (computeAdmission (dvalues (as_observedById st)) (\<lambda>pk. pk \<in> set (as_trusted st))) (js ''p'')"
  by code_simp

text \<open>A deletion of the product that is typed as a product itself, and a patch on the deletion.\<close>

definition root_deletion :: nostr_event where
  "root_deletion = (sample_event ''d'' ''A'' Product [e_ref ''r'' ''''])\<lparr>ev_kind := DELETION_KIND\<rparr>"

definition deletion_patch :: nostr_event where
  "deletion_patch = sample_event ''q'' ''A'' Patch [e_ref ''d'' ''root'']"

text \<open>
  So does the type of a deletion: one typed as a product is a member of a root chain and a root
  itself, and whether its own chain is admitted depends on the order of arrival.
\<close>

lemma root_deletion_order:
  "isAdmitted (computeAdmission [sample_binding, sample_root, root_deletion, deletion_patch] (\<lambda>pk. pk = js ''B'')) (js ''q'')
   \<and> \<not> isAdmitted (computeAdmission [sample_binding, root_deletion, sample_root, deletion_patch] (\<lambda>pk. pk = js ''B'')) (js ''q'')"
  by code_simp

end
