(* ===== verification/Validate.thy ===== *)
theory Validate
  imports Fences Events
begin

text \<open>
  The upper half of \<open>packages/core/src/validate.ts\<close>: the Validity verdict of one event. The checks
  only push onto \<open>issues\<close> and \<open>awaiting\<close>, so each returns what it pushes. \<open>lookup\<close> is
  \<open>options.lookupEvent\<close>; an absent option is the function that knows no event. Content is a string
  by type, so the guard of PR-1 and MD-1 on a non-string content has no counterpart.
\<close>

definition MAX_INDEXER_TAGS :: nat where
  "MAX_INDEXER_TAGS = 64"

type_synonym lookup = "jsstr \<Rightarrow> nostr_event option"

datatype validity =
    NotScrutiny
  | Valid sc_type "issue list"
  | Invalid "issue list"
  | Pending sc_type "jsstr list" "issue list"

section \<open>The checks\<close>

definition TYPE_TAG_SET :: "jsstr list" where
  "TYPE_TAG_SET = map EVENT_TYPE_TAGS [Product, Metadata, Binding, Patch]"

definition checkTags :: "nostr_event \<Rightarrow> issue list" where
  "checkTags event =
     (let ts = tTags event; versions = versionTags event;
          typeTags = filter (\<lambda>t. t \<in> set TYPE_TAG_SET) ts
      in (if length (filter (\<lambda>t. t = FABRIC_TAG) ts) \<noteq> 1 then [cite (R_TAG 1) Sev_error] else [])
         @ (if length versions \<noteq> 1 then [cite (R_TAG 2) Sev_error] else [])
         @ (if length typeTags \<noteq> 1 then [cite (R_TAG 3) Sev_error] else [])
         @ (if filter (\<lambda>t. starts_with t (js ''scrutiny_'')) ts \<noteq> []
            then [cite (R_TAG 4) Sev_warning] else [])
         @ (case versions of
              [single] \<Rightarrow>
                if typeTags = [] \<and> 0 < compareVersionTags single VERSION_TAG
                then [cite (R_VER 3) Sev_error] else []
            | _ \<Rightarrow> []))"

record root_rules =
  rr_i :: rule_id
  rr_k :: rule_id
  rr_set :: rule_id

text \<open>\<open>ROOT_RULES\<close>; the code passes only the two root types.\<close>

definition ROOT_RULES :: "sc_type \<Rightarrow> root_rules" where
  "ROOT_RULES type =
     (if type = Product then \<lparr>rr_i = R_PR 2, rr_k = R_PR 3, rr_set = R_PR 4\<rparr>
      else \<lparr>rr_i = R_MD 2, rr_k = R_MD 3, rr_set = R_MD 4\<rparr>)"

definition checkIndexer :: "jsstr \<Rightarrow> issue list" where
  "checkIndexer raw =
     (case index_of colon raw of
        None \<Rightarrow> [cite (R_IR 1) Sev_error]
      | Some n \<Rightarrow>
          if n = 0 then [cite (R_IR 1) Sev_error]
          else if \<not> INDEXER_PREFIX_PATTERN (take n raw) then [cite (R_IR 1) Sev_error]
          else [])"

definition checkIndexers :: "nostr_event \<Rightarrow> issue list" where
  "checkIndexers event = concat (map checkIndexer (tagValues event (js ''i'')))"

definition checkRootEvent :: "nostr_event \<Rightarrow> sc_type \<Rightarrow> issue list" where
  "checkRootEvent event type =
     (let rules = ROOT_RULES type;
          declared = indexerKinds event;
          missing = filter (\<lambda>p. p \<notin> set declared) (derivedIndexerKinds event)
      in checkIndexers event
         @ (if MAX_INDEXER_TAGS < length (tagValues event (js ''i''))
            then [cite (rr_i rules) Sev_warning] else [])
         @ (if MAX_INDEXER_TAGS < length (tagValues event (js ''k''))
            then [cite (rr_k rules) Sev_warning] else [])
         @ (if missing \<noteq> [] then [cite (rr_set rules) Sev_warning] else []))"

text \<open>One endpoint of a Binding: the issues it raises and the id it awaits.\<close>

definition checkEndpoint ::
    "lookup \<Rightarrow> e_tag_ref \<Rightarrow> sc_type \<Rightarrow> rule_id \<Rightarrow> issue list \<times> jsstr list" where
  "checkEndpoint lookup ref required rule =
     (case lookup (er_id ref) of
        None \<Rightarrow> ([], [er_id ref])
      | Some observed \<Rightarrow>
          ((if scrutinyEventType observed \<noteq> Some required
            then [cite rule Sev_error, cite (R_BD 5) Sev_error, cite (R_BD 7) Sev_warning] else [])
           @ (case er_authorHint ref of
                None \<Rightarrow> []
              | Some hint \<Rightarrow>
                  if hint \<noteq> ev_pubkey observed then [cite (R_BD 12) Sev_warning] else []), []))"

definition checkBinding :: "lookup \<Rightarrow> nostr_event \<Rightarrow> issue list \<times> jsstr list" where
  "checkBinding lookup event =
     (let roots = eTagsWithMarker event (js ''root''); links = eTagsWithMarker event (js ''link'');
          issues =
            (if roots = [] then [cite (R_BD 1) Sev_error] else [])
            @ (if links = [] then [cite (R_BD 2) Sev_error] else [])
            @ (if 1 < length roots \<or> 1 < length links then [cite (R_BD 10) Sev_error] else [])
      in case (roots, links) of
           ([root], [link]) \<Rightarrow>
             let (rootIssues, rootAwaiting) = checkEndpoint lookup root Product (R_BD 3);
                 (linkIssues, linkAwaiting) = checkEndpoint lookup link Metadata (R_BD 4);
                 awaiting = rootAwaiting @ linkAwaiting
             in (issues @ rootIssues @ linkIssues
                   @ (if awaiting \<noteq> [] then [cite (R_BD 6) Sev_warning] else []), awaiting)
         | _ \<Rightarrow> (issues, []))"

text \<open>What \<open>checkPatch\<close> does once both references are single and the root is observed.\<close>

definition checkPatchLineage ::
    "lookup \<Rightarrow> nostr_event \<Rightarrow> jsstr \<Rightarrow> nostr_event \<Rightarrow> jsstr \<Rightarrow> issue list \<times> jsstr list" where
  "checkPatchLineage lookup event root rootEvent reply =
     (if ev_pubkey event = ev_pubkey rootEvent then ([], [])
      else if reply = root then ([], [])
      else (case lookup reply of
              None \<Rightarrow> ([], [reply])
            | Some target \<Rightarrow>
                if scrutinyEventType target = Some Patch \<and> ev_pubkey target = ev_pubkey rootEvent
                then ([], []) else ([cite (R_PT 7) Sev_error], [])))"

definition checkPatch :: "lookup \<Rightarrow> nostr_event \<Rightarrow> issue list \<times> jsstr list" where
  "checkPatch lookup event =
     (let roots = eTagsWithMarker event (js ''root'');
          replies = eTagsWithMarker event (js ''reply'');
          issues =
            (if length roots \<noteq> 1 then [cite (R_PT 1) Sev_error] else [])
            @ (if length replies \<noteq> 1 then [cite (R_PT 2) Sev_error] else [])
            @ checkPatchPayload (ev_content event)
      in case (roots, replies) of
           ([root], [reply]) \<Rightarrow>
             (case lookup (er_id root) of
                None \<Rightarrow> (issues, [er_id root])
              | Some rootEvent \<Rightarrow>
                  let rootType = scrutinyEventType rootEvent;
                      typing = (if rootType \<noteq> Some Product \<and> rootType \<noteq> Some Metadata
                                then [cite (R_PT 10) Sev_error, cite (R_PT 11) Sev_error] else []);
                      (lineage, awaiting) =
                        checkPatchLineage lookup event (er_id root) rootEvent (er_id reply)
                  in (issues @ typing @ lineage, awaiting))
         | _ \<Rightarrow> (issues, []))"

section \<open>The verdict\<close>

definition validateEvent :: "lookup \<Rightarrow> nostr_event \<Rightarrow> validity" where
  "validateEvent lookup event =
     (if \<not> isScrutinyEvent event then NotScrutiny
      else
        let tagIssues = checkTags event in
        case scrutinyEventType event of
          None \<Rightarrow> Invalid tagIssues
        | Some type \<Rightarrow>
            let (typeIssues, awaiting) =
                  (case type of
                     Product \<Rightarrow> (checkRootEvent event Product, [])
                   | Metadata \<Rightarrow> (checkRootEvent event Metadata, [])
                   | Binding \<Rightarrow> checkBinding lookup event
                   | Patch \<Rightarrow> checkPatch lookup event);
                issues = tagIssues @ typeIssues
            in if hasError issues then Invalid issues
               else if awaiting \<noteq> [] then Pending type awaiting issues
               else Valid type issues)"

section \<open>Which rules a verdict cites\<close>

definition sound_issue :: "issue \<Rightarrow> bool" where
  "sound_issue i \<longleftrightarrow> i = cite (is_code i) (is_severity i) \<and> citable (is_code i)
     \<and> (is_severity i = Sev_error \<longrightarrow> layer_of (is_code i) = Some Layer_V)"

lemma sound_cite [simp]:
  "sound_issue (cite c s) \<longleftrightarrow> citable c \<and> (s = Sev_error \<longrightarrow> layer_of c = Some Layer_V)"
  by (auto simp: sound_issue_def)

definition validity_errors :: "rule_id list" where
  "validity_errors =
     [R_TAG 1, R_TAG 2, R_TAG 3, R_VER 3, R_IR 1, R_BD 1, R_BD 2, R_BD 3, R_BD 4, R_BD 5, R_BD 10,
      R_PT 1, R_PT 2, R_PT 7, R_PT 10, R_PT 11, R_C 1, R_P 2]"

definition validity_warnings :: "rule_id list" where
  "validity_warnings =
     [R_TAG 4, R_PR 2, R_PR 3, R_PR 4, R_MD 2, R_MD 3, R_MD 4, R_BD 6, R_BD 7, R_BD 12, R_PT 3,
      R_E 1, R_E 3, R_E 6, R_P 3]"

lemma validity_errors_sound: "\<forall>c \<in> set validity_errors. citable c \<and> layer_of c = Some Layer_V"
  by (simp add: validity_errors_def registry_simps)

lemma validity_warnings_sound: "\<forall>c \<in> set validity_warnings. citable c"
  by (simp add: validity_warnings_def registry_simps)

lemmas sound_rules [simp] =
  validity_errors_sound [unfolded validity_errors_def, simplified]
  validity_warnings_sound [unfolded validity_warnings_def, simplified]

lemma ROOT_RULES_citable [simp]:
  "citable (rr_i (ROOT_RULES t))" "citable (rr_k (ROOT_RULES t))" "citable (rr_set (ROOT_RULES t))"
  by (simp_all add: ROOT_RULES_def)

lemma sound_checkTags: "list_all sound_issue (checkTags e)"
  by (auto simp: checkTags_def Let_def split: list.splits)

lemma sound_checkRootEvent: "list_all sound_issue (checkRootEvent e t)"
  by (auto simp: checkRootEvent_def checkIndexers_def checkIndexer_def Let_def list_all_iff
      split: option.splits if_splits)

lemma sound_checkEndpoint:
  "citable rule \<Longrightarrow> layer_of rule = Some Layer_V \<Longrightarrow>
     list_all sound_issue (fst (checkEndpoint l r t rule))"
  by (auto simp: checkEndpoint_def split: option.splits)

lemma sound_checkBinding: "list_all sound_issue (fst (checkBinding l e))"
  using sound_checkEndpoint [of "R_BD 3"] sound_checkEndpoint [of "R_BD 4"]
  by (auto simp: checkBinding_def Let_def split: list.splits prod.split) (metis fst_conv)+

lemma sound_checkPayloadGrammar: "list_all sound_issue (checkPayloadGrammar p)"
  by (auto simp: checkPayloadGrammar_def checkHeaderPath_def Let_def list_all_iff split: option.splits)

lemma sound_checkPatchPayload: "list_all sound_issue (checkPatchPayload c)"
  by (auto simp: checkPatchPayload_def Let_def sound_checkPayloadGrammar split: list.splits)

lemma sound_checkPatch: "list_all sound_issue (fst (checkPatch l e))"
  by (auto simp: checkPatch_def checkPatchLineage_def Let_def sound_checkPatchPayload
      split: list.splits option.splits)

definition verdict_issues :: "validity \<Rightarrow> issue list" where
  "verdict_issues v =
     (case v of NotScrutiny \<Rightarrow> [] | Valid _ is \<Rightarrow> is | Invalid is \<Rightarrow> is | Pending _ _ is \<Rightarrow> is)"

definition type_checks :: "lookup \<Rightarrow> nostr_event \<Rightarrow> sc_type \<Rightarrow> issue list \<times> jsstr list" where
  "type_checks lookup event type =
     (case type of
        Product \<Rightarrow> (checkRootEvent event Product, [])
      | Metadata \<Rightarrow> (checkRootEvent event Metadata, [])
      | Binding \<Rightarrow> checkBinding lookup event
      | Patch \<Rightarrow> checkPatch lookup event)"

lemma validateEvent_cases:
  "validateEvent l e =
     (if \<not> isScrutinyEvent e then NotScrutiny
      else (case scrutinyEventType e of
          None \<Rightarrow> Invalid (checkTags e)
        | Some ty \<Rightarrow>
            let is = checkTags e @ fst (type_checks l e ty); aw = snd (type_checks l e ty) in
            if hasError is then Invalid is else if aw \<noteq> [] then Pending ty aw is else Valid ty is))"
  unfolding validateEvent_def type_checks_def
  by (simp add: Let_def split: option.split sc_type.split prod.split)

lemma sound_type_checks: "list_all sound_issue (fst (type_checks l e ty))"
  by (simp add: type_checks_def sound_checkRootEvent sound_checkBinding sound_checkPatch
      split: sc_type.split)

text \<open>
  A verdict cites only rules of the registry, each with its own layer and section, and whatever
  it reports as an error is a Validity rule: no Application or Discovery rule ever rejects an event.
  A valid verdict carries no error at all.
\<close>

theorem verdict_cites_validity:
  "list_all (\<lambda>i. citable (is_code i) \<and> issue (is_code i) (is_severity i) = Inr i
       \<and> (is_severity i = Sev_warning \<or> is_layer i = Some Layer_V)) (verdict_issues (validateEvent l e))
   \<and> (case validateEvent l e of Valid _ is \<Rightarrow> \<not> hasError is | Pending _ _ is \<Rightarrow> \<not> hasError is
      | _ \<Rightarrow> True)"
proof -
  have "list_all sound_issue (verdict_issues (validateEvent l e))"
    using sound_checkTags [of e] sound_type_checks [of l e]
    by (auto simp: validateEvent_cases verdict_issues_def Let_def split: option.split)
  moreover have "citable (is_code i) \<and> issue (is_code i) (is_severity i) = Inr i
      \<and> (is_severity i = Sev_warning \<or> is_layer i = Some Layer_V)" if "sound_issue i" for i
    using that unfolding sound_issue_def
    by (cases "is_severity i") (metis cite_layer issue_cite, metis issue_cite)
  ultimately show ?thesis
    by (auto simp: list_all_iff validateEvent_cases Let_def split: option.split)
qed

section \<open>Verdicts and further observation\<close>

definition errors_of :: "issue list \<Rightarrow> issue set" where
  "errors_of is = {i \<in> set is. is_severity i = Sev_error}"

lemma errors_of_simps [simp]:
  "errors_of [] = {}"
  "errors_of (i # is) = (if is_severity i = Sev_error then insert i (errors_of is) else errors_of is)"
  "errors_of (as @ bs) = errors_of as \<union> errors_of bs"
  by (auto simp: errors_of_def)

lemma hasError_errors: "hasError is \<longleftrightarrow> errors_of is \<noteq> {}"
  by (auto simp: errors_of_def hasError_def)

lemma map_leD: "l \<subseteq>\<^sub>m l' \<Longrightarrow> l k = Some v \<Longrightarrow> l' k = Some v"
  by (metis domI map_le_def)

text \<open>A check is stable if observing more events never takes back an error, and changes nothing
  as long as none of the awaited events is observed.\<close>

definition stable :: "lookup \<Rightarrow> (lookup \<Rightarrow> issue list \<times> jsstr list) \<Rightarrow> lookup \<Rightarrow> bool" where
  "stable l check l' \<longleftrightarrow>
     errors_of (fst (check l)) \<subseteq> errors_of (fst (check l'))
     \<and> ((\<forall>i \<in> set (snd (check l)). l' i = None) \<longrightarrow> check l' = check l)"

lemma stable_checkEndpoint: "l \<subseteq>\<^sub>m l' \<Longrightarrow> stable l (\<lambda>l. checkEndpoint l r t rule) l'"
  by (auto simp: stable_def checkEndpoint_def map_leD split: option.splits)

definition binding_shape :: "nostr_event \<Rightarrow> issue list" where
  "binding_shape event =
     (let roots = eTagsWithMarker event (js ''root''); links = eTagsWithMarker event (js ''link'') in
      (if roots = [] then [cite (R_BD 1) Sev_error] else [])
      @ (if links = [] then [cite (R_BD 2) Sev_error] else [])
      @ (if 1 < length roots \<or> 1 < length links then [cite (R_BD 10) Sev_error] else []))"

lemma checkBinding_cases:
  obtains "\<And>l. checkBinding l e = (binding_shape e, [])" "binding_shape e \<noteq> []"
    "hasError (binding_shape e)"
  | root link where "eTagsWithMarker e (js ''root'') = [root]" "eTagsWithMarker e (js ''link'') = [link]"
    "binding_shape e = []"
    "\<And>l. checkBinding l e =
       (let R = checkEndpoint l root Product (R_BD 3); L = checkEndpoint l link Metadata (R_BD 4);
            aw = snd R @ snd L
        in (fst R @ fst L @ (if aw \<noteq> [] then [cite (R_BD 6) Sev_warning] else []), aw))"
proof (cases "\<exists>root link. eTagsWithMarker e (js ''root'') = [root] \<and> eTagsWithMarker e (js ''link'') = [link]")
  case True
  then obtain root link where "eTagsWithMarker e (js ''root'') = [root]"
      "eTagsWithMarker e (js ''link'') = [link]" by blast
  then show ?thesis
    by (intro that(2) [of root link])
      (auto simp: checkBinding_def binding_shape_def Let_def split: prod.split)
next
  case False
  then have "checkBinding l e = (binding_shape e, [])" for l
    unfolding checkBinding_def Let_def binding_shape_def
    by (cases "eTagsWithMarker e (js ''root'')"; cases "tl (eTagsWithMarker e (js ''root''))";
        cases "eTagsWithMarker e (js ''link'')"; cases "tl (eTagsWithMarker e (js ''link''))") auto
  moreover have "hasError (binding_shape e)"
    using False unfolding binding_shape_def Let_def
    by (cases "eTagsWithMarker e (js ''root'')"; cases "tl (eTagsWithMarker e (js ''root''))";
        cases "eTagsWithMarker e (js ''link'')"; cases "tl (eTagsWithMarker e (js ''link''))") auto
  ultimately show ?thesis
    using that(1) by force
qed

lemma stable_checkBinding: "l \<subseteq>\<^sub>m l' \<Longrightarrow> stable l (\<lambda>l. checkBinding l e) l'"
proof (rule checkBinding_cases [of e])
  assume "\<And>l. checkBinding l e = (binding_shape e, [])"
  then show ?thesis
    by (simp add: stable_def)
next
  fix root link
  assume "l \<subseteq>\<^sub>m l'" and shape: "\<And>l. checkBinding l e =
       (let R = checkEndpoint l root Product (R_BD 3); L = checkEndpoint l link Metadata (R_BD 4);
            aw = snd R @ snd L
        in (fst R @ fst L @ (if aw \<noteq> [] then [cite (R_BD 6) Sev_warning] else []), aw))"
  then have R: "stable l (\<lambda>l. checkEndpoint l root Product (R_BD 3)) l'"
    and L: "stable l (\<lambda>l. checkEndpoint l link Metadata (R_BD 4)) l'"
    by (simp_all add: stable_checkEndpoint)
  show ?thesis
    using R L unfolding stable_def shape Let_def by auto
qed

definition patch_shape :: "nostr_event \<Rightarrow> issue list" where
  "patch_shape event =
     (if length (eTagsWithMarker event (js ''root'')) \<noteq> 1 then [cite (R_PT 1) Sev_error] else [])
     @ (if length (eTagsWithMarker event (js ''reply'')) \<noteq> 1 then [cite (R_PT 2) Sev_error] else [])
     @ checkPatchPayload (ev_content event)"

definition root_typing :: "nostr_event \<Rightarrow> issue list" where
  "root_typing rootEvent =
     (if scrutinyEventType rootEvent \<noteq> Some Product \<and> scrutinyEventType rootEvent \<noteq> Some Metadata
      then [cite (R_PT 10) Sev_error, cite (R_PT 11) Sev_error] else [])"

lemma checkPatch_cases:
  obtains "\<And>l. checkPatch l e = (patch_shape e, [])" "hasError (patch_shape e)"
  | root reply where "eTagsWithMarker e (js ''root'') = [root]" "eTagsWithMarker e (js ''reply'') = [reply]"
    "patch_shape e = checkPatchPayload (ev_content e)"
    "\<And>l. checkPatch l e =
       (case l (er_id root) of
          None \<Rightarrow> (patch_shape e, [er_id root])
        | Some r \<Rightarrow>
            (patch_shape e @ root_typing r @ fst (checkPatchLineage l e (er_id root) r (er_id reply)),
             snd (checkPatchLineage l e (er_id root) r (er_id reply))))"
proof (cases "\<exists>root reply. eTagsWithMarker e (js ''root'') = [root] \<and> eTagsWithMarker e (js ''reply'') = [reply]")
  case True
  then obtain root reply where "eTagsWithMarker e (js ''root'') = [root]"
      "eTagsWithMarker e (js ''reply'') = [reply]" by blast
  then show ?thesis
    by (intro that(2) [of root reply])
      (auto simp: checkPatch_def patch_shape_def root_typing_def Let_def
        split: prod.split option.split)
next
  case False
  then have "checkPatch l e = (patch_shape e, []) \<and> hasError (patch_shape e)" for l
    unfolding checkPatch_def Let_def patch_shape_def
    by (cases "eTagsWithMarker e (js ''root'')"; cases "tl (eTagsWithMarker e (js ''root''))";
        cases "eTagsWithMarker e (js ''reply'')"; cases "tl (eTagsWithMarker e (js ''reply''))") auto
  then show ?thesis
    using that(1) by force
qed

lemma stable_checkPatchLineage:
  "l \<subseteq>\<^sub>m l' \<Longrightarrow> stable l (\<lambda>l. checkPatchLineage l e root r reply) l'"
  by (auto simp: stable_def checkPatchLineage_def map_leD split: option.splits)

lemma stable_checkPatch: "l \<subseteq>\<^sub>m l' \<Longrightarrow> stable l (\<lambda>l. checkPatch l e) l'"
proof (rule checkPatch_cases [of e])
  assume "\<And>l. checkPatch l e = (patch_shape e, [])"
  then show ?thesis
    by (simp add: stable_def)
next
  fix root reply
  assume le: "l \<subseteq>\<^sub>m l'" and shape: "\<And>l. checkPatch l e =
       (case l (er_id root) of
          None \<Rightarrow> (patch_shape e, [er_id root])
        | Some r \<Rightarrow>
            (patch_shape e @ root_typing r @ fst (checkPatchLineage l e (er_id root) r (er_id reply)),
             snd (checkPatchLineage l e (er_id root) r (er_id reply))))"
  show ?thesis
  proof (cases "l (er_id root)")
    case None
    then show ?thesis
      unfolding stable_def shape by (auto split: option.split)
  next
    case (Some r)
    with le have "l' (er_id root) = Some r"
      by (rule map_leD)
    with Some stable_checkPatchLineage [OF le, of e "er_id root" r "er_id reply"] show ?thesis
      unfolding stable_def shape by auto
  qed
qed

lemma stable_type_checks: "l \<subseteq>\<^sub>m l' \<Longrightarrow> stable l (\<lambda>l. type_checks l e ty) l'"
  by (cases ty) (auto simp: type_checks_def stable_checkBinding stable_checkPatch, auto simp: stable_def)

lemma verdict_stable:
  assumes "l \<subseteq>\<^sub>m l'"
  shows "case validateEvent l e of
           NotScrutiny \<Rightarrow> validateEvent l' e = NotScrutiny
         | Valid ty is \<Rightarrow> validateEvent l' e = Valid ty is
         | Invalid is \<Rightarrow> (case validateEvent l' e of
             Invalid is' \<Rightarrow> {i \<in> set is. is_severity i = Sev_error} \<subseteq> set is' | _ \<Rightarrow> False)
         | Pending ty awaiting is \<Rightarrow>
             (\<forall>id \<in> set awaiting. l' id = None) \<longrightarrow> validateEvent l' e = Pending ty awaiting is"
proof -
  note st = stable_type_checks [OF assms, of e, unfolded stable_def]
  show ?thesis
  proof (cases "scrutinyEventType e")
    case None
    then show ?thesis
      by (auto simp: validateEvent_cases)
  next
    case (Some ty)
    show ?thesis
    proof (cases "hasError (checkTags e @ fst (type_checks l e ty))")
      case True
      then have "hasError (checkTags e @ fst (type_checks l' e ty))"
        using st [of ty] by (auto simp: hasError_errors)
      moreover have "errors_of (checkTags e @ fst (type_checks l e ty))
          \<subseteq> set (checkTags e @ fst (type_checks l' e ty))"
        using st [of ty] by (auto simp: errors_of_def)
      ultimately show ?thesis
        using True Some by (auto simp: validateEvent_cases Let_def errors_of_def)
    next
      case False
      with Some show ?thesis
        using st [of ty] by (auto simp: validateEvent_cases Let_def)
    qed
  qed
qed

text \<open>
  C30. Verdicts are monotone in the observed set: observing more events never changes what is not a
  SCRUTINY event, never changes a valid verdict, never takes back an error (an invalid event stays
  invalid, which is why the rejection can be cached), and changes a pending verdict only if one of
  the events it awaits was observed, which is why the pending buffer is keyed by them.
\<close>

theorem verdict_monotone:
  assumes "l \<subseteq>\<^sub>m l'"
  shows "case validateEvent l e of
           NotScrutiny \<Rightarrow> validateEvent l' e = NotScrutiny
         | Valid ty is \<Rightarrow> validateEvent l' e = Valid ty is
         | Invalid is \<Rightarrow> (case validateEvent l' e of
             Invalid is' \<Rightarrow> {i \<in> set is. is_severity i = Sev_error} \<subseteq> set is' | _ \<Rightarrow> False)
         | Pending ty awaiting is \<Rightarrow>
             (\<forall>id \<in> set awaiting. l' id = None) \<longrightarrow> validateEvent l' e = Pending ty awaiting is"
  by (rule verdict_stable [OF assms])

lemma verdict_monotone_witness:
  "Map.empty \<subseteq>\<^sub>m [js ''r'' \<mapsto> sample_event ''r'' ''A'' Product []]
   \<and> (let b = sample_event ''b'' ''A'' Binding [e_ref ''r'' ''root'', e_ref ''m'' ''link''] in
      case validateEvent Map.empty b of
        Pending ty awaiting is \<Rightarrow>
          (\<forall>id \<in> set awaiting. [js ''r'' \<mapsto> sample_event ''r'' ''A'' Product []] id = None) \<longrightarrow>
            validateEvent [js ''r'' \<mapsto> sample_event ''r'' ''A'' Product []] b = Pending ty awaiting is
      | _ \<Rightarrow> True)"
  using verdict_monotone [of Map.empty "[js ''r'' \<mapsto> sample_event ''r'' ''A'' Product []]"
      "sample_event ''b'' ''A'' Binding [e_ref ''r'' ''root'', e_ref ''m'' ''link'']"]
  by (auto simp: Let_def split: validity.splits)

section \<open>What a valid event is\<close>

definition root_spec :: "nostr_event \<Rightarrow> bool" where
  "root_spec e \<longleftrightarrow> (\<forall>raw \<in> set (tagValues e (js ''i'')). parseIndexer raw \<noteq> None)"

definition binding_spec :: "lookup \<Rightarrow> nostr_event \<Rightarrow> bool" where
  "binding_spec l e \<longleftrightarrow>
     (\<exists>root link p m. eTagsWithMarker e (js ''root'') = [root] \<and> eTagsWithMarker e (js ''link'') = [link]
        \<and> l (er_id root) = Some p \<and> scrutinyEventType p = Some Product
        \<and> l (er_id link) = Some m \<and> scrutinyEventType m = Some Metadata)"

text \<open>A payload: a header line, no git metadata before it, and the two path tokens.\<close>

definition header_token :: "jsstr \<Rightarrow> jsstr" where
  "header_token line = takeWhile (\<lambda>c. \<not> is_space c) (trim_start (drop 4 line))"

definition payload_spec :: "jsstr \<Rightarrow> bool" where
  "payload_spec payload \<longleftrightarrow> payload \<noteq> [] \<and>
     (\<exists>pre minus plus rest. payload_lines payload = pre @ minus # plus # rest
        \<and> (\<forall>l \<in> set pre. \<not> starts_with l minus_header \<and> \<not> forbidden_line l)
        \<and> starts_with minus minus_header \<and> header_token minus = js ''a/content''
        \<and> starts_with plus plus_header \<and> header_token plus = js ''b/content'')"

definition patch_spec :: "lookup \<Rightarrow> nostr_event \<Rightarrow> bool" where
  "patch_spec l e \<longleftrightarrow>
     (\<forall>payload. findPatchPayload (ev_content e) = Some payload \<longrightarrow> payload_spec payload)
     \<and> (\<exists>root reply r. eTagsWithMarker e (js ''root'') = [root] \<and> eTagsWithMarker e (js ''reply'') = [reply]
          \<and> l (er_id root) = Some r
          \<and> (scrutinyEventType r = Some Product \<or> scrutinyEventType r = Some Metadata)
          \<and> (ev_pubkey e = ev_pubkey r \<or> er_id reply = er_id root
             \<or> (\<exists>t. l (er_id reply) = Some t \<and> scrutinyEventType t = Some Patch
                   \<and> ev_pubkey t = ev_pubkey r)))"

lemma find_index_append:
  "\<forall>y \<in> set a. \<not> P y \<Longrightarrow> P x \<Longrightarrow> find_index P (a @ x # b) = Some (length a)"
  by (induction a) auto

lemma find_index_SomeD:
  "find_index P xs = Some n \<Longrightarrow>
     \<exists>a x b. xs = a @ x # b \<and> length a = n \<and> P x \<and> (\<forall>y \<in> set a. \<not> P y)"
proof (induction xs arbitrary: n)
  case (Cons x xs)
  show ?case
  proof (cases "P x")
    case True
    with Cons.prems have "x # xs = [] @ x # xs \<and> length [] = n" by simp
    with True show ?thesis by (metis empty_iff list.set(1))
  next
    case False
    with Cons.prems obtain m where m: "find_index P xs = Some m" "n = Suc m" by auto
    from Cons.IH [OF m(1)] obtain a y b
      where "xs = a @ y # b" "length a = m" "P y" "\<forall>z \<in> set a. \<not> P z" by blast
    with False m(2) have "x # xs = (x # a) @ y # b \<and> length (x # a) = n \<and> P y \<and> (\<forall>z \<in> set (x # a). \<not> P z)"
      by simp
    then show ?thesis by blast
  qed
qed simp

lemma find_index_None: "find_index P xs = None \<longleftrightarrow> (\<forall>x \<in> set xs. \<not> P x)"
  by (induction xs) auto

lemma checkHeaderPath_ok:
  "\<not> hasError (checkHeaderPath line marker expected) \<longleftrightarrow>
     (\<exists>l. line = Some l \<and> starts_with l marker
        \<and> takeWhile (\<lambda>c. \<not> is_space c) (trim_start (drop (length marker) l)) = expected)"
  by (auto simp: checkHeaderPath_def split: option.split)

lemma hasError_map [simp]: "hasError (map (\<lambda>x. cite c Sev_error) xs) \<longleftrightarrow> xs \<noteq> []"
  by (cases xs) auto

lemma payload_grammar_ok: "\<not> hasError (checkPayloadGrammar p) \<longleftrightarrow> payload_spec p"
proof (cases "p = []")
  case False
  have len: "length minus_header = 4" "length plus_header = 4"
    by (simp_all add: minus_header_def plus_header_def)
  show ?thesis
  proof (cases "find_index (\<lambda>l. starts_with l minus_header) (payload_lines p)")
    case None
    then have "\<not> payload_spec p"
      by (auto simp: payload_spec_def find_index_None)
    with None False show ?thesis
      by (simp add: checkPayloadGrammar_def Let_def)
  next
    case (Some h)
    then obtain a x b where split: "payload_lines p = a @ x # b" "length a = h"
        "starts_with x minus_header" "\<forall>y \<in> set a. \<not> starts_with y minus_header"
      using find_index_SomeD by blast
    have unique: "pre = a \<and> m = x \<and> post = b"
      if "payload_lines p = pre @ m # post" "starts_with m minus_header"
        "\<forall>y \<in> set pre. \<not> starts_with y minus_header" for pre m post
    proof -
      have "find_index (\<lambda>l. starts_with l minus_header) (payload_lines p) = Some (length pre)"
        using that by (simp add: find_index_append)
      with Some split that show ?thesis by simp
    qed
    have nth: "nth_opt (payload_lines p) h = Some x"
      "nth_opt (payload_lines p) (h + 1) = (case b of [] \<Rightarrow> None | y # _ \<Rightarrow> Some y)"
      using split by (auto simp: nth_opt_def nth_append split: list.split)
    have "\<not> hasError (checkPayloadGrammar p) \<longleftrightarrow>
        (\<forall>l \<in> set a. \<not> forbidden_line l) \<and> header_token x = js ''a/content''
        \<and> (\<exists>y rest. b = y # rest \<and> starts_with y plus_header \<and> header_token y = js ''b/content'')"
      using False split(2,3) Some nth split(1)
      by (auto simp: checkPayloadGrammar_def Let_def checkHeaderPath_ok header_token_def len
          filter_empty_conv split: list.splits)
    also have "\<dots> \<longleftrightarrow> payload_spec p"
    proof
      assume "payload_spec p"
      then show "(\<forall>l \<in> set a. \<not> forbidden_line l) \<and> header_token x = js ''a/content''
        \<and> (\<exists>y rest. b = y # rest \<and> starts_with y plus_header \<and> header_token y = js ''b/content'')"
        using unique unfolding payload_spec_def by blast
    next
      assume "(\<forall>l \<in> set a. \<not> forbidden_line l) \<and> header_token x = js ''a/content''
        \<and> (\<exists>y rest. b = y # rest \<and> starts_with y plus_header \<and> header_token y = js ''b/content'')"
      then show "payload_spec p"
        using False split unfolding payload_spec_def by blast
    qed
    finally show ?thesis .
  qed
qed (simp add: checkPayloadGrammar_def payload_spec_def)

lemma find_filter: "find P xs = (case filter P xs of [] \<Rightarrow> None | x # _ \<Rightarrow> Some x)"
  by (induction xs) auto

lemma patch_payload_ok:
  "\<not> hasError (checkPatchPayload c) \<longleftrightarrow>
     (\<forall>payload. findPatchPayload c = Some payload \<longrightarrow> payload_spec payload)"
  by (auto simp: checkPatchPayload_def findPatchPayload_def find_filter Let_def payload_grammar_ok
      split: list.split)


lemma type_tags:
  "map EVENT_TYPE_TAGS (concat (map (\<lambda>t. case map_of TYPE_BY_TAG t of None \<Rightarrow> [] | Some ty \<Rightarrow> [ty]) ts))
     = filter (\<lambda>t. t \<in> set TYPE_TAG_SET) ts"
proof (induction ts)
  case (Cons t ts)
  have [simp]: "map_of TYPE_BY_TAG (EVENT_TYPE_TAGS a) = Some a" for a
    by simp
  have "map_of TYPE_BY_TAG t = None \<longleftrightarrow> t \<notin> set TYPE_TAG_SET"
    by (auto simp: TYPE_BY_TAG_def TYPE_TAG_SET_def)
  moreover have "map_of TYPE_BY_TAG t = Some ty \<Longrightarrow> t \<in> set TYPE_TAG_SET" for ty
    by (cases ty) (auto simp: TYPE_TAG_SET_def)
  ultimately show ?case
    using Cons by (cases "map_of TYPE_BY_TAG t") auto
qed simp

lemma scrutinyEventType_single:
  "scrutinyEventType e = Some ty \<longleftrightarrow>
     filter (\<lambda>t. t \<in> set TYPE_TAG_SET) (tTags e) = [EVENT_TYPE_TAGS ty]"
proof -
  let ?tys = "concat (map (\<lambda>t. case map_of TYPE_BY_TAG t of None \<Rightarrow> [] | Some ty \<Rightarrow> [ty]) (tTags e))"
  have "scrutinyEventType e = Some ty \<longleftrightarrow> ?tys = [ty]"
    unfolding scrutinyEventType_def Let_def
    by (cases ?tys; cases "tl ?tys") (simp_all del: concat_eq_Nil_conv Nil_eq_concat_conv)
  also have "\<dots> \<longleftrightarrow> map EVENT_TYPE_TAGS ?tys = [EVENT_TYPE_TAGS ty]"
    by (cases ?tys) (simp_all del: concat_eq_Nil_conv Nil_eq_concat_conv)
  finally show ?thesis
    by (simp only: type_tags)
qed

lemma scrutinyEventType_tag: "scrutinyEventType e = Some ty \<Longrightarrow> EVENT_TYPE_TAGS ty \<in> set (tTags e)"
  unfolding scrutinyEventType_single by (drule arg_cong [of _ _ set]) auto

definition tags_spec :: "nostr_event \<Rightarrow> bool" where
  "tags_spec e \<longleftrightarrow> length (filter (\<lambda>t. t = FABRIC_TAG) (tTags e)) = 1 \<and> length (versionTags e) = 1"

lemma checkTags_ok:
  assumes "scrutinyEventType e = Some ty"
  shows "\<not> hasError (checkTags e) \<longleftrightarrow> tags_spec e"
proof -
  have f: "filter (\<lambda>t. t \<in> set TYPE_TAG_SET) (tTags e) = [EVENT_TYPE_TAGS ty]"
    using assms by (simp only: scrutinyEventType_single)
  show ?thesis
    unfolding checkTags_def tags_spec_def Let_def f
    by (auto split: list.split)
qed

lemma checkIndexer_ok: "\<not> hasError (checkIndexer raw) \<longleftrightarrow> parseIndexer raw \<noteq> None"
  by (auto simp: checkIndexer_def parseIndexer_def split: option.split)

lemma hasError_concat: "hasError (concat xss) \<longleftrightarrow> (\<exists>xs \<in> set xss. hasError xs)"
  by (induction xss) auto

lemma checkRootEvent_ok: "\<not> hasError (checkRootEvent e ty) \<longleftrightarrow> root_spec e"
  using checkIndexer_ok
  by (auto simp: checkRootEvent_def checkIndexers_def root_spec_def hasError_concat Let_def)

lemma checkEndpoint_ok:
  "\<not> hasError (fst (checkEndpoint l r ty rule)) \<and> snd (checkEndpoint l r ty rule) = [] \<longleftrightarrow>
     (\<exists>o'. l (er_id r) = Some o' \<and> scrutinyEventType o' = Some ty)"
  by (auto simp: checkEndpoint_def split: option.splits)

lemma checkBinding_ok:
  "\<not> hasError (fst (checkBinding l e)) \<and> snd (checkBinding l e) = [] \<longleftrightarrow> binding_spec l e"
proof (rule checkBinding_cases [of e])
  assume "\<And>l. checkBinding l e = (binding_shape e, [])" and err: "hasError (binding_shape e)"
  moreover have "\<not> binding_spec l e"
    using err by (auto simp: binding_spec_def binding_shape_def)
  ultimately show ?thesis by simp
next
  fix root link
  assume "eTagsWithMarker e (js ''root'') = [root]" "eTagsWithMarker e (js ''link'') = [link]"
    and "\<And>l. checkBinding l e =
       (let R = checkEndpoint l root Product (R_BD 3); L = checkEndpoint l link Metadata (R_BD 4);
            aw = snd R @ snd L
        in (fst R @ fst L @ (if aw \<noteq> [] then [cite (R_BD 6) Sev_warning] else []), aw))"
  then show ?thesis
    using checkEndpoint_ok [of l root Product "R_BD 3"] checkEndpoint_ok [of l link Metadata "R_BD 4"]
    by (auto simp: binding_spec_def Let_def)
qed

lemma checkPatch_ok:
  "\<not> hasError (fst (checkPatch l e)) \<and> snd (checkPatch l e) = [] \<longleftrightarrow> patch_spec l e"
proof (rule checkPatch_cases [of e])
  assume "\<And>l. checkPatch l e = (patch_shape e, [])" and err: "hasError (patch_shape e)"
  moreover have "\<not> patch_spec l e"
    using err patch_payload_ok [of "ev_content e"] by (auto simp: patch_spec_def patch_shape_def)
  ultimately show ?thesis by simp
next
  fix root reply
  assume refs: "eTagsWithMarker e (js ''root'') = [root]" "eTagsWithMarker e (js ''reply'') = [reply]"
    and shape: "patch_shape e = checkPatchPayload (ev_content e)"
      "\<And>l. checkPatch l e =
       (case l (er_id root) of
          None \<Rightarrow> (patch_shape e, [er_id root])
        | Some r \<Rightarrow>
            (patch_shape e @ root_typing r @ fst (checkPatchLineage l e (er_id root) r (er_id reply)),
             snd (checkPatchLineage l e (er_id root) r (er_id reply))))"
  show ?thesis
  proof (cases "l (er_id root)")
    case None
    with refs shape show ?thesis by (simp add: patch_spec_def)
  next
    case (Some r)
    have "\<not> hasError (root_typing r) \<longleftrightarrow>
        scrutinyEventType r = Some Product \<or> scrutinyEventType r = Some Metadata"
      by (simp add: root_typing_def)
    moreover have "\<not> hasError (fst (checkPatchLineage l e (er_id root) r (er_id reply)))
          \<and> snd (checkPatchLineage l e (er_id root) r (er_id reply)) = [] \<longleftrightarrow>
        ev_pubkey e = ev_pubkey r \<or> er_id reply = er_id root
        \<or> (\<exists>t. l (er_id reply) = Some t \<and> scrutinyEventType t = Some Patch \<and> ev_pubkey t = ev_pubkey r)"
      by (auto simp: checkPatchLineage_def split: option.split)
    ultimately show ?thesis
      using refs shape Some patch_payload_ok [of "ev_content e"] by (auto simp: patch_spec_def)
  qed
qed

lemma valid_spec:
  "(\<exists>is. validateEvent l e = Valid ty is) \<longleftrightarrow>
     scrutinyEventType e = Some ty \<and> tags_spec e
     \<and> (case ty of Product \<Rightarrow> root_spec e | Metadata \<Rightarrow> root_spec e
        | Binding \<Rightarrow> binding_spec l e | Patch \<Rightarrow> patch_spec l e)"
proof (cases "scrutinyEventType e")
  case (Some ty')
  have fabric: "tags_spec e \<Longrightarrow> isScrutinyEvent e"
    unfolding tags_spec_def isScrutinyEvent_def
    by (metis (mono_tags, lifting) filter_False list.size(3) zero_neq_one)
  have "\<not> hasError (fst (type_checks l e ty')) \<and> snd (type_checks l e ty') = [] \<longleftrightarrow>
      (case ty' of Product \<Rightarrow> root_spec e | Metadata \<Rightarrow> root_spec e
        | Binding \<Rightarrow> binding_spec l e | Patch \<Rightarrow> patch_spec l e)"
    by (simp add: type_checks_def checkRootEvent_ok checkBinding_ok checkPatch_ok split: sc_type.split)
  with Some checkTags_ok [OF Some] fabric show ?thesis
    by (auto simp: validateEvent_cases Let_def)
qed (simp add: validateEvent_cases)

text \<open>
  C37. An event is valid exactly when it carries one fabric tag, one version tag and one type tag,
  and what its type asks for: every indexer of a product or metadata parses; a binding has one root
  and one link, observed as a product and a metadata event; a patch has one root and one reply, its
  root is observed as a product or metadata event, its payload (if any) has the two content headers
  and no git preamble, and a patch by another author replies to the root or to an observed patch of
  the root's author.
\<close>

theorem valid_iff:
  "(\<exists>is. validateEvent l e = Valid ty is) \<longleftrightarrow>
     scrutinyEventType e = Some ty \<and> tags_spec e
     \<and> (case ty of Product \<Rightarrow> root_spec e | Metadata \<Rightarrow> root_spec e
        | Binding \<Rightarrow> binding_spec l e | Patch \<Rightarrow> patch_spec l e)"
  by (rule valid_spec)

end
