(* ===== verification/Discovery.thy ===== *)
theory Discovery
  imports Storage Admit Validate
begin

text \<open>
  How discovery (\<open>query.ts\<close>), the storage (\<open>store.ts\<close>), resolution (\<open>resolve.ts\<close>) and admission
  (\<open>admit.ts\<close>) fit together: the filters find every event the other components read, the roles
  are those the markers give, and the storage hides exactly what resolution takes for deleted.
\<close>

lemma matches_tags:
  "matchesFilter e (no_filter\<lparr>ef_kinds := Some [k], ef_tags := [(hash_t, ts), (hash_e, [i])]\<rparr>) \<longleftrightarrow>
     ev_kind e = k \<and> list_ex (\<lambda>t. t \<in> set ts) (tTags e) \<and> i \<in> er_id ` set (eTags e)"
  by (auto simp: matchesFilter_def no_filter_def if_given_def hash_keys [simplified] tTags_def eTags_id_set
      list_ex_iff)

lemma matches_patches:
  "matchesFilter e (patchesReferencing i) \<longleftrightarrow>
     ev_kind e = SCRUTINY_KIND \<and> EVENT_TYPE_TAGS Patch \<in> set (tTags e) \<and> i \<in> er_id ` set (eTags e)"
  by (simp only: patchesReferencing_def matches_tags) (simp add: list_ex_iff)

lemma matches_bindings:
  "matchesFilter e (bindingsReferencing i) \<longleftrightarrow>
     ev_kind e = SCRUTINY_KIND \<and> EVENT_TYPE_TAGS Binding \<in> set (tTags e) \<and> i \<in> er_id ` set (eTags e)"
  by (simp only: bindingsReferencing_def matches_tags) (simp add: list_ex_iff)

lemma no_limits:
  "ef_limit (patchesReferencing i) = None" "ef_limit (bindingsReferencing i) = None"
  "ef_limit (deletionsFor i) = None"
  by (simp_all add: patchesReferencing_def bindingsReferencing_def deletionsFor_def no_filter_def)

lemma matches_deletions:
  "matchesFilter e (deletionsFor i) \<longleftrightarrow> ev_kind e = DELETION_KIND \<and> i \<in> er_id ` set (eTags e)"
  by (auto simp: deletionsFor_def matchesFilter_def no_filter_def if_given_def hash_keys [simplified]
      eTags_id_set list_ex_iff)

lemma scan_one:
  assumes "ef_limit f = None" "distinct (dkeys byId)" "\<And>i e. dget byId i = Some e \<Longrightarrow> ev_id e = i"
  shows "set (scan [f] True byId) = {e \<in> set (dvalues byId). matchesFilter e f}"
proof -
  have "set (merge_matched [filter (\<lambda>e. matchesFilter e f) (dvalues byId)]) =
      set (concat [filter (\<lambda>e. matchesFilter e f) (dvalues byId)])"
  proof (rule merge_matched_set)
    fix a b assume "a \<in> set (concat [filter (\<lambda>e. matchesFilter e f) (dvalues byId)])"
      "b \<in> set (concat [filter (\<lambda>e. matchesFilter e f) (dvalues byId)])" "ev_id a = ev_id b"
    moreover from this have "a \<in> set (dvalues byId)" "b \<in> set (dvalues byId)" by auto
    ultimately show "a = b"
      unfolding dvalues_iff [OF assms(2)] using assms(3) by (metis option.inject)
  qed
  then show ?thesis
    by (simp add: scan_def limited_def assms(1))
qed

lemma marked_reference: "first_id (eTagsWithMarker e m) = Some i \<Longrightarrow> i \<in> er_id ` set (eTags e)"
  by (auto simp: first_id_def eTagsWithMarker_def dest!: filter_eq_ConsD split: list.splits)

lemma binding_references:
  "bindingEndpoints e = Some ep \<Longrightarrow> endpoint ep i \<Longrightarrow> i \<in> er_id ` set (eTags e)"
proof -
  assume b: "bindingEndpoints e = Some ep" and i: "endpoint ep i"
  then obtain r l where "eTagsWithMarker e (js ''root'') = [r]" "eTagsWithMarker e (js ''link'') = [l]"
    "ep = \<lparr>be_rootId = er_id r, be_linkId = er_id l\<rparr>"
    by (auto simp: bindingEndpoints_def split: list.splits)
  moreover from this have "r \<in> set (eTags e)" "l \<in> set (eTags e)"
    unfolding eTagsWithMarker_def by (metis filter_is_subset list.set_intros(1) subsetD)+
  ultimately show ?thesis
    using i by (auto simp: endpoint_def)
qed

text \<open>What a query for one filter finds, deleted events included, after any use of the storage.\<close>

definition found :: "storage_op list \<Rightarrow> event_filter \<Rightarrow> nostr_event set" where
  "found ops f = set (fst (query [f] True (foldl storage_step createInMemoryEventStorage ops)))"

text \<open>
  (DQ-1, DQ-2, DQ-4) The traversal filters miss nothing. Over any storage, the query for the
  patches of a root returns every patch of kind 1 that resolution places on that root; the query for the
  deletions of an id returns every kind 5 event that references it; the query for the bindings of an
  id returns every binding of kind 1 one of whose two endpoints it is.
\<close>

theorem traversal_complete:
  "set (filter (\<lambda>p. ev_kind p = SCRUTINY_KIND) (root_patches rootId (last_puts (puts ops)))) \<subseteq> found ops (patchesReferencing rootId)
    \<and> set (filter (\<lambda>d. list_ex (\<lambda>ref. er_id ref = i) (eTags d)) (deletion_events (last_puts (puts ops)))) = found ops (deletionsFor i)
    \<and> set (filter (\<lambda>b. ev_kind b = SCRUTINY_KIND \<and> scrutinyEventType b = Some Binding
           \<and> (case bindingEndpoints b of None \<Rightarrow> False | Some ep \<Rightarrow> be_rootId ep = i \<or> be_linkId ep = i))
         (dvalues (last_puts (puts ops)))) \<subseteq> found ops (bindingsReferencing i)"
proof (intro conjI)
  let ?byId = "last_puts (puts ops)"
  have f: "found ops f = {e \<in> set (dvalues ?byId). matchesFilter e f}" if "ef_limit f = None" for f
    unfolding found_def query_run_scan using that last_puts_keyed by (intro scan_one) blast+
  show "set (filter (\<lambda>p. ev_kind p = SCRUTINY_KIND) (root_patches rootId ?byId)) \<subseteq> found ops (patchesReferencing rootId)"
    by (auto simp: f [OF no_limits(1)] matches_patches root_patches_def rootTarget_def
        simp del: EVENT_TYPE_TAGS.simps dest: marked_reference scrutinyEventType_tag)
  show "set (filter (\<lambda>d. list_ex (\<lambda>ref. er_id ref = i) (eTags d)) (deletion_events ?byId)) = found ops (deletionsFor i)"
    by (auto simp: f [OF no_limits(3)] matches_deletions deletion_events_def list_ex_iff)
  show "set (filter (\<lambda>b. ev_kind b = SCRUTINY_KIND \<and> scrutinyEventType b = Some Binding
           \<and> (case bindingEndpoints b of None \<Rightarrow> False | Some ep \<Rightarrow> be_rootId ep = i \<or> be_linkId ep = i))
         (dvalues ?byId)) \<subseteq> found ops (bindingsReferencing i)"
    using binding_references by (auto simp: f [OF no_limits(2)] matches_bindings endpoint_def
        simp del: EVENT_TYPE_TAGS.simps dest: scrutinyEventType_tag split: option.splits)
qed

text \<open>The ids the storage hides are those whose deletion resolution honours over the same events.\<close>

lemma hidden_is_honoured: "honouredlyDeletedIds byId = honouredDeletions (deletion_events byId) byId"
proof -
  have h: "honoured_ref byId d ref = honours byId d ref" for d ref
    by (simp add: honoured_ref_def honours_def)
  show ?thesis
    unfolding honouredlyDeletedIds_def honouredDeletions_def deletion_events_def h
    by (subst fold_when [symmetric]) (rule fold_cong, auto)
qed

text \<open>
  (DQ-4) Classifying results by role keeps, in order, exactly the events of the expected type that
  carry a marked reference to the anchor, and reports for each the marker of the first such reference.
\<close>

theorem classifyByRole_spec:
  "classifyByRole events anchorId expectedType =
     map (\<lambda>e. \<lparr>rm_event = e,
               rm_marker = the (er_marker (hd (filter (\<lambda>t. er_id t = anchorId \<and> er_marker t \<noteq> None) (eTags e))))\<rparr>)
       (filter (\<lambda>e. scrutinyEventType e = Some expectedType
          \<and> list_ex (\<lambda>t. er_id t = anchorId \<and> er_marker t \<noteq> None) (eTags e)) events)"
proof -
  have find: "find P xs = (if list_ex P xs then Some (hd (filter P xs)) else None)" for P and xs :: "e_tag_ref list"
    by (induction xs) auto
  have one: "role_of anchorId e =
      (if list_ex (\<lambda>t. er_id t = anchorId \<and> er_marker t \<noteq> None) (eTags e)
       then [\<lparr>rm_event = e,
              rm_marker = the (er_marker (hd (filter (\<lambda>t. er_id t = anchorId \<and> er_marker t \<noteq> None) (eTags e))))\<rparr>]
       else [])" for e
  proof -
    have "er_marker (hd (filter (\<lambda>t. er_id t = anchorId \<and> er_marker t \<noteq> None) (eTags e))) \<noteq> None"
      if "list_ex (\<lambda>t. er_id t = anchorId \<and> er_marker t \<noteq> None) (eTags e)"
      using that hd_in_set [of "filter (\<lambda>t. er_id t = anchorId \<and> er_marker t \<noteq> None) (eTags e)"]
      by (auto simp: list_ex_iff filter_empty_conv)
    then show ?thesis
      by (auto simp: role_of_def find split: option.splits)
  qed
  show ?thesis
    unfolding classifyByRole_def by (induction events) (simp_all add: one)
qed

end
