(* ===== verification/Store.thy ===== *)
theory Store
  imports Discovery
begin

text \<open>
  \<open>packages/core/src/store.ts\<close>: the reducer \<open>applyStoreDelta\<close> over the state (admission, the ids known
  to be invalid, the pending-reference buffer, the chain epochs and their two lookup tables), the
  memo of resolutions, and the store object with its \<open>add\<close>, \<open>unobserve\<close>, \<open>trust\<close>, \<open>untrust\<close>,
  \<open>resolveRoot\<close> and \<open>viewRoot\<close>, over the in-memory storage. Signature checking is the parameter \<open>verify\<close>.
  A map of sets is an association list of duplicate-free lists; \<open>chainEpoch\<close> counts with \<open>nat\<close>.
\<close>

section \<open>State\<close>

record store_state =
  ss_admit :: admit_state
  ss_invalidIds :: "jsstr list"
  ss_chainMembership :: "jsstr dict"
  ss_pendingAwaiting :: "jsstr list dict"
  ss_overlayAwaiting :: "jsstr list dict"
  ss_trustEpoch :: nat
  ss_observedEpoch :: nat
  ss_chainEpoch :: "nat dict"

definition EMPTY_STORE_STATE :: store_state where
  "EMPTY_STORE_STATE =
     \<lparr>ss_admit = EMPTY_ADMIT_STATE, ss_invalidIds = [], ss_chainMembership = [], ss_pendingAwaiting = [],
      ss_overlayAwaiting = [], ss_trustEpoch = 0, ss_observedEpoch = 0, ss_chainEpoch = []\<rparr>"

record store_view =
  sv_observedIds :: "jsstr list"
  sv_admission :: admission_index
  sv_invalidIds :: "jsstr list"

definition toStoreView :: "store_state \<Rightarrow> store_view" where
  "toStoreView st =
     \<lparr>sv_observedIds = sort (dkeys (as_observedById (ss_admit st))), sv_admission = toIndex (ss_admit st),
      sv_invalidIds = ss_invalidIds st\<rparr>"

section \<open>The pending-reference buffer\<close>

definition addAwaiting :: "jsstr \<Rightarrow> jsstr \<Rightarrow> jsstr list dict \<Rightarrow> jsstr list dict" where
  "addAwaiting awaitedId eventId awaiting =
     (case dget awaiting awaitedId of
        None \<Rightarrow> dset awaitedId [eventId] awaiting
      | Some s \<Rightarrow> dset awaitedId (sadd eventId s) awaiting)"

definition removeAwaiting :: "jsstr \<Rightarrow> jsstr \<Rightarrow> jsstr list dict \<Rightarrow> jsstr list dict" where
  "removeAwaiting awaitedId eventId awaiting =
     (case dget awaiting awaitedId of
        None \<Rightarrow> awaiting
      | Some s \<Rightarrow>
          (let s' = sdel eventId s in if s' = [] then ddel awaitedId awaiting else dset awaitedId s' awaiting))"

text \<open>What the loop over the events updates: the five maps and sets of the working copy.\<close>

record working =
  wk_membership :: "jsstr dict"
  wk_pending :: "jsstr list dict"
  wk_epoch :: "nat dict"
  wk_invalid :: "jsstr list"
  wk_overlay :: "jsstr list dict"

definition applyVerdict :: "lookup \<Rightarrow> nostr_event \<Rightarrow> working \<Rightarrow> working" where
  "applyVerdict observedById event w =
     (case validateEvent observedById event of
        Invalid _ \<Rightarrow> w\<lparr>wk_invalid := sadd (ev_id event) (wk_invalid w)\<rparr>
      | Pending _ awaiting _ \<Rightarrow>
          w\<lparr>wk_pending := fold (\<lambda>i. addAwaiting i (ev_id event)) awaiting (wk_pending w)\<rparr>
      | _ \<Rightarrow> w)"

section \<open>The reducer\<close>

datatype store_delta =
    St_observe "nostr_event list"
  | St_unobserve "jsstr list"
  | St_trust "jsstr list"
  | St_untrust "jsstr list"

definition epoch_of :: "nat dict \<Rightarrow> jsstr \<Rightarrow> nat" where
  "epoch_of epochs i = (case dget epochs i of None \<Rightarrow> 0 | Some n \<Rightarrow> n)"

definition bump :: "jsstr \<Rightarrow> nat dict \<Rightarrow> nat dict" where
  "bump i epochs = dset i (epoch_of epochs i + 1) epochs"

definition chainEpochTargets ::
    "nostr_event \<Rightarrow> (jsstr \<Rightarrow> jsstr option) \<Rightarrow> (jsstr \<Rightarrow> jsstr list option) \<Rightarrow> jsstr list" where
  "chainEpochTargets event lookupOwningRoot lookupOverlayAwaiting =
     (let type = scrutinyEventType event;
          targets =
            (if type = Some Product \<or> type = Some Metadata then [ev_id event]
             else if type = Some Patch then (case rootTarget event of None \<Rightarrow> [] | Some root \<Rightarrow> [root])
             else if ev_kind event = DELETION_KIND
             then concat (map (\<lambda>ref.
                    (case lookupOwningRoot (er_id ref) of None \<Rightarrow> [] | Some owningRoot \<Rightarrow> [owningRoot])
                    @ [er_id ref]) (eTags event))
             else [])
      in targets @ (case lookupOverlayAwaiting (ev_id event) of None \<Rightarrow> [] | Some roots \<Rightarrow> roots))"

definition bump_targets :: "nostr_event \<Rightarrow> working \<Rightarrow> working" where
  "bump_targets event w =
     w\<lparr>wk_epoch := fold bump (chainEpochTargets event (dget (wk_membership w)) (dget (wk_overlay w)))
        (wk_epoch w)\<rparr>"

definition register_patch :: "nostr_event \<Rightarrow> working \<Rightarrow> working" where
  "register_patch event w =
     (if scrutinyEventType event \<noteq> Some Patch then w
      else (case rootTarget event of
              None \<Rightarrow> w
            | Some root \<Rightarrow>
                let w1 = w\<lparr>wk_membership := dset (ev_id event) root (wk_membership w)\<rparr>
                in (case replyTarget event of
                      None \<Rightarrow> w1
                    | Some target \<Rightarrow> w1\<lparr>wk_overlay := addAwaiting target root (wk_overlay w1)\<rparr>)))"

definition recheck :: "lookup \<Rightarrow> jsstr \<Rightarrow> jsstr \<Rightarrow> working \<Rightarrow> working" where
  "recheck observedById arrived pendingId w =
     (let w1 = w\<lparr>wk_pending := removeAwaiting arrived pendingId (wk_pending w)\<rparr>
      in case observedById pendingId of
           None \<Rightarrow> w1
         | Some pendingEvent \<Rightarrow> bump_targets pendingEvent (applyVerdict observedById pendingEvent w1))"

definition processObservedEvent :: "lookup \<Rightarrow> nostr_event \<Rightarrow> working \<Rightarrow> working" where
  "processObservedEvent observedById event w =
     (let w1 = applyVerdict observedById event (bump_targets event (register_patch event w))
      in case dget (wk_pending w1) (ev_id event) of
           None \<Rightarrow> w1
         | Some waiting \<Rightarrow> fold (recheck observedById (ev_id event)) waiting w1)"

definition recordToSetMap :: "jsstr list dict \<Rightarrow> jsstr list dict" where
  "recordToSetMap r = map (\<lambda>(k, v). (k, set_of v)) r"

definition setMapToSortedRecord :: "jsstr list dict \<Rightarrow> jsstr list dict" where
  "setMapToSortedRecord m = map (\<lambda>(k, v). (k, sort v)) m"

definition observe_step ::
    "lookup \<Rightarrow> lookup \<Rightarrow> nostr_event \<Rightarrow> jsstr list \<times> working \<Rightarrow> jsstr list \<times> working" where
  "observe_step priorObserved observedById event st =
     (case st of (newlySeen, w) \<Rightarrow>
        if priorObserved (ev_id event) \<noteq> None \<or> ev_id event \<in> set newlySeen then st
        else (sadd (ev_id event) newlySeen, processObservedEvent observedById event w))"

definition store_observe :: "nostr_event list \<Rightarrow> store_state \<Rightarrow> store_state" where
  "store_observe events st =
     (let admitAfter = applyDelta (ss_admit st) (Observe events);
          w = \<lparr>wk_membership = ss_chainMembership st, wk_pending = recordToSetMap (ss_pendingAwaiting st),
               wk_epoch = ss_chainEpoch st, wk_invalid = set_of (ss_invalidIds st),
               wk_overlay = recordToSetMap (ss_overlayAwaiting st)\<rparr>;
          (_, w') = fold (observe_step (dget (as_observedById (ss_admit st))) (dget (as_observedById admitAfter)))
             events ([], w)
      in \<lparr>ss_admit = admitAfter, ss_invalidIds = sort (wk_invalid w'),
          ss_chainMembership = wk_membership w',
          ss_pendingAwaiting = setMapToSortedRecord (wk_pending w'),
          ss_overlayAwaiting = setMapToSortedRecord (wk_overlay w'),
          ss_trustEpoch = ss_trustEpoch st, ss_observedEpoch = ss_observedEpoch st + 1,
          ss_chainEpoch = wk_epoch w'\<rparr>)"

definition unobserve_step ::
    "store_state \<Rightarrow> jsstr \<Rightarrow> jsstr list dict \<times> nat dict \<Rightarrow> jsstr list dict \<times> nat dict" where
  "unobserve_step st i acc =
     (case acc of (pendingAwaiting, chainEpoch) \<Rightarrow>
        let observedById = dget (as_observedById (ss_admit st)) in
        case observedById i of
          None \<Rightarrow> (pendingAwaiting, chainEpoch)
        | Some event \<Rightarrow>
            ((case validateEvent observedById event of
                Pending _ awaiting _ \<Rightarrow> fold (\<lambda>awaitedId. removeAwaiting awaitedId i) awaiting pendingAwaiting
              | _ \<Rightarrow> pendingAwaiting),
             fold bump (chainEpochTargets event (dget (ss_chainMembership st)) (dget (ss_overlayAwaiting st)))
               chainEpoch))"

definition store_unobserve :: "jsstr list \<Rightarrow> store_state \<Rightarrow> store_state" where
  "store_unobserve eventIds st =
     (let (pendingAwaiting, chainEpoch) =
            fold (unobserve_step st) eventIds (recordToSetMap (ss_pendingAwaiting st), ss_chainEpoch st)
      in st\<lparr>ss_admit := applyDelta (ss_admit st) (Unobserve eventIds),
            ss_pendingAwaiting := setMapToSortedRecord pendingAwaiting,
            ss_observedEpoch := ss_observedEpoch st + 1, ss_chainEpoch := chainEpoch\<rparr>)"

definition applyStoreDelta :: "store_state \<Rightarrow> store_delta \<Rightarrow> store_state" where
  "applyStoreDelta st delta =
     (case delta of
        St_observe events \<Rightarrow> if events = [] then st else store_observe events st
      | St_unobserve eventIds \<Rightarrow> if eventIds = [] then st else store_unobserve eventIds st
      | St_trust pubkeys \<Rightarrow>
          if pubkeys = [] then st
          else st\<lparr>ss_trustEpoch := ss_trustEpoch st + 1,
                  ss_admit := applyDelta (ss_admit st) (Trust pubkeys)\<rparr>
      | St_untrust pubkeys \<Rightarrow>
          if pubkeys = [] then st
          else st\<lparr>ss_trustEpoch := ss_trustEpoch st + 1,
                  ss_admit := applyDelta (ss_admit st) (Untrust pubkeys)\<rparr>)"

section \<open>The memo of resolutions\<close>

text \<open>
  The options are the key themselves: \<open>JSON.stringify\<close> of the two limits, or of \<open>null\<close> when there are none.
\<close>

type_synonym options_key = "apply_options option"

record memo_entry =
  me_epoch :: nat
  me_optionsKey :: options_key
  me_resolution :: resolution

record events_cache =
  ec_observedEpoch :: nat
  ec_events :: "nostr_event list"

record resolve_memo =
  rm_entries :: "memo_entry dict"
  rm_eventsCache :: "events_cache option"

definition createResolveMemo :: resolve_memo where
  "createResolveMemo = \<lparr>rm_entries = [], rm_eventsCache = None\<rparr>"

definition options_of :: "options_key \<Rightarrow> apply_options" where
  "options_of options = (case options of None \<Rightarrow> no_options | Some opts \<Rightarrow> opts)"

definition valid_events :: "store_state \<Rightarrow> nostr_event list" where
  "valid_events st =
     filter (\<lambda>e. ev_id e \<notin> set (ss_invalidIds st)) (dvalues (as_observedById (ss_admit st)))"

definition fill_events :: "store_state \<Rightarrow> resolve_memo \<Rightarrow> events_cache" where
  "fill_events st memo =
     (case rm_eventsCache memo of
        None \<Rightarrow> \<lparr>ec_observedEpoch = ss_observedEpoch st, ec_events = valid_events st\<rparr>
      | Some c \<Rightarrow>
          if ec_observedEpoch c \<noteq> ss_observedEpoch st
          then \<lparr>ec_observedEpoch = ss_observedEpoch st, ec_events = valid_events st\<rparr> else c)"

definition resolveRootMemoized ::
    "parse_patch \<Rightarrow> store_state \<Rightarrow> jsstr \<Rightarrow> options_key \<Rightarrow> resolve_memo \<Rightarrow> resolution \<times> resolve_memo" where
  "resolveRootMemoized parse st rootId options memo =
     (let epoch = epoch_of (ss_chainEpoch st) rootId;
          miss =
            (let cache = fill_events st memo;
                 resolution = resolve parse (options_of options) rootId (ec_events cache)
             in (resolution,
                 \<lparr>rm_entries = dset rootId
                    \<lparr>me_epoch = epoch, me_optionsKey = options, me_resolution = resolution\<rparr> (rm_entries memo),
                  rm_eventsCache = Some cache\<rparr>))
      in case dget (rm_entries memo) rootId of
           None \<Rightarrow> miss
         | Some cached \<Rightarrow>
             if me_epoch cached = epoch \<and> me_optionsKey cached = options
             then (me_resolution cached, memo) else miss)"

section \<open>The store\<close>

record ingest_meta =
  im_source :: "jsstr option"
  im_verified :: bool
  im_trustUnverified :: bool

record rejected_event =
  rj_event :: nostr_event
  rj_issues :: "issue list"

record pending_event =
  pe_event :: nostr_event
  pe_awaiting :: "jsstr list"
  pe_issues :: "issue list"

record add_result =
  ar_accepted :: "jsstr list"
  ar_rejected :: "rejected_event list"
  ar_pending :: "pending_event list"

definition sig1RejectionIssue :: "nostr_event \<Rightarrow> issue" where
  "sig1RejectionIssue event = cite (R_SIG 1) Sev_error"

record store =
  so_storage :: event_storage
  so_state :: store_state
  so_memo :: resolve_memo

definition createStore :: store where
  "createStore = \<lparr>so_storage = createInMemoryEventStorage, so_state = EMPTY_STORE_STATE,
     so_memo = createResolveMemo\<rparr>"

definition passes :: "(nostr_event \<Rightarrow> bool) \<Rightarrow> ingest_meta \<Rightarrow> nostr_event \<Rightarrow> bool" where
  "passes verify meta event \<longleftrightarrow> im_trustUnverified meta \<or> im_verified meta \<or> verify event"

definition report ::
    "lookup \<Rightarrow> nostr_event \<Rightarrow> rejected_event list \<times> pending_event list" where
  "report observedById event =
     (case validateEvent observedById event of
        Invalid issues \<Rightarrow> ([\<lparr>rj_event = event, rj_issues = issues\<rparr>], [])
      | Pending _ awaiting issues \<Rightarrow>
          ([], [\<lparr>pe_event = event, pe_awaiting = awaiting, pe_issues = issues\<rparr>])
      | _ \<Rightarrow> ([], []))"

definition add ::
    "(nostr_event \<Rightarrow> bool) \<Rightarrow> nostr_event list \<Rightarrow> ingest_meta \<Rightarrow> store \<Rightarrow> add_result \<times> store" where
  "add verify events meta s =
     (let accepted = filter (passes verify meta) events;
          refused = map (\<lambda>e. \<lparr>rj_event = e, rj_issues = [sig1RejectionIssue e]\<rparr>)
            (filter (\<lambda>e. \<not> passes verify meta e) events)
      in if accepted = [] then (\<lparr>ar_accepted = [], ar_rejected = refused, ar_pending = []\<rparr>, s)
         else
           let s' = s\<lparr>so_storage := put accepted (so_storage s),
                      so_state := applyStoreDelta (so_state s) (St_observe accepted)\<rparr>;
               reports = map (report (dget (as_observedById (ss_admit (so_state s'))))) accepted
           in (\<lparr>ar_accepted = map ev_id accepted, ar_rejected = refused @ concat (map fst reports),
                ar_pending = concat (map snd reports)\<rparr>, s'))"

definition unobserve :: "jsstr list \<Rightarrow> store \<Rightarrow> store" where
  "unobserve eventIds s = s\<lparr>so_state := applyStoreDelta (so_state s) (St_unobserve eventIds)\<rparr>"

definition trust_keys :: "jsstr list \<Rightarrow> store \<Rightarrow> store" where
  "trust_keys pubkeys s = s\<lparr>so_state := applyStoreDelta (so_state s) (St_trust pubkeys)\<rparr>"

definition untrust_keys :: "jsstr list \<Rightarrow> store \<Rightarrow> store" where
  "untrust_keys pubkeys s = s\<lparr>so_state := applyStoreDelta (so_state s) (St_untrust pubkeys)\<rparr>"

text \<open>\<open>options\<close> is what the caller passes, \<open>applyOptions\<close> what the store was created with.\<close>

definition resolveRoot ::
    "parse_patch \<Rightarrow> options_key \<Rightarrow> jsstr \<Rightarrow> options_key option \<Rightarrow> store \<Rightarrow> resolution \<times> store" where
  "resolveRoot parse applyOptions rootId resolveOptions s =
     (let effective = (case resolveOptions of None \<Rightarrow> applyOptions | Some o' \<Rightarrow> o');
          (resolution, memo) = resolveRootMemoized parse (so_state s) rootId effective (so_memo s)
      in (resolution, s\<lparr>so_memo := memo\<rparr>))"

definition admissionView :: "store \<Rightarrow> admission_view" where
  "admissionView s = trustedView (toIndex (ss_admit (so_state s)))"

definition viewRoot ::
    "parse_patch \<Rightarrow> options_key \<Rightarrow> jsstr \<Rightarrow> options_key \<Rightarrow> admission_view option \<Rightarrow> store \<Rightarrow>
     resolution \<times> store" where
  "viewRoot parse applyOptions rootId apply admission s =
     (let resolveOptions = (case apply of None \<Rightarrow> None | Some _ \<Rightarrow> Some apply);
          (resolution, s') = resolveRoot parse applyOptions rootId resolveOptions s;
          view = (case admission of None \<Rightarrow> admissionView s' | Some v \<Rightarrow> v)
      in (resolution\<lparr>re_overlays := visibleOverlays (re_overlays resolution) view\<rparr>, s'))"

section \<open>What a delta does to the observed events\<close>

lemma observed_after:
  "dget (as_observedById (applyDelta st (Observe es))) i =
     (case dget (as_observedById st) i of None \<Rightarrow> find (\<lambda>e. ev_id e = i) es | Some e \<Rightarrow> Some e)"
  "dget (as_observedById (applyDelta st (Unobserve ids))) i =
     (if i \<in> set ids then None else dget (as_observedById st) i)"
  "as_observedById (applyDelta st (Trust pks)) = as_observedById st"
  "as_observedById (applyDelta st (Untrust pks)) = as_observedById st"
proof -
  have one: "dget (as_observedById (observe_one e w)) i =
      (case dget (as_observedById w) i of None \<Rightarrow> if ev_id e = i then Some e else None | Some e \<Rightarrow> Some e)" for e w
    by (auto simp: observe_one_def dhas_def Let_def split: option.splits)
  have "dget (as_observedById (fold observe_one es w)) i =
      (case dget (as_observedById w) i of None \<Rightarrow> find (\<lambda>e. ev_id e = i) es | Some e \<Rightarrow> Some e)" for es w
    by (induction es arbitrary: w) (auto simp: one split: option.splits)
  then show "dget (as_observedById (applyDelta st (Observe es))) i =
     (case dget (as_observedById st) i of None \<Rightarrow> find (\<lambda>e. ev_id e = i) es | Some e \<Rightarrow> Some e)"
    by (simp add: applyDelta_def apply_delta_step_def toState_def fromState_def)
  have un: "dget (as_observedById (unobserve_one ps ks j w)) i =
      (if i = j then None else dget (as_observedById w) i)" for ps ks j w
    by (auto simp: unobserve_one_def Let_def strip_reasons_spec uncascade_def fold_uncredit_w
        deactivateBinding_def split: option.splits)
  have "dget (as_observedById (fold (unobserve_one ps ks) ids w)) i =
      (if i \<in> set ids then None else dget (as_observedById w) i)" for ps ks ids w
    by (induction ids arbitrary: w) (auto simp: un)
  then show "dget (as_observedById (applyDelta st (Unobserve ids))) i =
     (if i \<in> set ids then None else dget (as_observedById st) i)"
    by (simp add: applyDelta_def apply_delta_step_def toState_def fromState_def Let_def)
  show "as_observedById (applyDelta st (Trust pks)) = as_observedById st"
    "as_observedById (applyDelta st (Untrust pks)) = as_observedById st"
    by (simp_all add: applyDelta_def apply_delta_step_def toState_def fromState_def Let_def fold_when
        fold_map_arg [of "\<lambda>i. credit_w i direct_trust" ev_id] fold_credit_w
        fold_map_arg [of "\<lambda>i. uncredit_w i direct_trust" ev_id] fold_uncredit_w)
qed

section \<open>The pending buffer\<close>

abbreviation awaiters :: "jsstr list dict \<Rightarrow> jsstr \<Rightarrow> jsstr set" where
  "awaiters m a \<equiv> set (idx_get m a)"

lemma awaiting_index: "addAwaiting a e m = idxAdd a e m" "removeAwaiting a e m = idxDrop a e m"
  by (simp_all add: addAwaiting_def idxAdd_def removeAwaiting_def idxDrop_def)

lemma awaiters_add [index_simps]:
  "awaiters (addAwaiting a e m) b = (if b = a then insert e (awaiters m a) else awaiters m b)"
  "awaiters (removeAwaiting a e m) b = (if b = a then awaiters m a - {e} else awaiters m b)"
  by (simp_all add: awaiting_index index_simps)

lemma awaiters_adds [index_simps]:
  "awaiters (fold (\<lambda>a. addAwaiting a e) as m) b = (if b \<in> set as then insert e (awaiters m b) else awaiters m b)"
  by (induction as arbitrary: m) (auto simp: index_simps)

lemma awaiters_removes [index_simps]:
  "awaiters (fold (\<lambda>a. removeAwaiting a e) as m) b = (if b \<in> set as then awaiters m b - {e} else awaiters m b)"
  by (induction as arbitrary: m) (auto simp: index_simps)

lemma awaiters_records [simp]:
  "awaiters (recordToSetMap m) a = awaiters m a" "awaiters (setMapToSortedRecord m) a = awaiters m a"
  by (simp_all add: idx_get_def recordToSetMap_def setMapToSortedRecord_def map_of_map split: option.split)

lemma awaited_unobserved:
  assumes "validateEvent l e = Pending ty aw is" "a \<in> set aw"
  shows "l a = None"
proof -
  have ep: "a \<in> set (snd (checkEndpoint l r t rule)) \<Longrightarrow> l a = None" for r t rule
    by (auto simp: checkEndpoint_def split: option.splits)
  have "a \<in> set (snd (checkBinding l e)) \<Longrightarrow> l a = None"
    by (rule checkBinding_cases [of e]) (auto simp: Let_def dest: ep)
  moreover have "a \<in> set (snd (checkPatch l e)) \<Longrightarrow> l a = None"
    by (rule checkPatch_cases [of e]) (auto simp: checkPatchLineage_def split: option.splits if_splits)
  moreover obtain ty' where "a \<in> set (snd (type_checks l e ty'))"
    using assms by (auto simp: validateEvent_cases Let_def split: if_splits option.splits)
  ultimately show ?thesis
    by (cases ty') (auto simp: type_checks_def)
qed

definition rejected :: "lookup \<Rightarrow> nostr_event \<Rightarrow> bool" where
  "rejected l e \<longleftrightarrow> (case validateEvent l e of Invalid _ \<Rightarrow> True | _ \<Rightarrow> False)"

definition awaited :: "lookup \<Rightarrow> nostr_event \<Rightarrow> jsstr set" where
  "awaited l e = (case validateEvent l e of Pending _ aw _ \<Rightarrow> set aw | _ \<Rightarrow> {})"

lemma rejected_mono: "l \<subseteq>\<^sub>m l' \<Longrightarrow> rejected l e \<Longrightarrow> rejected l' e"
  using verdict_stable [of l l' e] by (auto simp: rejected_def split: validity.splits)

lemma rejected_unawaited:
  "l \<subseteq>\<^sub>m l' \<Longrightarrow> (\<And>a. a \<in> awaited l e \<Longrightarrow> l' a = None) \<Longrightarrow> \<not> rejected l e \<Longrightarrow>
     \<not> rejected l' e \<and> awaited l' e = awaited l e"
  using verdict_stable [of l l' e] by (auto simp: rejected_def awaited_def split: validity.splits)

lemma awaited_None: "a \<in> awaited l e \<Longrightarrow> l a = None"
  by (auto simp: awaited_def split: validity.splits dest: awaited_unobserved)

lemma applyVerdict_effect:
  "wk_invalid (applyVerdict l e w) = (if rejected l e then sadd (ev_id e) (wk_invalid w) else wk_invalid w)"
  "awaiters (wk_pending (applyVerdict l e w)) a =
     (if a \<in> awaited l e then insert (ev_id e) (awaiters (wk_pending w) a) else awaiters (wk_pending w) a)"
  "wk_membership (applyVerdict l e w) = wk_membership w" "wk_overlay (applyVerdict l e w) = wk_overlay w"
  "wk_epoch (applyVerdict l e w) = wk_epoch w"
  by (auto simp: applyVerdict_def rejected_def awaited_def index_simps split: validity.split)

section \<open>The ids known to be invalid\<close>

text \<open>
  An event has been judged: it is known to be invalid, or it was not invalid over some part of the
  universe that includes what is observed now, and it is registered for everything it awaited.
\<close>

definition judged :: "lookup \<Rightarrow> lookup \<Rightarrow> jsstr list \<Rightarrow> jsstr list dict \<Rightarrow> nostr_event \<Rightarrow> bool" where
  "judged full known invalid pending e \<longleftrightarrow>
     ev_id e \<in> set invalid
     \<or> (\<exists>l. known \<subseteq>\<^sub>m l \<and> l \<subseteq>\<^sub>m full \<and> \<not> rejected l e \<and> (\<forall>a \<in> awaited l e. ev_id e \<in> awaiters pending a))"

lemma judged_less:
  "judged full known invalid pending e \<Longrightarrow> known' \<subseteq>\<^sub>m known \<Longrightarrow> judged full known' invalid pending e"
  unfolding judged_def by (meson map_le_trans)

lemma judged_more:
  assumes "judged full known invalid pending e"
    and "set invalid \<subseteq> set invalid'" "\<And>a. ev_id e \<in> awaiters pending a \<Longrightarrow> ev_id e \<in> awaiters pending' a"
  shows "judged full known invalid' pending' e"
  using assms unfolding judged_def by blast

lemma judged_arrival:
  assumes j: "judged full known invalid pending e" and x: "full i = Some x"
    and no: "ev_id e \<notin> awaiters pending i"
  shows "judged full (known(i \<mapsto> x)) invalid pending e"
proof (cases "ev_id e \<in> set invalid")
  case False
  with j obtain l where l: "known \<subseteq>\<^sub>m l" "l \<subseteq>\<^sub>m full" "\<not> rejected l e" "\<forall>a \<in> awaited l e. ev_id e \<in> awaiters pending a"
    unfolding judged_def by blast
  let ?l = "l(i \<mapsto> x)"
  have le: "l \<subseteq>\<^sub>m ?l"
    using l(2) x by (auto simp: map_le_def dom_def)
  have none: "?l a = None" if "a \<in> awaited l e" for a
    using that l(4) no awaited_None [OF that] by auto
  have "\<not> rejected ?l e \<and> awaited ?l e = awaited l e"
    by (rule rejected_unawaited [OF le _ l(3)]) (rule none)
  then have "\<not> rejected ?l e" "\<forall>a \<in> awaited ?l e. ev_id e \<in> awaiters pending a"
    using l(4) by auto
  moreover have "known(i \<mapsto> x) \<subseteq>\<^sub>m ?l" "?l \<subseteq>\<^sub>m full"
    using l(1,2) x by (auto simp: map_le_def dom_def)
  ultimately show ?thesis
    unfolding judged_def by blast
qed (simp add: judged_def)

definition keyed_lookup :: "lookup \<Rightarrow> bool" where
  "keyed_lookup full \<longleftrightarrow> (\<forall>i e. full i = Some e \<longrightarrow> ev_id e = i)"

lemma in_universe:
  "look \<subseteq>\<^sub>m full \<Longrightarrow> keyed_lookup full \<Longrightarrow> look i = Some e \<Longrightarrow> full i = Some e \<and> ev_id e = i"
  unfolding keyed_lookup_def by (metis domI map_le_def)

definition invalid_sound :: "lookup \<Rightarrow> jsstr list \<Rightarrow> bool" where
  "invalid_sound full invalid \<longleftrightarrow> (\<forall>i \<in> set invalid. \<exists>e. full i = Some e \<and> rejected full e)"

lemma judged_verdict:
  assumes "look \<subseteq>\<^sub>m full" "invalid_sound full (wk_invalid w)" "full (ev_id e) = Some e"
  shows "invalid_sound full (wk_invalid (applyVerdict look e w))"
    and "judged full look (wk_invalid (applyVerdict look e w)) (wk_pending (applyVerdict look e w)) e"
proof -
  show "invalid_sound full (wk_invalid (applyVerdict look e w))"
    using assms rejected_mono [OF assms(1), of e] unfolding invalid_sound_def applyVerdict_effect by auto
  show "judged full look (wk_invalid (applyVerdict look e w)) (wk_pending (applyVerdict look e w)) e"
  proof (cases "rejected look e")
    case True
    then show ?thesis by (simp add: judged_def applyVerdict_effect)
  next
    case False
    then show ?thesis
      using assms(1) unfolding judged_def applyVerdict_effect
      by (intro disjI2 exI [of _ look]) simp
  qed
qed

text \<open>The loop over the events that awaited an arrival.\<close>

lemma recheck_fields:
  "wk_membership (recheck look x i w) = wk_membership w" "wk_overlay (recheck look x i w) = wk_overlay w"
  by (simp_all add: recheck_def Let_def bump_targets_def applyVerdict_effect split: option.split)

lemma recheck_keeps:
  assumes full: "look \<subseteq>\<^sub>m full" "keyed_lookup full" and sound: "invalid_sound full (wk_invalid w)"
  shows "invalid_sound full (wk_invalid (recheck look x i w))"
    and "set (wk_invalid w) \<subseteq> set (wk_invalid (recheck look x i w))"
    and "j \<noteq> i \<Longrightarrow> j \<in> awaiters (wk_pending w) a \<Longrightarrow> j \<in> awaiters (wk_pending (recheck look x i w)) a"
    and "look i = Some e \<Longrightarrow>
      judged full look (wk_invalid (recheck look x i w)) (wk_pending (recheck look x i w)) e"
proof -
  let ?w = "w\<lparr>wk_pending := removeAwaiting x i (wk_pending w)\<rparr>"
  have id: "look i = Some e \<Longrightarrow> full (ev_id e) = Some e" for e
    using in_universe [OF full] by metis
  show "set (wk_invalid w) \<subseteq> set (wk_invalid (recheck look x i w))"
    by (auto simp: recheck_def Let_def bump_targets_def applyVerdict_effect split: option.split)
  show "j \<noteq> i \<Longrightarrow> j \<in> awaiters (wk_pending w) a \<Longrightarrow> j \<in> awaiters (wk_pending (recheck look x i w)) a"
    by (auto simp: recheck_def Let_def bump_targets_def applyVerdict_effect index_simps split: option.split)
  have sw: "invalid_sound full (wk_invalid ?w)"
    using sound by simp
  show "invalid_sound full (wk_invalid (recheck look x i w))"
  proof (cases "look i")
    case (Some e)
    then show ?thesis
      using judged_verdict(1) [OF full(1) sw id [OF Some]]
      by (simp add: recheck_def Let_def bump_targets_def)
  qed (use sw in \<open>simp add: recheck_def Let_def\<close>)
  show "judged full look (wk_invalid (recheck look x i w)) (wk_pending (recheck look x i w)) e" if "look i = Some e"
    using judged_verdict(2) [OF full(1) sw id [OF that]] that
    by (simp add: recheck_def Let_def bump_targets_def)
qed

definition judged_all :: "lookup \<Rightarrow> lookup \<Rightarrow> jsstr set \<Rightarrow> jsstr set \<Rightarrow> working \<Rightarrow> bool" where
  "judged_all full look done' except w \<longleftrightarrow>
     invalid_sound full (wk_invalid w)
     \<and> (\<forall>i e. look i = Some e \<longrightarrow> i \<in> done' \<longrightarrow> i \<notin> except \<longrightarrow>
          judged full (look |` done') (wk_invalid w) (wk_pending w) e)"

lemma recheck_all:
  assumes full: "look \<subseteq>\<^sub>m full" "keyed_lookup full"
  shows "judged_all full look D (set is) w \<Longrightarrow> judged_all full look D {} (fold (recheck look x) is w)"
proof (induction "is" arbitrary: w)
  case (Cons i "is")
  have sound: "invalid_sound full (wk_invalid w)"
    using Cons.prems by (simp add: judged_all_def)
  note k = recheck_keeps [OF full sound]
  have "judged_all full look D (set is) (recheck look x i w)"
    unfolding judged_all_def
  proof (intro conjI allI impI)
    show "invalid_sound full (wk_invalid (recheck look x i w))"
      by (rule k(1))
    fix j e assume e: "look j = Some e" "j \<in> D" "j \<notin> set is"
    have id: "ev_id e = j"
      using in_universe [OF full e(1)] by simp
    show "judged full (look |` D) (wk_invalid (recheck look x i w)) (wk_pending (recheck look x i w)) e"
    proof (cases "j = i")
      case True
      with e(1) k(4) have "judged full look (wk_invalid (recheck look x i w)) (wk_pending (recheck look x i w)) e"
        by simp
      then show ?thesis
        by (rule judged_less) (simp add: map_le_def)
    next
      case False
      with Cons.prems e have "judged full (look |` D) (wk_invalid w) (wk_pending w) e"
        by (simp add: judged_all_def)
      then show ?thesis
        by (rule judged_more) (use k(2,3) id False in auto)
    qed
  qed
  then show ?case
    by (simp add: Cons.IH)
qed simp

lemma register_patch_fields [simp]:
  "wk_pending (register_patch e w) = wk_pending w" "wk_invalid (register_patch e w) = wk_invalid w"
  "wk_epoch (register_patch e w) = wk_epoch w"
  by (simp_all add: register_patch_def Let_def split: option.split)

lemma bump_targets_fields [simp]:
  "wk_pending (bump_targets e w) = wk_pending w" "wk_invalid (bump_targets e w) = wk_invalid w"
  "wk_membership (bump_targets e w) = wk_membership w" "wk_overlay (bump_targets e w) = wk_overlay w"
  by (simp_all add: bump_targets_def)

lemma process_judged:
  assumes full: "look \<subseteq>\<^sub>m full" "keyed_lookup full"
    and j: "judged_all full look D {} w" and x: "look (ev_id x) = Some x" "ev_id x \<notin> D"
  shows "judged_all full look (insert (ev_id x) D) {} (processObservedEvent look x w)"
proof -
  let ?i = "ev_id x"
  define w0 where "w0 = bump_targets x (register_patch x w)"
  define w1 where "w1 = applyVerdict look x w0"
  have w0: "wk_invalid w0 = wk_invalid w" "wk_pending w0 = wk_pending w"
    by (simp_all add: w0_def)
  have fx: "full ?i = Some x"
    using in_universe [OF full x(1)] by simp
  have sound: "invalid_sound full (wk_invalid w0)"
    using j by (simp add: judged_all_def w0)
  note v = judged_verdict [OF full(1) sound fx, folded w1_def]
  have grow: "set (wk_invalid w) \<subseteq> set (wk_invalid w1)" "awaiters (wk_pending w) a \<subseteq> awaiters (wk_pending w1) a" for a
    by (auto simp: w1_def applyVerdict_effect w0)
  have look: "look |` insert ?i D = (look |` D)(?i \<mapsto> x)"
    using x(1) by (simp add: restrict_map_insert)
  have "judged_all full look (insert ?i D) (awaiters (wk_pending w1) ?i) w1"
    unfolding judged_all_def
  proof (intro conjI allI impI)
    show "invalid_sound full (wk_invalid w1)" by (rule v(1))
    fix i e assume e: "look i = Some e" "i \<in> insert ?i D" "i \<notin> awaiters (wk_pending w1) ?i"
    have id: "ev_id e = i"
      using in_universe [OF full e(1)] by simp
    show "judged full (look |` insert ?i D) (wk_invalid w1) (wk_pending w1) e"
    proof (cases "i = ?i")
      case True
      with e(1) x(1) have "e = x" by simp
      with v(2) show ?thesis
        by (auto elim: judged_less simp: map_le_def)
    next
      case False
      with e(1,2) j have "judged full (look |` D) (wk_invalid w) (wk_pending w) e"
        by (simp add: judged_all_def)
      then have "judged full (look |` D) (wk_invalid w1) (wk_pending w1) e"
        by (rule judged_more) (use grow in auto)
      then show ?thesis
        unfolding look by (rule judged_arrival) (use fx e(3) id in simp_all)
    qed
  qed
  then have all: "judged_all full look (insert ?i D) {} (fold (recheck look ?i) (idx_get (wk_pending w1) ?i) w1)"
    by (rule recheck_all [OF full])
  have "processObservedEvent look x w = fold (recheck look ?i) (idx_get (wk_pending w1) ?i) w1"
    by (simp add: processObservedEvent_def Let_def w1_def w0_def idx_get_def split: option.split)
  with all show ?thesis by simp
qed

section \<open>The lookup tables\<close>

text \<open>Every observed patch is recorded with its root, and its root waits for what it replies to.\<close>

definition registered :: "jsstr dict \<Rightarrow> jsstr list dict \<Rightarrow> nostr_event \<Rightarrow> bool" where
  "registered membership overlay p \<longleftrightarrow>
     (\<forall>r. scrutinyEventType p = Some Patch \<longrightarrow> rootTarget p = Some r \<longrightarrow>
        dget membership (ev_id p) = Some r \<and> (\<forall>t. replyTarget p = Some t \<longrightarrow> r \<in> awaiters overlay t))"

lemma register_patch_registered:
  "registered (wk_membership (register_patch e w)) (wk_overlay (register_patch e w)) e"
  "registered (wk_membership w) (wk_overlay w) p \<Longrightarrow> ev_id p \<noteq> ev_id e \<Longrightarrow>
     registered (wk_membership (register_patch e w)) (wk_overlay (register_patch e w)) p"
  by (auto simp: registered_def register_patch_def Let_def index_simps split: option.split)

lemma recheck_all_fields:
  "wk_membership (fold (recheck look x) is w) = wk_membership w"
  "wk_overlay (fold (recheck look x) is w) = wk_overlay w"
  by (induction "is" arbitrary: w) (simp_all add: recheck_fields)

lemma process_tables:
  "wk_membership (processObservedEvent look x w) = wk_membership (register_patch x w)"
  "wk_overlay (processObservedEvent look x w) = wk_overlay (register_patch x w)"
  by (simp_all add: processObservedEvent_def Let_def recheck_all_fields applyVerdict_effect split: option.split)

section \<open>A batch\<close>

definition batch_inv :: "lookup \<Rightarrow> lookup \<Rightarrow> jsstr set \<Rightarrow> working \<Rightarrow> bool" where
  "batch_inv full look D w \<longleftrightarrow>
     judged_all full look D {} w \<and> distinct (wk_invalid w)
     \<and> (\<forall>i p. look i = Some p \<longrightarrow> i \<in> D \<longrightarrow> registered (wk_membership w) (wk_overlay w) p)"

lemma recheck_invalid: "distinct (wk_invalid w) \<Longrightarrow> distinct (wk_invalid (recheck look x i w))"
  by (simp add: recheck_def Let_def applyVerdict_effect split: option.split)

lemma process_distinct: "distinct (wk_invalid w) \<Longrightarrow> distinct (wk_invalid (processObservedEvent look x w))"
proof -
  have "distinct (wk_invalid u) \<Longrightarrow> distinct (wk_invalid (fold (recheck look y) is u))" for y "is" u
    by (induction "is" arbitrary: u) (simp_all add: recheck_invalid)
  then show "distinct (wk_invalid w) \<Longrightarrow> ?thesis"
    by (simp add: processObservedEvent_def Let_def applyVerdict_effect split: option.split)
qed

lemma process_batch_inv:
  assumes "look \<subseteq>\<^sub>m full" "keyed_lookup full" "batch_inv full look D w" "look (ev_id x) = Some x" "ev_id x \<notin> D"
  shows "batch_inv full look (insert (ev_id x) D) (processObservedEvent look x w)"
  unfolding batch_inv_def
proof (intro conjI allI impI)
  show "judged_all full look (insert (ev_id x) D) {} (processObservedEvent look x w)"
    using assms(3) unfolding batch_inv_def by (intro process_judged [OF assms(1,2) _ assms(4,5)]) simp
  show "distinct (wk_invalid (processObservedEvent look x w))"
    using assms(3) by (intro process_distinct) (simp add: batch_inv_def)
  fix i p assume p: "look i = Some p" "i \<in> insert (ev_id x) D"
  have id: "ev_id p = i"
    using in_universe [OF assms(1,2) p(1)] by simp
  show "registered (wk_membership (processObservedEvent look x w)) (wk_overlay (processObservedEvent look x w)) p"
  proof (cases "i = ev_id x")
    case True
    with p(1) assms(4) show ?thesis
      by (simp add: process_tables register_patch_registered(1))
  next
    case False
    with p assms(3) have "registered (wk_membership w) (wk_overlay w) p"
      by (simp add: batch_inv_def)
    with False id show ?thesis
      by (simp add: process_tables register_patch_registered(2))
  qed
qed

lemma batch_fold:
  assumes full: "look \<subseteq>\<^sub>m full" "keyed_lookup full"
  shows "batch_inv full look (dom prior \<union> set sn) w \<Longrightarrow> (\<And>x. x \<in> set es \<Longrightarrow> look (ev_id x) = Some x) \<Longrightarrow>
    (case fold (observe_step prior look) es (sn, w) of (sn', w') \<Rightarrow>
       batch_inv full look (dom prior \<union> set sn') w'
       \<and> dom prior \<union> set sn' = dom prior \<union> set sn \<union> ev_id ` set es)"
proof (induction es arbitrary: sn w)
  case (Cons x es)
  show ?case
  proof (cases "prior (ev_id x) \<noteq> None \<or> ev_id x \<in> set sn")
    case True
    then have "ev_id x \<in> dom prior \<union> set sn" by auto
    with True Cons.IH [of sn w] Cons.prems show ?thesis
      by (auto simp: observe_step_def split: prod.splits)
  next
    case False
    then have new: "ev_id x \<notin> dom prior \<union> set sn" by auto
    have "batch_inv full look (insert (ev_id x) (dom prior \<union> set sn)) (processObservedEvent look x w)"
      using Cons.prems by (intro process_batch_inv [OF full _ _ new]) simp_all
    then have "batch_inv full look (dom prior \<union> set (sadd (ev_id x) sn)) (processObservedEvent look x w)"
      by (simp add: insert_commute)
    note IH = Cons.IH [OF this]
    have "observe_step prior look x (sn, w) = (sadd (ev_id x) sn, processObservedEvent look x w)"
      using False by (simp add: observe_step_def)
    with IH Cons.prems(2) show ?thesis
      by (auto split: prod.splits)
  qed
qed simp

section \<open>The invariant of the state\<close>

definition lookup_of :: "store_state \<Rightarrow> lookup" where
  "lookup_of st = dget (as_observedById (ss_admit st))"

definition store_inv :: "lookup \<Rightarrow> store_state \<Rightarrow> bool" where
  "store_inv full st \<longleftrightarrow>
     lookup_of st \<subseteq>\<^sub>m full \<and> invalid_sound full (ss_invalidIds st)
     \<and> sorted (ss_invalidIds st) \<and> distinct (ss_invalidIds st)
     \<and> (\<forall>i e. lookup_of st i = Some e \<longrightarrow>
          judged full (lookup_of st) (ss_invalidIds st) (ss_pendingAwaiting st) e
          \<and> registered (ss_chainMembership st) (ss_overlayAwaiting st) e)"

text \<open>The deltas deliver events of the universe.\<close>

fun delta_in :: "lookup \<Rightarrow> store_delta \<Rightarrow> bool" where
  "delta_in full (St_observe es) = list_all (\<lambda>e. full (ev_id e) = Some e) es"
| "delta_in full _ = True"

lemma store_inv_init: "store_inv full EMPTY_STORE_STATE"
  by (simp add: store_inv_def lookup_of_def EMPTY_STORE_STATE_def EMPTY_ADMIT_STATE_def invalid_sound_def)

definition lookup_after :: "nostr_event list \<Rightarrow> store_state \<Rightarrow> lookup" where
  "lookup_after es st = dget (as_observedById (applyDelta (ss_admit st) (Observe es)))"

lemma lookup_observe:
  assumes "lookup_of st \<subseteq>\<^sub>m full" "list_all (\<lambda>e. full (ev_id e) = Some e) es"
  shows "lookup_after es st \<subseteq>\<^sub>m full"
    and "x \<in> set es \<Longrightarrow> lookup_after es st (ev_id x) = Some x"
    and "lookup_of st \<subseteq>\<^sub>m lookup_after es st"
    and "dom (lookup_after es st) = dom (lookup_of st) \<union> ev_id ` set es"
proof -
  let ?look = "lookup_after es st"
  have ob: "?look i = (case lookup_of st i of None \<Rightarrow> find (\<lambda>e. ev_id e = i) es | Some e \<Rightarrow> Some e)" for i
    by (simp add: observed_after lookup_of_def lookup_after_def)
  have "full i = Some e" if "?look i = Some e" for i e
    using that assms unfolding ob
    by (auto simp: map_leD find_Some_iff list_all_iff split: option.splits)
  then show le: "?look \<subseteq>\<^sub>m full"
    by (auto simp: map_le_def)
  show "?look (ev_id x) = Some x" if "x \<in> set es"
  proof -
    have "?look (ev_id x) \<noteq> None"
      using that find_None_iff [of "\<lambda>e. ev_id e = ev_id x" es] unfolding ob by (auto split: option.split)
    then obtain y where y: "?look (ev_id x) = Some y" by blast
    with le have "full (ev_id x) = Some y"
      by (rule map_leD)
    moreover have "full (ev_id x) = Some x"
      using that assms(2) by (simp add: list_all_iff)
    ultimately show ?thesis using y by simp
  qed
  show "lookup_of st \<subseteq>\<^sub>m ?look"
    unfolding map_le_def ob by (auto split: option.split)
  show "dom ?look = dom (lookup_of st) \<union> ev_id ` set es"
  proof (rule set_eqI)
    fix i
    have "find (\<lambda>e. ev_id e = i) es = None \<longleftrightarrow> i \<notin> ev_id ` set es"
      by (auto simp: find_None_iff)
    then show "i \<in> dom ?look \<longleftrightarrow> i \<in> dom (lookup_of st) \<union> ev_id ` set es"
      unfolding domIff ob Un_iff by (cases "lookup_of st i") simp_all
  qed
qed

lemma judged_records:
  "judged full known (sort invalid) (setMapToSortedRecord pending) e = judged full known invalid pending e"
  "judged full known (set_of invalid) (recordToSetMap pending) e = judged full known invalid pending e"
  by (simp_all add: judged_def)

lemma registered_records:
  "registered membership (setMapToSortedRecord overlay) e = registered membership overlay e"
  "registered membership (recordToSetMap overlay) e = registered membership overlay e"
  by (simp_all add: registered_def)

definition working_of :: "store_state \<Rightarrow> working" where
  "working_of st =
     \<lparr>wk_membership = ss_chainMembership st, wk_pending = recordToSetMap (ss_pendingAwaiting st),
      wk_epoch = ss_chainEpoch st, wk_invalid = set_of (ss_invalidIds st),
      wk_overlay = recordToSetMap (ss_overlayAwaiting st)\<rparr>"

lemma working_of_fields [simp]:
  "wk_membership (working_of st) = ss_chainMembership st" "wk_epoch (working_of st) = ss_chainEpoch st"
  "wk_invalid (working_of st) = set_of (ss_invalidIds st)"
  by (simp_all add: working_of_def)

definition observed_state :: "nostr_event list \<Rightarrow> store_state \<Rightarrow> working \<Rightarrow> store_state" where
  "observed_state es st w' =
     \<lparr>ss_admit = applyDelta (ss_admit st) (Observe es), ss_invalidIds = sort (wk_invalid w'),
      ss_chainMembership = wk_membership w', ss_pendingAwaiting = setMapToSortedRecord (wk_pending w'),
      ss_overlayAwaiting = setMapToSortedRecord (wk_overlay w'),
      ss_trustEpoch = ss_trustEpoch st, ss_observedEpoch = ss_observedEpoch st + 1,
      ss_chainEpoch = wk_epoch w'\<rparr>"

lemma observe_batch:
  assumes keyed: "keyed_lookup full" and inv: "store_inv full st"
    and es: "list_all (\<lambda>e. full (ev_id e) = Some e) es"
  obtains sn w' where
    "fold (observe_step (lookup_of st) (lookup_after es st)) es ([], working_of st) = (sn, w')"
    "dom (lookup_of st) \<union> set sn = dom (lookup_after es st)"
    "batch_inv full (lookup_after es st) (dom (lookup_of st)) (working_of st)"
    "batch_inv full (lookup_after es st) (dom (lookup_after es st)) w'"
    "store_observe es st = observed_state es st w'"
proof -
  define look where "look = lookup_after es st"
  have le: "lookup_of st \<subseteq>\<^sub>m full"
    using inv by (simp add: store_inv_def)
  note lo = lookup_observe [OF le es, folded look_def]
  let ?w = "working_of st"
  obtain sn w' where f: "fold (observe_step (lookup_of st) look) es ([], ?w) = (sn, w')"
    by fastforce
  have res: "look |` dom (lookup_of st) = lookup_of st"
    using lo(3) by (auto simp: map_le_def restrict_map_def dom_def)
  have start: "batch_inv full look (dom (lookup_of st)) ?w"
    unfolding batch_inv_def judged_all_def
  proof (intro conjI allI impI)
    show "invalid_sound full (wk_invalid ?w)" "distinct (wk_invalid ?w)"
      using inv by (simp_all add: store_inv_def invalid_sound_def)
    fix i e assume i: "look i = Some e" "i \<in> dom (lookup_of st)"
    then have "lookup_of st i = Some e"
      using lo(3) by (auto simp: map_le_def dom_def)
    with inv have "judged full (lookup_of st) (ss_invalidIds st) (ss_pendingAwaiting st) e"
      "registered (ss_chainMembership st) (ss_overlayAwaiting st) e"
      by (simp_all add: store_inv_def)
    then show "judged full (look |` dom (lookup_of st)) (wk_invalid ?w) (wk_pending ?w) e"
      "registered (wk_membership ?w) (wk_overlay ?w) e"
      by (simp_all add: working_of_def judged_records registered_records res)
  qed
  then have b: "batch_inv full look (dom (lookup_of st) \<union> set sn) w' \<and> dom (lookup_of st) \<union> set sn = dom look"
    unfolding lo(4) using batch_fold [OF lo(1) keyed, of "lookup_of st" "[]" ?w es] lo(2) f by auto
  then have "batch_inv full look (dom look) w'"
    by (elim conjE) (simp only:)
  moreover have "store_observe es st = observed_state es st w'"
    using f unfolding observed_state_def store_observe_def Let_def working_of_def look_def lookup_of_def lookup_after_def by simp
  ultimately show thesis
    using that [OF f [unfolded look_def]] start b unfolding look_def by blast
qed

lemma store_observe_inv:
  assumes keyed: "keyed_lookup full" and inv: "store_inv full st"
    and es: "list_all (\<lambda>e. full (ev_id e) = Some e) es"
  shows "store_inv full (store_observe es st)"
proof -
  define look where "look = lookup_after es st"
  have le: "lookup_of st \<subseteq>\<^sub>m full"
    using inv by (simp add: store_inv_def)
  obtain sn w' where f: "fold (observe_step (lookup_of st) look) es ([], working_of st) = (sn, w')"
    and sn: "dom (lookup_of st) \<union> set sn = dom look"
    and start: "batch_inv full look (dom (lookup_of st)) (working_of st)"
    and b: "batch_inv full look (dom look) w'" and st': "store_observe es st = observed_state es st w'"
    by (rule observe_batch [OF keyed inv es, folded look_def])
  note st' = st' [unfolded observed_state_def]
  have look': "lookup_of (store_observe es st) = look"
    by (simp add: st' lookup_of_def look_def lookup_after_def)
  show ?thesis
    unfolding store_inv_def look'
  proof (intro conjI allI impI)
    show "look \<subseteq>\<^sub>m full"
      unfolding look_def by (rule lookup_observe(1) [OF le es])
    show "invalid_sound full (ss_invalidIds (store_observe es st))"
      using b by (simp add: st' batch_inv_def judged_all_def invalid_sound_def)
    show "sorted (ss_invalidIds (store_observe es st))" "distinct (ss_invalidIds (store_observe es st))"
      using b by (simp_all add: st' batch_inv_def)
    fix i e assume e: "look i = Some e"
    have "look |` dom look = look"
      by (auto simp: restrict_map_def dom_def)
    with b e show "judged full look (ss_invalidIds (store_observe es st)) (ss_pendingAwaiting (store_observe es st)) e"
      by (auto simp: st' judged_records batch_inv_def judged_all_def)
    show "registered (ss_chainMembership (store_observe es st)) (ss_overlayAwaiting (store_observe es st)) e"
      using b e by (auto simp: st' registered_records batch_inv_def)
  qed
qed

lemma unobserve_pending:
  "e \<notin> set ids \<Longrightarrow> e \<in> awaiters pending a \<Longrightarrow> e \<in> awaiters (fst (fold (unobserve_step st) ids (pending, epochs))) a"
proof (induction ids arbitrary: pending epochs)
  case (Cons i ids)
  obtain pending' epochs' where p: "unobserve_step st i (pending, epochs) = (pending', epochs')"
    by fastforce
  have "e \<in> awaiters pending' a"
    using p Cons.prems by (auto simp: unobserve_step_def Let_def index_simps split: option.splits validity.splits if_splits)
  with Cons p show ?case by simp
qed simp

lemma store_unobserve_inv:
  assumes keyed: "keyed_lookup full" and inv: "store_inv full st"
  shows "store_inv full (store_unobserve ids st)"
proof -
  obtain pending epochs where f: "fold (unobserve_step st) ids (recordToSetMap (ss_pendingAwaiting st), ss_chainEpoch st)
      = (pending, epochs)"
    by fastforce
  have st': "store_unobserve ids st = st\<lparr>ss_admit := applyDelta (ss_admit st) (Unobserve ids),
      ss_pendingAwaiting := setMapToSortedRecord pending, ss_observedEpoch := ss_observedEpoch st + 1,
      ss_chainEpoch := epochs\<rparr>"
    using f by (simp add: store_unobserve_def)
  have look: "lookup_of (store_unobserve ids st) i = (if i \<in> set ids then None else lookup_of st i)" for i
    by (simp add: st' lookup_of_def observed_after)
  have less: "lookup_of (store_unobserve ids st) \<subseteq>\<^sub>m lookup_of st"
    by (auto simp: map_le_def dom_def look split: if_splits)
  show ?thesis
    unfolding store_inv_def
  proof (intro conjI allI impI)
    show "lookup_of (store_unobserve ids st) \<subseteq>\<^sub>m full"
      using inv less map_le_trans unfolding store_inv_def by blast
    show "invalid_sound full (ss_invalidIds (store_unobserve ids st))"
      "sorted (ss_invalidIds (store_unobserve ids st))" "distinct (ss_invalidIds (store_unobserve ids st))"
      using inv by (simp_all add: st' store_inv_def)
    fix i e assume "lookup_of (store_unobserve ids st) i = Some e"
    then have i: "i \<notin> set ids" "lookup_of st i = Some e"
      by (auto simp: look split: if_splits)
    then have j: "judged full (lookup_of st) (ss_invalidIds st) (ss_pendingAwaiting st) e"
      and r: "registered (ss_chainMembership st) (ss_overlayAwaiting st) e"
      using inv unfolding store_inv_def by blast+
    show "registered (ss_chainMembership (store_unobserve ids st)) (ss_overlayAwaiting (store_unobserve ids st)) e"
      using r by (simp add: st')
    have "judged full (lookup_of (store_unobserve ids st)) (ss_invalidIds st) (ss_pendingAwaiting st) e"
      using j less by (rule judged_less)
    then show "judged full (lookup_of (store_unobserve ids st)) (ss_invalidIds (store_unobserve ids st))
        (ss_pendingAwaiting (store_unobserve ids st)) e"
    proof (rule judged_more)
      fix a assume "ev_id e \<in> awaiters (ss_pendingAwaiting st) a"
      then have "ev_id e \<in> awaiters (recordToSetMap (ss_pendingAwaiting st)) a"
        by simp
      moreover have "ev_id e \<notin> set ids"
        using in_universe [of "lookup_of st", OF _ keyed i(2)] inv i(1) by (simp add: store_inv_def)
      ultimately have "ev_id e \<in> awaiters pending a"
        using unobserve_pending [of "ev_id e" ids "recordToSetMap (ss_pendingAwaiting st)" a st "ss_chainEpoch st"] f
        by simp
      then show "ev_id e \<in> awaiters (ss_pendingAwaiting (store_unobserve ids st)) a"
        by (simp add: st')
    qed (simp add: st')
  qed
qed

section \<open>Runs of the reducer\<close>

fun delta_events :: "store_delta \<Rightarrow> nostr_event list" where
  "delta_events (St_observe es) = es"
| "delta_events _ = []"

fun is_unobserve :: "store_delta \<Rightarrow> bool" where
  "is_unobserve (St_unobserve ids) = True"
| "is_unobserve _ = False"

text \<open>The events a run delivers, and the keys it leaves trusted.\<close>

definition delivered :: "store_delta list \<Rightarrow> nostr_event list" where
  "delivered ds = concat (map delta_events ds)"

fun trust_step :: "jsstr set \<Rightarrow> store_delta \<Rightarrow> jsstr set" where
  "trust_step T (St_trust ks) = T \<union> set ks"
| "trust_step T (St_untrust ks) = T - set ks"
| "trust_step T _ = T"

abbreviation keys_after :: "store_delta list \<Rightarrow> jsstr set" where
  "keys_after ds \<equiv> foldl trust_step {} ds"

abbreviation state_after :: "store_delta list \<Rightarrow> store_state" where
  "state_after ds \<equiv> foldl applyStoreDelta EMPTY_STORE_STATE ds"

lemma ss_admit_observe: "ss_admit (store_observe es st) = applyDelta (ss_admit st) (Observe es)"
  by (simp add: store_observe_def Let_def split: prod.split)

lemma ss_admit_unobserve: "ss_admit (store_unobserve ids st) = applyDelta (ss_admit st) (Unobserve ids)"
  by (simp add: store_unobserve_def Let_def split: prod.split)

lemma applyStoreDelta_inv:
  "store_inv full st \<Longrightarrow> keyed_lookup full \<and> delta_in full d \<Longrightarrow> store_inv full (applyStoreDelta st d)"
  by (cases d)
    (simp_all add: applyStoreDelta_def store_observe_inv store_unobserve_inv,
     simp_all add: store_inv_def lookup_of_def observed_after)

interpretation reducer: invariant EMPTY_STORE_STATE applyStoreDelta
    "\<lambda>_ d. keyed_lookup full \<and> delta_in full d" "store_inv full" for full :: lookup
  by unfold_locales (simp_all add: store_inv_init applyStoreDelta_inv)

lemma run_in: "keyed_lookup full \<Longrightarrow> list_all (delta_in full) ds \<Longrightarrow> store_inv full (state_after ds)"
  by (rule reducer.run_inv) (auto intro: run_ok_all)

text \<open>Trust and admission are threaded through.\<close>

lemma trusted_after: "set (as_trusted (ss_admit (state_after ds))) = keys_after ds"
proof -
  have step: "set (as_trusted (ss_admit (applyStoreDelta st d))) = trust_step (set (as_trusted (ss_admit st))) d" for st d
    by (cases d) (simp_all add: applyStoreDelta_def ss_admit_observe ss_admit_unobserve applyDelta_trusted)
  have "set (as_trusted (ss_admit (foldl applyStoreDelta st ds)))
      = foldl trust_step (set (as_trusted (ss_admit st))) ds" for st
    by (induction ds arbitrary: st) (simp_all add: step)
  then show ?thesis
    by (simp add: EMPTY_STORE_STATE_def EMPTY_ADMIT_STATE_def)
qed

lemma delivered_Cons [simp]: "delivered (d # ds) = delta_events d @ delivered ds" "delivered [] = []"
  by (simp_all add: delivered_def)

lemma no_root_deletions_append [simp]:
  "no_root_deletions (es @ es') \<longleftrightarrow> no_root_deletions es \<and> no_root_deletions es'"
  by (simp add: no_root_deletions_def)

lemma observing_run:
  "admit_inv (ss_admit st) \<Longrightarrow> list_all (\<lambda>d. \<not> is_unobserve d) ds \<Longrightarrow> no_root_deletions (delivered ds) \<Longrightarrow>
     admit_inv (ss_admit (foldl applyStoreDelta st ds))
     \<and> lookup_of (foldl applyStoreDelta st ds) i =
        (case lookup_of st i of None \<Rightarrow> find (\<lambda>e. ev_id e = i) (delivered ds) | Some e \<Rightarrow> Some e)"
proof (induction ds arbitrary: st)
  case (Cons d ds)
  let ?st = "applyStoreDelta st d"
  have "admit_inv (ss_admit ?st) \<and> lookup_of ?st i =
        (case lookup_of st i of None \<Rightarrow> find (\<lambda>e. ev_id e = i) (delta_events d) | Some e \<Rightarrow> Some e)"
    using Cons.prems
    by (cases d) (auto simp: applyStoreDelta_def ss_admit_observe lookup_of_def observed_after
        intro: applyDelta_inv split: option.split)
  moreover have "find P (es @ es') = (case find P es of None \<Rightarrow> find P es' | Some e \<Rightarrow> Some e)" for P and es es' :: "nostr_event list"
    by (induction es) auto
  ultimately show ?case
    using Cons.IH [of ?st] Cons.prems by (auto split: option.splits)
qed (simp split: option.split)

lemma lookup_after_run:
  assumes "list_all (\<lambda>d. \<not> is_unobserve d) ds" "no_root_deletions (delivered ds)"
  shows "admit_inv (ss_admit (state_after ds))" "lookup_of (state_after ds) = dget (dedupeById (delivered ds))"
  using observing_run [OF _ assms, of EMPTY_STORE_STATE] admit_inv_init
  by (auto simp: dget_dedupeById lookup_of_def EMPTY_STORE_STATE_def EMPTY_ADMIT_STATE_def)

lemma delivered_in:
  "id_consistent (set (delivered ds)) \<Longrightarrow> list_all (delta_in (dget (dedupeById (delivered ds)))) ds"
proof -
  assume c: "id_consistent (set (delivered ds))"
  have "set (delta_events d) \<subseteq> set (delivered ds)" if "d \<in> set ds" for d
    using that by (induction ds) auto
  then have "delta_in (dget (dedupeById (delivered ds))) d" if "d \<in> set ds" for d
    using that by (cases d) (force simp: list_all_iff dget_dedupe_consistent [OF c])+
  then show ?thesis
    by (simp add: list_all_iff)
qed

lemma keyed_lookup_dedupe: "keyed_lookup (dget (dedupeById es))"
  by (auto simp: keyed_lookup_def dget_dedupeById find_Some_iff)


section \<open>What the state knows\<close>

lemma invalid_complete:
  assumes "store_inv full st" "lookup_of st i = Some e" "rejected (lookup_of st) e" "keyed_lookup full"
  shows "i \<in> set (ss_invalidIds st)"
proof -
  have "judged full (lookup_of st) (ss_invalidIds st) (ss_pendingAwaiting st) e"
    using assms(1,2) unfolding store_inv_def by blast
  then have "ev_id e \<in> set (ss_invalidIds st)"
    using rejected_mono [OF _ assms(3)] unfolding judged_def by blast
  then show ?thesis
    using in_universe [of "lookup_of st" full] assms by (auto simp: store_inv_def)
qed

text \<open>
  C23. (BD-7, section 4.3) After any run of deltas over events whose ids are content hashes, removals
  included, every observed event that is invalid over what is observed is in \<open>invalidIds\<close>, and
  every id in it is that of an event that is invalid over all that was ever delivered: the buffer of
  pending references misses no verdict and invents none. The ids are listed once, in order.
\<close>

theorem invalidIds_bounds:
  assumes "id_consistent (set (delivered ds))"
  shows "{i. \<exists>e. lookup_of (state_after ds) i = Some e \<and> rejected (lookup_of (state_after ds)) e}
           \<subseteq> set (ss_invalidIds (state_after ds))
       \<and> set (ss_invalidIds (state_after ds))
           \<subseteq> ev_id ` {e \<in> set (delivered ds). rejected (dget (dedupeById (delivered ds))) e}
       \<and> sorted (ss_invalidIds (state_after ds)) \<and> distinct (ss_invalidIds (state_after ds))"
proof -
  let ?full = "dget (dedupeById (delivered ds))"
  have inv: "store_inv ?full (state_after ds)"
    by (rule run_in [OF keyed_lookup_dedupe delivered_in [OF assms]])
  moreover have "i \<in> ev_id ` {e \<in> set (delivered ds). rejected ?full e}" if "?full i = Some e" "rejected ?full e" for i e
    using that dget_dedupe_consistent [OF assms, of i e] by blast
  moreover note invalid_complete [OF inv _ _ keyed_lookup_dedupe]
  ultimately show ?thesis
    unfolding store_inv_def invalid_sound_def by blast
qed

text \<open>What the store is meant to show, read off the delivered events and the trusted keys at once.\<close>

definition spec_view :: "nostr_event list \<Rightarrow> (jsstr \<Rightarrow> bool) \<Rightarrow> jsstr list \<times> (jsstr \<Rightarrow> jsstr list option) \<times> jsstr list" where
  "spec_view es T =
     (sort (remdups (map ev_id es)), dget (ai_reasons (computeAdmission es T)),
      sort (remdups (map ev_id (filter (rejected (dget (dedupeById es))) es))))"

definition view_of :: "store_view \<Rightarrow> jsstr list \<times> (jsstr \<Rightarrow> jsstr list option) \<times> jsstr list" where
  "view_of v = (sv_observedIds v, dget (ai_reasons (sv_admission v)), sv_invalidIds v)"

lemma view_exact:
  assumes "id_consistent (set (delivered ds))" "list_all (\<lambda>d. \<not> is_unobserve d) ds"
    and "no_root_deletions (delivered ds)"
  shows "view_of (toStoreView (state_after ds)) = spec_view (delivered ds) (\<lambda>pk. pk \<in> keys_after ds)"
proof -
  let ?st = "state_after ds" and ?es = "delivered ds"
  let ?obs = "as_observedById (ss_admit ?st)"
  have ai: "admit_inv (ss_admit ?st)" and look: "dget ?obs = dget (dedupeById ?es)"
    using lookup_after_run [OF assms(2,3)] by (simp_all add: lookup_of_def)
  have wk: "keyed ?obs" "distinct (dkeys ?obs)"
    using ai by (simp_all add: admit_inv_def synced_def well_keyed_def)
  have keys: "i \<in> set (dkeys ?obs) \<longleftrightarrow> i \<in> ev_id ` set ?es" for i
  proof -
    have "i \<in> set (dkeys ?obs) \<longleftrightarrow> dget ?obs i \<noteq> None"
      by (simp add: map_of_eq_None_iff)
    also have "\<dots> \<longleftrightarrow> i \<in> ev_id ` set ?es"
      by (auto simp: look dget_dedupeById find_Some_iff find_None_iff not_None_eq [symmetric] simp del: not_None_eq)
    finally show ?thesis .
  qed
  have "sort (dkeys ?obs) = sort (remdups (map ev_id ?es))"
    by (rule sort_set_eq) (use wk(2) keys in auto)
  moreover have "dget (ai_reasons (toIndex (ss_admit ?st))) = dget (ai_reasons (computeAdmission ?es (\<lambda>pk. pk \<in> keys_after ds)))"
  proof -
    have "set (dvalues ?obs) = set ?es"
      by (rule set_eqI) (simp only: keyed_values [OF wk] look dget_dedupe_consistent [OF assms(1)] simp_thms)
    moreover have "trusts (ss_admit ?st) = (\<lambda>pk. pk \<in> keys_after ds)"
      by (simp add: trusted_after)
    ultimately show ?thesis
      using admit_inv_oracle [OF ai] computeAdmission_set [OF assms(1) sym assms(3), of "dvalues ?obs"] by (simp only:)
  qed
  moreover have "ss_invalidIds ?st = sort (remdups (map ev_id (filter (rejected (dget (dedupeById ?es))) ?es)))"
  proof -
    have inv: "store_inv (dget (dedupeById ?es)) ?st"
      by (rule run_in [OF keyed_lookup_dedupe delivered_in [OF assms(1)]])
    have dg: "dget (dedupeById ?es) i = Some e \<longleftrightarrow> e \<in> set ?es \<and> ev_id e = i" for i e
      by (rule dget_dedupe_consistent [OF assms(1)])
    have look': "lookup_of ?st = dget (dedupeById ?es)"
      by (simp only: lookup_of_def look)
    have sound: "\<exists>e. dget (dedupeById ?es) i = Some e \<and> rejected (dget (dedupeById ?es)) e"
      if "i \<in> set (ss_invalidIds ?st)" for i
      using inv that unfolding store_inv_def invalid_sound_def by blast
    have "i \<in> set (ss_invalidIds ?st) \<longleftrightarrow> i \<in> ev_id ` {e \<in> set ?es. rejected (dget (dedupeById ?es)) e}" for i
    proof
      assume "i \<in> set (ss_invalidIds ?st)"
      then show "i \<in> ev_id ` {e \<in> set ?es. rejected (dget (dedupeById ?es)) e}"
        using sound [of i] unfolding dg by blast
    next
      assume "i \<in> ev_id ` {e \<in> set ?es. rejected (dget (dedupeById ?es)) e}"
      then obtain e where "e \<in> set ?es" "ev_id e = i" "rejected (dget (dedupeById ?es)) e"
        by blast
      then show "i \<in> set (ss_invalidIds ?st)"
        by (intro invalid_complete [OF inv _ _ keyed_lookup_dedupe, of i e]) (simp_all only: look' dg simp_thms)
    qed
    then have "set (ss_invalidIds ?st) = set (remdups (map ev_id (filter (rejected (dget (dedupeById ?es))) ?es)))"
      by auto
    then have "sort (ss_invalidIds ?st) = sort (remdups (map ev_id (filter (rejected (dget (dedupeById ?es))) ?es)))"
      using inv by (intro sort_set_eq) (simp_all add: store_inv_def)
    then show ?thesis
      using inv by (simp add: store_inv_def sorted_sort_id)
  qed
  ultimately show ?thesis
    by (simp add: view_of_def spec_view_def toStoreView_def)
qed

text \<open>
  C3. The incremental store shows what a single pass over everything shows: after any run of \<open>observe\<close>,
  \<open>trust\<close> and \<open>untrust\<close> deltas, none of them a removal, that delivers no two events with one id and no deletion
  (kind 5) that is also typed as a product or a metadata, its view lists the delivered ids, the admission a full
  recompute finds for the keys that are trusted at the end, and the ids of the events that are invalid
  over everything delivered.
\<close>

theorem store_refines_batch:
  assumes "id_consistent (set (delivered ds))" "list_all (\<lambda>d. \<not> is_unobserve d) ds"
    and "no_root_deletions (delivered ds)"
  shows "view_of (toStoreView (foldl applyStoreDelta EMPTY_STORE_STATE ds)) =
           spec_view (delivered ds) (\<lambda>pk. pk \<in> keys_after ds)"
  by (rule view_exact [OF assms])

text \<open>
  C4. (SG1, UR-1) The store is confluent: two runs of \<open>observe\<close>, \<open>trust\<close> and \<open>untrust\<close> deltas, without removals,
  that deliver the same events, in whatever order, batches and repetitions, and end with the same trusted keys,
  have the same view, when ids are content hashes and no delivered deletion (kind 5) is also typed as a product or a
  metadata.
\<close>

theorem store_confluent:
  assumes "id_consistent (set (delivered ds))" "set (delivered ds) = set (delivered ds')"
    and "keys_after ds = keys_after ds'" "no_root_deletions (delivered ds)"
    and "list_all (\<lambda>d. \<not> is_unobserve d) ds" "list_all (\<lambda>d. \<not> is_unobserve d) ds'"
  shows "view_of (toStoreView (foldl applyStoreDelta EMPTY_STORE_STATE ds)) =
         view_of (toStoreView (foldl applyStoreDelta EMPTY_STORE_STATE ds'))"
proof -
  have n: "no_root_deletions (delivered ds')" and c: "id_consistent (set (delivered ds'))"
    using assms(1,2,4) by (simp_all add: no_root_deletions_def list_all_iff)
  have "dget (dedupeById (delivered ds)) = dget (dedupeById (delivered ds'))"
    by (rule dedupe_perm(2) [OF assms(1,2)])
  moreover have "dget (ai_reasons (computeAdmission (delivered ds) T)) =
      dget (ai_reasons (computeAdmission (delivered ds') T))" for T
    by (rule computeAdmission_set [OF assms(1,2,4)])
  moreover have "sort (remdups (map ev_id (filter P (delivered ds)))) =
      sort (remdups (map ev_id (filter P (delivered ds'))))" for P
    by (rule sort_set_eq) (use assms(2) in auto)
  from this this [of "\<lambda>_. True"] have "sort (remdups (map ev_id (filter P (delivered ds)))) =
      sort (remdups (map ev_id (filter P (delivered ds'))))"
    "sort (remdups (map ev_id (delivered ds))) = sort (remdups (map ev_id (delivered ds')))" for P
    by simp_all
  ultimately show ?thesis
    unfolding view_exact [OF assms(1,5,4)] view_exact [OF c assms(6) n] spec_view_def assms(3) by simp
qed

section \<open>Epochs\<close>

lemma epoch_bump [simp]: "epoch_of (bump i m) r = epoch_of m r + (if r = i then 1 else 0)"
  by (simp add: bump_def epoch_of_def split: option.split)

lemma epoch_bumps: "epoch_of (fold bump ids m) r = epoch_of m r + count_list ids r"
  by (induction ids arbitrary: m) auto

lemma count_unbumped: "m + count_list ids r = m \<longleftrightarrow> r \<notin> set ids"
  by (simp add: count_list_0_iff)

text \<open>The roots an event affects, as the tables stand.\<close>

abbreviation affected :: "jsstr dict \<Rightarrow> jsstr list dict \<Rightarrow> nostr_event \<Rightarrow> jsstr set" where
  "affected membership overlay e \<equiv> set (chainEpochTargets e (dget membership) (dget overlay))"

lemma epoch_bump_targets:
  "epoch_of (wk_epoch (bump_targets e w)) r =
     epoch_of (wk_epoch w) r
     + count_list (chainEpochTargets e (dget (wk_membership w)) (dget (wk_overlay w))) r"
  by (simp add: bump_targets_def epoch_bumps)

text \<open>
  What keeps the memo of a root exact: it is only ever a product or a metadata, deletions carry no type,
  and a patch on it replies to it or to another patch on it.
\<close>

definition rooted :: "jsstr \<Rightarrow> nostr_event set \<Rightarrow> bool" where
  "rooted r E \<longleftrightarrow>
     (\<forall>e \<in> E. (ev_id e = r \<longrightarrow> scrutinyEventType e = Some Product \<or> scrutinyEventType e = Some Metadata)
       \<and> (ev_kind e = DELETION_KIND \<longrightarrow> scrutinyEventType e = None)
       \<and> (scrutinyEventType e = Some Patch \<longrightarrow> rootTarget e = Some r \<longrightarrow>
            (\<forall>q \<in> E. replyTarget e = Some (ev_id q) \<longrightarrow> ev_id q \<noteq> r \<longrightarrow>
               scrutinyEventType q = Some Patch \<and> rootTarget q = Some r)))"

definition patch_on :: "jsstr \<Rightarrow> nostr_event \<Rightarrow> bool" where
  "patch_on r p \<longleftrightarrow> scrutinyEventType p = Some Patch \<and> rootTarget p = Some r"

lemma rooted_reply:
  assumes "rooted r E" "p \<in> E" "q \<in> E" "patch_on r p" "replyTarget p = Some (ev_id q)" "ev_id q \<noteq> r"
  shows "patch_on r q" "ev_kind q \<noteq> DELETION_KIND"
proof -
  show "patch_on r q"
    using assms unfolding rooted_def patch_on_def by blast
  then show "ev_kind q \<noteq> DELETION_KIND"
    using assms(1,3) unfolding rooted_def patch_on_def by fastforce
qed

text \<open>An event that the resolution of the root does not read, as long as the patches on it are \<open>P\<close>.\<close>

definition irrelevant :: "jsstr \<Rightarrow> nostr_event set \<Rightarrow> nostr_event \<Rightarrow> bool" where
  "irrelevant r P x \<longleftrightarrow> ev_id x \<noteq> r \<and> \<not> patch_on r x
     \<and> (\<forall>p \<in> P. replyTarget p \<noteq> Some (ev_id x)
          \<and> \<not> (ev_kind x = DELETION_KIND \<and> ev_id p \<in> er_id ` set (eTags x)))"

definition registered_all :: "jsstr \<Rightarrow> nostr_event set \<Rightarrow> working \<Rightarrow> bool" where
  "registered_all r P w \<longleftrightarrow>
     (\<forall>p \<in> P. patch_on r p \<and> registered (wk_membership w) (wk_overlay w) p)"

lemma unaffected_irrelevant:
  assumes "rooted r E" "x \<in> E" "r \<notin> affected membership overlay x"
    and "\<forall>p \<in> P. patch_on r p \<and> registered membership overlay p"
  shows "irrelevant r P x"
  unfolding irrelevant_def
proof (intro conjI ballI)
  note t = assms(3) [unfolded chainEpochTargets_def Let_def]
  have type: "scrutinyEventType x = None" if "ev_kind x = DELETION_KIND"
    using that assms(1,2) by (simp add: rooted_def)
  show "ev_id x \<noteq> r"
    using assms(1,2) t by (auto simp: rooted_def)
  show "\<not> patch_on r x"
    using t by (auto simp: patch_on_def)
  fix p assume "p \<in> P"
  then have p: "dget membership (ev_id p) = Some r" "\<And>t. replyTarget p = Some t \<Longrightarrow> r \<in> awaiters overlay t"
    using assms(4) by (auto simp: registered_def patch_on_def)
  show "replyTarget p \<noteq> Some (ev_id x)"
    using p(2) t by (auto simp: idx_get_def split: option.splits)
  show "\<not> (ev_kind x = DELETION_KIND \<and> ev_id p \<in> er_id ` set (eTags x))"
    using p(1) t type by (force split: option.splits)
qed

section \<open>The view a root is resolved over\<close>

definition valid_lookup :: "store_state \<Rightarrow> lookup" where
  "valid_lookup st i = (if i \<in> set (ss_invalidIds st) then None else lookup_of st i)"

lemma find_valid:
  "keyed d \<Longrightarrow> distinct (dkeys d) \<Longrightarrow>
     find (\<lambda>e. ev_id e = i) (filter (\<lambda>e. ev_id e \<notin> A) (dvalues d)) = (if i \<in> A then None else dget d i)"
proof (induction d)
  case (Cons a d)
  obtain k e where a: "a = (k, e)" by fastforce
  have "keyed d"
    using Cons.prems unfolding keyed_def a by (metis distinct.simps(2) list.simps(9) fst_conv map_of_Cons_code(2) map_of_eq_None_iff option.distinct(1) set_map)
  moreover have "ev_id e = k"
    using Cons.prems(1) unfolding keyed_def a by simp
  moreover have "i = k \<Longrightarrow> dget d i = None"
    using Cons.prems(2) unfolding a by (simp add: map_of_eq_None_iff)
  ultimately show ?case
    using Cons.IH Cons.prems(2) unfolding a by auto
qed simp

lemma valid_events_lookup:
  assumes "keyed (as_observedById (ss_admit st))" "distinct (dkeys (as_observedById (ss_admit st)))"
  shows "dget (dedupeById (valid_events st)) = valid_lookup st"
  unfolding dget_dedupeById valid_events_def
  by (rule ext) (simp only: dget_dedupeById find_valid [OF assms] valid_lookup_def lookup_of_def)

lemma root_patches_lookup:
  "p \<in> set (root_patches r (dedupeById es)) \<longleftrightarrow>
     dget (dedupeById es) (ev_id p) = Some p \<and> ev_kind p \<noteq> DELETION_KIND \<and> patch_on r p"
  by (simp only: root_patches_def set_filter mem_Collect_eq keyed_values [OF dedupe_observed(1) keys_dedupeById]
      patch_on_def)

lemma same_view:
  assumes full: "look \<subseteq>\<^sub>m full" "look' \<subseteq>\<^sub>m full" "keyed_lookup full" and rooted: "rooted r (ran full)"
    and es: "dget (dedupeById es) = look" "dget (dedupeById es') = look'"
    and P: "\<And>i p. look i = Some p \<Longrightarrow> patch_on r p \<Longrightarrow> p \<in> P"
    and change: "\<And>i e. look i \<noteq> look' i \<Longrightarrow> full i = Some e \<Longrightarrow> irrelevant r P e"
  shows "resolve parse options r es = resolve parse options r es'"
proof (rule resolve_view)
  let ?b = "dedupeById es" and ?b' = "dedupeById es'"
  note full_look = in_universe [OF full(1,3)] and full_look' = in_universe [OF full(2,3)]
  have same: "look i = look' i" if "\<And>e. full i = Some e \<Longrightarrow> ev_id e = i \<Longrightarrow> \<not> irrelevant r P e" for i
  proof (cases "full i")
    case None
    then show ?thesis
      using full(1,2) by (metis map_leD not_None_eq)
  next
    case (Some e)
    then show ?thesis
      using change [of i e] that [of e] full(3) unfolding keyed_lookup_def by blast
  qed
  have patches: "set (root_patches r ?b) = set (root_patches r ?b')"
  proof (rule set_eqI)
    fix p
    have "look (ev_id p) = Some p \<longleftrightarrow> look' (ev_id p) = Some p" if "patch_on r p"
    proof (cases "full (ev_id p) = Some p")
      case True
      with that have "look (ev_id p) = look' (ev_id p)"
        by (intro same) (simp add: irrelevant_def)
      then show ?thesis by simp
    next
      case False
      then show ?thesis using full_look full_look' by blast
    qed
    then show "p \<in> set (root_patches r ?b) \<longleftrightarrow> p \<in> set (root_patches r ?b')"
      unfolding root_patches_lookup es by blast
  qed
  show "same_root_view r ?b ?b'"
    unfolding same_root_view_def es
  proof (intro conjI ballI allI impI)
    show "look r = look' r"
      by (rule same) (simp add: irrelevant_def)
    show "set (root_patches r ?b) = set (root_patches r ?b')" by (rule patches)
    fix p assume "p \<in> set (root_patches r ?b)"
    then have p: "look (ev_id p) = Some p" "patch_on r p" "p \<in> P"
      using P unfolding root_patches_lookup es by blast+
    show "look t = look' t" if "replyTarget p = Some t" for t
      using that p(3) by (intro same) (auto simp: irrelevant_def)
    show "d \<in> set (dvalues ?b) \<longleftrightarrow> d \<in> set (dvalues ?b')"
      if "ev_kind d = DELETION_KIND" "ev_id p \<in> er_id ` set (eTags d)" for d
    proof -
      have "look (ev_id d) = Some d \<longleftrightarrow> look' (ev_id d) = Some d"
      proof (cases "full (ev_id d) = Some d")
        case True
        with that p(3) have "look (ev_id d) = look' (ev_id d)"
          by (intro same) (auto simp: irrelevant_def)
        then show ?thesis by simp
      next
        case False
        then show ?thesis using full_look full_look' by blast
      qed
      then show ?thesis
        unfolding keyed_values [OF dedupe_observed(1) keys_dedupeById] es .
    qed
  qed
  show "replies_on_root r ?b"
    unfolding replies_on_root_def
  proof (intro ballI allI impI)
    fix p t q assume "p \<in> set (root_patches r ?b)" and t: "replyTarget p = Some t" "t \<noteq> r" "dget ?b t = Some q"
    then have p: "look (ev_id p) = Some p" "patch_on r p"
      unfolding root_patches_lookup es by blast+
    have q: "look t = Some q" "full t = Some q" "ev_id q = t"
      using t(3) full_look [of t q] by (simp_all only: es)
    have "p \<in> ran full" "q \<in> ran full"
      using full_look p(1) q(2) by (auto simp: ran_def)
    then have "patch_on r q" "ev_kind q \<noteq> DELETION_KIND"
      using rooted_reply [OF rooted _ _ p(2)] t(1,2) q(3) by simp_all
    then show "q \<in> set (root_patches r ?b)"
      unfolding root_patches_lookup es using q(1,3) by simp
  qed
qed

section \<open>What a batch can change without moving the epoch\<close>

lemma recheck_epoch:
  "epoch_of (wk_epoch (recheck look x i w)) r = epoch_of (wk_epoch w) r +
     (case look i of None \<Rightarrow> 0
      | Some e \<Rightarrow> count_list (chainEpochTargets e (dget (wk_membership w)) (dget (wk_overlay w))) r)"
  by (simp add: recheck_def Let_def epoch_bump_targets applyVerdict_effect split: option.split)

lemma recheck_new_invalid:
  "j \<in> set (wk_invalid (recheck look x i w)) \<Longrightarrow> j \<notin> set (wk_invalid w) \<Longrightarrow>
     \<exists>e. look i = Some e \<and> ev_id e = j"
  by (auto simp: recheck_def Let_def applyVerdict_effect split: option.splits if_splits)

text \<open>The events that turn invalid from \<open>A\<close> to \<open>B\<close> do not affect the root.\<close>

definition quiet_verdicts ::
    "lookup \<Rightarrow> jsstr \<Rightarrow> jsstr dict \<Rightarrow> jsstr list dict \<Rightarrow> jsstr set \<Rightarrow> jsstr set \<Rightarrow> bool" where
  "quiet_verdicts look r membership overlay A B \<longleftrightarrow>
     (\<forall>j \<in> B - A. \<exists>i e. look i = Some e \<and> ev_id e = j \<and> r \<notin> affected membership overlay e)"

lemma quiet_verdicts_trans:
  "quiet_verdicts look r m ov A B \<Longrightarrow> quiet_verdicts look r m ov B C \<Longrightarrow> quiet_verdicts look r m ov A C"
  unfolding quiet_verdicts_def by blast

lemma rechecks_effect:
  "epoch_of (wk_epoch w) r \<le> epoch_of (wk_epoch (fold (recheck look x) is w)) r
   \<and> (epoch_of (wk_epoch (fold (recheck look x) is w)) r = epoch_of (wk_epoch w) r \<longrightarrow>
        quiet_verdicts look r (wk_membership w) (wk_overlay w) (set (wk_invalid w))
          (set (wk_invalid (fold (recheck look x) is w))))"
proof (induction "is" arbitrary: w)
  case Nil
  show ?case by (simp add: quiet_verdicts_def)
next
  case (Cons i "is")
  let ?w = "recheck look x i w"
  note IH = Cons.IH [of ?w, unfolded recheck_fields]
  have le: "epoch_of (wk_epoch w) r \<le> epoch_of (wk_epoch ?w) r"
    by (simp add: recheck_epoch)
  have "quiet_verdicts look r (wk_membership w) (wk_overlay w) (set (wk_invalid w)) (set (wk_invalid ?w))"
    if "epoch_of (wk_epoch ?w) r = epoch_of (wk_epoch w) r"
    unfolding quiet_verdicts_def
  proof
    fix j assume "j \<in> set (wk_invalid ?w) - set (wk_invalid w)"
    then obtain e where e: "look i = Some e" "ev_id e = j"
      using recheck_new_invalid [of j look x i w] by blast
    then have "r \<notin> affected (wk_membership w) (wk_overlay w) e"
      using that by (simp add: recheck_epoch count_list_0_iff)
    with e show "\<exists>i e. look i = Some e \<and> ev_id e = j \<and> r \<notin> affected (wk_membership w) (wk_overlay w) e"
      by blast
  qed
  then show ?case
    using IH le quiet_verdicts_trans by fastforce
qed

lemma process_effect:
  fixes r :: jsstr and w :: working
  assumes x: "look (ev_id x) = Some x"
  defines "w' \<equiv> processObservedEvent look x w"
  shows "epoch_of (wk_epoch w) r \<le> epoch_of (wk_epoch w') r
    \<and> (epoch_of (wk_epoch w') r = epoch_of (wk_epoch w) r \<longrightarrow>
        r \<notin> affected (wk_membership w') (wk_overlay w') x
        \<and> quiet_verdicts look r (wk_membership w') (wk_overlay w') (set (wk_invalid w)) (set (wk_invalid w')))"
proof -
  let ?rp = "register_patch x w"
  let ?w1 = "applyVerdict look x (bump_targets x ?rp)"
  have w': "w' = fold (recheck look (ev_id x)) (idx_get (wk_pending ?w1) (ev_id x)) ?w1"
    by (simp add: w'_def processObservedEvent_def Let_def idx_get_def split: option.split)
  have t: "wk_membership w' = wk_membership ?rp" "wk_overlay w' = wk_overlay ?rp"
    "wk_membership ?w1 = wk_membership ?rp" "wk_overlay ?w1 = wk_overlay ?rp"
    by (simp_all add: w'_def process_tables applyVerdict_effect)
  have e: "epoch_of (wk_epoch ?w1) r = epoch_of (wk_epoch w) r +
      count_list (chainEpochTargets x (dget (wk_membership ?rp)) (dget (wk_overlay ?rp))) r"
    by (simp add: applyVerdict_effect epoch_bump_targets)
  note rest = rechecks_effect [of ?w1 r look "ev_id x" "idx_get (wk_pending ?w1) (ev_id x)", folded w', unfolded t e]
  have "quiet_verdicts look r (wk_membership ?rp) (wk_overlay ?rp) (set (wk_invalid w)) (set (wk_invalid ?w1))"
    if "r \<notin> affected (wk_membership ?rp) (wk_overlay ?rp) x"
    using that x by (auto simp: quiet_verdicts_def applyVerdict_effect)
  then have first: "count_list (chainEpochTargets x (dget (wk_membership ?rp)) (dget (wk_overlay ?rp))) r = 0 \<Longrightarrow>
      quiet_verdicts look r (wk_membership ?rp) (wk_overlay ?rp) (set (wk_invalid w)) (set (wk_invalid ?w1))"
    by (simp add: count_list_0_iff)
  show ?thesis
    unfolding t
  proof (intro conjI impI)
    show "epoch_of (wk_epoch w) r \<le> epoch_of (wk_epoch w') r"
      using rest by (elim conjE) linarith
    assume q: "epoch_of (wk_epoch w') r = epoch_of (wk_epoch w) r"
    then have c: "count_list (chainEpochTargets x (dget (wk_membership ?rp)) (dget (wk_overlay ?rp))) r = 0"
      using rest by (elim conjE) linarith
    then show "r \<notin> affected (wk_membership ?rp) (wk_overlay ?rp) x"
      by (simp add: count_list_0_iff)
    show "quiet_verdicts look r (wk_membership ?rp) (wk_overlay ?rp) (set (wk_invalid w)) (set (wk_invalid w'))"
      using rest by (intro quiet_verdicts_trans [OF first [OF c]]) (elim conjE, simp only: c q add_0_right simp_thms)
  qed
qed

section \<open>Quiet changes\<close>

definition quiet_change :: "lookup \<Rightarrow> jsstr \<Rightarrow> nostr_event set \<Rightarrow> jsstr set \<Rightarrow> bool" where
  "quiet_change full r P A \<longleftrightarrow> (\<forall>i e. i \<in> A \<longrightarrow> full i = Some e \<longrightarrow> irrelevant r P e)"

lemma quiet_change_un: "quiet_change full r P A \<Longrightarrow> quiet_change full r P B \<Longrightarrow> C \<subseteq> A \<union> B \<Longrightarrow> quiet_change full r P C"
  unfolding quiet_change_def by blast

lemma quiet_process:
  assumes full: "look \<subseteq>\<^sub>m full" "keyed_lookup full" and rooted: "rooted r (ran full)"
    and inv: "batch_inv full look D w" and x: "look (ev_id x) = Some x" "ev_id x \<notin> D"
    and P: "\<forall>p \<in> P. look (ev_id p) = Some p \<and> ev_id p \<in> D \<and> patch_on r p"
    and quiet: "epoch_of (wk_epoch (processObservedEvent look x w)) r = epoch_of (wk_epoch w) r"
  shows "quiet_change full r P
    (insert (ev_id x) (set (wk_invalid (processObservedEvent look x w)) - set (wk_invalid w)))"
proof -
  let ?w = "processObservedEvent look x w"
  have inv': "batch_inv full look (insert (ev_id x) D) ?w"
    by (rule process_batch_inv [OF full inv x])
  have reg: "\<forall>p \<in> P. patch_on r p \<and> registered (wk_membership ?w) (wk_overlay ?w) p"
    using P inv' unfolding batch_inv_def by blast
  have *: "r \<notin> affected (wk_membership ?w) (wk_overlay ?w) x"
    "quiet_verdicts look r (wk_membership ?w) (wk_overlay ?w) (set (wk_invalid w)) (set (wk_invalid ?w))"
    using process_effect [of look x w r, OF x(1)] quiet by blast+
  have irr: "irrelevant r P e" if "full i = Some e" "r \<notin> affected (wk_membership ?w) (wk_overlay ?w) e" for i e
    by (rule unaffected_irrelevant [OF rooted _ that(2) reg]) (use that(1) in \<open>auto simp: ran_def\<close>)
  show ?thesis
    unfolding quiet_change_def
  proof (intro allI impI)
    fix i e assume i: "i \<in> insert (ev_id x) (set (wk_invalid ?w) - set (wk_invalid w))" and e: "full i = Some e"
    have fx: "full (ev_id x) = Some x"
      using in_universe [OF full x(1)] by blast
    show "irrelevant r P e"
    proof (cases "i = ev_id x")
      case True
      then show ?thesis using irr [OF fx *(1)] e fx by simp
    next
      case False
      then obtain k f where f: "look k = Some f" "ev_id f = i" "r \<notin> affected (wk_membership ?w) (wk_overlay ?w) f"
        using i *(2) unfolding quiet_verdicts_def by blast
      have "full k = Some f" "ev_id f = k"
        using in_universe [OF full f(1)] by blast+
      then show ?thesis using irr [of i f] f(2,3) e by simp
    qed
  qed
qed

lemma quiet_batch:
  assumes full: "look \<subseteq>\<^sub>m full" "keyed_lookup full" and rooted: "rooted r (ran full)"
    and P: "\<forall>p \<in> P. look (ev_id p) = Some p \<and> ev_id p \<in> dom prior \<and> patch_on r p"
  shows "batch_inv full look (dom prior \<union> set sn) w \<Longrightarrow> (\<And>x. x \<in> set es \<Longrightarrow> look (ev_id x) = Some x) \<Longrightarrow>
    (case fold (observe_step prior look) es (sn, w) of (sn', w') \<Rightarrow>
       epoch_of (wk_epoch w) r \<le> epoch_of (wk_epoch w') r
       \<and> (epoch_of (wk_epoch w') r = epoch_of (wk_epoch w) r \<longrightarrow>
            quiet_change full r P ((set sn' - set sn) \<union> (set (wk_invalid w') - set (wk_invalid w)))))"
proof (induction es arbitrary: sn w)
  case Nil
  show ?case by (simp add: quiet_change_def)
next
  case (Cons x es)
  show ?case
  proof (cases "prior (ev_id x) \<noteq> None \<or> ev_id x \<in> set sn")
    case True
    with Cons.IH [of sn w] Cons.prems show ?thesis
      by (simp add: observe_step_def)
  next
    case False
    let ?sn = "sadd (ev_id x) sn" and ?w = "processObservedEvent look x w"
    from False have new: "ev_id x \<notin> dom prior \<union> set sn" by auto
    have lx: "look (ev_id x) = Some x"
      using Cons.prems(2) by simp
    have inv: "batch_inv full look (dom prior \<union> set ?sn) ?w"
      using process_batch_inv [OF full Cons.prems(1) lx new] by (simp add: insert_commute)
    obtain sn' w' where f: "fold (observe_step prior look) es (?sn, ?w) = (sn', w')"
      by fastforce
    have step: "fold (observe_step prior look) (x # es) (sn, w) = (sn', w')"
      using False f by (simp add: observe_step_def)
    have IH: "epoch_of (wk_epoch ?w) r \<le> epoch_of (wk_epoch w') r"
      "epoch_of (wk_epoch w') r = epoch_of (wk_epoch ?w) r \<Longrightarrow>
         quiet_change full r P ((set sn' - set ?sn) \<union> (set (wk_invalid w') - set (wk_invalid ?w)))"
      using Cons.IH [OF inv] Cons.prems(2) f by auto
    have le: "epoch_of (wk_epoch w) r \<le> epoch_of (wk_epoch ?w) r"
      using process_effect [of look x w r, OF lx] by blast
    have "quiet_change full r P ((set sn' - set sn) \<union> (set (wk_invalid w') - set (wk_invalid w)))"
      if q: "epoch_of (wk_epoch w') r = epoch_of (wk_epoch w) r"
    proof (rule quiet_change_un)
      show "quiet_change full r P ((set sn' - set ?sn) \<union> (set (wk_invalid w') - set (wk_invalid ?w)))"
        using IH le q by simp
      have "epoch_of (wk_epoch ?w) r = epoch_of (wk_epoch w) r"
        using IH(1) le q by simp
      then show "quiet_change full r P (insert (ev_id x) (set (wk_invalid ?w) - set (wk_invalid w)))"
        using P by (intro quiet_process [OF full rooted Cons.prems(1) lx new]) auto
    qed auto
    then show ?thesis
      unfolding step using IH(1) le by auto
  qed
qed

section \<open>What a delta can change without moving the epoch\<close>

lemma observed_distinct:
  "distinct (dkeys (as_observedById st)) \<Longrightarrow> distinct (dkeys (as_observedById (applyDelta st d)))"
proof -
  have o: "distinct (dkeys (as_observedById (fold observe_one es w)))"
    if "distinct (dkeys (as_observedById w))" for es w
    using that by (induction es arbitrary: w) (auto simp: observe_one_def Let_def)
  have u: "distinct (dkeys (as_observedById (fold (unobserve_one ps ks) ids w)))"
    if "distinct (dkeys (as_observedById w))" for ps ks ids w
    using that
    by (induction ids arbitrary: w) (auto simp: unobserve_one_def Let_def strip_reasons_spec uncascade_def
        fold_uncredit_w deactivateBinding_def split: option.split)
  show "distinct (dkeys (as_observedById st)) \<Longrightarrow> ?thesis"
    using o [of "fromState st"] u [of "fromState st"]
    by (cases d) (simp_all add: observed_after(3,4), simp_all add: applyDelta_def apply_delta_step_def toState_def
        fromState_def Let_def)
qed

lemma unobserve_epoch:
  "snd (fold (unobserve_step st) ids (pending, epochs)) = fold (\<lambda>i epochs.
     (case lookup_of st i of None \<Rightarrow> epochs
      | Some e \<Rightarrow> fold bump (chainEpochTargets e (dget (ss_chainMembership st)) (dget (ss_overlayAwaiting st))) epochs))
     ids epochs"
  by (induction ids arbitrary: pending epochs)
    (simp_all add: unobserve_step_def lookup_of_def Let_def split: option.split)

lemma unobserve_quiet:
  "epoch_of epochs r \<le> epoch_of (snd (fold (unobserve_step st) ids (pending, epochs))) r
   \<and> (epoch_of (snd (fold (unobserve_step st) ids (pending, epochs))) r = epoch_of epochs r \<longrightarrow>
       (\<forall>i e. i \<in> set ids \<longrightarrow> lookup_of st i = Some e \<longrightarrow>
          r \<notin> affected (ss_chainMembership st) (ss_overlayAwaiting st) e))"
  unfolding unobserve_epoch
proof (induction ids arbitrary: epochs)
  case (Cons i ids)
  define next_epochs where "next_epochs = (case lookup_of st i of None \<Rightarrow> epochs
      | Some e \<Rightarrow> fold bump (chainEpochTargets e (dget (ss_chainMembership st)) (dget (ss_overlayAwaiting st))) epochs)"
  have le: "epoch_of epochs r \<le> epoch_of next_epochs r"
    by (simp add: next_epochs_def epoch_bumps split: option.split)
  have "r \<notin> affected (ss_chainMembership st) (ss_overlayAwaiting st) e"
    if "epoch_of next_epochs r = epoch_of epochs r" "lookup_of st i = Some e" for e
    using that by (simp add: next_epochs_def epoch_bumps count_list_0_iff)
  with Cons.IH [of next_epochs] le show ?case
    unfolding fold.simps o_apply next_epochs_def [symmetric] by fastforce
qed simp

definition patches_in :: "jsstr \<Rightarrow> store_state \<Rightarrow> nostr_event set" where
  "patches_in r st = {p. \<exists>i. lookup_of st i = Some p \<and> patch_on r p}"

lemma process_grows: "set (wk_invalid w) \<subseteq> set (wk_invalid (processObservedEvent look x w))"
proof -
  have "set (wk_invalid u) \<subseteq> set (wk_invalid (recheck look y i u))" for y i u
    by (auto simp: recheck_def Let_def applyVerdict_effect split: option.split)
  then have "set (wk_invalid u) \<subseteq> set (wk_invalid (fold (recheck look y) is u))" for y "is" u
    by (induction "is" arbitrary: u) (simp_all, blast)
  then show ?thesis
    by (fastforce simp: processObservedEvent_def Let_def applyVerdict_effect split: option.split)
qed

lemma batch_grows:
  "set (wk_invalid w) \<subseteq> set (wk_invalid (snd (fold (observe_step prior look) es (sn, w))))"
proof (induction es arbitrary: sn w)
  case (Cons x es)
  then show ?case
    using process_grows [of w look x] by (auto simp: observe_step_def intro: subset_trans)
qed simp

lemma observe_quiet:
  assumes keyed: "keyed_lookup full" and rooted: "rooted r (ran full)" and inv: "store_inv full st"
    and es: "list_all (\<lambda>e. full (ev_id e) = Some e) es"
  shows "epoch_of (ss_chainEpoch st) r \<le> epoch_of (ss_chainEpoch (store_observe es st)) r
    \<and> (epoch_of (ss_chainEpoch (store_observe es st)) r = epoch_of (ss_chainEpoch st) r \<longrightarrow>
         quiet_change full r (patches_in r st) {i. valid_lookup st i \<noteq> valid_lookup (store_observe es st) i})"
proof -
  define look where "look = lookup_after es st"
  have le: "lookup_of st \<subseteq>\<^sub>m full"
    using inv by (simp add: store_inv_def)
  note lo = lookup_observe [OF le es, folded look_def]
  obtain sn w' where f: "fold (observe_step (lookup_of st) look) es ([], working_of st) = (sn, w')"
    and sn: "dom (lookup_of st) \<union> set sn = dom look"
    and start: "batch_inv full look (dom (lookup_of st)) (working_of st)"
    and b: "batch_inv full look (dom look) w'" and st': "store_observe es st = observed_state es st w'"
    by (rule observe_batch [OF keyed inv es, folded look_def])
  note st' = st' [unfolded observed_state_def]
  have P: "\<forall>p \<in> patches_in r st. look (ev_id p) = Some p \<and> ev_id p \<in> dom (lookup_of st) \<and> patch_on r p"
  proof
    fix p assume "p \<in> patches_in r st"
    then obtain i where i: "lookup_of st i = Some p" "patch_on r p"
      unfolding patches_in_def by blast
    have "ev_id p = i"
      using in_universe [OF le keyed i(1)] by simp
    with i lo(3) show "look (ev_id p) = Some p \<and> ev_id p \<in> dom (lookup_of st) \<and> patch_on r p"
      by (auto simp: map_leD)
  qed
  have q: "epoch_of (ss_chainEpoch st) r \<le> epoch_of (wk_epoch w') r"
    "epoch_of (wk_epoch w') r = epoch_of (ss_chainEpoch st) r \<Longrightarrow>
      quiet_change full r (patches_in r st) (set sn \<union> (set (wk_invalid w') - set (ss_invalidIds st)))"
    using quiet_batch [OF lo(1) keyed rooted P, of "[]" "working_of st" es] start lo(2) f by auto
  have look': "lookup_of (store_observe es st) = look"
    by (simp add: st' lookup_of_def look_def lookup_after_def)
  have "valid_lookup st i = valid_lookup (store_observe es st) i"
    if "i \<notin> set sn \<union> (set (wk_invalid w') - set (ss_invalidIds st))" for i
  proof -
    have "i \<in> dom (lookup_of st) \<longleftrightarrow> i \<in> dom look"
      using that unfolding sn [symmetric] by blast
    then have "lookup_of st i = look i"
      using lo(3) by (auto simp: map_le_def dom_def split: option.splits)
    moreover have "i \<in> set (ss_invalidIds st) \<longleftrightarrow> i \<in> set (wk_invalid w')"
      using that batch_grows [of "working_of st" "lookup_of st" look es "[]"] f by auto
    ultimately show ?thesis
      unfolding valid_lookup_def look' by (simp add: st')
  qed
  then show ?thesis
    using q unfolding st' quiet_change_def by auto
qed

lemma unobserve_state:
  obtains pending epochs where
    "fold (unobserve_step st) ids (recordToSetMap (ss_pendingAwaiting st), ss_chainEpoch st) = (pending, epochs)"
    "store_unobserve ids st = st\<lparr>ss_admit := applyDelta (ss_admit st) (Unobserve ids),
       ss_pendingAwaiting := setMapToSortedRecord pending, ss_observedEpoch := ss_observedEpoch st + 1,
       ss_chainEpoch := epochs\<rparr>"
  by (cases "fold (unobserve_step st) ids (recordToSetMap (ss_pendingAwaiting st), ss_chainEpoch st)")
    (simp add: store_unobserve_def)

lemma unobserve_state_quiet:
  assumes keyed: "keyed_lookup full" and rooted: "rooted r (ran full)" and inv: "store_inv full st"
  shows "epoch_of (ss_chainEpoch st) r \<le> epoch_of (ss_chainEpoch (store_unobserve ids st)) r
    \<and> (epoch_of (ss_chainEpoch (store_unobserve ids st)) r = epoch_of (ss_chainEpoch st) r \<longrightarrow>
         quiet_change full r (patches_in r st) {i. valid_lookup st i \<noteq> valid_lookup (store_unobserve ids st) i})"
proof -
  obtain pending epochs where
    f: "fold (unobserve_step st) ids (recordToSetMap (ss_pendingAwaiting st), ss_chainEpoch st) = (pending, epochs)"
    and st': "store_unobserve ids st = st\<lparr>ss_admit := applyDelta (ss_admit st) (Unobserve ids),
       ss_pendingAwaiting := setMapToSortedRecord pending, ss_observedEpoch := ss_observedEpoch st + 1,
       ss_chainEpoch := epochs\<rparr>"
    by (rule unobserve_state)
  have le: "lookup_of st \<subseteq>\<^sub>m full"
    using inv by (simp add: store_inv_def)
  note q = unobserve_quiet [of "ss_chainEpoch st" r st ids "recordToSetMap (ss_pendingAwaiting st)", unfolded f snd_conv]
  have reg: "\<forall>p \<in> patches_in r st. patch_on r p \<and> registered (ss_chainMembership st) (ss_overlayAwaiting st) p"
    using inv unfolding patches_in_def store_inv_def by blast
  have "irrelevant r (patches_in r st) e"
    if eq: "epoch_of epochs r = epoch_of (ss_chainEpoch st) r"
      and i: "valid_lookup st i \<noteq> valid_lookup (store_unobserve ids st) i" "full i = Some e" for i e
  proof -
    have "i \<in> set ids" "lookup_of st i \<noteq> None"
      using i(1) by (auto simp: valid_lookup_def st' lookup_of_def observed_after split: if_splits)
    then have "i \<in> set ids" "lookup_of st i = Some e"
      using le i(2) by (auto dest: map_leD)
    then have "r \<notin> affected (ss_chainMembership st) (ss_overlayAwaiting st) e"
      using q eq by blast
    then show ?thesis
      using i(2) by (intro unaffected_irrelevant [OF rooted _ _ reg]) (auto simp: ran_def)
  qed
  then show ?thesis
    using q by (auto simp: st' quiet_change_def)
qed

definition store_keyed :: "lookup \<Rightarrow> store_state \<Rightarrow> bool" where
  "store_keyed full st \<longleftrightarrow> store_inv full st \<and> distinct (dkeys (as_observedById (ss_admit st)))"

lemma store_keyed_init: "store_keyed full EMPTY_STORE_STATE"
  by (simp add: store_keyed_def store_inv_init) (simp add: EMPTY_STORE_STATE_def EMPTY_ADMIT_STATE_def)

lemma store_keyed_step:
  "store_keyed full st \<Longrightarrow> keyed_lookup full \<Longrightarrow> delta_in full d \<Longrightarrow> store_keyed full (applyStoreDelta st d)"
  unfolding store_keyed_def
  using applyStoreDelta_inv [of full st d] observed_distinct [of "ss_admit st"]
  by (cases d) (auto simp: applyStoreDelta_def ss_admit_observe ss_admit_unobserve simp del: set_map)

lemma store_keyed_view:
  assumes "store_keyed full st" "keyed_lookup full"
  shows "dget (dedupeById (valid_events st)) = valid_lookup st" "valid_lookup st \<subseteq>\<^sub>m full"
proof -
  have le: "lookup_of st \<subseteq>\<^sub>m full"
    using assms(1) by (simp add: store_keyed_def store_inv_def)
  have "keyed (as_observedById (ss_admit st))"
    unfolding keyed_def using in_universe [OF le assms(2)] by (auto simp: lookup_of_def)
  then show "dget (dedupeById (valid_events st)) = valid_lookup st"
    using assms(1) by (intro valid_events_lookup) (simp_all add: store_keyed_def)
  show "valid_lookup st \<subseteq>\<^sub>m full"
    using le by (auto simp: map_le_def valid_lookup_def)
qed

text \<open>A delta that moves no epoch of a root leaves its resolution as it is.\<close>

lemma quiet_delta:
  assumes keyed: "keyed_lookup full" and rooted: "rooted r (ran full)" and inv: "store_keyed full st"
    and d: "delta_in full d"
  shows "epoch_of (ss_chainEpoch st) r \<le> epoch_of (ss_chainEpoch (applyStoreDelta st d)) r
    \<and> (epoch_of (ss_chainEpoch (applyStoreDelta st d)) r = epoch_of (ss_chainEpoch st) r \<longrightarrow>
         resolve parse options r (valid_events (applyStoreDelta st d)) = resolve parse options r (valid_events st))"
proof -
  let ?st = "applyStoreDelta st d"
  have si: "store_inv full st"
    using inv by (simp add: store_keyed_def)
  have q: "epoch_of (ss_chainEpoch st) r \<le> epoch_of (ss_chainEpoch ?st) r
    \<and> (epoch_of (ss_chainEpoch ?st) r = epoch_of (ss_chainEpoch st) r \<longrightarrow>
         quiet_change full r (patches_in r st) {i. valid_lookup st i \<noteq> valid_lookup ?st i})"
  proof (cases d)
    case (St_observe es)
    then show ?thesis
      using observe_quiet [OF keyed rooted si, of es] d by (simp add: applyStoreDelta_def quiet_change_def)
  next
    case (St_unobserve ids)
    then show ?thesis
      using unobserve_state_quiet [OF keyed rooted si, of ids] by (simp add: applyStoreDelta_def quiet_change_def)
  qed (simp_all add: applyStoreDelta_def quiet_change_def valid_lookup_def lookup_of_def observed_after)
  have inv': "store_keyed full ?st"
    by (rule store_keyed_step [OF inv keyed d])
  note v = store_keyed_view [OF inv keyed] and v' = store_keyed_view [OF inv' keyed]
  have "resolve parse options r (valid_events st) = resolve parse options r (valid_events ?st)"
    if c: "quiet_change full r (patches_in r st) {i. valid_lookup st i \<noteq> valid_lookup ?st i}"
  proof (rule same_view [OF v(2) v'(2) keyed rooted v(1) v'(1)])
    show "p \<in> patches_in r st" if "valid_lookup st i = Some p" "patch_on r p" for i p
      using that unfolding patches_in_def valid_lookup_def by (auto split: if_splits)
    show "irrelevant r (patches_in r st) e" if "valid_lookup st i \<noteq> valid_lookup ?st i" "full i = Some e" for i e
      using c that unfolding quiet_change_def by blast
  qed
  with q show ?thesis by simp
qed

section \<open>The memo\<close>

text \<open>
  The materialised events are those of the state, unless its epoch has moved; and so is every memoised
  resolution of a root whose chain epoch has not.
\<close>

definition memo_fresh :: "parse_patch \<Rightarrow> lookup \<Rightarrow> store_state \<Rightarrow> resolve_memo \<Rightarrow> bool" where
  "memo_fresh parse full st memo \<longleftrightarrow>
     (\<forall>c. rm_eventsCache memo = Some c \<longrightarrow>
        ec_observedEpoch c \<le> ss_observedEpoch st
        \<and> (ec_observedEpoch c = ss_observedEpoch st \<longrightarrow> ec_events c = valid_events st))
     \<and> (\<forall>r m. rooted r (ran full) \<longrightarrow> dget (rm_entries memo) r = Some m \<longrightarrow>
        me_epoch m \<le> epoch_of (ss_chainEpoch st) r
        \<and> (me_epoch m = epoch_of (ss_chainEpoch st) r \<longrightarrow>
             me_resolution m = resolve parse (options_of (me_optionsKey m)) r (valid_events st)))"

lemma memo_fresh_init: "memo_fresh parse full EMPTY_STORE_STATE createResolveMemo"
  by (simp add: memo_fresh_def createResolveMemo_def)

lemma observed_epoch:
  "ss_observedEpoch st \<le> ss_observedEpoch (applyStoreDelta st d)
   \<and> (ss_observedEpoch (applyStoreDelta st d) = ss_observedEpoch st \<longrightarrow>
        valid_events (applyStoreDelta st d) = valid_events st)"
  by (cases d) (simp_all add: applyStoreDelta_def valid_events_def observed_after,
      simp_all add: store_observe_def store_unobserve_def Let_def case_prod_beta)

lemma memo_fresh_delta:
  assumes keyed: "keyed_lookup full" and inv: "store_keyed full st" and d: "delta_in full d"
    and fresh: "memo_fresh parse full st memo"
  shows "memo_fresh parse full (applyStoreDelta st d) memo"
  unfolding memo_fresh_def
proof (intro conjI allI impI)
  fix c assume c: "rm_eventsCache memo = Some c"
  then have *: "ec_observedEpoch c \<le> ss_observedEpoch st"
    "ec_observedEpoch c = ss_observedEpoch st \<Longrightarrow> ec_events c = valid_events st"
    using fresh unfolding memo_fresh_def by blast+
  show "ec_observedEpoch c \<le> ss_observedEpoch (applyStoreDelta st d)"
    using *(1) observed_epoch [of st d] by linarith
  assume "ec_observedEpoch c = ss_observedEpoch (applyStoreDelta st d)"
  then have "ss_observedEpoch (applyStoreDelta st d) = ss_observedEpoch st" "ec_observedEpoch c = ss_observedEpoch st"
    using *(1) observed_epoch [of st d] by linarith+
  then show "ec_events c = valid_events (applyStoreDelta st d)"
    using *(2) observed_epoch [of st d] by simp
next
  fix r m assume r: "rooted r (ran full)" and m: "dget (rm_entries memo) r = Some m"
  then have *: "me_epoch m \<le> epoch_of (ss_chainEpoch st) r"
    "me_epoch m = epoch_of (ss_chainEpoch st) r \<Longrightarrow>
       me_resolution m = resolve parse (options_of (me_optionsKey m)) r (valid_events st)"
    using fresh unfolding memo_fresh_def by blast+
  note q = quiet_delta [OF keyed r inv d, of parse "options_of (me_optionsKey m)"]
  show "me_epoch m \<le> epoch_of (ss_chainEpoch (applyStoreDelta st d)) r"
    using *(1) q by linarith
  assume "me_epoch m = epoch_of (ss_chainEpoch (applyStoreDelta st d)) r"
  then have "epoch_of (ss_chainEpoch (applyStoreDelta st d)) r = epoch_of (ss_chainEpoch st) r"
    "me_epoch m = epoch_of (ss_chainEpoch st) r"
    using *(1) q by linarith+
  then show "me_resolution m = resolve parse (options_of (me_optionsKey m)) r (valid_events (applyStoreDelta st d))"
    using *(2) q by simp
qed

lemma fill_fresh:
  "memo_fresh parse full st memo \<Longrightarrow>
     ec_observedEpoch (fill_events st memo) = ss_observedEpoch st \<and> ec_events (fill_events st memo) = valid_events st"
  by (auto simp: memo_fresh_def fill_events_def split: option.split)

lemma resolveRootMemoized_fresh:
  assumes fresh: "memo_fresh parse full st memo"
  shows "rooted r (ran full) \<Longrightarrow>
      fst (resolveRootMemoized parse st r options memo) = resolve parse (options_of options) r (valid_events st)"
    and "memo_fresh parse full st (snd (resolveRootMemoized parse st r options memo))"
proof -
  note f = fill_fresh [OF fresh]
  show "fst (resolveRootMemoized parse st r options memo) = resolve parse (options_of options) r (valid_events st)"
    if "rooted r (ran full)"
    using fresh f that by (auto simp: resolveRootMemoized_def Let_def memo_fresh_def split: option.split)
  show "memo_fresh parse full st (snd (resolveRootMemoized parse st r options memo))"
    using fresh f by (auto simp: resolveRootMemoized_def Let_def memo_fresh_def split: option.splits if_splits)
qed

section \<open>Sessions of a store\<close>

datatype store_op =
    Op_add "nostr_event list" ingest_meta
  | Op_unobserve "jsstr list"
  | Op_trust "jsstr list"
  | Op_untrust "jsstr list"
  | Op_resolve jsstr "options_key option"
  | Op_view jsstr options_key "admission_view option"

fun store_step :: "parse_patch \<Rightarrow> (nostr_event \<Rightarrow> bool) \<Rightarrow> options_key \<Rightarrow> store \<Rightarrow> store_op \<Rightarrow> store" where
  "store_step parse verify ao s (Op_add es m) = snd (add verify es m s)"
| "store_step parse verify ao s (Op_unobserve ids) = unobserve ids s"
| "store_step parse verify ao s (Op_trust ks) = trust_keys ks s"
| "store_step parse verify ao s (Op_untrust ks) = untrust_keys ks s"
| "store_step parse verify ao s (Op_resolve r options) = snd (resolveRoot parse ao r options s)"
| "store_step parse verify ao s (Op_view r options view) = snd (viewRoot parse ao r options view s)"

text \<open>The events an operation lets in, and those of a session.\<close>

fun let_in :: "(nostr_event \<Rightarrow> bool) \<Rightarrow> store_op \<Rightarrow> nostr_event list" where
  "let_in verify (Op_add es m) = filter (passes verify m) es"
| "let_in verify _ = []"

definition accepted :: "(nostr_event \<Rightarrow> bool) \<Rightarrow> store_op list \<Rightarrow> nostr_event list" where
  "accepted verify ops = concat (map (let_in verify) ops)"

abbreviation session :: "parse_patch \<Rightarrow> (nostr_event \<Rightarrow> bool) \<Rightarrow> options_key \<Rightarrow> store_op list \<Rightarrow> store" where
  "session parse verify ao ops \<equiv> foldl (store_step parse verify ao) createStore ops"

text \<open>The delta an operation amounts to, if any.\<close>

fun op_delta :: "(nostr_event \<Rightarrow> bool) \<Rightarrow> store_op \<Rightarrow> store_delta option" where
  "op_delta verify (Op_add es m) =
     (case filter (passes verify m) es of [] \<Rightarrow> None | x # xs \<Rightarrow> Some (St_observe (x # xs)))"
| "op_delta verify (Op_unobserve ids) = Some (St_unobserve ids)"
| "op_delta verify (Op_trust ks) = Some (St_trust ks)"
| "op_delta verify (Op_untrust ks) = Some (St_untrust ks)"
| "op_delta verify _ = None"

lemma store_step_state:
  "so_state (store_step parse verify ao s op) =
     (case op_delta verify op of None \<Rightarrow> so_state s | Some d \<Rightarrow> applyStoreDelta (so_state s) d)"
  by (cases op) (auto simp: add_def unobserve_def trust_keys_def untrust_keys_def resolveRoot_def viewRoot_def Let_def
      split: list.split prod.split)

lemma store_step_memo:
  "so_memo (store_step parse verify ao s op) =
     (case op of
        Op_resolve r options \<Rightarrow>
          snd (resolveRootMemoized parse (so_state s) r (case options of None \<Rightarrow> ao | Some o' \<Rightarrow> o') (so_memo s))
      | Op_view r options view \<Rightarrow>
          snd (resolveRootMemoized parse (so_state s) r (case options of None \<Rightarrow> ao | Some _ \<Rightarrow> options) (so_memo s))
      | _ \<Rightarrow> so_memo s)"
  by (cases op) (auto simp: add_def unobserve_def trust_keys_def untrust_keys_def resolveRoot_def viewRoot_def Let_def
      split: prod.split option.split)

lemma store_step_storage:
  "so_storage (store_step parse verify ao s op) =
     (case let_in verify op of [] \<Rightarrow> so_storage s | x # xs \<Rightarrow> put (x # xs) (so_storage s))"
  by (cases op) (auto simp: add_def unobserve_def trust_keys_def untrust_keys_def resolveRoot_def viewRoot_def Let_def
      split: prod.split list.split)

declare store_step.simps [simp del]

text \<open>What the reducer and the memo keep, for the events of a universe.\<close>

definition op_in :: "(nostr_event \<Rightarrow> bool) \<Rightarrow> lookup \<Rightarrow> store_op \<Rightarrow> bool" where
  "op_in verify full op \<longleftrightarrow> keyed_lookup full \<and> list_all (\<lambda>e. full (ev_id e) = Some e) (let_in verify op)"

definition coherent :: "parse_patch \<Rightarrow> lookup \<Rightarrow> store \<Rightarrow> bool" where
  "coherent parse full s \<longleftrightarrow> store_keyed full (so_state s) \<and> memo_fresh parse full (so_state s) (so_memo s)"

lemma op_delta_in: "op_in verify full op \<Longrightarrow> op_delta verify op = Some d \<Longrightarrow> delta_in full d"
  by (cases op) (auto simp: op_in_def split: list.splits)

lemma coherent_step:
  assumes "coherent parse full s" "op_in verify full op"
  shows "coherent parse full (store_step parse verify ao s op)"
proof -
  have keyed: "keyed_lookup full"
    using assms(2) by (simp add: op_in_def)
  have k: "store_keyed full (so_state s)" and m: "memo_fresh parse full (so_state s) (so_memo s)"
    using assms(1) by (simp_all add: coherent_def)
  show ?thesis
  proof (cases "op_delta verify op")
    case None
    then have "so_state (store_step parse verify ao s op) = so_state s"
      by (simp add: store_step_state)
    moreover have "memo_fresh parse full (so_state s) (so_memo (store_step parse verify ao s op))"
      unfolding store_step_memo using m resolveRootMemoized_fresh(2) [OF m] by (simp split: store_op.split)
    ultimately show ?thesis
      using k by (simp add: coherent_def)
  next
    case (Some d)
    then have "so_memo (store_step parse verify ao s op) = so_memo s"
      by (cases op) (simp_all add: store_step_memo)
    with Some show ?thesis
      using store_keyed_step [OF k keyed] memo_fresh_delta [OF keyed k _ m] op_delta_in [OF assms(2) Some]
      by (simp add: coherent_def store_step_state)
  qed
qed

interpretation sessions: invariant createStore "store_step parse verify ao" "\<lambda>_. op_in verify full" "coherent parse full"
  for parse verify ao full
  by unfold_locales
    (simp add: coherent_def createStore_def store_keyed_init memo_fresh_init, simp add: coherent_step)

lemma accepted_Cons [simp]: "accepted verify (op # ops) = let_in verify op @ accepted verify ops" "accepted verify [] = []"
  by (simp_all add: accepted_def)

lemma session_coherent:
  assumes "id_consistent (set (accepted verify ops))"
  shows "coherent parse (dget (dedupeById (accepted verify ops))) (session parse verify ao ops)"
proof (rule sessions.run_inv [OF run_ok_all])
  have "set (let_in verify op) \<subseteq> set (accepted verify ops)" if "op \<in> set ops" for op
    using that by (induction ops) auto
  then show "list_all (op_in verify (dget (dedupeById (accepted verify ops)))) ops"
    unfolding list_all_iff op_in_def dget_dedupe_consistent [OF assms] using keyed_lookup_dedupe by blast
qed

lemma ran_dedupe: "id_consistent (set es) \<Longrightarrow> ran (dget (dedupeById es)) = set es"
  unfolding ran_def by (simp only: dget_dedupe_consistent) blast

lemma session_resolution:
  assumes "id_consistent (set (accepted verify ops))" "rooted r (set (accepted verify ops))"
  shows "fst (resolveRootMemoized parse (so_state (session parse verify ao ops)) r options
       (so_memo (session parse verify ao ops)))
     = resolve parse (options_of options) r (valid_events (so_state (session parse verify ao ops)))"
  using session_coherent [OF assms(1), of parse ao] assms(2) ran_dedupe [OF assms(1)]
  unfolding coherent_def
  by (intro resolveRootMemoized_fresh(1) [where full = "dget (dedupeById (accepted verify ops))"]) simp_all

text \<open>
  C1. (D24, C10) When is a memoised resolution not stale: in every session of adds, removals, trust changes,
  resolutions and views, in any order, in which two accepted events with one id are the same event, the root id
  names only a product or a metadata event, no accepted deletion (kind 5) has an event type, and every accepted
  patch on the root replies to the root, to an event that was not accepted, or to another patch on the root,
  what \<open>resolveRoot\<close> returns is what resolving the root afresh over the currently observed valid events returns.
  Without the condition on deletions this is false of the code (\<open>stale_memo\<close>).
\<close>

theorem resolveRoot_never_stale:
  assumes "id_consistent (set (accepted verify ops))" "rooted r (set (accepted verify ops))"
  shows "fst (resolveRoot parse ao r options (session parse verify ao ops)) =
     resolve parse (options_of (case options of None \<Rightarrow> ao | Some o' \<Rightarrow> o')) r
       (valid_events (so_state (session parse verify ao ops)))"
  using session_resolution [OF assms] by (simp add: resolveRoot_def Let_def case_prod_beta)

lemma observed_delivered:
  "dget (as_observedById (ss_admit (applyStoreDelta st d))) i = Some e \<Longrightarrow>
     dget (as_observedById (ss_admit st)) i = Some e \<or> e \<in> set (delta_events d)"
  by (cases d) (auto simp: applyStoreDelta_def ss_admit_observe ss_admit_unobserve observed_after find_Some_iff
      split: if_splits option.splits)

lemma op_delta_events: "op_delta verify op = Some d \<Longrightarrow> delta_events d = let_in verify op"
  by (cases op) (auto split: list.splits)

lemma stored_put: "dget (st_byId (put xs st)) i = Some e \<Longrightarrow> dget (st_byId st) i = Some e \<or> e \<in> set xs"
proof (induction xs arbitrary: st)
  case (Cons x xs)
  have "dget (st_byId (put_one x st)) i = (if ev_id x = i then Some x else dget (st_byId st) i)"
    by (simp add: put_one_def Let_def indexEvent_def unindexEvent_def split: option.split)
  with Cons.IH [of "put_one x st"] Cons.prems show ?case
    by (auto simp: put_def split: if_splits)
qed (simp add: put_def)

text \<open>
  C25. (SIG-1, D18) As long as no caller bypasses verification, everything a store has observed and
  everything it has stored has passed \<open>verify\<close>, whatever else was submitted.
\<close>

theorem store_verified:
  assumes "list_all (\<lambda>op. case op of Op_add es m \<Rightarrow> \<not> im_verified m \<and> \<not> im_trustUnverified m | _ \<Rightarrow> True) ops"
    and "dget (as_observedById (ss_admit (so_state (session parse verify ao ops)))) i = Some e
       \<or> dget (st_byId (so_storage (session parse verify ao ops))) i = Some e"
  shows "verify e"
proof -
  define ok where "ok s \<longleftrightarrow> (\<forall>i e. dget (as_observedById (ss_admit (so_state s))) i = Some e
      \<or> dget (st_byId (so_storage s)) i = Some e \<longrightarrow> verify e)" for s :: store
  have "ok (foldl (store_step parse verify ao) s ops)" if "ok s" for s
    using assms(1) that
  proof (induction ops arbitrary: s)
    case (Cons op ops)
    have v: "verify x" if "x \<in> set (let_in verify op)" for x
      using that Cons.prems(1) by (cases op) (auto simp: passes_def)
    have "verify e" if "dget (as_observedById (ss_admit (so_state (store_step parse verify ao s op)))) i = Some e" for i e
      using that v Cons.prems(2) observed_delivered op_delta_events
      unfolding store_step_state ok_def by (fastforce split: option.splits)
    moreover have "verify e" if "dget (st_byId (so_storage (store_step parse verify ao s op))) i = Some e" for i e
      using that v Cons.prems(2) stored_put unfolding store_step_storage ok_def by (fastforce split: list.splits)
    ultimately have "ok (store_step parse verify ao s op)"
      unfolding ok_def by blast
    with Cons show ?case by simp
  qed simp
  moreover have "ok createStore"
    by (simp add: ok_def createStore_def EMPTY_STORE_STATE_def EMPTY_ADMIT_STATE_def createInMemoryEventStorage_def)
  ultimately show ?thesis
    using assms(2) unfolding ok_def by blast
qed

section \<open>Views\<close>

text \<open>The operations admission is exact for, in the state they are taken in.\<close>

definition admission_ok :: "(nostr_event \<Rightarrow> bool) \<Rightarrow> store \<Rightarrow> store_op \<Rightarrow> bool" where
  "admission_ok verify s op \<longleftrightarrow>
     (case op of
        Op_add es m \<Rightarrow> no_root_deletions (let_in verify op)
      | Op_unobserve ids \<Rightarrow> unobserve_ordered (as_liveBindings (ss_admit (so_state s))) ids
      | _ \<Rightarrow> True)"

interpretation admission: invariant createStore "store_step parse verify ao" "admission_ok verify"
    "\<lambda>s. admit_inv (ss_admit (so_state s))" for parse verify ao
proof
  show "admit_inv (ss_admit (so_state createStore))"
    using admit_inv_init by (simp add: createStore_def EMPTY_STORE_STATE_def)
  show "admit_inv (ss_admit (so_state (store_step parse verify ao s op)))"
    if "admit_inv (ss_admit (so_state s))" "admission_ok verify s op" for s op
    using that by (cases op) (auto simp: store_step_state applyStoreDelta_def ss_admit_observe ss_admit_unobserve
        admission_ok_def intro!: applyDelta_inv split: list.splits)
qed

lemma isAdmitted_reasons: "dget (ai_reasons a) = dget (ai_reasons b) \<Longrightarrow> isAdmitted a = isAdmitted b"
  by (rule ext) (simp add: isAdmitted_def)

text \<open>
  C2. (OV-7, D26, TR-5) What \<open>viewRoot\<close> shows to a caller who passes no admission view of his own, after a session in
  which ids are content hashes and the root is \<open>rooted\<close> as for the memo (it is only a product or a metadata, no
  deletion has a type, the patches on it reply to it or to a patch on it), no deletion that is also typed as a root is
  let in, and no removal lists a live binding before one of its own endpoints: the fresh resolution of the root over
  the observed valid events, with exactly the overlays whose authors are trusted now. Neither the memo, nor
  bindings, nor keys that were trusted once let another overlay through.
\<close>

theorem viewRoot_trusted:
  assumes "id_consistent (set (accepted verify ops))" "rooted r (set (accepted verify ops))"
    and "Runs.run_ok (store_step parse verify ao) (admission_ok verify) createStore ops"
  shows "fst (viewRoot parse ao r apply_opts None (session parse verify ao ops)) =
     (let st = so_state (session parse verify ao ops);
          fresh = resolve parse (options_of (case apply_opts of None \<Rightarrow> ao | Some _ \<Rightarrow> apply_opts)) r (valid_events st)
      in fresh\<lparr>re_overlays := filter (\<lambda>o'. ov_author o' \<in> set (as_trusted (ss_admit st))) (re_overlays fresh)\<rparr>)"
proof -
  let ?s = "session parse verify ao ops"
  let ?st = "so_state ?s" and ?full = "dget (dedupeById (accepted verify ops))"
  let ?options = "case apply_opts of None \<Rightarrow> ao | Some _ \<Rightarrow> apply_opts"
  let ?fresh = "resolve parse (options_of ?options) r (valid_events ?st)"
  let ?obs = "as_observedById (ss_admit ?st)"
  have ai: "admit_inv (ss_admit ?st)"
    by (rule admission.run_inv [OF assms(3)])
  have k: "store_keyed ?full ?st"
    using session_coherent [OF assms(1), of parse ao] by (simp add: coherent_def)
  have "dedupeById (dvalues ?obs) = ?obs"
    using ai by (intro dedupe_values) (simp_all add: admit_inv_def synced_def well_keyed_def)
  then have sub: "dget (dedupeById (valid_events ?st)) \<subseteq>\<^sub>m dget (dedupeById (dvalues ?obs))"
    unfolding store_keyed_view(1) [OF k keyed_lookup_dedupe] by (auto simp: map_le_def valid_lookup_def lookup_of_def)
  have view: "isAdmitted (toIndex (ss_admit ?st)) = isAdmitted (computeAdmission (dvalues ?obs) (trusts (ss_admit ?st)))"
    by (rule isAdmitted_reasons [OF admit_inv_oracle [OF ai]])
  have "visibleOverlays (re_overlays ?fresh) (admissionView t) =
      filter (\<lambda>o'. ov_author o' \<in> set (as_trusted (ss_admit ?st))) (re_overlays ?fresh)"
    if "so_state t = ?st" for t
    unfolding visibleOverlays_def admissionView_def trustedView_def that view
    by (rule filter_cong [OF refl]) (simp add: overlay_admitted [OF _ sub])
  moreover have "fst (resolveRootMemoized parse ?st r ?options (so_memo ?s)) = ?fresh"
    by (rule session_resolution [OF assms(1,2)])
  ultimately show ?thesis
    by (cases apply_opts) (simp_all add: viewRoot_def resolveRoot_def Let_def case_prod_beta)
qed

section \<open>Concrete runs\<close>

text \<open>An overlay of another author, and a binding whose endpoint turns out to be a patch.\<close>

definition sample_overlay :: nostr_event where
  "sample_overlay = sample_patch ''o'' ''B'' ''r''"

definition bad_binding :: nostr_event where
  "bad_binding = sample_event ''b'' ''B'' Binding [e_ref ''p'' ''root'', e_ref ''m'' ''link'']"

definition sample_run :: "store_delta list" where
  "sample_run = [St_trust [js ''B''], St_observe [bad_binding, sample_root], St_observe [sample_patch ''p'' ''A'' ''r'']]"

definition shuffled_run :: "store_delta list" where
  "shuffled_run = [St_observe [sample_patch ''p'' ''A'' ''r'', bad_binding], St_trust [js ''B''],
     St_observe [bad_binding, sample_root]]"

lemmas store_samples = sample_simps sample_root_def sample_patch_def sample_overlay_def bad_binding_def
  sample_run_def shuffled_run_def

lemma sample_ids: "id_consistent (set [bad_binding, sample_root, sample_patch ''p'' ''A'' ''r''])"
  by (simp add: id_consistent_def store_samples sample_event_def js_def)

lemma delivered_samples:
  "set (delivered sample_run) = set [bad_binding, sample_root, sample_patch ''p'' ''A'' ''r'']"
  "set (delivered shuffled_run) = set [bad_binding, sample_root, sample_patch ''p'' ''A'' ''r'']"
  by (auto simp: sample_run_def shuffled_run_def)

lemma invalidIds_bounds_witness:
  "{i. \<exists>e. lookup_of (state_after sample_run) i = Some e \<and> rejected (lookup_of (state_after sample_run)) e}
     \<subseteq> set (ss_invalidIds (state_after sample_run))
   \<and> set (ss_invalidIds (state_after sample_run))
     \<subseteq> ev_id ` {e \<in> set (delivered sample_run). rejected (dget (dedupeById (delivered sample_run))) e}
   \<and> sorted (ss_invalidIds (state_after sample_run)) \<and> distinct (ss_invalidIds (state_after sample_run))"
  by (rule invalidIds_bounds) (simp only: delivered_samples(1) sample_ids)

lemma store_refines_batch_witness:
  "view_of (toStoreView (foldl applyStoreDelta EMPTY_STORE_STATE sample_run)) =
     spec_view (delivered sample_run) (\<lambda>pk. pk \<in> keys_after sample_run)"
  by (rule store_refines_batch) (simp only: delivered_samples(1) sample_ids, code_simp, code_simp)

lemma store_confluent_witness:
  "view_of (toStoreView (foldl applyStoreDelta EMPTY_STORE_STATE sample_run)) =
     view_of (toStoreView (foldl applyStoreDelta EMPTY_STORE_STATE shuffled_run))"
  by (rule store_confluent) (simp_all only: delivered_samples sample_ids, code_simp, code_simp, code_simp, code_simp)


text \<open>A session with a stale-prone memo: the root is resolved before and after its patch and an overlay arrive.\<close>

definition checked :: ingest_meta where
  "checked = \<lparr>im_source = None, im_verified = False, im_trustUnverified = False\<rparr>"

definition sample_session :: "store_op list" where
  "sample_session =
     [Op_trust [js ''B''], Op_add [sample_root] checked, Op_resolve (js ''r'') None,
      Op_add [sample_patch ''p'' ''A'' ''r'', sample_overlay] checked]"

lemma accepted_sample:
  "set (accepted (\<lambda>_. True) sample_session) = set [sample_root, sample_patch ''p'' ''A'' ''r'', sample_overlay]"
  by (auto simp: sample_session_def passes_def)

lemma sample_session_ok:
  "id_consistent (set [sample_root, sample_patch ''p'' ''A'' ''r'', sample_overlay])"
  "rooted (js ''r'') (set [sample_root, sample_patch ''p'' ''A'' ''r'', sample_overlay])"
  by (simp add: id_consistent_def store_samples sample_event_def js_def) code_simp

lemma resolveRoot_never_stale_witness:
  "fst (resolveRoot (\<lambda>_. None) None (js ''r'') None (session (\<lambda>_. None) (\<lambda>_. True) None sample_session)) =
     resolve (\<lambda>_. None) no_options (js ''r'')
       (valid_events (so_state (session (\<lambda>_. None) (\<lambda>_. True) None sample_session)))"
  using resolveRoot_never_stale [of "\<lambda>_. True" sample_session "js ''r''" "\<lambda>_. None" None None] sample_session_ok
  by (simp only: accepted_sample option.case options_of_def)

lemma resolution_overlays_update: "re_overlays (x\<lparr>re_overlays := ys\<rparr>) = ys"
  by (cases x) simp

lemma viewRoot_trusted_witness:
  "re_overlays (fst (viewRoot (\<lambda>_. None) None (js ''r'') None None (session (\<lambda>_. None) (\<lambda>_. True) None sample_session)))
     = filter (\<lambda>o'. ov_author o' \<in> set (as_trusted (ss_admit (so_state (session (\<lambda>_. None) (\<lambda>_. True) None sample_session)))))
         (re_overlays (resolve (\<lambda>_. None) no_options (js ''r'')
            (valid_events (so_state (session (\<lambda>_. None) (\<lambda>_. True) None sample_session)))))"
proof -
  have "Runs.run_ok (store_step (\<lambda>_. None) (\<lambda>_. True) None) (admission_ok (\<lambda>_. True)) createStore sample_session"
    by code_simp
  then show ?thesis
    using viewRoot_trusted [of "\<lambda>_. True" sample_session "js ''r''" "\<lambda>_. None" None None] sample_session_ok
    by (simp only: accepted_sample option.case options_of_def Let_def) (simp only: resolution_overlays_update)
qed

text \<open>
  The condition on deletions is needed: a deletion that also has a patch tag moves only the epoch of the root it names
  itself, while the resolution honours it; the memo then still shows the patch it has deleted.
\<close>

definition typed_deletion :: nostr_event where
  "typed_deletion = (sample_event ''d'' ''A'' Patch [e_ref ''s'' ''root'', e_ref ''s'' ''reply'', e_ref ''p'' []])\<lparr>ev_kind := 5\<rparr>"

definition stale_session :: "store_op list" where
  "stale_session =
     [Op_add [sample_root, sample_patch ''p'' ''A'' ''r''] checked, Op_resolve (js ''r'') None, Op_add [typed_deletion] checked]"

lemma stale_memo:
  "let s = session (\<lambda>_. None) (\<lambda>_. True) None stale_session in
     re_chain (fst (resolveRoot (\<lambda>_. None) None (js ''r'') None s)) = Chain_resolved (js ''p'') [] [js ''p'']
     \<and> re_chain (resolve (\<lambda>_. None) no_options (js ''r'') (valid_events (so_state s))) = Chain_resolved (js ''r'') [] []"
  by code_simp

text \<open>One event passes a \<open>verify\<close> that accepts its author only, the other does not.\<close>

lemma store_verified_witness:
  "let s = session (\<lambda>_. None) (\<lambda>e. ev_pubkey e = js ''A'') None [Op_add [sample_root, sample_overlay] checked]
   in dget (as_observedById (ss_admit (so_state s))) (js ''r'') = Some sample_root \<and> ev_pubkey sample_root = js ''A''"
  unfolding Let_def
proof
  let ?verify = "\<lambda>e. ev_pubkey e = js ''A''"
  let ?ops = "[Op_add [sample_root, sample_overlay] checked]"
  have obs: "dget (as_observedById (ss_admit (so_state (session (\<lambda>_. None) ?verify None ?ops)))) (js ''r'') = Some sample_root"
    by code_simp
  then show "dget (as_observedById (ss_admit (so_state (session (\<lambda>_. None) ?verify None ?ops)))) (js ''r'') = Some sample_root" .
  show "?verify sample_root"
    by (rule store_verified [of ?ops "\<lambda>_. None" ?verify None "js ''r''"])
      (simp add: checked_def, rule disjI1 [OF obs])
qed

end
