(* ===== verification/Json.thy ===== *)
theory Json
  imports Events Fences
begin

text \<open>
  What \<open>JSON.stringify\<close> does to the values this package serialises: strings, integers, arrays of
  strings and arrays of those. \<open>Ids\<close> hashes the result, \<open>Build\<close> measures it. The lemmas
  show that the texts determine the values, even when more text follows.
\<close>

section \<open>Strings\<close>

definition quote :: u16 where "quote = 34"
definition backslash :: u16 where "backslash = 92"
definition comma :: u16 where "comma = 44"

definition hex_digit :: "nat \<Rightarrow> u16" where
  "hex_digit n = (if n < 10 then of_nat (48 + n) else of_nat (87 + n))"

definition unicode_escape :: "u16 \<Rightarrow> jsstr" where
  "unicode_escape c =
     (let n = unat c
      in [backslash, 117, hex_digit (n div 4096), hex_digit (n div 256 mod 16), hex_digit (n div 16 mod 16),
          hex_digit (n mod 16)])"

text \<open>The units with an escape of their own: backspace, tab, line feed, form feed, carriage return.\<close>

definition short_escapes :: "(u16 \<times> u16) list" where
  "short_escapes = [(8, 98), (9, 116), (10, 110), (12, 102), (13, 114), (quote, quote), (backslash, backslash)]"

definition json_unit :: "bool \<Rightarrow> u16 \<Rightarrow> jsstr" where
  "json_unit lone c =
     (case map_of short_escapes c of
        Some d \<Rightarrow> [backslash, d]
      | None \<Rightarrow> if c < 32 \<or> lone then unicode_escape c else [c])"

text \<open>As in \<open>lone_surrogate\<close>, the first argument says whether the unit before is a high surrogate.\<close>

fun json_units :: "bool \<Rightarrow> jsstr \<Rightarrow> jsstr" where
  "json_units high [] = []"
| "json_units high (c # s) =
     json_unit
       (is_high_surrogate c \<and> (case s of [] \<Rightarrow> True | d # _ \<Rightarrow> \<not> is_low_surrogate d)
        \<or> is_low_surrogate c \<and> \<not> high) c
     @ json_units (is_high_surrogate c) s"

definition json_string :: "jsstr \<Rightarrow> jsstr" where
  "json_string s = quote # json_units False s @ [quote]"

section \<open>Integers and arrays\<close>

definition json_int :: "int \<Rightarrow> jsstr" where
  "json_int i = (if i < 0 then 45 # nat_digits (nat (- i)) else nat_digits (nat i))"

definition json_array :: "jsstr list \<Rightarrow> jsstr" where
  "json_array items = 91 # join_with comma items @ [93]"

definition json_tags :: "jsstr list list \<Rightarrow> jsstr" where
  "json_tags tags = json_array (map (\<lambda>tag. json_array (map json_string tag)) tags)"

section \<open>Reading a string back\<close>

definition hex_value :: "u16 \<Rightarrow> nat" where
  "hex_value d = (if unat d < 58 then unat d - 48 else unat d - 87)"

fun json_read :: "jsstr \<Rightarrow> (jsstr \<times> jsstr) option" where
  "json_read [] = None"
| "json_read (c # s) =
     (if c = quote then Some ([], s)
      else if c = backslash then
        (case s of
           [] \<Rightarrow> None
         | d # t \<Rightarrow>
             if d = 117 then
               (case t of
                  h1 # h2 # h3 # h4 # t' \<Rightarrow>
                    map_option (\<lambda>(u, r). (of_nat (4096 * hex_value h1 + 256 * hex_value h2 + 16 * hex_value h3
                      + hex_value h4) # u, r)) (json_read t')
                | _ \<Rightarrow> None)
             else map_option (\<lambda>(u, r). ((case map_of (map prod.swap short_escapes) d of None \<Rightarrow> d | Some e \<Rightarrow> e) # u, r))
                    (json_read t))
      else map_option (\<lambda>(u, r). (c # u, r)) (json_read s))"

lemma unat_small: "n < 65536 \<Longrightarrow> unat (of_nat n :: u16) = n"
  by (simp add: unat_of_nat take_bit_eq_mod)

lemma hex_value_digit: "n < 16 \<Longrightarrow> hex_value (hex_digit n) = n"
  using unat_small [of "48 + n"] unat_small [of "87 + n"]
  by (auto simp: hex_value_def hex_digit_def simp del: of_nat_add)

lemma hex_decompose:
  fixes n :: nat
  shows "4096 * (n div 4096) + 256 * (n div 256 mod 16) + 16 * (n div 16 mod 16) + n mod 16 = n"
proof -
  have "n = 16 * (n div 16) + n mod 16" "n div 16 = 16 * (n div 256) + n div 16 mod 16"
    "n div 256 = 16 * (n div 4096) + n div 256 mod 16"
    using mult_div_mod_eq [of 16 n] mult_div_mod_eq [of 16 "n div 16"] mult_div_mod_eq [of 16 "n div 256"]
    by (simp_all add: div_mult2_eq [symmetric])
  then show ?thesis by linarith
qed

lemma json_read_unit:
  "json_read (json_unit lone c @ r) = map_option (\<lambda>(u, t). (c # u, t)) (json_read r)"
proof (cases "map_of short_escapes c")
  case (Some d)
  then have "c \<in> {8, 9, 10, 12, 13, quote, backslash}"
    by (auto simp: short_escapes_def split: if_splits)
  with Some show ?thesis
    by (auto simp: json_unit_def short_escapes_def quote_def backslash_def)
next
  case None
  then have c: "c \<noteq> quote" "c \<noteq> backslash"
    by (auto simp: short_escapes_def split: if_splits)
  have n: "unat c < 65536"
    using unsigned_less [of c] by simp
  let ?n = "unat c"
  have h: "?n div 4096 < 16" "?n div 256 mod 16 < 16" "?n div 16 mod 16 < 16" "?n mod 16 < 16"
    using n by auto
  have "of_nat (4096 * (?n div 4096) + 256 * (?n div 256 mod 16) + 16 * (?n div 16 mod 16) + ?n mod 16) = c"
    unfolding hex_decompose by simp
  then have "json_read (unicode_escape c @ r) = map_option (\<lambda>(u, t). (c # u, t)) (json_read r)"
    by (simp add: unicode_escape_def Let_def backslash_def quote_def hex_value_digit [OF h(1)] hex_value_digit [OF h(2)]
        hex_value_digit [OF h(3)] hex_value_digit [OF h(4)])
  with None c show ?thesis
    by (simp add: json_unit_def)
qed

lemma json_read_units: "json_read (json_units high s @ quote # r) = Some (s, r)"
  by (induction s arbitrary: high) (simp_all add: json_read_unit)

section \<open>The texts determine the values\<close>

definition prefix_code :: "('a \<Rightarrow> jsstr) \<Rightarrow> bool" where
  "prefix_code f \<longleftrightarrow> (\<forall>x y r r'. f x @ r = f y @ r' \<longrightarrow> x = y \<and> r = r')"

lemma prefix_codeD: "prefix_code f \<Longrightarrow> f x @ r = f y @ r' \<Longrightarrow> x = y \<and> r = r'"
  unfolding prefix_code_def by blast

lemma prefix_code_string: "prefix_code json_string"
  unfolding prefix_code_def
proof (intro allI impI)
  fix x y r r' assume "json_string x @ r = json_string y @ r'"
  then have "json_read (json_units False x @ quote # r) = json_read (json_units False y @ quote # r')"
    by (simp add: json_string_def)
  then show "x = y \<and> r = r'"
    by (simp add: json_read_units)
qed

text \<open>An item's text does not begin with the bracket that closes the array.\<close>

definition item_code :: "('a \<Rightarrow> jsstr) \<Rightarrow> bool" where
  "item_code f \<longleftrightarrow> prefix_code f \<and> (\<forall>x. f x \<noteq> [] \<and> hd (f x) \<noteq> 93)"

lemma join_code:
  assumes f: "item_code f"
  shows "join_with comma (map f xs) @ 93 # r = join_with comma (map f ys) @ 93 # r' \<Longrightarrow> xs = ys \<and> r = r'"
proof (induction xs arbitrary: ys)
  case Nil
  show ?case
  proof (cases ys)
    case (Cons y ys')
    have "hd (join_with comma (map f ys) @ 93 # r') = hd (f y)"
      using f unfolding Cons item_code_def by (cases ys') auto
    with Nil f show ?thesis
      unfolding item_code_def by (metis join_with.simps(1) list.map(1) list.sel(1) self_append_conv2)
  qed (use Nil in simp)
next
  case (Cons x xs)
  show ?case
  proof (cases ys)
    case Nil
    have "hd (join_with comma (map f (x # xs)) @ 93 # r) = hd (f x)"
      using f unfolding item_code_def by (cases xs) auto
    with Cons.prems Nil f show ?thesis
      unfolding item_code_def by (metis join_with.simps(1) list.map(1) list.sel(1) self_append_conv2)
  next
    case ys: (Cons y ys')
    define tail where "tail zs s = (case zs of [] \<Rightarrow> 93 # s | _ \<Rightarrow> comma # join_with comma (map f zs) @ 93 # s)" for zs s
    have split: "join_with comma (map f (z # zs)) @ 93 # s = f z @ tail zs s" for z zs s
      by (cases zs) (simp_all add: tail_def join_with_Cons)
    have "x = y \<and> tail xs r = tail ys' r'"
      using Cons.prems f unfolding ys split item_code_def by (blast dest: prefix_codeD)
    moreover from this have "join_with comma (map f xs) @ 93 # r = join_with comma (map f ys') @ 93 # r'"
      by (cases xs; cases ys') (auto simp: tail_def comma_def)
    ultimately show ?thesis
      using Cons.IH ys by blast
  qed
qed

lemma prefix_code_array: "item_code f \<Longrightarrow> prefix_code (\<lambda>xs. json_array (map f xs))"
  unfolding prefix_code_def json_array_def using join_code [of f] by auto

lemma item_code_string: "item_code json_string"
  by (simp add: item_code_def prefix_code_string) (simp add: json_string_def quote_def)

lemma item_code_array: "item_code f \<Longrightarrow> item_code (\<lambda>xs. json_array (map f xs))"
  unfolding item_code_def using prefix_code_array [of f] by (simp add: item_code_def json_array_def)

lemma prefix_code_tags: "prefix_code json_tags"
proof -
  have "prefix_code (\<lambda>tags. json_array (map (\<lambda>tag. json_array (map json_string tag)) tags))"
    by (rule prefix_code_array) (rule item_code_array [OF item_code_string])
  then show ?thesis
    unfolding json_tags_def [abs_def] .
qed

lemma digits_value_snoc: "digits_value (s @ [d]) = 10 * digits_value s + (unat d - 48)"
  by (induction s) (simp_all add: algebra_simps)

lemma digit_unit: "n < 10 \<Longrightarrow> unat (48 + word_of_nat n :: u16) = 48 + n"
proof -
  assume n: "n < 10"
  then have "unat (word_of_nat n :: u16) = n"
    by (simp add: unat_of_nat take_bit_eq_mod)
  moreover from this n have "unat (48 :: u16) + unat (word_of_nat n :: u16) < 2 ^ LENGTH(16)"
    by simp
  ultimately show ?thesis
    by (subst unat_add_lem [THEN iffD1]) simp_all
qed

lemma nat_digits_spec: "digits_value (nat_digits n) = n \<and> list_all is_digit (nat_digits n) \<and> nat_digits n \<noteq> []"
proof (induction n rule: nat_digits.induct)
  case (1 n)
  show ?case
  proof (cases "n < 10")
    case True
    then show ?thesis
      by (simp add: nat_digits.simps [of n] digit_unit is_digit_unat)
  next
    case False
    then show ?thesis
      using 1 by (simp add: nat_digits.simps [of n] digits_value_snoc digit_unit is_digit_unat)
  qed
qed

lemma nat_digits_inject: "nat_digits m = nat_digits n \<longleftrightarrow> m = n"
  using nat_digits_spec by metis

lemma json_int_units: "comma \<notin> set (json_int i)"
proof -
  have "\<not> is_digit comma" "comma \<noteq> 45"
    by (simp_all add: comma_def is_digit_def)
  then show ?thesis
    using nat_digits_spec by (auto simp: json_int_def list_all_iff)
qed

lemma json_int_inject: "json_int i = json_int j \<Longrightarrow> i = j"
proof -
  have no: "hd (nat_digits n) \<noteq> 45" for n
    using nat_digits_spec [of n] by (cases "nat_digits n") (auto simp: is_digit_def)
  show "json_int i = json_int j \<Longrightarrow> i = j"
    using no by (auto simp: json_int_def nat_digits_inject split: if_splits dest: arg_cong [of _ _ hd]) 
qed

lemma json_int_code: "json_int i @ comma # r = json_int j @ comma # r' \<Longrightarrow> i = j \<and> r = r'"
proof -
  assume eq: "json_int i @ comma # r = json_int j @ comma # r'"
  have cut: "takeWhile (\<lambda>c. c \<noteq> comma) (json_int k @ comma # s) = json_int k" for k s
    using json_int_units by (subst takeWhile_append2) auto
  have "json_int i = json_int j"
    using arg_cong [OF eq, of "takeWhile (\<lambda>c. c \<noteq> comma)"] by (simp only: cut)
  with eq show ?thesis
    by (auto dest: json_int_inject)
qed

end
