(* ===== verification/Ids.thy ===== *)
theory Ids
  imports Json
begin

text \<open>
  \<open>packages/core/src/id.ts\<close>: the NIP-01 serialization of an event, its id and the recompute half
  of SIG-1. The hash is the caller's, the parameter \<open>sha256\<close>.
\<close>

type_synonym sha256_hex = "jsstr \<Rightarrow> jsstr"

definition serializeForId :: "nostr_event \<Rightarrow> jsstr" where
  "serializeForId event =
     json_array [js ''0'', json_string (ev_pubkey event), json_int (ev_created_at event), json_int (ev_kind event),
       json_tags (ev_tags event), json_string (ev_content event)]"

definition computeEventId :: "nostr_event \<Rightarrow> sha256_hex \<Rightarrow> jsstr" where
  "computeEventId event sha256 = sha256 (serializeForId event)"

definition eventIdMatches :: "nostr_event \<Rightarrow> sha256_hex \<Rightarrow> bool" where
  "eventIdMatches event sha256 \<longleftrightarrow> to_lower (ev_id event) = to_lower (computeEventId event sha256)"

text \<open>The five fields an id commits to.\<close>

definition signed_fields :: "nostr_event \<Rightarrow> jsstr \<times> int \<times> int \<times> jsstr list list \<times> jsstr" where
  "signed_fields e = (ev_pubkey e, ev_created_at e, ev_kind e, ev_tags e, ev_content e)"

lemma serialize_text:
  "serializeForId e = 91 # 48 # comma # json_string (ev_pubkey e) @ comma # json_int (ev_created_at e) @ comma #
     json_int (ev_kind e) @ comma # json_tags (ev_tags e) @ comma # json_string (ev_content e) @ [93]"
  by (simp add: serializeForId_def json_array_def js_def cu_def)

lemma serialize_determines: "serializeForId e = serializeForId e' \<Longrightarrow> signed_fields e = signed_fields e'"
proof -
  assume "serializeForId e = serializeForId e'"
  then have "json_string (ev_pubkey e) @ comma # json_int (ev_created_at e) @ comma # json_int (ev_kind e) @ comma #
      json_tags (ev_tags e) @ comma # json_string (ev_content e) @ [93] =
    json_string (ev_pubkey e') @ comma # json_int (ev_created_at e') @ comma # json_int (ev_kind e') @ comma #
      json_tags (ev_tags e') @ comma # json_string (ev_content e') @ [93]"
    by (simp only: serialize_text list.inject simp_thms)
  note 1 = prefix_codeD [OF prefix_code_string this]
  note 2 = json_int_code [OF list.inject [THEN iffD1, THEN conjunct2, OF 1 [THEN conjunct2]]]
  note 3 = json_int_code [OF 2 [THEN conjunct2]]
  note 4 = prefix_codeD [OF prefix_code_tags 3 [THEN conjunct2]]
  note 5 = prefix_codeD [OF prefix_code_string list.inject [THEN iffD1, THEN conjunct2, OF 4 [THEN conjunct2]]]
  show ?thesis
    using 1 2 3 4 5 by (simp only: signed_fields_def)
qed

text \<open>
  C40. The canonical serialization is injective: two events have the same one exactly when they agree on
  author, time, kind, tags and content, whatever quotes, control characters or lone surrogates
  their strings hold. Nothing can move between fields without the text showing it.
\<close>

theorem serializeForId_inject:
  "serializeForId e = serializeForId e' \<longleftrightarrow>
     ev_pubkey e = ev_pubkey e' \<and> ev_created_at e = ev_created_at e' \<and> ev_kind e = ev_kind e'
     \<and> ev_tags e = ev_tags e' \<and> ev_content e = ev_content e'"
  using serialize_determines [of e e'] by (auto simp: signed_fields_def serializeForId_def)

text \<open>
  (SIG-1) An id that matches commits to the content: of two events whose ids both match and agree up
  to the case of their hex digits, neither can have been altered, unless their serializations
  are a collision of the hash.
\<close>

theorem id_commits:
  assumes "eventIdMatches e sha256" "eventIdMatches e' sha256" "to_lower (ev_id e) = to_lower (ev_id e')"
    and "inj_on (\<lambda>s. to_lower (sha256 s)) {serializeForId e, serializeForId e'}"
  shows "ev_pubkey e = ev_pubkey e' \<and> ev_created_at e = ev_created_at e' \<and> ev_kind e = ev_kind e'
     \<and> ev_tags e = ev_tags e' \<and> ev_content e = ev_content e'"
proof -
  have "to_lower (sha256 (serializeForId e)) = to_lower (sha256 (serializeForId e'))"
    using assms(1-3) by (simp add: eventIdMatches_def computeEventId_def)
  then have "serializeForId e = serializeForId e'"
    using assms(4) by (auto dest: inj_onD)
  from serialize_determines [OF this] show ?thesis
    by (simp add: signed_fields_def)
qed

text \<open>A hash that measures its input tells a product from one with a longer content.\<close>

definition sample_hash :: sha256_hex where
  "sample_hash s = nat_digits (length s)"

definition sample_signed :: "string \<Rightarrow> nostr_event" where
  "sample_signed sig =
     (let e = sample_event ''x'' ''A'' Product [] in e\<lparr>ev_id := computeEventId e sample_hash, ev_sig := js sig\<rparr>)"

lemma id_commits_witness:
  "eventIdMatches (sample_signed ''s'') sample_hash \<and> eventIdMatches (sample_signed ''t'') sample_hash
   \<and> ev_content (sample_signed ''s'') = ev_content (sample_signed ''t'')"
proof -
  have m: "eventIdMatches (sample_signed sig) sample_hash" for sig
    by (simp add: eventIdMatches_def sample_signed_def computeEventId_def serializeForId_def Let_def)
  have "inj_on (\<lambda>s. to_lower (sample_hash s))
      {serializeForId (sample_signed ''s''), serializeForId (sample_signed ''t'')}"
    by (simp add: sample_signed_def serializeForId_def Let_def)
  then have "ev_content (sample_signed ''s'') = ev_content (sample_signed ''t'')"
    using id_commits [of "sample_signed ''s''" sample_hash "sample_signed ''t''", OF m m]
    by (simp add: sample_signed_def Let_def)
  with m show ?thesis by simp
qed

end
