(* ===== verification/Build.thy ===== *)
theory Build
  imports Json Patch Validate
begin

text \<open>
  \<open>packages/core/src/build.ts\<close>: unsigned templates of products, metadata, bindings and patches, with the
  producer's own findings. The diff library's functions are parameters, as in \<open>Patch\<close>;
  \<open>buildPatch\<close> fails where \<open>widenContext\<close> throws. What a signer adds is \<open>signed\<close>. The lemmas
  connect the producer with the consumer: what is built is what \<open>validateEvent\<close>, the tag accessors
  and \<open>findPatchPayload\<close> read.
\<close>

section \<open>Bounds\<close>

record build_result =
  br_template :: unsigned_event
  br_issues :: "issue list"

definition MAX_EVENT_BYTES :: nat where "MAX_EVENT_BYTES = 65536"
definition MAX_TAG_VALUE_BYTES :: nat where "MAX_TAG_VALUE_BYTES = 1024"
definition MAX_HUNKS_PER_PAYLOAD :: nat where "MAX_HUNKS_PER_PAYLOAD = 64"
definition SIGNED_ENVELOPE_BYTES :: nat where "SIGNED_ENVELOPE_BYTES = 285"

text \<open>The iterator of a string yields a surrogate pair as one code point and a lone surrogate as one.\<close>

fun utf8Bytes :: "jsstr \<Rightarrow> nat" where
  "utf8Bytes [] = 0"
| "utf8Bytes (c # s) =
     (if is_high_surrogate c \<and> (case s of [] \<Rightarrow> False | d # _ \<Rightarrow> is_low_surrogate d)
      then 4 + utf8Bytes (drop 1 s)
      else (if c < 0x80 then 1 else if c < 0x800 then 2 else 3) + utf8Bytes s)"

text \<open>\<open>JSON.stringify(template)\<close>.\<close>

definition json_template :: "unsigned_event \<Rightarrow> jsstr" where
  "json_template template =
     js ''{\"kind\":'' @ json_int (un_kind template) @ js '',\"created_at\":'' @ json_int (un_created_at template)
     @ js '',\"tags\":'' @ json_tags (un_tags template) @ js '',\"content\":'' @ json_string (un_content template)
     @ js ''}''"

definition boundsIssues :: "unsigned_event \<Rightarrow> issue list" where
  "boundsIssues template =
     map (\<lambda>_. cite (R_RL 1) Sev_warning)
       (filter (\<lambda>v. MAX_TAG_VALUE_BYTES < utf8Bytes v) (concat (un_tags template)))
     @ (if MAX_EVENT_BYTES < utf8Bytes (json_template template) + SIGNED_ENVELOPE_BYTES
        then [cite (R_RL 1) Sev_warning] else [])"

definition build_result_of :: "unsigned_event \<Rightarrow> issue list \<Rightarrow> build_result" where
  "build_result_of template own = \<lparr>br_template = template, br_issues = own @ boundsIssues template\<rparr>"

definition baseTags :: "sc_type \<Rightarrow> jsstr list list" where
  "baseTags type = [[js ''t'', FABRIC_TAG], [js ''t'', VERSION_TAG], [js ''t'', EVENT_TYPE_TAGS type]]"

section \<open>Products and metadata\<close>

definition indexerTags :: "jsstr list \<Rightarrow> jsstr list list" where
  "indexerTags raws =
     map (\<lambda>raw. [js ''i'', raw]) raws
     @ map (\<lambda>p. [js ''k'', p])
         (set_of (concat (map (\<lambda>raw. case parseIndexer raw of None \<Rightarrow> [] | Some p \<Rightarrow> [ix_prefix p]) raws)))"

definition buildIndexedEvent :: "sc_type \<Rightarrow> jsstr \<Rightarrow> int \<Rightarrow> jsstr list \<Rightarrow> build_result" where
  "buildIndexedEvent type content createdAt raws =
     build_result_of
       \<lparr>un_kind = SCRUTINY_KIND, un_created_at = createdAt, un_tags = baseTags type @ indexerTags raws,
        un_content = content\<rparr>
       (if MAX_INDEXER_TAGS < length raws then [cite (R_IX 2) Sev_warning] else [])"

definition buildProduct :: "jsstr \<Rightarrow> int \<Rightarrow> jsstr list \<Rightarrow> build_result" where
  "buildProduct content createdAt raws = buildIndexedEvent Product content createdAt raws"

definition buildMetadata :: "jsstr \<Rightarrow> int \<Rightarrow> jsstr list \<Rightarrow> build_result" where
  "buildMetadata content createdAt raws = buildIndexedEvent Metadata content createdAt raws"

section \<open>Bindings\<close>

record endpoint_ref =
  ep_id :: jsstr
  ep_relay :: "jsstr option"
  ep_authorHint :: "jsstr option"

definition or_empty :: "jsstr option \<Rightarrow> jsstr" where
  "or_empty v = (case v of None \<Rightarrow> [] | Some s \<Rightarrow> s)"

definition endpointTag :: "jsstr \<Rightarrow> endpoint_ref \<Rightarrow> jsstr list" where
  "endpointTag marker ref = [js ''e'', ep_id ref, or_empty (ep_relay ref), marker, or_empty (ep_authorHint ref)]"

definition buildBinding :: "endpoint_ref \<Rightarrow> endpoint_ref \<Rightarrow> jsstr \<Rightarrow> int \<Rightarrow> build_result" where
  "buildBinding root link content createdAt =
     build_result_of
       \<lparr>un_kind = SCRUTINY_KIND, un_created_at = createdAt,
        un_tags = baseTags Binding @ [endpointTag (js ''root'') root, endpointTag (js ''link'') link],
        un_content = content\<rparr> []"

section \<open>Patches\<close>

text \<open>The lengths of the runs of backticks; \<open>n\<close> is the length of the run before.\<close>

fun backtick_runs :: "nat \<Rightarrow> jsstr \<Rightarrow> nat list" where
  "backtick_runs n [] = (if n = 0 then [] else [n])"
| "backtick_runs n (c # s) =
     (if c = backtick then backtick_runs (n + 1) s else (if n = 0 then [] else [n]) @ backtick_runs 0 s)"

definition longestBacktickRun :: "jsstr \<Rightarrow> nat" where
  "longestBacktickRun payload = fold max (backtick_runs 0 payload) 0"

definition fenceLength :: "jsstr \<Rightarrow> nat" where
  "fenceLength payload = max 3 (longestBacktickRun payload + 1)"

definition fencePatchPayload :: "jsstr \<Rightarrow> jsstr \<Rightarrow> jsstr" where
  "fencePatchPayload payload info =
     (let fence = replicate (fenceLength payload) backtick in fence @ info @ [10] @ payload @ fence @ [10])"

definition DEFAULT_MAX_WIDEN_WORK :: int where
  "DEFAULT_MAX_WIDEN_WORK = 16 * 1024 * 1024"

record build_patch_options =
  bp_root :: endpoint_ref
  bp_reply :: endpoint_ref
  bp_before :: jsstr
  bp_after :: jsstr
  bp_createdAt :: int
  bp_context :: "int option"
  bp_maxWidenWork :: "int option"
  bp_apply :: apply_options

text \<open>\<open>payload.match(/^@@ /gm)\<close>; the first argument says whether a line starts here.\<close>

fun hunk_headers :: "bool \<Rightarrow> jsstr \<Rightarrow> nat" where
  "hunk_headers start [] = 0"
| "hunk_headers start (c # s) =
     (if start \<and> starts_with (c # s) (js ''@@ '') then 1 else 0) + hunk_headers (is_line_terminator c) s"

text \<open>P4: the content the consumer gets, when it gets any.\<close>

definition settled_content :: "apply_result \<Rightarrow> jsstr option" where
  "settled_content r = (case r of PatchApplied c _ _ \<Rightarrow> Some c | PatchNoop c _ \<Rightarrow> Some c | _ \<Rightarrow> None)"

definition buildPatch ::
    "structured_patch \<Rightarrow> format_patch \<Rightarrow> parse_patch \<Rightarrow> build_patch_options \<Rightarrow> js_error + build_result" where
  "buildPatch structured format_patch parse_patch options =
     (case widenContext structured (bp_before options) (bp_after options)
         (case bp_context options of None \<Rightarrow> 3 | Some c \<Rightarrow> c)
         (case bp_maxWidenWork options of None \<Rightarrow> DEFAULT_MAX_WIDEN_WORK | Some w \<Rightarrow> w) of
        Inl err \<Rightarrow> Inl err
      | Inr widened \<Rightarrow>
          let payload = makePatch format_patch (bp_before options) (bp_after options) (wr_context widened);
              content = fencePatchPayload payload (js ''diff'');
              template =
                \<lparr>un_kind = SCRUTINY_KIND, un_created_at = bp_createdAt options,
                 un_tags = baseTags Patch @ [endpointTag (js ''root'') (bp_root options),
                   endpointTag (js ''reply'') (bp_reply options)],
                 un_content = content\<rparr>;
              check = applyPatchContent parse_patch (bp_apply options) (bp_before options) content;
              own =
                (if MAX_HUNKS_PER_PAYLOAD < hunk_headers True payload then [cite (R_RL 1) Sev_warning] else [])
                @ (if settled_content check \<noteq> Some (bp_after options) then [cite (R_P 4) Sev_warning] else [])
          in Inr (build_result_of template own))"

text \<open>A signer's part: the id, the author and the signature.\<close>

definition signed :: "jsstr \<Rightarrow> jsstr \<Rightarrow> jsstr \<Rightarrow> unsigned_event \<Rightarrow> nostr_event" where
  "signed i pubkey sig u =
     \<lparr>ev_id = i, ev_pubkey = pubkey, ev_created_at = un_created_at u, ev_kind = un_kind u, ev_tags = un_tags u,
      ev_content = un_content u, ev_sig = sig\<rparr>"

section \<open>The fence\<close>

lemma fold_max_ge: "k \<le> fold max xs k \<and> (\<forall>m \<in> set xs. m \<le> fold max xs (k :: nat))"
proof (induction xs arbitrary: k)
  case (Cons x xs)
  then show ?case
    using Cons.IH [of "max x k"] by (auto intro: order_trans [OF max.cobounded1] order_trans [OF max.cobounded2])
qed simp

lemma runs_bound: "m \<in> set (backtick_runs n s) \<Longrightarrow> m \<le> fold max (backtick_runs n s) 0"
  using fold_max_ge by blast

lemma backtick_runs_open: "n \<noteq> 0 \<Longrightarrow> \<exists>k \<in> set (backtick_runs n v). n \<le> k"
proof (induction v arbitrary: n)
  case (Cons c v)
  show ?case
  proof (cases "c = backtick")
    case True
    then obtain k where "k \<in> set (backtick_runs (Suc n) v)" "Suc n \<le> k"
      using Cons.IH [of "Suc n"] by auto
    with True show ?thesis
      by (intro bexI [of _ k]) simp_all
  next
    case False
    with Cons.prems show ?thesis by simp
  qed
qed simp

lemma backtick_runs_replicate: "m + n \<noteq> 0 \<Longrightarrow> \<exists>k \<in> set (backtick_runs n (replicate m backtick @ v)). m + n \<le> k"
proof (induction m arbitrary: n)
  case 0
  then show ?case by (simp add: backtick_runs_open)
next
  case (Suc m)
  then show ?case
    using Suc.IH [of "n + 1"] by simp
qed

lemma backtick_runs_prefix: "m \<noteq> 0 \<Longrightarrow> \<exists>k \<in> set (backtick_runs n (u @ replicate m backtick @ v)). m \<le> k"
proof (induction u arbitrary: n)
  case Nil
  then obtain k where "k \<in> set (backtick_runs n (replicate m backtick @ v))" "m + n \<le> k"
    using backtick_runs_replicate [of m n v] by auto
  then show ?case
    by (intro bexI [of _ k]) simp_all
next
  case (Cons c u)
  then show ?case by simp
qed

lemma run_in_payload: "m \<noteq> 0 \<Longrightarrow> m \<le> longestBacktickRun (u @ replicate m backtick @ v)"
  using backtick_runs_prefix [of m 0 u v] runs_bound unfolding longestBacktickRun_def by (meson le_trans)

text \<open>No line of the payload closes a fence of the chosen length.\<close>

lemma no_closer:
  assumes "payload = u @ line @ v"
  shows "\<not> closer backtick (fenceLength payload) line"
proof
  let ?n = "fenceLength payload"
  assume "closer backtick ?n line"
  then obtain r where r: "skip_indent line = Some r" "?n \<le> length (takeWhile (\<lambda>d. d = backtick) r)"
    by (auto simp: closer_def split: option.splits)
  let ?t = "takeWhile (\<lambda>d. d = backtick) r" and ?d = "dropWhile (\<lambda>d. d = backtick) r"
  have "?t = replicate (length ?t) backtick"
    by (intro replicate_length_same [symmetric]) (auto dest: set_takeWhileD)
  also have "\<dots> = replicate ?n backtick @ replicate (length ?t - ?n) backtick"
    using r(2) by (simp add: replicate_add [symmetric])
  finally have "?t @ ?d = replicate ?n backtick @ (replicate (length ?t - ?n) backtick @ ?d)"
    by (metis append_assoc)
  then obtain w where w: "r = replicate ?n backtick @ w"
    unfolding takeWhile_dropWhile_id by blast
  have "line = takeWhile (\<lambda>c. c = space) line @ r"
    using r(1) by (auto simp: skip_indent_def split: if_splits)
  then obtain x where "line = x @ r" ..
  with w have "payload = (u @ x) @ replicate ?n backtick @ (w @ v)"
    using assms by simp
  then have "?n \<le> longestBacktickRun payload"
    using run_in_payload [of ?n "u @ x" "w @ v"] by (simp add: fenceLength_def)
  then show False
    by (simp add: fenceLength_def)
qed

lemma split_line: "l \<in> set (split_on c s) \<Longrightarrow> \<exists>u v. s = u @ l @ v"
proof (induction s)
  case (Cons x xs)
  show ?case
  proof (cases "x = c")
    case True
    with Cons show ?thesis
      by (auto intro: exI [of _ "[]"]) (metis append_Cons)
  next
    case False
    obtain l0 ls where ls: "split_on c xs = l0 # ls"
      using split_on_not_Nil by (cases "split_on c xs") auto
    show ?thesis
    proof (cases "l = x # l0")
      case True
      have "\<exists>v. xs = l0 @ v"
        using join_split [of c xs] unfolding ls by (cases ls) (auto simp: join_with_Cons)
      then show ?thesis
        using True by (metis append_Cons append_Nil)
    next
      case F: False
      then have "l \<in> set (split_on c xs)"
        using Cons.prems False ls by auto
      then show ?thesis
        using Cons.IH by (metis append_Cons)
    qed
  qed
qed simp

lemma split_on_append: "split_on c (a @ c # b) = split_on c a @ split_on c b"
proof (induction a)
  case (Cons x a)
  then show ?case
    using split_on_not_Nil [of c a] by (cases "split_on c a") auto
qed simp

lemma fence_body_closed:
  "\<forall>l \<in> set ls. \<not> closer c n l \<Longrightarrow> closer c n f \<Longrightarrow> fence_body c n (ls @ f # rest) = (ls, True, rest)"
  by (induction ls) auto

lemma closer_fence: "3 \<le> n \<Longrightarrow> closer backtick n (replicate n backtick)"
  by (simp add: closer_def skip_indent_def takeWhile_replicate dropWhile_replicate backtick_def space_def)

lemma opener_fence:
  assumes "3 \<le> n" "backtick \<notin> set info" "list_all (\<lambda>d. \<not> is_line_terminator d) info"
  shows "opener (replicate n backtick @ info) = Some (backtick, n, info)"
proof -
  have ne: "backtick \<noteq> space" by (simp add: backtick_def space_def)
  have t: "takeWhile (\<lambda>d. d = backtick) (replicate n backtick @ info) = replicate n backtick"
    "dropWhile (\<lambda>d. d = backtick) (replicate n backtick @ info) = info"
    using assms(2) by (cases info; force simp: takeWhile_append dropWhile_append)+
  obtain m where n: "n = Suc m"
    using assms(1) by (cases n) auto
  have "skip_indent (replicate n backtick @ info) = Some (replicate n backtick @ info)"
    using ne by (simp add: skip_indent_def n)
  then show ?thesis
    using assms t by (simp add: opener_def fence_open_def Let_def n)
qed

lemma fence_payload:
  assumes "payload = [] \<or> at_last payload = Some 10"
    and "isPayloadInfo info" "backtick \<notin> set info" "list_all (\<lambda>d. \<not> is_line_terminator d) info"
  shows "findPatchPayload (fencePatchPayload payload info) = Some payload"
proof -
  let ?n = "fenceLength payload"
  let ?fence = "replicate ?n backtick"
  have n: "3 \<le> ?n"
    by (simp add: fenceLength_def)
  have no10: "10 \<notin> set info" "10 \<notin> set ?fence"
    using assms(4) by (auto simp: list_all_iff is_line_terminator_def backtick_def cu_def)
  have fence: "split_on 10 (?fence @ [10]) = [?fence, []]"
    using split_on_append [of 10 ?fence "[]"] split_on_no_sep [OF no10(2)] by simp
  obtain ls where ls: "payload = body_payload ls" "split_on 10 (payload @ ?fence @ [10]) = ls @ [?fence, []]"
    "set ls \<subseteq> set (split_on 10 payload)"
  proof (cases "payload = []")
    case True
    show thesis
      by (rule that [of "[]"]) (use fence True in \<open>simp_all add: body_payload_def\<close>)
  next
    case False
    then have p: "payload = butlast payload @ [10]"
      using assms(1) by (simp add: at_last_def split: if_splits) (metis append_butlast_last_id)
    show thesis
    proof (rule that [of "split_on 10 (butlast payload)"])
      show "payload = body_payload (split_on 10 (butlast payload))"
        by (subst p) (simp add: body_payload_def)
      show "split_on 10 (payload @ ?fence @ [10]) = split_on 10 (butlast payload) @ [?fence, []]"
        using split_on_append [of 10 "butlast payload" "?fence @ [10]"] fence by (subst p) simp
      show "set (split_on 10 (butlast payload)) \<subseteq> set (split_on 10 payload)"
        using split_on_append [of 10 "butlast payload" "[]"] by (subst (2) p) auto
    qed
  qed
  have "split_on 10 (fencePatchPayload payload info) = (?fence @ info) # ls @ [?fence, []]"
    using split_on_append_sep [of 10 "?fence @ info" "payload @ ?fence @ [10]"] no10 ls(2)
    by (simp add: fencePatchPayload_def Let_def)
  moreover have "fence_body backtick ?n (ls @ [?fence, []]) = (ls, True, [[]])"
  proof (rule fence_body_closed)
    show "\<forall>l \<in> set ls. \<not> closer backtick ?n l"
      using split_line [of _ 10 payload] no_closer [of payload] ls(3) by blast
    show "closer backtick ?n ?fence"
      by (rule closer_fence [OF n])
  qed
  ultimately have "findFencedBlocks (fencePatchPayload payload info) =
      \<lparr>fb_fenceChar = backtick, fb_info = info, fb_payload = payload, fb_closed = True\<rparr> # fenced_lines [[]]"
    by (simp add: findFencedBlocks_def opener_fence [OF n assms(3,4)] ls(1) [symmetric])
  then show ?thesis
    using assms(2) by (simp add: findPatchPayload_def isPayloadBlock_def)
qed

text \<open>
  (E4) A payload survives its fence: whatever backticks, fences or info strings the payload holds, the
  consumer finds in the content the producer wrote exactly the payload, as long as it ends with a
  line feed or is empty.
\<close>

theorem fence_roundtrip:
  assumes "payload = [] \<or> at_last payload = Some 10"
    and "isPayloadInfo info" "backtick \<notin> set info" "list_all (\<lambda>d. \<not> is_line_terminator d) info"
  shows "findPatchPayload (fencePatchPayload payload info) = Some payload"
  using assms by (rule fence_payload)

section \<open>What a consumer reads\<close>

lemma tagValues_append: "tagValues (signed i pk sig u) n = concat (map (tag_value n) (un_tags u))"
  by (simp add: tagValues_def signed_def)

lemma base_tags: "tTags (signed i pk sig \<lparr>un_kind = k, un_created_at = c, un_tags = baseTags ty @ tags, un_content = t\<rparr>)
    = [FABRIC_TAG, VERSION_TAG, EVENT_TYPE_TAGS ty] @ concat (map (tag_value (js ''t'')) tags)"
  by (simp add: tTags_def tagValues_append baseTags_def tag_value_def)

lemma base_refs: "eTags (signed i pk sig \<lparr>un_kind = k, un_created_at = c, un_tags = baseTags ty @ tags, un_content = t\<rparr>)
    = concat (map e_tag tags)"
  by (simp add: eTags_def signed_def baseTags_def e_tag_def)

lemma indexer_tag_values:
  "concat (map (tag_value n) (indexerTags raws)) =
     (if n = js ''i'' then raws else [])
     @ (if n = js ''k'' then set_of (concat (map (\<lambda>raw. case parseIndexer raw of None \<Rightarrow> [] | Some p \<Rightarrow> [ix_prefix p]) raws))
        else [])"
proof -
  have "concat (map (\<lambda>x. tag_value n [m, x]) xs) = (if n = m then xs else [])" for m xs
    by (induction xs) (auto simp: tag_value_def)
  then show ?thesis
    by (simp add: indexerTags_def comp_def)
qed

lemma version_patterns:
  "VERSION_TAG_PATTERN VERSION_TAG \<noteq> None"
  "VERSION_TAG_PATTERN FABRIC_TAG = None" "\<not> dhas LEGACY_VERSION_TAGS FABRIC_TAG"
  "VERSION_TAG_PATTERN (EVENT_TYPE_TAGS ty) = None" "\<not> dhas LEGACY_VERSION_TAGS (EVENT_TYPE_TAGS ty)"
  by (code_simp, code_simp, code_simp, (cases ty; simp only:; code_simp), (cases ty; simp only:; code_simp))

lemma set_of_distinct: "distinct xs \<Longrightarrow> set_of xs = xs"
proof -
  have "distinct (s @ xs) \<Longrightarrow> fold sadd xs s = s @ xs" for s
    by (induction xs arbitrary: s) (auto simp: sadd_def)
  from this [of "[]"] show "distinct xs \<Longrightarrow> ?thesis"
    by (simp add: set_of_def)
qed

lemma type_of_tags:
  assumes "concat (map (tag_value (js ''t'')) tags) = []"
  shows "scrutinyEventType (signed i pk sig \<lparr>un_kind = k, un_created_at = c, un_tags = baseTags ty @ tags, un_content = t\<rparr>)
       = Some ty"
    and "tags_spec (signed i pk sig \<lparr>un_kind = k, un_created_at = c, un_tags = baseTags ty @ tags, un_content = t\<rparr>)"
proof -
  have y: "map_of TYPE_BY_TAG (EVENT_TYPE_TAGS ty) = Some ty"
    by simp
  have v: "map_of TYPE_BY_TAG VERSION_TAG = None" "map_of TYPE_BY_TAG FABRIC_TAG = None" "VERSION_TAG \<noteq> FABRIC_TAG"
    by (auto simp: TYPE_BY_TAG_def VERSION_TAG_def FABRIC_TAG_def)
  show "scrutinyEventType (signed i pk sig \<lparr>un_kind = k, un_created_at = c, un_tags = baseTags ty @ tags, un_content = t\<rparr>)
       = Some ty"
    unfolding scrutinyEventType_def base_tags assms by (simp add: v y Let_def del: TYPE_BY_TAG_Some)
  show "tags_spec (signed i pk sig \<lparr>un_kind = k, un_created_at = c, un_tags = baseTags ty @ tags, un_content = t\<rparr>)"
    unfolding tags_spec_def versionTags_def base_tags assms using version_patterns by (simp add: v(3))
qed

text \<open>
  (PR-4, MD-4, IR-1) A built product or metadata event is of its type, carries the indexers it was
  given in order and exactly the derived prefixes, and is valid, for any observer, exactly when each of the
  indexers parses.
\<close>

theorem built_root_valid:
  assumes "ty = Product \<or> ty = Metadata"
  shows "let e = signed i pk sig (br_template (buildIndexedEvent ty content createdAt raws))
    in scrutinyEventType e = Some ty \<and> tagValues e (js ''i'') = raws \<and> indexerKinds e = derivedIndexerKinds e
      \<and> ((\<exists>is. validateEvent l e = Valid ty is) \<longleftrightarrow> (\<forall>raw \<in> set raws. parseIndexer raw \<noteq> None))"
proof -
  define e where "e = signed i pk sig (br_template (buildIndexedEvent ty content createdAt raws))"
  have e: "e = signed i pk sig \<lparr>un_kind = SCRUTINY_KIND, un_created_at = createdAt,
      un_tags = baseTags ty @ indexerTags raws, un_content = content\<rparr>"
    by (simp add: e_def buildIndexedEvent_def build_result_of_def)
  have type: "scrutinyEventType e = Some ty" "tags_spec e"
    unfolding e by (rule type_of_tags; simp add: indexer_tag_values)+
  have i: "tagValues e (js ''i'') = raws"
    unfolding e tagValues_append by (simp add: baseTags_def tag_value_def [of "js ''i''"] indexer_tag_values)
  have k: "tagValues e (js ''k'') =
      set_of (concat (map (\<lambda>raw. case parseIndexer raw of None \<Rightarrow> [] | Some p \<Rightarrow> [ix_prefix p]) raws))"
    unfolding e tagValues_append by (simp add: baseTags_def tag_value_def [of "js ''k''"] indexer_tag_values)
  have "map ix_prefix (indexers e) = concat (map (\<lambda>raw. case parseIndexer raw of None \<Rightarrow> [] | Some p \<Rightarrow> [ix_prefix p]) raws)"
    unfolding indexers_def i map_concat map_map comp_def by (intro arg_cong [of _ _ concat] map_cong) (auto split: option.split)
  then have "indexerKinds e = derivedIndexerKinds e"
    unfolding indexerKinds_def derivedIndexerKinds_def k by (simp add: set_of_distinct set_of_facts)
  moreover have "(\<exists>is. validateEvent l e = Valid ty is) \<longleftrightarrow> root_spec e"
    using type assms unfolding valid_spec by auto
  ultimately show ?thesis
    unfolding Let_def e_def [symmetric] using type(1) i by (simp add: root_spec_def)
qed

lemma endpoint_refs:
  assumes "m \<noteq> []"
  shows "e_tag (endpointTag m ref) = [\<lparr>er_id = ep_id ref, er_relay = or_empty (ep_relay ref), er_marker = Some m,
      er_authorHint = nonempty (Some (or_empty (ep_authorHint ref)))\<rparr>]"
    "tag_value (js ''t'') (endpointTag m ref) = []"
  using assms by (simp_all add: endpointTag_def e_tag_def nonempty_def tag_value_def nth_opt_def)

text \<open>
  (BD-1, BD-2, BD-10, BD-12) A built binding references exactly the two endpoints it was given, and is
  valid exactly for an observer of a product and a metadata event under those ids.
\<close>

theorem built_binding_valid:
  "let e = signed i pk sig (br_template (buildBinding root link content createdAt))
   in scrutinyEventType e = Some Binding
      \<and> map er_id (eTagsWithMarker e (js ''root'')) = [ep_id root]
      \<and> map er_id (eTagsWithMarker e (js ''link'')) = [ep_id link]
      \<and> ((\<exists>is. validateEvent l e = Valid Binding is) \<longleftrightarrow>
           (\<exists>p m. l (ep_id root) = Some p \<and> scrutinyEventType p = Some Product
              \<and> l (ep_id link) = Some m \<and> scrutinyEventType m = Some Metadata))"
proof -
  define e where "e = signed i pk sig (br_template (buildBinding root link content createdAt))"
  have e: "e = signed i pk sig \<lparr>un_kind = SCRUTINY_KIND, un_created_at = createdAt,
      un_tags = baseTags Binding @ [endpointTag (js ''root'') root, endpointTag (js ''link'') link], un_content = content\<rparr>"
    by (simp add: e_def buildBinding_def build_result_of_def)
  have type: "scrutinyEventType e = Some Binding" "tags_spec e"
    unfolding e by (rule type_of_tags; simp add: endpoint_refs(2))+
  have refs: "\<exists>r. eTagsWithMarker e (js ''root'') = [r] \<and> er_id r = ep_id root"
    "\<exists>r. eTagsWithMarker e (js ''link'') = [r] \<and> er_id r = ep_id link"
    unfolding eTagsWithMarker_def e base_refs by (simp_all add: endpoint_refs(1))
  then have "binding_spec l e \<longleftrightarrow> (\<exists>p m. l (ep_id root) = Some p \<and> scrutinyEventType p = Some Product
              \<and> l (ep_id link) = Some m \<and> scrutinyEventType m = Some Metadata)"
    unfolding binding_spec_def by auto
  then show ?thesis
    unfolding Let_def e_def [symmetric] valid_spec using type refs by auto
qed

text \<open>
  C39. (P4, PT-1, PT-2) A built patch references the root and the event it replies to, and its self-check
  is the consumer's own outcome: the finding P4 is reported exactly when a consumer with the same
  ceilings who applies the signed event to the content it was built from does not get the
  content it was built for.
\<close>

theorem built_patch_verified:
  assumes "buildPatch structured format_patch parse_patch options = Inr r"
  shows "let e = signed i pk sig (br_template r)
    in scrutinyEventType e = Some Patch \<and> rootTarget e = Some (ep_id (bp_root options))
      \<and> replyTarget e = Some (ep_id (bp_reply options))
      \<and> (cite (R_P 4) Sev_warning \<in> set (br_issues r) \<longleftrightarrow>
           settled_content (applyPatchContent parse_patch (bp_apply options) (bp_before options) (ev_content e))
             \<noteq> Some (bp_after options))"
proof -
  have other: "cite (R_RL 1) Sev_warning \<noteq> cite (R_P 4) Sev_warning"
    by (auto dest: arg_cong [of _ _ is_code])
  obtain w where "widenContext structured (bp_before options) (bp_after options)
         (case bp_context options of None \<Rightarrow> 3 | Some c \<Rightarrow> c)
         (case bp_maxWidenWork options of None \<Rightarrow> DEFAULT_MAX_WIDEN_WORK | Some w \<Rightarrow> w) = Inr w"
    using assms unfolding buildPatch_def by (auto split: sum.splits)
  then obtain content own where r: "r = build_result_of \<lparr>un_kind = SCRUTINY_KIND, un_created_at = bp_createdAt options,
      un_tags = baseTags Patch @ [endpointTag (js ''root'') (bp_root options), endpointTag (js ''reply'') (bp_reply options)],
      un_content = content\<rparr> own"
    and own: "cite (R_P 4) Sev_warning \<in> set own \<longleftrightarrow>
      settled_content (applyPatchContent parse_patch (bp_apply options) (bp_before options) content) \<noteq> Some (bp_after options)"
  proof -
    define payload where "payload = makePatch format_patch (bp_before options) (bp_after options) (wr_context w)"
    define own where "own = (if MAX_HUNKS_PER_PAYLOAD < hunk_headers True payload then [cite (R_RL 1) Sev_warning] else [])
      @ (if settled_content (applyPatchContent parse_patch (bp_apply options) (bp_before options)
               (fencePatchPayload payload (js ''diff''))) \<noteq> Some (bp_after options)
         then [cite (R_P 4) Sev_warning] else [])"
    assume *: "widenContext structured (bp_before options) (bp_after options)
         (case bp_context options of None \<Rightarrow> 3 | Some c \<Rightarrow> c)
         (case bp_maxWidenWork options of None \<Rightarrow> DEFAULT_MAX_WIDEN_WORK | Some w \<Rightarrow> w) = Inr w"
    show thesis
    proof (rule that)
      show "r = build_result_of \<lparr>un_kind = SCRUTINY_KIND, un_created_at = bp_createdAt options,
          un_tags = baseTags Patch @ [endpointTag (js ''root'') (bp_root options), endpointTag (js ''reply'') (bp_reply options)],
          un_content = fencePatchPayload payload (js ''diff'')\<rparr> own"
        using assms unfolding buildPatch_def * sum.case Let_def payload_def own_def by simp
      show "cite (R_P 4) Sev_warning \<in> set own \<longleftrightarrow> settled_content (applyPatchContent parse_patch (bp_apply options)
          (bp_before options) (fencePatchPayload payload (js ''diff''))) \<noteq> Some (bp_after options)"
        using other by (simp add: own_def)
    qed
  qed
  let ?e = "signed i pk sig (br_template r)"
  have bounds: "cite (R_P 4) Sev_warning \<notin> set (boundsIssues u)" for u
    using other by (auto simp: boundsIssues_def)
  have refs: "\<exists>x. eTagsWithMarker ?e (js ''root'') = [x] \<and> er_id x = ep_id (bp_root options)"
    "\<exists>x. eTagsWithMarker ?e (js ''reply'') = [x] \<and> er_id x = ep_id (bp_reply options)"
    unfolding eTagsWithMarker_def r build_result_of_def build_result.select_convs base_refs
    by (simp_all add: endpoint_refs(1))
  have "scrutinyEventType ?e = Some Patch"
    unfolding r build_result_of_def build_result.select_convs
    by (rule type_of_tags) (simp add: endpoint_refs(2))
  then show ?thesis
    using refs own bounds
    by (auto simp: Let_def rootTarget_def replyTarget_def first_id_def r build_result_of_def signed_def)
qed

section \<open>Concrete inputs\<close>

lemma fence_roundtrip_witness:
  "findPatchPayload (fencePatchPayload (js ''+````'' @ [10]) (js ''diff'')) = Some (js ''+````'' @ [10])"
  by (rule fence_roundtrip) (simp_all add: at_last_def, code_simp+)

lemma built_root_valid_witness:
  "\<not> (\<exists>is. validateEvent Map.empty (signed [] [] [] (br_template (buildIndexedEvent Product [] 0 [js ''cve''])))
        = Valid Product is)"
proof -
  have "parseIndexer (js ''cve'') = None" by code_simp
  then show ?thesis
    using built_root_valid [of Product "[]" "[]" "[]" "[]" 0 "[js ''cve'']" Map.empty] by (simp add: Let_def)
qed

definition no_endpoint :: endpoint_ref where
  "no_endpoint = \<lparr>ep_id = js ''r'', ep_relay = None, ep_authorHint = None\<rparr>"

definition sample_build :: build_patch_options where
  "sample_build = \<lparr>bp_root = no_endpoint, bp_reply = no_endpoint, bp_before = js ''a'', bp_after = js ''b'', bp_createdAt = 0,
     bp_context = None, bp_maxWidenWork = None, bp_apply = \<lparr>ao_maxHunks = None, ao_maxWork = None\<rparr>\<rparr>"

text \<open>A diff that finds nothing to change is reported.\<close>

lemma built_patch_verified_witness:
  "\<exists>r. buildPatch (\<lambda>_ _ _. []) (\<lambda>_ _ _. []) (\<lambda>_. Some []) sample_build = Inr r
     \<and> rootTarget (signed [] [] [] (br_template r)) = Some (js ''r'')"
proof -
  have "\<exists>w. widenContext (\<lambda>_ _ _. []) (js ''a'') (js ''b'') 3 DEFAULT_MAX_WIDEN_WORK = Inr w"
    by (simp add: widenContext_def widen_loop.simps diffHunks_def Let_def)
  then obtain r where r: "buildPatch (\<lambda>_ _ _. []) (\<lambda>_ _ _. []) (\<lambda>_. Some []) sample_build = Inr r"
    by (auto simp: buildPatch_def sample_build_def Let_def)
  with built_patch_verified [OF r, of "[]" "[]" "[]"] show ?thesis
    by (simp add: Let_def sample_build_def no_endpoint_def)
qed

end
