(* ===== verification/JsonValue.thy ===== *)
theory JsonValue
  imports Json
begin

text \<open>
  JSON values as the mirror uses them for record cards: \<open>JSON.stringify\<close> and \<open>JSON.parse\<close>. A number is
  kept as the text that spells it, since nothing computes with one. An object keeps one
  entry per key, with the value that came last, and lists integer keys first, as property order has it.
  The recursion of the parser is bounded by the length of the text, which \<open>json_parse_text\<close> shows to be enough.
\<close>

datatype json =
    JNull | JBool bool | JNumber jsstr | JString jsstr | JArray "json list" | JObject "(jsstr \<times> json) list"

section \<open>Writing\<close>

fun json_text :: "json \<Rightarrow> jsstr" where
  "json_text JNull = js ''null''"
| "json_text (JBool b) = (if b then js ''true'' else js ''false'')"
| "json_text (JNumber t) = t"
| "json_text (JString s) = json_string s"
| "json_text (JArray vs) = json_array (map json_text vs)"
| "json_text (JObject kvs) =
     123 # join_with comma (map (\<lambda>(k, v). json_string k @ 58 # json_text v) kvs) @ [125]"

section \<open>Reading\<close>

definition json_space :: "u16 \<Rightarrow> bool" where
  "json_space c \<longleftrightarrow> c = 32 \<or> c = 9 \<or> c = 10 \<or> c = 13"

definition skip_space :: "jsstr \<Rightarrow> jsstr" where
  "skip_space s = dropWhile json_space s"

definition escapes :: "(u16 \<times> u16) list" where
  "escapes = (47, 47) # map prod.swap short_escapes"

text \<open>The units of a string after its opening quote, and the rest.\<close>

fun json_chars :: "jsstr \<Rightarrow> (jsstr \<times> jsstr) option" where
  "json_chars [] = None"
| "json_chars (c # s) =
     (if c = quote then Some ([], s)
      else if c < 32 then None
      else if c = backslash then
        (case s of
           [] \<Rightarrow> None
         | d # t \<Rightarrow>
             if d = 117 then
               (case t of
                  h1 # h2 # h3 # h4 # t' \<Rightarrow>
                    if list_all (\<lambda>h. is_lower_hex (to_lower_unit h)) [h1, h2, h3, h4] then
                      map_option (\<lambda>(u, r). (of_nat (4096 * hex_value (to_lower_unit h1)
                          + 256 * hex_value (to_lower_unit h2) + 16 * hex_value (to_lower_unit h3)
                          + hex_value (to_lower_unit h4)) # u, r)) (json_chars t')
                    else None
                | _ \<Rightarrow> None)
             else (case map_of escapes d of None \<Rightarrow> None | Some e \<Rightarrow> map_option (\<lambda>(u, r). (e # u, r)) (json_chars t)))
      else map_option (\<lambda>(u, r). (c # u, r)) (json_chars s))"

text \<open>A number: sign, integer part without a leading zero, fraction, exponent.\<close>

definition after :: "u16 \<Rightarrow> jsstr \<Rightarrow> jsstr option" where
  "after c s = (case s of [] \<Rightarrow> None | d # r \<Rightarrow> if d = c then Some r else None)"

definition digits_part :: "jsstr \<Rightarrow> (jsstr \<times> jsstr) option" where
  "digits_part s = (if takeWhile is_digit s = [] then None else Some (takeWhile is_digit s, dropWhile is_digit s))"

definition int_part :: "jsstr \<Rightarrow> (jsstr \<times> jsstr) option" where
  "int_part s = (case after 48 s of Some r \<Rightarrow> Some ([48], r) | None \<Rightarrow> digits_part s)"

definition frac_part :: "jsstr \<Rightarrow> (jsstr \<times> jsstr) option" where
  "frac_part s = (case after 46 s of Some r \<Rightarrow> map_option (\<lambda>(d, t). (46 # d, t)) (digits_part r) | None \<Rightarrow> Some ([], s))"

definition exp_part :: "jsstr \<Rightarrow> (jsstr \<times> jsstr) option" where
  "exp_part s =
     (case s of
        c # r \<Rightarrow>
          if c = 101 \<or> c = 69 then
            (case r of
               sg # t \<Rightarrow>
                 if sg = 43 \<or> sg = 45 then map_option (\<lambda>(d, q). (c # sg # d, q)) (digits_part t)
                 else map_option (\<lambda>(d, q). (c # d, q)) (digits_part r)
             | [] \<Rightarrow> None)
          else Some ([], s)
      | [] \<Rightarrow> Some ([], s))"

definition json_number :: "jsstr \<Rightarrow> (jsstr \<times> jsstr) option" where
  "json_number s =
     (let (sign, s1) = (case after 45 s of Some r \<Rightarrow> ([45], r) | None \<Rightarrow> ([], s)) in
      case int_part s1 of
        None \<Rightarrow> None
      | Some (i, s2) \<Rightarrow>
          (case frac_part s2 of
             None \<Rightarrow> None
           | Some (f, s3) \<Rightarrow>
               (case exp_part s3 of None \<Rightarrow> None | Some (x, s4) \<Rightarrow> Some (sign @ i @ f @ x, s4))))"

text \<open>Integer keys below 2 to the 32 minus 1 come first, in numeric order.\<close>

definition index_key :: "jsstr \<Rightarrow> bool" where
  "index_key k \<longleftrightarrow> list_all is_digit k \<and> k = nat_digits (digits_value k) \<and> digits_value k < 4294967295"

definition object_of :: "(jsstr \<times> json) list \<Rightarrow> json" where
  "object_of kvs =
     (let d = fold (\<lambda>(k, v) d. dset k v d) kvs [] in
      JObject (sort_key (\<lambda>kv. digits_value (fst kv)) (filter (\<lambda>kv. index_key (fst kv)) d)
        @ filter (\<lambda>kv. \<not> index_key (fst kv)) d))"

definition keyword :: "string \<Rightarrow> json \<Rightarrow> jsstr \<Rightarrow> (json \<times> jsstr) option" where
  "keyword w v s = (if starts_with s (js w) then Some (v, drop (length w) s) else None)"

fun json_value :: "nat \<Rightarrow> jsstr \<Rightarrow> (json \<times> jsstr) option"
  and json_items :: "nat \<Rightarrow> jsstr \<Rightarrow> (json list \<times> jsstr) option"
  and json_members :: "nat \<Rightarrow> jsstr \<Rightarrow> ((jsstr \<times> json) list \<times> jsstr) option"
where
  "json_value 0 s = None"
| "json_value (Suc n) s =
     (case skip_space s of
        [] \<Rightarrow> None
      | c # t \<Rightarrow>
          if c = quote then map_option (\<lambda>(u, r). (JString u, r)) (json_chars t)
          else if c = 91 then
            (case after 93 (skip_space t) of
               Some r \<Rightarrow> Some (JArray [], r)
             | None \<Rightarrow> map_option (\<lambda>(vs, r). (JArray vs, r)) (json_items n t))
          else if c = 123 then
            (case after 125 (skip_space t) of
               Some r \<Rightarrow> Some (JObject [], r)
             | None \<Rightarrow> map_option (\<lambda>(kvs, r). (object_of kvs, r)) (json_members n t))
          else if c = 110 then keyword ''null'' JNull (c # t)
          else if c = 116 then keyword ''true'' (JBool True) (c # t)
          else if c = 102 then keyword ''false'' (JBool False) (c # t)
          else map_option (\<lambda>(d, r). (JNumber d, r)) (json_number (c # t)))"
| "json_items 0 s = None"
| "json_items (Suc n) s =
     (case json_value n s of
        None \<Rightarrow> None
      | Some (v, r) \<Rightarrow>
          (case skip_space r of
             [] \<Rightarrow> None
           | c # t \<Rightarrow>
               if c = 93 then Some ([v], t)
               else if c = comma then map_option (\<lambda>(vs, q). (v # vs, q)) (json_items n t)
               else None))"
| "json_members 0 s = None"
| "json_members (Suc n) s =
     (case skip_space s of
        [] \<Rightarrow> None
      | c # t \<Rightarrow>
          if c \<noteq> quote then None
          else
            (case json_chars t of
               None \<Rightarrow> None
             | Some (k, r) \<Rightarrow>
                 (case skip_space r of
                    [] \<Rightarrow> None
                  | d # u \<Rightarrow>
                      if d \<noteq> 58 then None
                      else
                        (case json_value n u of
                           None \<Rightarrow> None
                         | Some (v, w) \<Rightarrow>
                             (case skip_space w of
                                [] \<Rightarrow> None
                              | e # x \<Rightarrow>
                                  if e = 125 then Some ([(k, v)], x)
                                  else if e = comma then map_option (\<lambda>(kvs, q). ((k, v) # kvs, q)) (json_members n x)
                                  else None)))))"

definition json_parse :: "jsstr \<Rightarrow> json option" where
  "json_parse s =
     (case json_value (2 * length s + 2) s of
        None \<Rightarrow> None
      | Some (v, r) \<Rightarrow> if skip_space r = [] then Some v else None)"

section \<open>Parsing what was written\<close>

text \<open>Values that survive: integers for numbers, and objects whose keys are distinct and not integers.\<close>

fun plain_json :: "json \<Rightarrow> bool" where
  "plain_json (JNumber t) \<longleftrightarrow> (\<exists>i. t = json_int i)"
| "plain_json (JArray vs) \<longleftrightarrow> (\<forall>v \<in> set vs. plain_json v)"
| "plain_json (JObject kvs) \<longleftrightarrow>
     distinct (dkeys kvs) \<and> (\<forall>kv \<in> set kvs. \<not> index_key (fst kv) \<and> plain_json (snd kv))"
| "plain_json _ \<longleftrightarrow> True"

definition closes :: "jsstr \<Rightarrow> bool" where
  "closes r \<longleftrightarrow> r = [] \<or> hd r = comma \<or> hd r = 93 \<or> hd r = 125"

lemma json_chars_unit: "json_chars (json_unit lone c @ r) = map_option (\<lambda>(u, t). (c # u, t)) (json_chars r)"
proof (cases "map_of short_escapes c")
  case (Some d)
  then have "c \<in> {8, 9, 10, 12, 13, quote, backslash}"
    by (auto simp: short_escapes_def split: if_splits)
  with Some show ?thesis
    by (auto simp: json_unit_def escapes_def short_escapes_def quote_def backslash_def)
next
  case None
  then have c: "c \<noteq> quote" "c \<noteq> backslash"
    by (auto simp: short_escapes_def split: if_splits)
  have n: "unat c < 65536"
    using unsigned_less [of c] by simp
  let ?n = "unat c"
  have h: "?n div 4096 < 16" "?n div 256 mod 16 < 16" "?n div 16 mod 16 < 16" "?n mod 16 < 16"
    using n by auto
  have low: "to_lower_unit (hex_digit m) = hex_digit m \<and> is_lower_hex (hex_digit m)" if "m < 16" for m
    using that unat_small [of "48 + m"] unat_small [of "87 + m"]
    by (auto simp: hex_digit_def to_lower_unit_def is_lower_hex_def is_digit_def word_le_nat_alt simp del: of_nat_add)
  have "of_nat (4096 * (?n div 4096) + 256 * (?n div 256 mod 16) + 16 * (?n div 16 mod 16) + ?n mod 16) = c"
    unfolding hex_decompose by simp
  then have "json_chars (unicode_escape c @ r) = map_option (\<lambda>(u, t). (c # u, t)) (json_chars r)"
    by (simp add: unicode_escape_def Let_def backslash_def quote_def low [OF h(1)] low [OF h(2)] low [OF h(3)]
        low [OF h(4)] hex_value_digit [OF h(1)] hex_value_digit [OF h(2)] hex_value_digit [OF h(3)]
        hex_value_digit [OF h(4)])
  with None c show ?thesis
    by (simp add: json_unit_def)
qed

lemma json_chars_units: "json_chars (json_units high s @ quote # r) = Some (s, r)"
  by (induction s arbitrary: high) (simp_all add: json_chars_unit)

lemma nat_digits_head: "\<exists>d ds. nat_digits n = d # ds \<and> is_digit d \<and> (d = 48 \<longrightarrow> ds = [])"
proof (induction n rule: nat_digits.induct)
  case (1 n)
  show ?case
  proof (cases "n < 10")
    case True
    have "is_digit (48 + word_of_nat n)"
      using True digit_unit [OF True] by (simp add: is_digit_unat)
    then show ?thesis
      using True by (subst nat_digits.simps) simp
  next
    case False
    then obtain d ds where d: "nat_digits (n div 10) = d # ds" "is_digit d" "d = 48 \<longrightarrow> ds = []"
      using "1.IH" by blast
    have "d \<noteq> 48"
    proof
      assume "d = 48"
      then have "digits_value (nat_digits (n div 10)) = 0"
        using d by simp
      then show False
        using nat_digits_spec [of "n div 10"] False by simp
    qed
    then show ?thesis
      using False d by (subst nat_digits.simps) simp
  qed
qed

lemma json_number_nat:
  assumes "closes r"
  shows "int_part (nat_digits n @ r) = Some (nat_digits n, r)"
proof -
  obtain d ds where d: "nat_digits n = d # ds" "is_digit d" "d = 48 \<longrightarrow> ds = []"
    using nat_digits_head by blast
  have all: "list_all is_digit (nat_digits n)"
    using nat_digits_spec by blast
  have "takeWhile is_digit r = []" "dropWhile is_digit r = r"
    using assms by (cases r; auto simp: closes_def is_digit_def comma_def)+
  then have part: "digits_part (nat_digits n @ r) = Some (nat_digits n, r)"
    using all d(1) by (simp add: digits_part_def list_all_iff takeWhile_append dropWhile_append)
  show ?thesis
  proof (cases "d = 48")
    case True
    then show ?thesis
      using d by (simp add: int_part_def after_def)
  next
    case False
    then show ?thesis
      using part d(1) by (simp add: int_part_def after_def)
  qed
qed

lemma json_number_int:
  assumes "closes r"
  shows "json_number (json_int i @ r) = Some (json_int i, r)"
proof -
  have tail: "frac_part r = Some ([], r)" "exp_part r = Some ([], r)"
    using assms by (cases r; auto simp: closes_def frac_part_def exp_part_def after_def comma_def)+
  obtain d ds where "nat_digits (nat i) = d # ds" "is_digit d"
    using nat_digits_head by blast
  then have "after 45 (nat_digits (nat i) @ r) = None"
    by (auto simp: after_def is_digit_def)
  then show ?thesis
    using json_number_nat [OF assms] tail by (simp add: json_number_def json_int_def after_def)
qed

lemma json_text_head:
  assumes "plain_json v"
  shows "\<exists>c t. json_text v = c # t \<and> \<not> json_space c \<and> c \<noteq> 93 \<and> c \<noteq> 125"
proof (cases v)
  case (JNumber t)
  then obtain i where t: "t = json_int i"
    using assms by auto
  obtain d ds where "nat_digits (nat i) = d # ds" "is_digit d"
    using nat_digits_head by blast
  then show ?thesis
    by (auto simp: JNumber t json_int_def json_space_def is_digit_def)
qed (auto simp: json_space_def js_def cu_def json_string_def quote_def json_array_def)

lemma skip_space_text: "plain_json v \<Longrightarrow> skip_space (json_text v @ r) = json_text v @ r"
  using json_text_head [of v] by (auto simp: skip_space_def)

lemma skip_space_unit [simp]: "\<not> json_space c \<Longrightarrow> skip_space (c # r) = c # r"
  by (simp add: skip_space_def)

lemma json_punctuation [simp]:
  "\<not> json_space comma" "\<not> json_space 93" "\<not> json_space 125" "\<not> json_space 58" "\<not> json_space quote"
  "\<not> json_space 91" "\<not> json_space 123" "comma \<noteq> 93" "comma \<noteq> 125" "(93 :: u16) \<noteq> comma" "(125 :: u16) \<noteq> comma"
  by (simp_all add: json_space_def comma_def quote_def)

lemma json_items_text:
  assumes "vs \<noteq> []"
    and "\<And>v n r. v \<in> set vs \<Longrightarrow> 2 * length (json_text v) \<le> n \<Longrightarrow> closes r \<Longrightarrow> json_value n (json_text v @ r) = Some (v, r)"
    and "2 * length (join_with comma (map json_text vs)) + 1 \<le> n"
  shows "json_items n (join_with comma (map json_text vs) @ 93 # r) = Some (vs, r)"
  using assms
proof (induction vs arbitrary: n)
  case (Cons v vs)
  from Cons.prems(3) obtain m where n: "n = Suc m"
    by (cases n) auto
  show ?case
  proof (cases "vs = []")
    case True
    have "json_value m (json_text v @ 93 # r) = Some (v, 93 # r)"
      by (rule Cons.prems(2)) (use Cons.prems(3) n True in \<open>simp_all add: closes_def\<close>)
    then show ?thesis
      using True by (simp add: n)
  next
    case False
    let ?rest = "join_with comma (map json_text vs)"
    have j: "join_with comma (map json_text (v # vs)) = json_text v @ comma # ?rest"
      using False by (simp add: join_with_Cons)
    have "json_value m (json_text v @ comma # ?rest @ 93 # r) = Some (v, comma # ?rest @ 93 # r)"
      by (rule Cons.prems(2)) (use Cons.prems(3) [unfolded j n] in \<open>simp_all add: closes_def\<close>)
    moreover have "json_items m (?rest @ 93 # r) = Some (vs, r)"
      by (rule Cons.IH [OF False]) (use Cons.prems(2) Cons.prems(3) [unfolded j n] in \<open>simp_all\<close>)
    ultimately show ?thesis
      unfolding j n by simp
  qed
qed simp

definition member_text :: "jsstr \<times> json \<Rightarrow> jsstr" where
  "member_text kv = json_string (fst kv) @ 58 # json_text (snd kv)"

lemma json_members_text:
  assumes "kvs \<noteq> []"
    and "\<And>kv n r. kv \<in> set kvs \<Longrightarrow> 2 * length (json_text (snd kv)) \<le> n \<Longrightarrow> closes r \<Longrightarrow>
           json_value n (json_text (snd kv) @ r) = Some (snd kv, r)"
    and "2 * length (join_with comma (map member_text kvs)) + 1 \<le> n"
  shows "json_members n (join_with comma (map member_text kvs) @ 125 # r) = Some (kvs, r)"
  using assms
proof (induction kvs arbitrary: n)
  case (Cons kv kvs)
  from Cons.prems(3) obtain m where n: "n = Suc m"
    by (cases n) auto
  have step: "json_members (Suc m) (member_text kv @ q) =
      (case json_value m (json_text (snd kv) @ q) of
         None \<Rightarrow> None
       | Some (v, w) \<Rightarrow>
           (case skip_space w of
              [] \<Rightarrow> None
            | e # x \<Rightarrow>
                if e = 125 then Some ([(fst kv, v)], x)
                else if e = comma then map_option (\<lambda>(kvs, q). ((fst kv, v) # kvs, q)) (json_members m x)
                else None))" for q
    by (simp add: member_text_def json_string_def json_chars_units)
  show ?case
  proof (cases "kvs = []")
    case True
    have "json_value m (json_text (snd kv) @ 125 # r) = Some (snd kv, 125 # r)"
      by (rule Cons.prems(2)) (use Cons.prems(3) n True in \<open>simp_all add: closes_def member_text_def\<close>)
    then show ?thesis
      using True by (simp add: n step del: json_members.simps)
  next
    case False
    let ?rest = "join_with comma (map member_text kvs)"
    have j: "join_with comma (map member_text (kv # kvs)) = member_text kv @ comma # ?rest"
      using False by (simp add: join_with_Cons)
    have "json_value m (json_text (snd kv) @ comma # ?rest @ 125 # r) = Some (snd kv, comma # ?rest @ 125 # r)"
      by (rule Cons.prems(2)) (use Cons.prems(3) [unfolded j n] in \<open>simp_all add: closes_def member_text_def\<close>)
    moreover have "json_members m (?rest @ 125 # r) = Some (kvs, r)"
      by (rule Cons.IH [OF False]) (use Cons.prems(2) Cons.prems(3) [unfolded j n] in \<open>simp_all\<close>)
    ultimately show ?thesis
      unfolding j n by (simp add: step del: json_members.simps)
  qed
qed simp

lemma object_of_plain:
  assumes "distinct (dkeys kvs)" "\<forall>kv \<in> set kvs. \<not> index_key (fst kv)"
  shows "object_of kvs = JObject kvs"
proof -
  have "fold (\<lambda>(k, v) d. dset k v d) kvs d = d @ kvs" if "distinct (dkeys (d @ kvs))" for d
    using that
  proof (induction kvs arbitrary: d)
    case (Cons kv kvs)
    then have "dget d (fst kv) = None"
      by (auto simp: map_of_eq_None_iff)
    then show ?case
      using Cons.IH [of "d @ [kv]"] Cons.prems by (cases kv) (simp add: dset_absent)
  qed simp
  from this [of "[]"] show ?thesis
    using assms by (simp add: object_of_def filter_empty_conv)
qed

lemma json_value_text:
  "plain_json v \<Longrightarrow> 2 * length (json_text v) \<le> n \<Longrightarrow> closes r \<Longrightarrow> json_value n (json_text v @ r) = Some (v, r)"
proof (induction v arbitrary: n r)
  case JNull
  then obtain m where "n = Suc m" by (cases n) (auto simp: js_def)
  then show ?case
    by (simp add: js_def cu_def keyword_def starts_with_def json_space_def quote_def)
next
  case (JBool b)
  then obtain m where "n = Suc m" by (cases n) (auto simp: js_def split: if_splits)
  then show ?case
    by (simp add: js_def cu_def keyword_def starts_with_def json_space_def quote_def)
next
  case (JNumber t)
  then obtain i where t: "t = json_int i" by auto
  obtain d ds where d: "nat_digits (nat i) = d # ds" "is_digit d"
    using nat_digits_head by blast
  have h: "\<exists>c u. t = c # u \<and> (c = 45 \<or> is_digit c)"
    using d by (auto simp: t json_int_def)
  then obtain c u where c: "t = c # u" "c = 45 \<or> is_digit c" by blast
  from JNumber c obtain m where n: "n = Suc m" by (cases n) auto
  have "\<not> json_space c" "c \<notin> {quote, 91, 123, 110, 116, 102}"
    using c(2) by (auto simp: json_space_def is_digit_def quote_def)
  then show ?case
    using json_number_int [OF JNumber.prems(3), of i] by (simp add: n t [symmetric] c(1))
next
  case (JString s)
  then obtain m where "n = Suc m" by (cases n) (auto simp: json_string_def)
  then show ?case
    by (simp add: json_string_def json_chars_units)
next
  case (JArray vs)
  then obtain m where n: "n = Suc m" by (cases n) (auto simp: json_array_def)
  show ?case
  proof (cases "vs = []")
    case True
    then show ?thesis
      by (simp add: n json_array_def quote_def after_def)
  next
    case False
    have "json_items m (join_with comma (map json_text vs) @ 93 # r) = Some (vs, r)"
      by (rule json_items_text [OF False]) (use JArray n in \<open>auto simp: json_array_def\<close>)
    moreover obtain w ws where "vs = w # ws"
      using False by (cases vs) auto
    moreover obtain c t where "json_text w = c # t" "\<not> json_space c" "c \<noteq> 93"
      using json_text_head [of w] JArray.prems(1) \<open>vs = w # ws\<close> by auto
    moreover have "join_with comma (map json_text (w # ws)) = json_text w @ (if ws = [] then [] else comma # join_with comma (map json_text ws))"
      by (cases ws) auto
    ultimately show ?thesis
      by (simp add: n json_array_def quote_def after_def del: join_with.simps)
  qed
next
  case (JObject kvs)
  have jt: "json_text (JObject kvs) = 123 # join_with comma (map member_text kvs) @ [125]"
    by (simp add: member_text_def case_prod_beta cong: map_cong)
  from JObject.prems(2) obtain m where n: "n = Suc m" by (cases n) auto
  show ?case
  proof (cases "kvs = []")
    case True
    then show ?thesis
      by (simp add: n quote_def after_def)
  next
    case False
    have "json_members m (join_with comma (map member_text kvs) @ 125 # r) = Some (kvs, r)"
    proof (rule json_members_text [OF False])
      fix kv k q
      assume "kv \<in> set kvs" "2 * length (json_text (snd kv)) \<le> k" "closes q"
      then show "json_value k (json_text (snd kv) @ q) = Some (snd kv, q)"
        using JObject.IH [of kv "snd kv" k q] JObject.prems(1) by (auto simp: snds.simps prod_eq_iff)
    next
      show "2 * length (join_with comma (map member_text kvs)) + 1 \<le> m"
        using JObject.prems(2) unfolding jt n by simp
    qed
    moreover have "object_of kvs = JObject kvs"
      by (rule object_of_plain) (use JObject.prems(1) in auto)
    moreover obtain kv rest where "kvs = kv # rest"
      using False by (cases kvs) auto
    moreover have "join_with comma (map member_text (kv # rest)) =
        quote # json_units False (fst kv) @ quote # 58 # json_text (snd kv)
          @ (if rest = [] then [] else comma # join_with comma (map member_text rest))"
      by (cases rest) (auto simp: member_text_def json_string_def)
    ultimately show ?thesis
      unfolding jt n by (simp add: after_def del: join_with.simps) (simp add: quote_def)
  qed
qed

text \<open>
  (rule 8c) A record card survives its line: parsing the text of a value gives the value back,
  whatever its strings hold, when its numbers are integers and the keys of its objects are
  distinct and not integers.
\<close>

theorem json_parse_text:
  assumes "plain_json v"
  shows "json_parse (json_text v) = Some v"
  using json_value_text [OF assms, of "2 * length (json_text v) + 2" "[]"]
  by (simp add: json_parse_def closes_def skip_space_def)

lemma json_parse_text_witness:
  "json_parse (json_text (JObject [(js ''n'', JNumber (json_int (- 3))), (js ''s'', JArray [JString [10, 34], JNull])]))
     = Some (JObject [(js ''n'', JNumber (json_int (- 3))), (js ''s'', JArray [JString [10, 34], JNull])])"
proof -
  have "\<not> index_key (js ''n'')" "\<not> index_key (js ''s'')"
    by (simp_all add: index_key_def js_def cu_def is_digit_def)
  then show ?thesis
    by (intro json_parse_text) auto
qed

end
