(* ===== verification/Content.thy ===== *)
theory Content
  imports JsonValue Build
begin

text \<open>
  \<open>packages/mirror/src/emit/content.ts\<close>: the tags and the plain text of mirrored events, the shape
  every one of them must have, and rule 2a, which demands that the machine-readable facts of an event
  also stand in its prose. The Unicode tables of the host are arguments: \<open>lower\<close> is \<open>toLowerCase\<close> and
  \<open>fold_marks\<close> is \<open>normalize('NFKD')\<close> less the marks. A thrown error is an \<open>Inl\<close> without its message.
\<close>

section \<open>Tags\<close>

definition RECORD_CARD_LABEL :: jsstr where
  "RECORD_CARD_LABEL = js ''Record card (JSON): ''"

definition FABRIC_VERSION_TAG :: jsstr where
  "FABRIC_VERSION_TAG = js ''scrutiny-v0.8.1''"

datatype shape_fault =
    Two_cards | Card_unparsable | Fabric_count | Version_count | Type_count | Too_many_indexers | No_prefix
  | Missing_k | Empty_content

datatype emit_error = Emit_rule "jsstr list" | Emit_shape shape_fault

text \<open>The loops that skip what was seen keep the first occurrence of each value.\<close>

fun unseen :: "jsstr list \<Rightarrow> jsstr list \<Rightarrow> jsstr list" where
  "unseen seen [] = []"
| "unseen seen (v # vs) = (if v \<in> set seen then unseen seen vs else v # unseen (v # seen) vs)"

definition emit_baseTags :: "jsstr \<Rightarrow> jsstr list \<Rightarrow> jsstr list list" where
  "emit_baseTags type facets =
     [[js ''t'', FABRIC_TAG], [js ''t'', type], [js ''t'', FABRIC_VERSION_TAG]]
     @ map (\<lambda>f. [js ''t'', f]) (unseen [FABRIC_TAG, type, FABRIC_VERSION_TAG] facets)"

definition iTags :: "jsstr option list \<Rightarrow> jsstr list list" where
  "iTags values =
     map (\<lambda>v. [js ''i'', v])
       (unseen [] (concat (map (\<lambda>v. case v of None \<Rightarrow> [] | Some s \<Rightarrow> if s = [] then [] else [s]) values)))"

text \<open>\<open>value.indexOf(':')\<close> above zero, with the text before it and after it.\<close>

definition colon_split :: "jsstr \<Rightarrow> (jsstr \<times> jsstr) option" where
  "colon_split v =
     (case index_of 58 v of
        None \<Rightarrow> None
      | Some n \<Rightarrow> if n = 0 then None else Some (take n v, drop (n + 1) v))"

definition kTagsFor :: "jsstr list list \<Rightarrow> jsstr list list" where
  "kTagsFor tags =
     map (\<lambda>p. [js ''k'', p])
       (unseen [] (concat (map (\<lambda>tag. case nth_opt tag 1 of
            None \<Rightarrow> []
          | Some v \<Rightarrow> (case colon_split v of None \<Rightarrow> [] | Some (p, _) \<Rightarrow> [p])) tags)))"

definition iValues :: "jsstr list list \<Rightarrow> jsstr list" where
  "iValues tags = concat (map (tag_value (js ''i'')) tags)"

record type_counts =
  tc_products :: nat
  tc_metadata :: nat
  tc_bindings :: nat
  tc_patches :: nat
  tc_other :: nat

definition count_event :: "nostr_event \<Rightarrow> type_counts \<Rightarrow> type_counts" where
  "count_event e counts =
     (case find (\<lambda>v. dget TYPE_BY_TAG v \<noteq> None) (tTags e) of
        None \<Rightarrow> counts\<lparr>tc_other := tc_other counts + 1\<rparr>
      | Some v \<Rightarrow>
          (case dget TYPE_BY_TAG v of
             Some Product \<Rightarrow> counts\<lparr>tc_products := tc_products counts + 1\<rparr>
           | Some Metadata \<Rightarrow> counts\<lparr>tc_metadata := tc_metadata counts + 1\<rparr>
           | Some Binding \<Rightarrow> counts\<lparr>tc_bindings := tc_bindings counts + 1\<rparr>
           | Some Patch \<Rightarrow> counts\<lparr>tc_patches := tc_patches counts + 1\<rparr>
           | None \<Rightarrow> counts))"

definition countByType :: "nostr_event list \<Rightarrow> type_counts" where
  "countByType events =
     fold count_event events
       \<lparr>tc_products = 0, tc_metadata = 0, tc_bindings = 0, tc_patches = 0, tc_other = 0\<rparr>"

section \<open>Plain text\<close>

definition trim_end :: "jsstr \<Rightarrow> jsstr" where
  "trim_end s = rev (dropWhile is_space (rev s))"

definition recordCardLine :: "json \<Rightarrow> jsstr" where
  "recordCardLine rcard = RECORD_CARD_LABEL @ json_text rcard"

definition bullet :: "jsstr \<Rightarrow> jsstr" where
  "bullet b = (if starts_with b (js ''- '') then b else js ''- '' @ b)"

definition composeContent :: "jsstr \<Rightarrow> jsstr list \<Rightarrow> jsstr list \<Rightarrow> json option \<Rightarrow> jsstr" where
  "composeContent headline bullets links rcard =
     join_with 10
       ([trim_end headline]
        @ (if bullets = [] then [] else [] # map bullet bullets)
        @ (if links = [] then [] else [] # js ''Links:'' # map (\<lambda>l. js ''- '' @ l) links)
        @ (case rcard of None \<Rightarrow> [] | Some c \<Rightarrow> [[], recordCardLine c]))"

section \<open>Rule 2a\<close>

fun collectStrings :: "json \<Rightarrow> jsstr list" where
  "collectStrings (JString s) = [s]"
| "collectStrings (JArray vs) = concat (map collectStrings vs)"
| "collectStrings (JObject kvs) = concat (map (\<lambda>(k, v). collectStrings v) kvs)"
| "collectStrings _ = []"

definition LONG_HEX :: "jsstr \<Rightarrow> bool" where
  "LONG_HEX v \<longleftrightarrow> 60 \<le> length v \<and> list_all is_lower_hex v"

text \<open>\<open>/@\d+$/\<close>\<close>

definition TYPE_STRING :: "jsstr \<Rightarrow> bool" where
  "TYPE_STRING v \<longleftrightarrow>
     takeWhile is_digit (rev v) \<noteq> [] \<and> starts_with (dropWhile is_digit (rev v)) [cu CHR ''@'']"

definition isExemptFact :: "jsstr \<Rightarrow> jsstr option \<Rightarrow> bool" where
  "isExemptFact v prefix \<longleftrightarrow>
     0xAB \<in> set v \<or> LONG_HEX v \<or> TYPE_STRING v \<or> prefix = Some (js ''jcver-lte'')"

text \<open>\<open>content.split(/\r?\n/)\<close>\<close>

definition strip_cr :: "jsstr \<Rightarrow> jsstr" where
  "strip_cr l = (if at_last l = Some 13 then butlast l else l)"

definition content_lines :: "jsstr \<Rightarrow> jsstr list" where
  "content_lines content =
     (let ls = split_on 10 content in map strip_cr (butlast ls) @ [last ls])"

definition is_card_line :: "jsstr \<Rightarrow> bool" where
  "is_card_line line \<longleftrightarrow> starts_with (trim_start line) RECORD_CARD_LABEL"

fun split_lines :: "jsstr list \<Rightarrow> jsstr list \<Rightarrow> jsstr option \<Rightarrow> shape_fault + jsstr list \<times> jsstr option" where
  "split_lines [] prose rcard = Inr (prose, rcard)"
| "split_lines (l # ls) prose rcard =
     (if \<not> is_card_line l then split_lines ls (prose @ [l]) rcard
      else if rcard \<noteq> None then Inl Two_cards
      else split_lines ls prose (Some (drop (length RECORD_CARD_LABEL) (trim_start l))))"

text \<open>The card is \<open>JNull\<close> where the code has \<open>null\<close>.\<close>

definition splitContent :: "jsstr \<Rightarrow> emit_error + jsstr \<times> json" where
  "splitContent content =
     (case split_lines (content_lines content) [] None of
        Inl f \<Rightarrow> Inl (Emit_shape f)
      | Inr (prose, None) \<Rightarrow> Inr (join_with 10 prose, JNull)
      | Inr (prose, Some raw) \<Rightarrow>
          (case json_parse raw of
             None \<Rightarrow> Inl (Emit_shape Card_unparsable)
           | Some rcard \<Rightarrow> Inr (join_with 10 prose, rcard)))"

fun has_substring :: "jsstr \<Rightarrow> jsstr \<Rightarrow> bool" where
  "has_substring [] p \<longleftrightarrow> p = []"
| "has_substring (c # s) p \<longleftrightarrow> starts_with (c # s) p \<or> has_substring s p"

definition loose :: "jsstr \<Rightarrow> jsstr" where
  "loose s = filter (\<lambda>c. is_digit c \<or> (97 \<le> c \<and> c \<le> 122)) s"

definition in_prose :: "(jsstr \<Rightarrow> jsstr) \<Rightarrow> jsstr \<Rightarrow> jsstr \<Rightarrow> bool" where
  "in_prose lower prose datum \<longleftrightarrow>
     has_substring (lower prose) (lower datum)
     \<or> (loose (lower datum) \<noteq> [] \<and> has_substring (loose (lower prose)) (loose (lower datum)))"

definition card_facts :: "json \<Rightarrow> (jsstr \<times> jsstr option) list" where
  "card_facts rcard =
     (if rcard = JNull then [] else map (\<lambda>s. (s, None)) (filter (\<lambda>s. 4 \<le> length s) (collectStrings rcard)))"

definition tag_facts :: "jsstr list list \<Rightarrow> (jsstr \<times> jsstr option) list" where
  "tag_facts tags =
     concat (map (\<lambda>v. case colon_split v of None \<Rightarrow> [] | Some (p, f) \<Rightarrow> [(f, Some p)]) (iValues tags))"

definition lostFacts :: "(jsstr \<Rightarrow> jsstr) \<Rightarrow> jsstr \<Rightarrow> jsstr list list \<Rightarrow> emit_error + jsstr list" where
  "lostFacts lower content tags =
     (case splitContent content of
        Inl err \<Rightarrow> Inl err
      | Inr (prose, rcard) \<Rightarrow>
          Inr (unseen [] (map fst (filter (\<lambda>(datum, prefix). \<not> isExemptFact datum prefix \<and> \<not> in_prose lower prose datum)
            (card_facts rcard @ tag_facts tags)))))"

definition assertRule2a :: "(jsstr \<Rightarrow> jsstr) \<Rightarrow> jsstr \<Rightarrow> jsstr list list \<Rightarrow> emit_error + unit" where
  "assertRule2a lower content tags =
     (case lostFacts lower content tags of
        Inl err \<Rightarrow> Inl err
      | Inr missing \<Rightarrow> if missing \<noteq> [] then Inl (Emit_rule missing) else Inr ())"

section \<open>The shape of an event\<close>

definition ROOT_TYPE_TAGS :: "jsstr list" where
  "ROOT_TYPE_TAGS = [js ''scrutiny-product'', js ''scrutiny-metadata'', js ''scrutiny-binding'']"

fun check_prefixes :: "jsstr list \<Rightarrow> jsstr list \<Rightarrow> emit_error + unit" where
  "check_prefixes ks [] = Inr ()"
| "check_prefixes ks (v # vs) =
     (case colon_split v of
        None \<Rightarrow> Inl (Emit_shape No_prefix)
      | Some (p, _) \<Rightarrow> if p \<notin> set ks then Inl (Emit_shape Missing_k) else check_prefixes ks vs)"

definition assertEventShape :: "jsstr \<Rightarrow> jsstr list list \<Rightarrow> emit_error + unit" where
  "assertEventShape content tags =
     (let t = concat (map (tag_value (js ''t'')) tags); is_values = iValues tags in
      if length (filter (\<lambda>v. v = FABRIC_TAG) t) \<noteq> 1 then Inl (Emit_shape Fabric_count)
      else if length (filter (\<lambda>v. v = FABRIC_VERSION_TAG) t) \<noteq> 1 then Inl (Emit_shape Version_count)
      else if length (filter (\<lambda>v. v \<in> set ROOT_TYPE_TAGS) t) \<noteq> 1 then Inl (Emit_shape Type_count)
      else if 64 < length is_values then Inl (Emit_shape Too_many_indexers)
      else case check_prefixes (concat (map (tag_value (js ''k'')) tags)) is_values of
             Inl err \<Rightarrow> Inl err
           | Inr _ \<Rightarrow> if trim content = [] then Inl (Emit_shape Empty_content) else Inr ())"

section \<open>Vocabulary\<close>

definition FAMILY_LABELS :: "(jsstr \<times> jsstr) list" where
  "FAMILY_LABELS = map (\<lambda>(k, v). (js k, js v))
     [(''ml-kem'', ''ML-KEM''), (''ml-dsa'', ''ML-DSA''), (''slh-dsa'', ''SLH-DSA''), (''lms'', ''LMS''),
      (''xmss'', ''XMSS''), (''falcon'', ''Falcon''), (''ecdsa'', ''ECDSA''), (''ecdh'', ''ECDH''),
      (''eddsa'', ''EdDSA''), (''rsa'', ''RSA''), (''aes'', ''AES''), (''3des'', ''3DES''), (''sha-2'', ''SHA-2''),
      (''sha-3'', ''SHA-3''), (''hmac'', ''HMAC''), (''chacha20'', ''ChaCha20''),
      (''secp256r1'', ''secp256r1 (P-256)''), (''secp384r1'', ''secp384r1 (P-384)''),
      (''secp521r1'', ''secp521r1 (P-521)''), (''ed25519'', ''Ed25519''), (''ed448'', ''Ed448''),
      (''x25519'', ''X25519''), (''x448'', ''X448'')]"

text \<open>\<open>xs.join(', ')\<close>\<close>

fun join_list :: "jsstr list \<Rightarrow> jsstr" where
  "join_list [] = []"
| "join_list [l] = l"
| "join_list (l # ls) = l @ js '', '' @ join_list ls"

definition familyList :: "jsstr list \<Rightarrow> jsstr" where
  "familyList slugs = join_list (map (\<lambda>s. case dget FAMILY_LABELS s of None \<Rightarrow> s | Some l \<Rightarrow> l) slugs)"

definition JUNK_VENDORS :: "jsstr list" where
  "JUNK_VENDORS = map js [''unknown'', ''n/a'', ''na'', ''none'', ''email-protected'']"

text \<open>Runs of characters outside \<open>P\<close> become one dash; the flag says that a run has begun.\<close>

fun dash_runs :: "(u16 \<Rightarrow> bool) \<Rightarrow> bool \<Rightarrow> jsstr \<Rightarrow> jsstr" where
  "dash_runs P inrun [] = []"
| "dash_runs P inrun (c # s) =
     (if P c then c # dash_runs P False s else if inrun then dash_runs P True s else cu CHR ''-'' # dash_runs P True s)"

definition is_alnum :: "u16 \<Rightarrow> bool" where
  "is_alnum c \<longleftrightarrow> is_digit c \<or> (97 \<le> c \<and> c \<le> 122)"

definition trim_dashes :: "jsstr \<Rightarrow> jsstr" where
  "trim_dashes s =
     rev (dropWhile (\<lambda>c. c = cu CHR ''-'') (rev (dropWhile (\<lambda>c. c = cu CHR ''-'') s)))"

definition vendorSlug :: "(jsstr \<Rightarrow> jsstr) \<Rightarrow> (jsstr \<Rightarrow> jsstr) \<Rightarrow> jsstr option \<Rightarrow> jsstr option" where
  "vendorSlug fold_marks lower raw =
     (case raw of
        None \<Rightarrow> None
      | Some s \<Rightarrow>
          let slug = trim_dashes (dash_runs is_alnum False (lower (fold_marks s)))
          in if slug = [] \<or> slug \<in> set JUNK_VENDORS then None else Some slug)"

definition normalizeAtr :: "jsstr option \<Rightarrow> jsstr option" where
  "normalizeAtr raw =
     (case raw of
        None \<Rightarrow> None
      | Some s \<Rightarrow>
          let l = to_lower (trim s) in
          if l = [] \<or> \<not> list_all (\<lambda>c. is_lower_hex c \<or> is_space c \<or> c = 58 \<or> c = 95 \<or> c = 45) l then None
          else
            let hex = filter is_lower_hex l
            in if hex = [] \<or> odd (length hex) then None else Some hex)"

text \<open>\<open>hex.match(/../gu)\<close>; \<open>.\<close> matches no line terminator.\<close>

fun pairs :: "jsstr \<Rightarrow> jsstr list" where
  "pairs (c # d # s) =
     (if is_line_terminator c then pairs (d # s)
      else if is_line_terminator d then pairs s
      else [c, d] # pairs s)"
| "pairs _ = []"

fun join_space :: "jsstr list \<Rightarrow> jsstr" where
  "join_space ls = join_with 32 ls"

definition spacedHex :: "jsstr \<Rightarrow> jsstr" where
  "spacedHex hex = (if pairs hex = [] then hex else join_space (pairs hex))"

definition atrIsMasked :: "jsstr option \<Rightarrow> bool" where
  "atrIsMasked raw =
     (case raw of
        None \<Rightarrow> False
      | Some s \<Rightarrow>
          let l = to_lower s; hex = filter is_lower_hex l
          in 120 \<in> set l \<or> (hex \<noteq> [] \<and> list_all (\<lambda>c. c = 48) hex))"

definition JCVER_CUT_POINTS :: "jsstr list" where
  "JCVER_CUT_POINTS = map js [''3.0.4'', ''3.0.5'', ''3.1'']"

text \<open>\<open>/^(\d+)\.(\d+)(?:\.(\d+))?$/\<close>\<close>

definition parse_jcver :: "jsstr \<Rightarrow> (nat \<times> nat \<times> nat) option" where
  "parse_jcver v =
     (case split_on 46 v of
        [a, b] \<Rightarrow> if SIZE_DECIMAL_PATTERN a \<and> SIZE_DECIMAL_PATTERN b
                  then Some (digits_value a, digits_value b, 0) else None
      | [a, b, c] \<Rightarrow> if SIZE_DECIMAL_PATTERN a \<and> SIZE_DECIMAL_PATTERN b \<and> SIZE_DECIMAL_PATTERN c
                  then Some (digits_value a, digits_value b, digits_value c) else None
      | _ \<Rightarrow> None)"

definition jcver_le :: "nat \<times> nat \<times> nat \<Rightarrow> nat \<times> nat \<times> nat \<Rightarrow> bool" where
  "jcver_le x y =
     (case x of (a, b, c) \<Rightarrow> case y of (a', b', c') \<Rightarrow>
        if a \<noteq> a' then a < a' else if b \<noteq> b' then b < b' else c \<le> c')"

definition jcverBuckets :: "jsstr option \<Rightarrow> jsstr list" where
  "jcverBuckets version =
     (case version of
        None \<Rightarrow> []
      | Some v \<Rightarrow>
          (case parse_jcver v of
             None \<Rightarrow> []
           | Some target \<Rightarrow>
               concat (map (\<lambda>cut. case parse_jcver cut of
                   None \<Rightarrow> []
                 | Some c \<Rightarrow> if jcver_le target c then [js ''jcver-lte:'' @ cut] else []) JCVER_CUT_POINTS)))"

section \<open>The tags that are built\<close>

lemma set_unseen [simp]: "set (unseen seen vs) = set vs - set seen"
  by (induction seen vs rule: unseen.induct) auto

lemma distinct_unseen [simp]: "distinct (unseen seen vs)"
  by (induction seen vs rule: unseen.induct) auto

lemma unseen_distinct: "distinct vs \<Longrightarrow> set vs \<inter> set seen = {} \<Longrightarrow> unseen seen vs = vs"
  by (induction seen vs rule: unseen.induct) auto

lemma tag_value_pairs:
  "concat (map (tag_value n) (map (\<lambda>v. [m, v]) vs)) = (if m = n then vs else [])"
  by (induction vs) (simp_all add: tag_value_def)

lemma tag_value_other: "\<forall>row \<in> set rows. row = [] \<or> hd row \<noteq> n \<Longrightarrow> concat (map (tag_value n) rows) = []"
  by (auto simp: tag_value_def split: list.splits)

lemma tag_names [simp]:
  "js ''t'' \<noteq> js ''i''" "js ''t'' \<noteq> js ''k''" "js ''i'' \<noteq> js ''k''" "js ''i'' \<noteq> js ''t''" "js ''k'' \<noteq> js ''t''"
  "js ''k'' \<noteq> js ''i''"
  by simp_all

definition indexer_values :: "jsstr option list \<Rightarrow> jsstr list" where
  "indexer_values values =
     unseen [] (concat (map (\<lambda>v. case v of None \<Rightarrow> [] | Some s \<Rightarrow> if s = [] then [] else [s]) values))"

lemma iTags_values: "iTags values = map (\<lambda>v. [js ''i'', v]) (indexer_values values)"
  by (simp add: iTags_def indexer_values_def)

definition root_tags :: "jsstr \<Rightarrow> jsstr list \<Rightarrow> jsstr option list \<Rightarrow> jsstr list list \<Rightarrow> jsstr list list" where
  "root_tags type facets values extra =
     emit_baseTags type facets @ iTags values @ kTagsFor (iTags values) @ extra"

definition plain_rows :: "jsstr list list \<Rightarrow> bool" where
  "plain_rows rows \<longleftrightarrow> (\<forall>row \<in> set rows. row = [] \<or> hd row \<notin> {js ''t'', js ''i'', js ''k''})"

lemma plain_rows_append [simp]: "plain_rows (a @ b) \<longleftrightarrow> plain_rows a \<and> plain_rows b"
  by (auto simp: plain_rows_def)

lemma built_tag_values:
  "concat (map (tag_value n) (emit_baseTags type facets)) =
     (if n = js ''t'' then [FABRIC_TAG, type, FABRIC_VERSION_TAG] @ unseen [FABRIC_TAG, type, FABRIC_VERSION_TAG] facets
      else [])"
  "concat (map (tag_value n) (iTags values)) = (if n = js ''i'' then indexer_values values else [])"
  "concat (map (tag_value n) (kTagsFor tags)) =
     (if n = js ''k'' then unseen [] (concat (map (\<lambda>tag. case nth_opt tag 1 of
            None \<Rightarrow> []
          | Some v \<Rightarrow> (case colon_split v of None \<Rightarrow> [] | Some (p, _) \<Rightarrow> [p])) tags)) else [])"
proof -
  have "emit_baseTags type facets =
      map (\<lambda>v. [js ''t'', v]) ([FABRIC_TAG, type, FABRIC_VERSION_TAG] @ unseen [FABRIC_TAG, type, FABRIC_VERSION_TAG] facets)"
    by (simp add: emit_baseTags_def)
  then show "concat (map (tag_value n) (emit_baseTags type facets)) =
     (if n = js ''t'' then [FABRIC_TAG, type, FABRIC_VERSION_TAG] @ unseen [FABRIC_TAG, type, FABRIC_VERSION_TAG] facets
      else [])"
    by (simp only: tag_value_pairs eq_commute)
qed (simp_all only: iTags_values kTagsFor_def tag_value_pairs eq_commute)

lemma root_tag_values:
  assumes "plain_rows extra"
  shows "concat (map (tag_value (js ''t'')) (root_tags type facets values extra)) =
      [FABRIC_TAG, type, FABRIC_VERSION_TAG] @ unseen [FABRIC_TAG, type, FABRIC_VERSION_TAG] facets"
    and "iValues (root_tags type facets values extra) = indexer_values values"
    and "concat (map (tag_value (js ''k'')) (root_tags type facets values extra)) =
      unseen [] (concat (map (\<lambda>v. case colon_split v of None \<Rightarrow> [] | Some (p, _) \<Rightarrow> [p]) (indexer_values values)))"
proof -
  have extra: "concat (map (tag_value n) extra) = []" if "n \<in> {js ''t'', js ''i'', js ''k''}" for n
    by (rule tag_value_other) (use assms that in \<open>auto simp: plain_rows_def\<close>)
  have parts: "concat (map (tag_value n) (root_tags type facets values extra)) =
      concat (map (tag_value n) (emit_baseTags type facets)) @ concat (map (tag_value n) (iTags values))
      @ concat (map (tag_value n) (kTagsFor (iTags values))) @ concat (map (tag_value n) extra)" for n
    by (simp only: root_tags_def map_append concat_append)
  have ks: "map (\<lambda>tag. case nth_opt tag 1 of
            None \<Rightarrow> []
          | Some v \<Rightarrow> (case colon_split v of None \<Rightarrow> [] | Some (p, _) \<Rightarrow> [p])) (iTags values) =
      map (\<lambda>v. case colon_split v of None \<Rightarrow> [] | Some (p, _) \<Rightarrow> [p]) (indexer_values values)"
    by (simp add: iTags_values)
  show "concat (map (tag_value (js ''t'')) (root_tags type facets values extra)) =
      [FABRIC_TAG, type, FABRIC_VERSION_TAG] @ unseen [FABRIC_TAG, type, FABRIC_VERSION_TAG] facets"
    by (simp add: parts built_tag_values extra)
  show "iValues (root_tags type facets values extra) = indexer_values values"
    by (simp add: iValues_def parts built_tag_values extra)
  show "concat (map (tag_value (js ''k'')) (root_tags type facets values extra)) =
      unseen [] (concat (map (\<lambda>v. case colon_split v of None \<Rightarrow> [] | Some (p, _) \<Rightarrow> [p]) (indexer_values values)))"
    unfolding parts built_tag_values ks using extra by simp
qed

lemma check_prefixes_ok:
  "check_prefixes ks vs = Inr () \<longleftrightarrow> (\<forall>v \<in> set vs. \<exists>p f. colon_split v = Some (p, f) \<and> p \<in> set ks)"
  by (induction vs) (auto split: option.splits)

lemma filter_one: "distinct xs \<Longrightarrow> length (filter (\<lambda>v. v = x) xs) = (if x \<in> set xs then 1 else 0)"
  by (induction xs) auto

lemma type_tags_fixed:
  "type \<in> set ROOT_TYPE_TAGS \<Longrightarrow> distinct [FABRIC_TAG, type, FABRIC_VERSION_TAG]"
  "FABRIC_TAG \<notin> set ROOT_TYPE_TAGS" "FABRIC_VERSION_TAG \<notin> set ROOT_TYPE_TAGS"
  by (auto simp: ROOT_TYPE_TAGS_def FABRIC_TAG_def FABRIC_VERSION_TAG_def)

lemma emitted_shape_iff:
  assumes "type \<in> set ROOT_TYPE_TAGS" "plain_rows extra"
  shows "assertEventShape content (root_tags type facets values extra) = Inr () \<longleftrightarrow>
     set facets \<inter> set ROOT_TYPE_TAGS \<subseteq> {type} \<and> length (indexer_values values) \<le> 64
     \<and> (\<forall>v \<in> set (indexer_values values). colon_split v \<noteq> None) \<and> trim content \<noteq> []"
proof -
  let ?t = "[FABRIC_TAG, type, FABRIC_VERSION_TAG] @ unseen [FABRIC_TAG, type, FABRIC_VERSION_TAG] facets"
  have d: "distinct ?t"
    using type_tags_fixed(1) [OF assms(1)] by auto
  have one: "length (filter (\<lambda>v. v = FABRIC_TAG) ?t) = 1" "length (filter (\<lambda>v. v = FABRIC_VERSION_TAG) ?t) = 1"
    using filter_one [OF d, of FABRIC_TAG] filter_one [OF d, of FABRIC_VERSION_TAG] by auto
  have "filter (\<lambda>v. v \<in> set ROOT_TYPE_TAGS) ?t =
      type # filter (\<lambda>v. v \<in> set ROOT_TYPE_TAGS) (unseen [FABRIC_TAG, type, FABRIC_VERSION_TAG] facets)"
    using assms(1) type_tags_fixed(2,3) by simp
  then have types: "length (filter (\<lambda>v. v \<in> set ROOT_TYPE_TAGS) ?t) = 1 \<longleftrightarrow> set facets \<inter> set ROOT_TYPE_TAGS \<subseteq> {type}"
    using type_tags_fixed(2,3) by (auto simp: filter_empty_conv)
  let ?ks = "unseen [] (concat (map (\<lambda>v. case colon_split v of None \<Rightarrow> [] | Some (p, _) \<Rightarrow> [p]) (indexer_values values)))"
  have ks: "check_prefixes ?ks (indexer_values values) = Inr () \<longleftrightarrow> (\<forall>v \<in> set (indexer_values values). colon_split v \<noteq> None)"
  proof -
    have "p \<in> set ?ks" if "v \<in> set (indexer_values values)" "colon_split v = Some (p, f)" for v p f
      using that by (force intro: bexI [of _ v])
    then show ?thesis
      unfolding check_prefixes_ok by (metis not_None_eq surj_pair)
  qed
  show ?thesis
    unfolding assertEventShape_def Let_def root_tag_values [OF assms(2)] one
    using types ks by (auto split: sum.splits simp: not_less)
qed

text \<open>
  (TAG-1, TAG-2, TAG-3, rules 3.5 and 3.7) Which root events pass the shape check: those of a facet list without
  another event type, at most 64 distinct indexers, all with a prefix, and a content that is not blank. The
  derived \<open>k\<close> tags, the fabric tag and the version tag are never the fault.
\<close>

theorem emitted_shape:
  assumes "type \<in> set ROOT_TYPE_TAGS" "plain_rows extra"
  shows "assertEventShape content (emit_baseTags type facets @ iTags values @ kTagsFor (iTags values) @ extra) = Inr () \<longleftrightarrow>
     set facets \<inter> set ROOT_TYPE_TAGS \<subseteq> {type} \<and> length (indexer_values values) \<le> 64
     \<and> (\<forall>v \<in> set (indexer_values values). colon_split v \<noteq> None) \<and> trim content \<noteq> []"
  using emitted_shape_iff [OF assms] by (simp only: root_tags_def)

section \<open>The record card\<close>

lemma json_units_printable: "c \<in> set (json_units high s) \<Longrightarrow> 32 \<le> c"
proof (induction s arbitrary: high)
  case (Cons d s)
  have hex: "32 \<le> hex_digit n" if "n < 16" for n
    using that unat_small [of "48 + n"] unat_small [of "87 + n"]
    by (auto simp: hex_digit_def word_le_nat_alt simp del: of_nat_add)
  have n: "unat d < 65536"
    using unsigned_less [of d] by simp
  have escape: "32 \<le> e" if "e \<in> set (unicode_escape d)" for e
  proof -
    have h: "32 \<le> hex_digit (unat d div 4096)" "32 \<le> hex_digit (unat d div 256 mod 16)"
      "32 \<le> hex_digit (unat d div 16 mod 16)" "32 \<le> hex_digit (unat d mod 16)"
      by (rule hex; use n in simp)+
    have "e = backslash \<or> e = 117 \<or> e = hex_digit (unat d div 4096) \<or> e = hex_digit (unat d div 256 mod 16)
        \<or> e = hex_digit (unat d div 16 mod 16) \<or> e = hex_digit (unat d mod 16)"
      using that by (simp add: unicode_escape_def Let_def)
    then show ?thesis
      using h by (elim disjE) (simp_all add: backslash_def)
  qed
  have "32 \<le> e" if "e \<in> set (json_unit lone d)" for e lone
  proof (cases "map_of short_escapes d")
    case (Some x)
    then show ?thesis
      using that by (auto simp: json_unit_def short_escapes_def quote_def backslash_def split: if_splits)
  next
    case None
    then show ?thesis
      using that escape by (auto simp: json_unit_def split: if_splits)
  qed
  with Cons show ?case
    by auto
qed simp

lemma json_string_printable: "c \<in> set (json_string s) \<Longrightarrow> 32 \<le> c"
  using json_units_printable by (auto simp: json_string_def quote_def)

lemma set_join_with: "set (join_with c ls) \<subseteq> insert c (\<Union>l \<in> set ls. set l)"
  by (induction c ls rule: join_with.induct) auto

lemma json_int_printable: "c \<in> set (json_int i) \<Longrightarrow> 32 \<le> c"
proof -
  have "list_all is_digit (nat_digits n)" for n
    using nat_digits_spec by blast
  then have "32 \<le> c" if "c \<in> set (nat_digits n)" for n
    using that by (fastforce simp: list_all_iff is_digit_unat word_le_nat_alt)
  then show "c \<in> set (json_int i) \<Longrightarrow> 32 \<le> c"
    by (auto simp: json_int_def split: if_splits)
qed

lemma json_text_printable: "plain_json v \<Longrightarrow> c \<in> set (json_text v) \<Longrightarrow> 32 \<le> c"
proof (induction v)
  case (JNumber t)
  then show ?case
    using json_int_printable by auto
next
  case (JString s)
  then show ?case
    using json_string_printable by simp
next
  case (JArray vs)
  then show ?case
    using set_join_with [of comma "map json_text vs"] by (auto simp: json_array_def comma_def)
next
  case (JObject kvs)
  have "c = 123 \<or> c = 125 \<or> c = comma \<or> (\<exists>l \<in> set (map (\<lambda>(k, v). json_string k @ 58 # json_text v) kvs). c \<in> set l)"
    using JObject.prems(2) set_join_with [of comma "map (\<lambda>(k, v). json_string k @ 58 # json_text v) kvs"]
    by auto
  then consider "c \<in> {123, 125, comma, 58}" | kv where "kv \<in> set kvs" "c \<in> set (json_string (fst kv))"
    | kv where "kv \<in> set kvs" "c \<in> set (json_text (snd kv))"
    by (auto simp: case_prod_beta)
  then show ?case
  proof cases
    case 3
    then show ?thesis
      using JObject.IH [of kv "snd kv"] JObject.prems(1) by (auto simp: snds.simps prod_eq_iff)
  qed (auto simp: comma_def intro: json_string_printable)
qed (auto simp: js_def cu_def split: if_splits)

definition content_rows :: "jsstr \<Rightarrow> jsstr list \<Rightarrow> jsstr list \<Rightarrow> jsstr list" where
  "content_rows headline bullets links =
     [trim_end headline]
     @ (if bullets = [] then [] else [] # map bullet bullets)
     @ (if links = [] then [] else [] # js ''Links:'' # map (\<lambda>l. js ''- '' @ l) links)"

lemma compose_rows:
  "composeContent headline bullets links None = join_with 10 (content_rows headline bullets links)"
  "composeContent headline bullets links (Some c) =
     composeContent headline bullets links None @ [10, 10] @ recordCardLine c"
proof -
  have append: "join_with 10 (ls @ [a, b]) = join_with 10 ls @ 10 # a @ 10 # b" if "ls \<noteq> []" for ls and a b :: jsstr
    using that
  proof (induction ls)
    case (Cons l ls)
    then show ?case
      by (cases ls) simp_all
  qed simp
  show "composeContent headline bullets links None = join_with 10 (content_rows headline bullets links)"
    by (simp add: composeContent_def content_rows_def)
  moreover have "composeContent headline bullets links (Some c) =
      join_with 10 (content_rows headline bullets links @ [[], recordCardLine c])"
    by (simp add: composeContent_def content_rows_def)
  moreover have "content_rows headline bullets links \<noteq> []"
    by (simp add: content_rows_def)
  ultimately show "composeContent headline bullets links (Some c) =
      composeContent headline bullets links None @ [10, 10] @ recordCardLine c"
    using append [of "content_rows headline bullets links" "[]" "recordCardLine c"] by simp
qed

lemma split_lines_prose:
  "\<forall>l \<in> set ls. \<not> is_card_line l \<Longrightarrow> split_lines (ls @ ls') prose rcard = split_lines ls' (prose @ ls) rcard"
  by (induction ls arbitrary: prose) auto

lemma label_units: "set RECORD_CARD_LABEL \<inter> {10, 13} = {}" "trim_start (RECORD_CARD_LABEL @ s) = RECORD_CARD_LABEL @ s"
  by (simp_all add: RECORD_CARD_LABEL_def js_def cu_def trim_start_def is_space_def is_line_terminator_def)

text \<open>
  (rule 8c) The record card of a composed content is found again, and what stands before it is the
  prose, as long as no line of the prose looks like a card itself and no carriage return is in it.
\<close>

theorem record_card_roundtrip:
  assumes "plain_json c" "13 \<notin> set (composeContent headline bullets links None)"
    and "\<forall>l \<in> set (split_on 10 (composeContent headline bullets links None)). \<not> is_card_line l"
  shows "splitContent (composeContent headline bullets links (Some c)) =
     Inr (composeContent headline bullets links None @ [10], c)"
proof -
  let ?p = "composeContent headline bullets links None" and ?card = "recordCardLine c"
  have "10 \<notin> set ?card"
    using label_units(1) json_text_printable [OF assms(1), of 10] by (auto simp: recordCardLine_def)
  then have "split_on 10 (?p @ [10, 10] @ ?card) = split_on 10 ?p @ [[], ?card]"
    using split_on_append [of 10 ?p "10 # ?card"] split_on_no_sep by simp
  moreover have "\<forall>l \<in> set (split_on 10 ?p). strip_cr l = l"
  proof
    fix l assume "l \<in> set (split_on 10 ?p)"
    then obtain u v where "?p = u @ l @ v"
      using split_line by blast
    with assms(2) have "13 \<notin> set l" by auto
    then show "strip_cr l = l"
      by (cases l rule: rev_cases) (auto simp: strip_cr_def at_last_def)
  qed
  ultimately have lines: "content_lines (composeContent headline bullets links (Some c)) = (split_on 10 ?p @ [[]]) @ [?card]"
    unfolding compose_rows(2) content_lines_def Let_def
    by (simp add: butlast_append map_idI strip_cr_def at_last_def)
  have "\<not> is_card_line []"
    by (simp add: is_card_line_def trim_start_def RECORD_CARD_LABEL_def js_def starts_with_def)
  then have prose: "\<forall>l \<in> set (split_on 10 ?p @ [[]]). \<not> is_card_line l"
    using assms(3) by auto
  have "is_card_line ?card" "drop (length RECORD_CARD_LABEL) (trim_start ?card) = json_text c"
    by (simp_all add: is_card_line_def recordCardLine_def label_units)
  then have "split_lines (content_lines (composeContent headline bullets links (Some c))) [] None =
      Inr (split_on 10 ?p @ [[]], Some (json_text c))"
    unfolding lines split_lines_prose [OF prose] by simp
  moreover have "join_with 10 (split_on 10 ?p @ [[]]) = ?p @ [10]"
    using join_split [of 10 "?p @ [10]"] split_on_append [of 10 ?p "[]"] by simp
  ultimately show ?thesis
    using json_value_text [OF assms(1), of "2 * length (json_text c) + 2" "[]"]
    by (simp add: splitContent_def json_parse_def closes_def skip_space_def)
qed

section \<open>Answers to reset, normalised\<close>

lemma hex_fixed: "is_lower_hex c \<Longrightarrow> to_lower_unit c = c \<and> \<not> is_space c \<and> \<not> is_line_terminator c"
  by (auto simp: is_lower_hex_def is_digit_def to_lower_unit_def is_space_def is_line_terminator_def word_le_nat_alt)

lemma pairs_hex: "list_all is_lower_hex h \<Longrightarrow> even (length h) \<Longrightarrow> concat (pairs h) = h \<and> (\<forall>p \<in> set (pairs h). p \<noteq> [])"
  by (induction h rule: pairs.induct) (auto simp: hex_fixed)

lemma filter_hex_join: "filter is_lower_hex (join_with 32 ps) = concat (map (filter is_lower_hex) ps)"
  by (induction "32 :: u16" ps rule: join_with.induct) (auto simp: is_lower_hex_def is_digit_def)

lemma normalize_spec:
  "normalizeAtr (Some s) = Some h \<longleftrightarrow>
     (let l = to_lower (trim s) in
      list_all (\<lambda>c. is_lower_hex c \<or> is_space c \<or> c = 58 \<or> c = 95 \<or> c = 45) l
      \<and> h = filter is_lower_hex l \<and> h \<noteq> [] \<and> even (length h))"
  by (auto simp: normalizeAtr_def Let_def)

lemma trim_edges: "s = [] \<or> (\<not> is_space (hd s) \<and> \<not> is_space (last s)) \<Longrightarrow> trim s = s"
proof -
  assume e: "s = [] \<or> (\<not> is_space (hd s) \<and> \<not> is_space (last s))"
  have "dropWhile is_space t = t" if "t = [] \<or> \<not> is_space (hd t)" for t
    using that by (cases t) auto
  from this [of s] this [of "rev s"] show ?thesis
    using e by (cases "s = []") (auto simp: trim_def trim_start_def hd_rev)
qed

lemma to_lower_join: "list_all (\<lambda>c. to_lower_unit c = c) s \<Longrightarrow> to_lower s = s"
  by (simp add: to_lower_def list_all_iff map_idI)

text \<open>
  (design 3.4) A normalised ATR is an even run of lowercase hex digits, normalising it again changes
  nothing, and its display form with spaces normalises back to it.
\<close>

theorem normalizeAtr_spaced:
  assumes "normalizeAtr raw = Some h"
  shows "list_all is_lower_hex h \<and> even (length h) \<and> h \<noteq> []
     \<and> normalizeAtr (Some h) = Some h \<and> normalizeAtr (Some (spacedHex h)) = Some h"
proof -
  obtain s where "raw = Some s"
    using assms by (cases raw) (auto simp: normalizeAtr_def)
  then have h: "h \<noteq> []" "even (length h)" "list_all is_lower_hex h"
    using assms by (auto simp: normalize_spec Let_def list_all_iff)
  have self: "normalizeAtr (Some t) = Some h"
    if t: "trim t = t" "\<forall>c \<in> set t. is_lower_hex c \<or> c = 32" "filter is_lower_hex t = h" for t
  proof -
    have "to_lower_unit 32 = 32"
      by (simp add: to_lower_unit_def)
    then have "to_lower t = t"
      by (intro to_lower_join) (use t(2) hex_fixed in \<open>auto simp: list_all_iff\<close>)
    then show ?thesis
      using t h by (auto simp: normalize_spec Let_def list_all_iff is_space_def)
  qed
  have ends: "\<not> is_space (hd h)" "\<not> is_space (last h)"
    using h(1,3) hex_fixed by (auto simp: list_all_iff)
  have first: "normalizeAtr (Some h) = Some h"
    by (rule self) (use h ends in \<open>auto simp: trim_edges list_all_iff filter_id_conv\<close>)
  have p: "concat (pairs h) = h" "\<forall>p \<in> set (pairs h). p \<noteq> []" "pairs h \<noteq> []"
    using pairs_hex [OF h(3,2)] h(1) by auto
  have sub: "\<forall>p \<in> set (pairs h). list_all is_lower_hex p"
    using h(3) arg_cong [OF p(1), of set] by (auto simp: list_all_iff)
  let ?j = "join_with 32 (pairs h)"
  have j: "?j \<noteq> []" "hd ?j = hd h" "last ?j = last h"
  proof -
    obtain a ps where a: "pairs h = a # ps" using p(3) by (cases "pairs h") auto
    have "a \<noteq> []" using p(2) a by simp
    have "hd h = hd (concat (a # ps))"
      using p(1) a by simp
    then show "?j \<noteq> []" "hd ?j = hd h"
      unfolding a using \<open>a \<noteq> []\<close> by (cases ps; simp)+
    have "last (join_with 32 qs) = last (concat qs)" if "qs \<noteq> []" "\<forall>q \<in> set qs. q \<noteq> []" for qs
      using that
    proof (induction "32 :: u16" qs rule: join_with.induct)
      case (3 l l' ls)
      have ne: "join_with 32 (l' # ls) \<noteq> []" "concat (l' # ls) \<noteq> []"
        using "3.prems" by (cases ls; simp)+
      have "last (join_with 32 (l' # ls)) = last (concat (l' # ls))"
        by (rule "3.hyps") (use "3.prems" in auto)
      then show ?case
        using ne by (simp only: join_with.simps concat.simps(2) [of l] last_appendR last_ConsR list.distinct
            not_False_eq_True)
    qed auto
    from this [OF p(3,2)] show "last ?j = last h" by (simp add: p(1))
  qed
  have "normalizeAtr (Some ?j) = Some h"
  proof (rule self)
    show "trim ?j = ?j"
      by (rule trim_edges) (use j ends in simp)
    show "\<forall>c \<in> set ?j. is_lower_hex c \<or> c = 32"
      using set_join_with [of 32 "pairs h"] sub by (auto simp: list_all_iff)
    have "map (filter is_lower_hex) (pairs h) = pairs h"
      using sub by (intro map_idI) (auto simp: list_all_iff filter_id_conv)
    then show "filter is_lower_hex ?j = h"
      by (simp add: filter_hex_join p(1))
  qed
  then show ?thesis
    using h first p(3) by (simp add: spacedHex_def)
qed

section \<open>Instances\<close>

lemma emitted_shape_witness:
  "assertEventShape (js ''A card'') (emit_baseTags (js ''scrutiny-product'') [js ''jcalgtest'']
     @ iTags [Some (js ''atr:3b'')] @ kTagsFor (iTags [Some (js ''atr:3b'')]) @ []) = Inr ()"
proof -
  have v: "indexer_values [Some (js ''atr:3b'')] = [js ''atr:3b'']"
    by (simp add: indexer_values_def)
  have "colon_split (js ''atr:3b'') \<noteq> None" "trim (js ''A card'') \<noteq> []"
    by (simp_all add: js_def cu_def colon_split_def trim_def trim_start_def is_space_def is_line_terminator_def)
  then show ?thesis
    using emitted_shape [of "js ''scrutiny-product''" "[]" "js ''A card''" "[js ''jcalgtest'']" "[Some (js ''atr:3b'')]"]
    by (simp add: ROOT_TYPE_TAGS_def plain_rows_def v)
qed

lemma record_card_roundtrip_witness:
  "splitContent (composeContent (js ''A'') [] [] (Some (JObject [(js ''n'', JString [10])]))) =
     Inr (js ''A'' @ [10], JObject [(js ''n'', JString [10])])"
proof -
  have c: "composeContent (js ''A'') [] [] None = js ''A''"
    by (simp add: composeContent_def trim_end_def js_def cu_def is_space_def is_line_terminator_def)
  have "\<not> index_key (js ''n'')"
    by (simp add: index_key_def js_def cu_def is_digit_def)
  then have p: "plain_json (JObject [(js ''n'', JString [10])])"
    by simp
  have "13 \<notin> set (composeContent (js ''A'') [] [] None)"
    "\<forall>l \<in> set (split_on 10 (composeContent (js ''A'') [] [] None)). \<not> is_card_line l"
    unfolding c by (simp_all add: js_def cu_def is_card_line_def trim_start_def is_space_def is_line_terminator_def
        RECORD_CARD_LABEL_def starts_with_def)
  from record_card_roundtrip [OF p this] show ?thesis
    by (simp only: c)
qed

lemma normalizeAtr_spaced_witness:
  "normalizeAtr (Some (js ''3B FA'')) = Some (js ''3bfa'') \<and> normalizeAtr (Some (spacedHex (js ''3bfa''))) = Some (js ''3bfa'')"
proof -
  have "normalizeAtr (Some (js ''3B FA'')) = Some (js ''3bfa'')"
    by (simp add: normalizeAtr_def js_def cu_def trim_def trim_start_def to_lower_def to_lower_unit_def is_space_def
        is_line_terminator_def is_lower_hex_def is_digit_def Let_def)
  with normalizeAtr_spaced [OF this] show ?thesis
    by simp
qed

end
