(* ===== verification/Lcs.thy ===== *)
theory Lcs
  imports Prelude "HOL-Library.Sublist"
begin

text \<open>
  The edit script of \<open>packages/mirror/src/emit/seccerts/patch.ts\<close>: \<open>lcsOps\<close> over a table of the lengths of
  longest common subsequences, and \<open>diffLines\<close>, which trims the common ends first. The rows of the
  flat array are lists; row \<open>i\<close> holds the columns \<open>0\<close> to \<open>n\<close>. The lemmas show that a script rewrites the
  one text into the other, that it is a shortest one, and that no cell exceeds its 32-bit integer.
\<close>

section \<open>The table\<close>

datatype op_type = Equal | Del | Ins

record diff_op =
  op_type :: op_type
  op_line :: jsstr

abbreviation mk_op :: "op_type \<Rightarrow> jsstr \<Rightarrow> diff_op" where
  "mk_op t l \<equiv> \<lparr>op_type = t, op_line = l\<rparr>"

definition DP_CELL_CAP :: nat where
  "DP_CELL_CAP = 4000000"

text \<open>The inner loop: the row of the line \<open>x\<close> from the row below, from the right to the left.\<close>

fun dp_row :: "jsstr \<Rightarrow> jsstr list \<Rightarrow> nat list \<Rightarrow> nat list" where
  "dp_row x [] below = [0]"
| "dp_row x (y # ys) below =
     (let right = dp_row x ys (tl below)
      in (if x = y then hd (tl below) + 1 else max (hd below) (hd right)) # right)"

fun dp_table :: "jsstr list \<Rightarrow> jsstr list \<Rightarrow> nat list list" where
  "dp_table [] b = [replicate (length b + 1) 0]"
| "dp_table (x # a) b = (let t = dp_table a b in dp_row x b (hd t) # t)"

text \<open>The three loops that read the script off the table; deletions come first on ties.\<close>

function lcs_walk :: "jsstr list \<Rightarrow> jsstr list \<Rightarrow> nat list list \<Rightarrow> nat \<Rightarrow> nat \<Rightarrow> diff_op list" where
  "lcs_walk a b dp i j =
     (if i < length a \<and> j < length b then
        if a ! i = b ! j then mk_op Equal (a ! i) # lcs_walk a b dp (i + 1) (j + 1)
        else if dp ! (i + 1) ! j \<ge> dp ! i ! (j + 1) then mk_op Del (a ! i) # lcs_walk a b dp (i + 1) j
        else mk_op Ins (b ! j) # lcs_walk a b dp i (j + 1)
      else map (mk_op Del) (drop i a) @ map (mk_op Ins) (drop j b))"
  by pat_completeness auto
termination
  by (relation "measure (\<lambda>(a, b, _, i, j). (length a - i) + (length b - j))") auto

declare lcs_walk.simps [simp del]

definition lcsOps :: "jsstr list \<Rightarrow> jsstr list \<Rightarrow> diff_op list" where
  "lcsOps a b = lcs_walk a b (dp_table a b) 0 0"

section \<open>The common ends\<close>

fun common_start :: "jsstr list \<Rightarrow> jsstr list \<Rightarrow> nat" where
  "common_start (x # a) (y # b) = (if x = y then common_start a b + 1 else 0)"
| "common_start _ _ = 0"

function common_end :: "jsstr list \<Rightarrow> jsstr list \<Rightarrow> nat \<Rightarrow> nat \<Rightarrow> nat \<Rightarrow> nat \<times> nat" where
  "common_end before after start endBefore endAfter =
     (if start < endBefore \<and> start < endAfter \<and> before ! (endBefore - 1) = after ! (endAfter - 1)
      then common_end before after start (endBefore - 1) (endAfter - 1)
      else (endBefore, endAfter))"
  by pat_completeness auto
termination
  by (relation "measure (\<lambda>(_, _, _, e, _). e)") auto

declare common_end.simps [simp del]

definition diffLines :: "jsstr list \<Rightarrow> jsstr list \<Rightarrow> diff_op list" where
  "diffLines before after =
     (let start = common_start before after;
          (endBefore, endAfter) = common_end before after start (length before) (length after);
          midBefore = drop start (take endBefore before);
          midAfter = drop start (take endAfter after)
      in map (mk_op Equal) (take start before)
         @ (if DP_CELL_CAP < length midBefore * length midAfter
            then map (mk_op Del) midBefore @ map (mk_op Ins) midAfter
            else lcsOps midBefore midAfter)
         @ map (mk_op Equal) (drop endBefore before))"

section \<open>What a script does\<close>

text \<open>The two sides of a script and the lines it keeps.\<close>

definition old_side :: "diff_op list \<Rightarrow> jsstr list" where
  "old_side ops = map op_line (filter (\<lambda>p. op_type p \<noteq> Ins) ops)"

definition new_side :: "diff_op list \<Rightarrow> jsstr list" where
  "new_side ops = map op_line (filter (\<lambda>p. op_type p \<noteq> Del) ops)"

definition kept :: "diff_op list \<Rightarrow> jsstr list" where
  "kept ops = map op_line (filter (\<lambda>p. op_type p = Equal) ops)"

lemma sides_simps [simp]:
  "old_side [] = []" "new_side [] = []" "kept [] = []"
  "old_side (p # ops) = (if op_type p = Ins then old_side ops else op_line p # old_side ops)"
  "new_side (p # ops) = (if op_type p = Del then new_side ops else op_line p # new_side ops)"
  "kept (p # ops) = (if op_type p = Equal then op_line p # kept ops else kept ops)"
  "old_side (ops @ ops') = old_side ops @ old_side ops'"
  "new_side (ops @ ops') = new_side ops @ new_side ops'"
  "kept (ops @ ops') = kept ops @ kept ops'"
  by (simp_all add: old_side_def new_side_def kept_def)

lemma sides_map [simp]:
  "old_side (map (mk_op t) ls) = (if t = Ins then [] else ls)"
  "new_side (map (mk_op t) ls) = (if t = Del then [] else ls)"
  "kept (map (mk_op t) ls) = (if t = Equal then ls else [])"
  by (cases t; induction ls; simp)+

lemma kept_common: "subseq (kept ops) (old_side ops) \<and> subseq (kept ops) (new_side ops)"
proof (induction ops)
  case (Cons p ops)
  then show ?case
    by (cases "op_type p") (auto intro: subseq_Cons')
qed simp

section \<open>Longest common subsequences\<close>

fun lcs_len :: "jsstr list \<Rightarrow> jsstr list \<Rightarrow> nat" where
  "lcs_len [] b = 0"
| "lcs_len a [] = 0"
| "lcs_len (x # a) (y # b) = (if x = y then lcs_len a b + 1 else max (lcs_len a (y # b)) (lcs_len (x # a) b))"

lemma lcs_len_Nil [simp]: "lcs_len a [] = 0"
  by (cases a) auto

lemma lcs_len_upper: "subseq zs a \<Longrightarrow> subseq zs b \<Longrightarrow> length zs \<le> lcs_len a b"
proof (induction a b arbitrary: zs rule: lcs_len.induct)
  case (3 x a y b)
  show ?case
  proof (cases "x = y")
    case True
    show ?thesis
    proof (cases zs)
      case Nil then show ?thesis by simp
    next
      case (Cons z ws)
      have "subseq ws a" "subseq ws b"
        using "3.prems" Cons by (auto dest: subseq_Cons2_iff [THEN iffD1] split: if_splits intro: subseq_Cons')
      then show ?thesis
        using "3.IH"(1) [OF True] Cons True by simp
    qed
  next
    case False
    have "subseq zs a \<or> subseq zs b"
    proof (rule ccontr)
      assume n: "\<not> (subseq zs a \<or> subseq zs b)"
      then obtain z ws where "zs = z # ws" by (cases zs) auto
      with n "3.prems" have "z = x" "z = y"
        by (auto simp: subseq_Cons2_iff split: if_splits)
      with False show False by simp
    qed
    then show ?thesis
      using "3.IH"(2,3) [OF False] "3.prems" False by (auto simp: le_max_iff_disj)
  qed
qed auto

lemma lcs_len_bound: "lcs_len a b \<le> length a \<and> lcs_len a b \<le> length b"
  by (induction a b rule: lcs_len.induct) auto

section \<open>The table holds their lengths\<close>

lemma dp_row_spec:
  "below = map (\<lambda>j. lcs_len a (drop j b)) [0..<Suc (length b)] \<Longrightarrow>
   dp_row x b below = map (\<lambda>j. lcs_len (x # a) (drop j b)) [0..<Suc (length b)]"
proof (induction b arbitrary: below)
  case (Cons y b)
  let ?row = "\<lambda>a b. map (\<lambda>j. lcs_len a (drop j b)) [0..<Suc (length b)]"
  have split: "?row a' (y # b) = lcs_len a' (y # b) # ?row a' b" for a'
    by (simp add: upt_conv_Cons map_Suc_upt [symmetric] comp_def del: upt_Suc)
  have tl: "tl below = ?row a b"
    unfolding Cons.prems split by (rule list.sel)
  have hd: "hd (?row a' b) = lcs_len a' b" for a'
    by (simp add: upt_conv_Cons del: upt_Suc)
  from Cons.IH [OF tl] show ?case
    unfolding split using Cons.prems by (simp only: dp_row.simps Let_def tl hd split list.sel) simp
qed simp

lemma dp_table_spec:
  "dp_table a b = map (\<lambda>i. map (\<lambda>j. lcs_len (drop i a) (drop j b)) [0..<Suc (length b)]) [0..<Suc (length a)]"
proof (induction a)
  case Nil
  show ?case by (simp add: replicate_append_same map_replicate_const)
next
  case (Cons x a)
  have "hd (dp_table a b) = map (\<lambda>j. lcs_len a (drop j b)) [0..<Suc (length b)]"
    unfolding Cons.IH by (simp add: upt_conv_Cons del: upt_Suc)
  from dp_row_spec [OF this] show ?case
    unfolding dp_table.simps Let_def Cons.IH
    by (simp add: upt_conv_Cons [of 0 "Suc (Suc (length a))"] map_Suc_upt [symmetric] comp_def del: upt_Suc)
qed

lemma dp_cell:
  "i \<le> length a \<Longrightarrow> j \<le> length b \<Longrightarrow> dp_table a b ! i ! j = lcs_len (drop i a) (drop j b)"
  unfolding dp_table_spec by (simp del: upt_Suc)

lemma lcs_walk_spec:
  assumes "i \<le> length a" "j \<le> length b"
  shows "old_side (lcs_walk a b (dp_table a b) i j) = drop i a
    \<and> new_side (lcs_walk a b (dp_table a b) i j) = drop j b
    \<and> length (kept (lcs_walk a b (dp_table a b) i j)) = lcs_len (drop i a) (drop j b)"
  using assms
proof (induction a b "dp_table a b" i j rule: lcs_walk.induct)
  case (1 a b i j)
  show ?case
  proof (cases "i < length a \<and> j < length b")
    case True
    then have d: "drop i a = a ! i # drop (i + 1) a" "drop j b = b ! j # drop (j + 1) b"
      by (simp_all add: Cons_nth_drop_Suc)
    have cells: "dp_table a b ! (i + 1) ! j = lcs_len (drop (i + 1) a) (drop j b)"
      "dp_table a b ! i ! (j + 1) = lcs_len (drop i a) (drop (j + 1) b)"
      using True by (simp_all add: dp_cell)
    show ?thesis
    proof (cases "a ! i = b ! j")
      case e: True
      have "old_side (lcs_walk a b (dp_table a b) (i + 1) (j + 1)) = drop (i + 1) a
    \<and> new_side (lcs_walk a b (dp_table a b) (i + 1) (j + 1)) = drop (j + 1) b
    \<and> length (kept (lcs_walk a b (dp_table a b) (i + 1) (j + 1))) = lcs_len (drop (i + 1) a) (drop (j + 1) b)"
        using "1.hyps"(1) [OF True e] True by simp
      then show ?thesis
        using True e by (subst (1 2 3) lcs_walk.simps) (simp add: d)
    next
      case n: False
      show ?thesis
      proof (cases "dp_table a b ! (i + 1) ! j \<ge> dp_table a b ! i ! (j + 1)")
        case le: True
        have "old_side (lcs_walk a b (dp_table a b) (i + 1) j) = drop (i + 1) a
    \<and> new_side (lcs_walk a b (dp_table a b) (i + 1) j) = drop j b
    \<and> length (kept (lcs_walk a b (dp_table a b) (i + 1) j)) = lcs_len (drop (i + 1) a) (drop j b)"
          using "1.hyps"(2) [OF True n le] True by simp
        then show ?thesis
          using True n le unfolding cells
          by (subst (1 2 3) lcs_walk.simps) (simp add: d cells [simplified] max_def)
      next
        case gt: False
        have "old_side (lcs_walk a b (dp_table a b) i (j + 1)) = drop i a
    \<and> new_side (lcs_walk a b (dp_table a b) i (j + 1)) = drop (j + 1) b
    \<and> length (kept (lcs_walk a b (dp_table a b) i (j + 1))) = lcs_len (drop i a) (drop (j + 1) b)"
          using "1.hyps"(3) [OF True n gt] True by simp
        then show ?thesis
          using True n gt unfolding cells
          by (subst (1 2 3) lcs_walk.simps) (simp add: d cells [simplified] max_def)
      qed
    qed
  next
    case False
    then show ?thesis
      using "1.prems" by (subst (1 2 3) lcs_walk.simps) auto
  qed
qed

lemma lcsOps_spec:
  "old_side (lcsOps a b) = a" "new_side (lcsOps a b) = b" "length (kept (lcsOps a b)) = lcs_len a b"
  using lcs_walk_spec [of 0 a 0 b] by (simp_all add: lcsOps_def)


section \<open>Trimming keeps a shortest script shortest\<close>

lemma lcs_len_witness: "\<exists>zs. subseq zs a \<and> subseq zs b \<and> length zs = lcs_len a b"
  using kept_common [of "lcsOps a b"] lcsOps_spec [of a b] by auto

lemma lcs_len_snoc: "lcs_len (a @ [x]) (b @ [x]) = lcs_len a b + 1"
proof (rule antisym)
  obtain zs where zs: "subseq zs (a @ [x])" "subseq zs (b @ [x])" "length zs = lcs_len (a @ [x]) (b @ [x])"
    using lcs_len_witness by blast
  have but: "subseq (butlast zs) c" if s: "subseq zs (c @ [x])" for c
  proof -
    obtain u v where uv: "zs = u @ v" "subseq u c" "subseq v [x]"
      using s by (auto simp: subseq_append_iff)
    have "v = [] \<or> v = [x]"
      using uv(3) by (cases v) (auto dest: list_emb_length split: if_splits)
    then show ?thesis
      using uv subseq_order.trans [OF prefix_imp_subseq [OF prefixeq_butlast] uv(2)] by (auto simp: butlast_append)
  qed
  have "length (butlast zs) \<le> lcs_len a b"
    using lcs_len_upper [OF but [OF zs(1)] but [OF zs(2)]] .
  then show "lcs_len (a @ [x]) (b @ [x]) \<le> lcs_len a b + 1"
    using zs(3) by simp
next
  obtain ws where ws: "subseq ws a" "subseq ws b" "length ws = lcs_len a b"
    using lcs_len_witness by blast
  then have "length (ws @ [x]) \<le> lcs_len (a @ [x]) (b @ [x])"
    by (intro lcs_len_upper list_emb_append_mono) auto
  then show "lcs_len a b + 1 \<le> lcs_len (a @ [x]) (b @ [x])"
    using ws(3) by simp
qed

lemma lcs_len_suffix: "lcs_len (a @ s) (b @ s) = lcs_len a b + length s"
proof (induction s rule: rev_induct)
  case (snoc x s)
  then show ?case
    using lcs_len_snoc [of "a @ s" x "b @ s"] by simp
qed simp

lemma lcs_len_prefix: "lcs_len (p @ a) (p @ b) = length p + lcs_len a b"
  by (induction p) auto

lemma common_start_spec:
  "common_start a b \<le> length a \<and> common_start a b \<le> length b \<and> take (common_start a b) a = take (common_start a b) b"
  by (induction a b rule: common_start.induct) auto

lemma drop_before: "0 < e \<Longrightarrow> e \<le> length l \<Longrightarrow> drop (e - 1) l = l ! (e - 1) # drop e l"
  by (cases e) (simp_all add: Cons_nth_drop_Suc)

lemma common_end_spec:
  assumes "common_end before after start endBefore endAfter = (eb, ea)"
    and "start \<le> endBefore" "start \<le> endAfter" "endBefore \<le> length before" "endAfter \<le> length after"
    and "drop endBefore before = drop endAfter after"
  shows "start \<le> eb \<and> start \<le> ea \<and> eb \<le> length before \<and> ea \<le> length after \<and> drop eb before = drop ea after"
  using assms
proof (induction before after start endBefore endAfter rule: common_end.induct)
  case (1 before after start endBefore endAfter)
  show ?case
  proof (cases "start < endBefore \<and> start < endAfter \<and> before ! (endBefore - 1) = after ! (endAfter - 1)")
    case True
    have "drop (endBefore - 1) before = before ! (endBefore - 1) # drop endBefore before"
      "drop (endAfter - 1) after = after ! (endAfter - 1) # drop endAfter after"
      using True "1.prems"(4,5) by (intro drop_before; simp)+
    then have "drop (endBefore - 1) before = drop (endAfter - 1) after"
      using True "1.prems"(6) by simp
    moreover have "common_end before after start (endBefore - 1) (endAfter - 1) = (eb, ea)"
      using "1.prems"(1) True by (subst (asm) common_end.simps) simp
    moreover have "start \<le> endBefore - 1" "start \<le> endAfter - 1" "endBefore - 1 \<le> length before"
      "endAfter - 1 \<le> length after"
      using True "1.prems"(4,5) by linarith+
    ultimately show ?thesis
      by (intro "1.IH" [OF True])
  next
    case False
    then have "(endBefore, endAfter) = (eb, ea)"
      using "1.prems"(1) by (subst (asm) common_end.simps) (simp only: if_False)
    then show ?thesis
      using "1.prems" by simp
  qed
qed

text \<open>The three parts of the two texts; the middles are what is left between the common ends.\<close>

definition trimmed :: "jsstr list \<Rightarrow> jsstr list \<Rightarrow> jsstr list \<times> jsstr list" where
  "trimmed before after =
     (let start = common_start before after;
          (endBefore, endAfter) = common_end before after start (length before) (length after)
      in (drop start (take endBefore before), drop start (take endAfter after)))"

lemma diffLines_parts:
  obtains p a b s where "before = p @ a @ s" "after = p @ b @ s"
    "diffLines before after = map (mk_op Equal) p
       @ (if DP_CELL_CAP < length a * length b then map (mk_op Del) a @ map (mk_op Ins) b else lcsOps a b)
       @ map (mk_op Equal) s" "trimmed before after = (a, b)"
proof -
  define start where "start = common_start before after"
  obtain eb ea where e: "common_end before after start (length before) (length after) = (eb, ea)"
    by (cases "common_end before after start (length before) (length after)")
  have st: "start \<le> length before" "start \<le> length after" "take start before = take start after"
    using common_start_spec [of before after] by (simp_all add: start_def)
  have en: "start \<le> eb" "start \<le> ea" "eb \<le> length before" "ea \<le> length after" "drop eb before = drop ea after"
    using common_end_spec [OF e] st by simp_all
  have three: "l = take start l @ drop start (take k l) @ drop k l" if "start \<le> k" for k and l :: "jsstr list"
    using that by (metis append.assoc append_take_drop_id min.absorb1 take_take)
  show thesis
    using that [of "take start before" "drop start (take eb before)" "drop eb before" "drop start (take ea after)"]
      three [OF en(1), of before] three [OF en(2), of after] st(3) en(5) e
    unfolding diffLines_def trimmed_def Let_def start_def [symmetric] by simp
qed

lemma diffLines_sides: "old_side (diffLines before after) = before" "new_side (diffLines before after) = after"
  by (rule diffLines_parts [of before after]; simp add: lcsOps_spec)+

lemma diffLines_equal: "diffLines before before = map (mk_op Equal) before"
proof -
  have "common_start before before = length before"
    by (induction before) auto
  moreover have "common_end before before (length before) (length before) (length before) = (length before, length before)"
    by (subst common_end.simps) simp
  moreover have "lcsOps [] [] = []"
    by (simp add: lcsOps_def lcs_walk.simps)
  ultimately show ?thesis
    by (simp add: diffLines_def)
qed

text \<open>
  C31. The edit script is sound, and shortest where the table is used: what it does not insert is the old text and what
  it does not delete is the new one. While the two middles, the texts without their common start and
  end, have at most \<open>DP_CELL_CAP\<close> cells, no common subsequence of the whole texts is longer than the lines the
  script keeps; past that budget it deletes the whole old middle and inserts the whole new one and keeps only the
  common start and end.
\<close>

theorem diffLines_shortest:
  "old_side (diffLines before after) = before \<and> new_side (diffLines before after) = after
   \<and> subseq (kept (diffLines before after)) before \<and> subseq (kept (diffLines before after)) after
   \<and> (case trimmed before after of (a, b) \<Rightarrow>
        if length a * length b \<le> DP_CELL_CAP
        then \<forall>zs. subseq zs before \<longrightarrow> subseq zs after \<longrightarrow> length zs \<le> length (kept (diffLines before after))
        else length (kept (diffLines before after)) + length a = length before)"
proof -
  have common: "subseq (kept (diffLines before after)) before" "subseq (kept (diffLines before after)) after"
    using kept_common [of "diffLines before after"] by (simp_all add: diffLines_sides)
  obtain p a b s where d: "before = p @ a @ s" "after = p @ b @ s"
    "diffLines before after = map (mk_op Equal) p
       @ (if DP_CELL_CAP < length a * length b then map (mk_op Del) a @ map (mk_op Ins) b else lcsOps a b)
       @ map (mk_op Equal) s" "trimmed before after = (a, b)"
    by (rule diffLines_parts)
  have "length zs \<le> length (kept (diffLines before after))"
    if small: "length a * length b \<le> DP_CELL_CAP" and zs: "subseq zs before" "subseq zs after" for zs
  proof -
    have "length (kept (diffLines before after)) = lcs_len before after"
      using small lcs_len_prefix [of p "a @ s" "b @ s"] lcs_len_suffix [of a s b]
      by (simp add: d(3) lcsOps_spec) (simp add: d(1,2))
    then show ?thesis
      using lcs_len_upper [OF zs] by simp
  qed
  moreover have "length (kept (diffLines before after)) + length a = length before"
    if "\<not> length a * length b \<le> DP_CELL_CAP"
    using that by (simp add: d(3)) (simp add: d(1))
  ultimately show ?thesis
    by (simp add: diffLines_sides common d(4))
qed

text \<open>
  No cell of the table wraps: within the budget of cells every length fits the 32-bit integer that
  holds it, by far.
\<close>

theorem dp_cells_fit:
  assumes "length a * length b \<le> DP_CELL_CAP" "row \<in> set (dp_table a b)" "cell \<in> set row"
  shows "cell \<le> 2000"
proof -
  obtain i j where c: "cell = lcs_len (drop i a) (drop j b)"
    using assms(2,3) by (auto simp: dp_table_spec simp del: upt_Suc)
  have "cell \<le> length a" "cell \<le> length b"
    using lcs_len_bound [of "drop i a" "drop j b"] unfolding c by auto
  then have "cell * cell \<le> 2000 * 2000"
    using assms(1) mult_le_mono [of cell "length a" cell "length b"] by (simp add: DP_CELL_CAP_def)
  then show ?thesis
    by (metis linorder_not_le mult_strict_mono' not_less0 gr0I le_eq_less_or_eq)
qed

lemma diffLines_shortest_witness:
  "length [[98 :: u16]] \<le> length (kept (diffLines [[97], [98]] [[98], [99]]))"
proof -
  have "trimmed [[97], [98]] [[98], [99 :: u16]] = ([[97], [98]], [[98], [99]])"
    by (simp add: trimmed_def common_end.simps)
  then have "length zs \<le> length (kept (diffLines [[97], [98]] [[98], [99]]))"
    if "subseq zs [[97], [98]]" "subseq zs [[98], [99]]" for zs :: "jsstr list"
    using diffLines_shortest [of "[[97], [98]]" "[[98], [99]]"] that by (simp add: DP_CELL_CAP_def)
  from this [of "[[98]]"] show ?thesis
    by simp
qed

lemma dp_cells_fit_witness: "dp_table [[97]] [[97 :: u16]] = [[1, 0], [0, 0]] \<and> (1 :: nat) \<le> 2000"
proof -
  have t: "dp_table [[97]] [[97 :: u16]] = [[1, 0], [0, 0]]"
    by simp
  have "(1 :: nat) \<le> 2000"
    by (rule dp_cells_fit [of "[[97]]" "[[97]]" "[1, 0]"]) (simp_all add: DP_CELL_CAP_def)
  with t show ?thesis ..
qed

end
