(* ===== verification/Diff.thy ===== *)
theory Diff
  imports Lcs Build
begin

text \<open>
  \<open>packages/mirror/src/emit/seccerts/patch.ts\<close>: the mirror's own producer and consumer of unified diffs.
  \<open>createPatch\<close> renders the hunks of an edit script and returns only what its own \<open>applyPatch\<close> turns into
  the new content. A thrown \<open>Error\<close> is an \<open>Inl\<close>; its message is left out. The lines of a hunk have
  the three types of the script (\<open>ctx\<close> is \<open>Equal\<close>). The \<open>Number\<close> of a header is exact, which the code's
  is below 2 to the 53.
\<close>

datatype patch_error =
    C1_violation | Missing_plus_header | Hunk_before_header | Malformed_hunk_header | Unexpected_hunk_line
  | Unexpected_payload_line | T1_ambiguity | T1_mismatch | P4_failed

section \<open>Rendering\<close>

definition CONTEXT_LINES :: nat where
  "CONTEXT_LINES = 3"

type_synonym hunk_group = "(nat \<times> nat) list \<times> nat \<times> nat"

definition merge_change :: "nat \<Rightarrow> hunk_group \<Rightarrow> hunk_group" where
  "merge_change index g =
     (case g of (merged, groupStart, groupEnd) \<Rightarrow>
        if index - groupEnd \<le> 2 * CONTEXT_LINES then (merged, groupStart, index + 1)
        else (merged @ [(groupStart, groupEnd)], index, index + 1))"

definition changed_indices :: "diff_op list \<Rightarrow> nat list" where
  "changed_indices ops = filter (\<lambda>i. op_type (ops ! i) \<noteq> Equal) [0..<length ops]"

definition hunkRanges :: "diff_op list \<Rightarrow> (nat \<times> nat) list" where
  "hunkRanges ops =
     (case changed_indices ops of
        [] \<Rightarrow> []
      | c # cs \<Rightarrow>
          (case fold merge_change cs ([], c, c + 1) of
             (merged, groupStart, groupEnd) \<Rightarrow>
               map (\<lambda>(start, end). (start - CONTEXT_LINES, min (length ops) (end + CONTEXT_LINES)))
                 (merged @ [(groupStart, groupEnd)])))"

text \<open>\<open>oldNo\<close> and \<open>newNo\<close>: the line numbers before each operation, which operations of one type do not move.\<close>

fun line_numbers :: "op_type \<Rightarrow> nat \<Rightarrow> diff_op list \<Rightarrow> nat list" where
  "line_numbers still n [] = [n]"
| "line_numbers still n (p # ops) = n # line_numbers still (if op_type p = still then n else n + 1) ops"

fun op_marker :: "op_type \<Rightarrow> u16" where
  "op_marker Equal = space"
| "op_marker Del = cu CHR ''-''"
| "op_marker Ins = cu CHR ''+''"

definition render_op :: "diff_op \<Rightarrow> jsstr" where
  "render_op p = op_marker (op_type p) # op_line p"

definition hunk_header :: "nat \<Rightarrow> nat \<Rightarrow> nat \<Rightarrow> nat \<Rightarrow> jsstr" where
  "hunk_header oldStart oldCount newStart newCount =
     js ''@@ -'' @ nat_digits oldStart @ js '','' @ nat_digits oldCount
     @ js '' +'' @ nat_digits newStart @ js '','' @ nat_digits newCount @ js '' @@''"

definition render_hunk :: "diff_op list \<Rightarrow> nat \<times> nat \<Rightarrow> jsstr list" where
  "render_hunk ops span =
     (case span of (start, end) \<Rightarrow>
        let oldNo = line_numbers Ins 1 ops; newNo = line_numbers Del 1 ops;
            oldCount = oldNo ! end - oldNo ! start; newCount = newNo ! end - newNo ! start
        in hunk_header (if oldCount = 0 then oldNo ! start - 1 else oldNo ! start) oldCount
             (if newCount = 0 then newNo ! start - 1 else newNo ! start) newCount
           # map render_op (drop start (take end ops)))"

definition renderPatch :: "diff_op list \<Rightarrow> (nat \<times> nat) list \<Rightarrow> jsstr" where
  "renderPatch ops ranges =
     join_with 10 ([js ''--- a/content'', js ''+++ b/content''] @ concat (map (render_hunk ops) ranges)) @ [10]"

section \<open>Finding the payload\<close>

text \<open>\<open>/^( {0,3})(`{3,})([^`]*)$/\<close> and \<open>/^( {0,3})(`{3,})[ \t]*$/\<close>.\<close>

definition backtick_fence :: "jsstr \<Rightarrow> (nat \<times> jsstr) option" where
  "backtick_fence line =
     (case skip_indent line of
        None \<Rightarrow> None
      | Some r \<Rightarrow>
          let n = length (takeWhile (\<lambda>c. c = backtick) r); info = dropWhile (\<lambda>c. c = backtick) r
          in if 3 \<le> n \<and> backtick \<notin> set info then Some (n, info) else None)"

definition closing_fence :: "nat \<Rightarrow> jsstr \<Rightarrow> bool" where
  "closing_fence opened line =
     (case skip_indent line of
        None \<Rightarrow> False
      | Some r \<Rightarrow>
          let n = length (takeWhile (\<lambda>c. c = backtick) r); blank = dropWhile (\<lambda>c. c = backtick) r
          in 3 \<le> n \<and> list_all (\<lambda>c. c = space \<or> c = 9) blank \<and> opened \<le> n)"

fun fenced_body :: "nat \<Rightarrow> jsstr list \<Rightarrow> jsstr list option" where
  "fenced_body n [] = None"
| "fenced_body n (l # ls) = (if closing_fence n l then Some [] else map_option ((#) l) (fenced_body n ls))"

definition lines_text :: "jsstr list \<Rightarrow> jsstr" where
  "lines_text ls = concat (map (\<lambda>l. l @ [10]) ls)"

fun first_fenced :: "jsstr list \<Rightarrow> jsstr option" where
  "first_fenced [] = None"
| "first_fenced (l # ls) =
     (case backtick_fence l of
        None \<Rightarrow> first_fenced ls
      | Some (n, info) \<Rightarrow>
          if \<not> isPayloadInfo info then first_fenced ls
          else case fenced_body n ls of
                 Some body \<Rightarrow> Some (lines_text body)
               | None \<Rightarrow> Some (lines_text (if at_last ls = Some [] then butlast ls else ls)))"

definition findFirstFencedBlock :: "jsstr \<Rightarrow> jsstr option" where
  "findFirstFencedBlock text = first_fenced (split_on 10 text)"

text \<open>\<open>/^(?:--- |diff --git |Index: )/m\<close>; the flag says that a line starts here.\<close>

definition header_start :: "jsstr \<Rightarrow> bool" where
  "header_start s \<longleftrightarrow> starts_with s (js ''--- '') \<or> starts_with s (js ''diff --git '') \<or> starts_with s (js ''Index: '')"

fun hasHeaders :: "bool \<Rightarrow> jsstr \<Rightarrow> bool" where
  "hasHeaders at_start [] = False"
| "hasHeaders at_start (c # s) = ((at_start \<and> header_start (c # s)) \<or> hasHeaders (is_line_terminator c) s)"

definition extractPatchPayload :: "jsstr \<Rightarrow> jsstr" where
  "extractPatchPayload text =
     (case findFirstFencedBlock text of
        Some fenced \<Rightarrow> if hasHeaders True fenced then fenced else if hasHeaders True text then text else []
      | None \<Rightarrow> if hasHeaders True text then text else [])"

section \<open>Parsing\<close>

record parsed_hunk =
  ph_oldStart :: nat
  ph_oldCount :: nat
  ph_lines :: "diff_op list"

definition skipped_line :: "jsstr \<Rightarrow> bool" where
  "skipped_line line \<longleftrightarrow>
     starts_with line (js ''diff --git '') \<or> starts_with line (js ''Index: '')
     \<or> (starts_with line (js ''='') \<and> list_all is_space (dropWhile (\<lambda>c. c = cu CHR ''='') line))
     \<or> trim line = []"

definition path_token :: "jsstr \<Rightarrow> jsstr" where
  "path_token line = takeWhile (\<lambda>c. \<not> is_space c) (trim (drop 4 line))"

definition read_number :: "jsstr \<Rightarrow> (nat \<times> jsstr) option" where
  "read_number s =
     (if takeWhile is_digit s = [] then None
      else Some (digits_value (takeWhile is_digit s), dropWhile is_digit s))"

definition read_literal :: "jsstr \<Rightarrow> jsstr \<Rightarrow> jsstr option" where
  "read_literal p s = (if starts_with s p then Some (drop (length p) s) else None)"

text \<open>\<open>(?:,(\d+))?\<close>, with 1 for a count that is not there.\<close>

definition read_count :: "jsstr \<Rightarrow> nat \<times> jsstr" where
  "read_count s =
     (case read_literal (js '','') s of
        None \<Rightarrow> (1, s)
      | Some t \<Rightarrow> (case read_number t of None \<Rightarrow> (1, s) | Some (n, r) \<Rightarrow> (n, r)))"

text \<open>\<open>/^@@ -(\d+)(?:,(\d+))? \+(\d+)(?:,(\d+))? @@/\<close>: the old start and the old count.\<close>

definition read_hunk_header :: "jsstr \<Rightarrow> (nat \<times> nat) option" where
  "read_hunk_header line =
     (case read_literal (js ''@@ -'') line of
        None \<Rightarrow> None
      | Some s \<Rightarrow>
          (case read_number s of
             None \<Rightarrow> None
           | Some (oldStart, s) \<Rightarrow>
               (case read_count s of
                  (oldCount, s) \<Rightarrow>
                    (case read_literal (js '' +'') s of
                       None \<Rightarrow> None
                     | Some s \<Rightarrow>
                         (case read_number s of
                            None \<Rightarrow> None
                          | Some (_, s) \<Rightarrow>
                              (case read_count s of
                                 (_, s) \<Rightarrow>
                                   (case read_literal (js '' @@'') s of
                                      None \<Rightarrow> None
                                    | Some _ \<Rightarrow> Some (oldStart, oldCount))))))))"

fun hunk_body :: "jsstr list \<Rightarrow> patch_error + diff_op list \<times> jsstr list" where
  "hunk_body [] = Inr ([], [])"
| "hunk_body (l # ls) =
     (if starts_with l (js ''@@'') \<or> starts_with l (js ''--- '') \<or> starts_with l (js ''diff --git '')
      then Inr ([], l # ls)
      else
        let keep = (\<lambda>p. case hunk_body ls of Inl err \<Rightarrow> Inl err | Inr (body, rest) \<Rightarrow> Inr (p # body, rest)) in
        case l of
          [] \<Rightarrow> keep (mk_op Equal [])
        | marker # text \<Rightarrow>
            if marker = cu CHR 0x5C then hunk_body ls
            else if marker = space then keep (mk_op Equal text)
            else if marker = cu CHR ''-'' then keep (mk_op Del text)
            else if marker = cu CHR ''+'' then keep (mk_op Ins text)
            else Inl Unexpected_hunk_line)"

lemma hunk_body_rest: "hunk_body ls = Inr (body, rest) \<Longrightarrow> length rest \<le> length ls"
  by (induction ls arbitrary: body)
    (auto simp: Let_def le_SucI split: if_splits list.splits sum.splits prod.splits)

function parse_lines :: "bool \<Rightarrow> jsstr list \<Rightarrow> patch_error + parsed_hunk list" where
  "parse_lines sawHeader [] = Inr []"
| "parse_lines sawHeader (l # ls) =
     (if skipped_line l then parse_lines sawHeader ls
      else if starts_with l (js ''--- '') then
        (if path_token l \<noteq> js ''a/content'' then Inl C1_violation
         else
           let plus = (case ls of [] \<Rightarrow> [] | p # _ \<Rightarrow> p) in
           if \<not> starts_with plus (js ''+++ '') then Inl Missing_plus_header
           else if path_token plus \<noteq> js ''b/content'' then Inl C1_violation
           else parse_lines True (drop 1 ls))
      else if starts_with l (js ''@@'') then
        (if \<not> sawHeader then Inl Hunk_before_header
         else case read_hunk_header l of
                None \<Rightarrow> Inl Malformed_hunk_header
              | Some (oldStart, oldCount) \<Rightarrow>
                  (case hunk_body ls of
                     Inl err \<Rightarrow> Inl err
                   | Inr (body, rest) \<Rightarrow>
                       (case parse_lines True rest of
                          Inl err \<Rightarrow> Inl err
                        | Inr hunks \<Rightarrow>
                            Inr (\<lparr>ph_oldStart = oldStart, ph_oldCount = oldCount, ph_lines = body\<rparr> # hunks))))
      else Inl Unexpected_payload_line)"
  by pat_completeness auto
termination
  by (relation "measure (\<lambda>(_, ls). length ls)") (auto dest!: sym [of _ "hunk_body _"] sym [of "Inr _"] hunk_body_rest)

definition parsePatch :: "jsstr \<Rightarrow> patch_error + parsed_hunk list" where
  "parsePatch payload = parse_lines False (split_on 10 (if at_last payload = Some 10 then butlast payload else payload))"

section \<open>Applying\<close>

definition find_hunk :: "jsstr list \<Rightarrow> jsstr list \<Rightarrow> patch_error + nat" where
  "find_hunk ls pattern =
     (case filter (\<lambda>i. match_from (drop i ls) pattern) [0..<length ls + 1 - length pattern] of
        [] \<Rightarrow> Inl T1_mismatch
      | [i] \<Rightarrow> Inr i
      | _ \<Rightarrow> Inl T1_ambiguity)"

fun apply_parsed :: "jsstr list \<Rightarrow> int \<Rightarrow> parsed_hunk list \<Rightarrow> patch_error + jsstr list" where
  "apply_parsed ls carry [] = Inr ls"
| "apply_parsed ls carry (h # hs) =
     (let pattern = old_side (ph_lines h); replacement = new_side (ph_lines h) in
      if pattern = [] then
        (let realLines = length ls - (if at_last ls = Some [] then 1 else 0);
             at = nat (max 0 (min (int realLines) (int (ph_oldStart h) + carry)))
         in apply_parsed (take at ls @ replacement @ drop at ls) (carry + int (length replacement)) hs)
      else
        case find_hunk ls pattern of
          Inl err \<Rightarrow> Inl err
        | Inr found \<Rightarrow>
            apply_parsed (take found ls @ replacement @ drop (found + length pattern) ls)
              (carry + (int (length replacement) - int (length pattern))) hs)"

definition applyPatch :: "jsstr \<Rightarrow> jsstr \<Rightarrow> patch_error + jsstr" where
  "applyPatch content patchText =
     (let payload = extractPatchPayload patchText in
      if trim payload = [] then Inr content
      else case parsePatch payload of
             Inl err \<Rightarrow> Inl err
           | Inr [] \<Rightarrow> Inr content
           | Inr hunks \<Rightarrow> map_sum id (join_with 10) (apply_parsed (split_on 10 content) 0 hunks))"

definition createPatch :: "jsstr \<Rightarrow> jsstr \<Rightarrow> patch_error + jsstr" where
  "createPatch oldContent newContent =
     (if oldContent = newContent then Inr []
      else
        let ops = diffLines (split_on 10 oldContent) (split_on 10 newContent);
            patch = renderPatch ops (hunkRanges ops);
            widened = renderPatch ops [(0, length ops)]
        in if applyPatch oldContent patch = Inr newContent then Inr patch
           else if applyPatch oldContent widened = Inr newContent then Inr widened
           else Inl P4_failed)"

definition wrapPatchEventPayload :: "jsstr \<Rightarrow> jsstr" where
  "wrapPatchEventPayload diff =
     (let payload = (if diff = [] \<or> at_last diff = Some 10 then diff else diff @ [10]);
          longestRun = fold max (backtick_runs 0 payload) 0;
          fence = replicate (max 3 (longestRun + 1)) backtick
      in fence @ js ''diff'' @ [10] @ payload @ fence @ [10])"

section \<open>What is rendered is parsed\<close>

definition plain_ops :: "diff_op list \<Rightarrow> bool" where
  "plain_ops ops \<longleftrightarrow>
     (\<forall>p \<in> set ops. 10 \<notin> set (op_line p) \<and> (op_type p = Del \<longrightarrow> \<not> starts_with (op_line p) (js ''-- '')))"

definition span_hunk :: "diff_op list \<Rightarrow> nat \<times> nat \<Rightarrow> parsed_hunk" where
  "span_hunk ops span =
     (case span of (start, end) \<Rightarrow>
        let oldNo = line_numbers Ins 1 ops; oldCount = oldNo ! end - oldNo ! start
        in \<lparr>ph_oldStart = (if oldCount = 0 then oldNo ! start - 1 else oldNo ! start), ph_oldCount = oldCount,
            ph_lines = drop start (take end ops)\<rparr>)"

named_theorems units "the code units of the literals and characters the format uses"

lemma literal_units [units]:
  "js ''@@'' = [64, 64]" "js ''--- '' = [45, 45, 45, 32]" "js ''-- '' = [45, 45, 32]" "js ''='' = [61]"
  "js ''+++ '' = [43, 43, 43, 32]" "js ''diff --git '' = [100, 105, 102, 102, 32, 45, 45, 103, 105, 116, 32]"
  "js ''Index: '' = [73, 110, 100, 101, 120, 58, 32]" "js '','' = [44]" "js '' +'' = [32, 43]"
  "js '' @@'' = [32, 64, 64]" "js ''@@ -'' = [64, 64, 32, 45]" "space = 32" "backtick = 96"
  "cu CHR ''-'' = 45" "cu CHR ''+'' = 43" "cu CHR 0x5C = 92" "cu CHR ''='' = 61"
  "js ''--- a/content'' = [45, 45, 45, 32, 97, 47, 99, 111, 110, 116, 101, 110, 116]"
  "js ''+++ b/content'' = [43, 43, 43, 32, 98, 47, 99, 111, 110, 116, 101, 110, 116]"
  "js ''a/content'' = [97, 47, 99, 111, 110, 116, 101, 110, 116]"
  "js ''b/content'' = [98, 47, 99, 111, 110, 116, 101, 110, 116]"
  by (simp_all add: js_def cu_def space_def backtick_def)

lemma starts_with_simps [simp]:
  "starts_with s []" "\<not> starts_with [] (c # p)" "starts_with (d # s) (c # p) \<longleftrightarrow> d = c \<and> starts_with s p"
  by (auto simp: starts_with_def)

lemma render_op_simps:
  "render_op p \<noteq> []" "\<not> starts_with (render_op p) (js ''@@'')" "\<not> starts_with (render_op p) (js ''diff --git '')"
  "starts_with (render_op p) (js ''--- '') \<longleftrightarrow> op_type p = Del \<and> starts_with (op_line p) (js ''-- '')"
  by (cases "op_type p"; simp add: render_op_def units)+

lemma hunk_body_render:
  assumes "plain_ops ops" "rest = [] \<or> starts_with (hd rest) (js ''@@'')"
  shows "hunk_body (map render_op ops @ rest) = Inr (ops, rest)"
  using assms(1)
proof (induction ops)
  case Nil
  then show ?case
    using assms(2) by (cases rest) simp_all
next
  case (Cons p ops)
  obtain t l where p: "p = mk_op t l"
    by (cases p) simp
  have "plain_ops ops" "\<not> (t = Del \<and> starts_with l (js ''-- ''))"
    using Cons.prems by (auto simp: plain_ops_def p)
  then show ?case
    using Cons.IH by (cases t) (simp_all add: p render_op_def units)
qed

lemma digits_take: "\<not> is_digit c \<Longrightarrow> takeWhile is_digit (nat_digits n @ c # r) = nat_digits n"
  "\<not> is_digit c \<Longrightarrow> dropWhile is_digit (nat_digits n @ c # r) = c # r"
  using nat_digits_spec [of n] by (auto simp: list_all_iff takeWhile_append dropWhile_append)

lemma read_number_digits: "\<not> is_digit c \<Longrightarrow> read_number (nat_digits n @ c # r) = Some (n, c # r)"
  using nat_digits_spec [of n] by (simp add: read_number_def digits_take)

lemma read_hunk_header_render: "read_hunk_header (hunk_header a b c d) = Some (a, b)"
proof -
  have n: "\<not> is_digit 44" "\<not> is_digit 32"
    by (simp_all add: is_digit_def)
  show ?thesis
    by (simp add: read_hunk_header_def hunk_header_def read_literal_def read_count_def units read_number_digits n)
qed

lemma render_hunk_Cons:
  "\<exists>a b c d. render_hunk ops span = hunk_header a b c d # map render_op (ph_lines (span_hunk ops span))
     \<and> a = ph_oldStart (span_hunk ops span) \<and> b = ph_oldCount (span_hunk ops span)"
  by (cases span) (simp only: render_hunk_def span_hunk_def Let_def prod.case parsed_hunk.simps, blast)

lemma header_shape:
  "starts_with (hunk_header a b c d) (js ''@@'')" "\<not> starts_with (hunk_header a b c d) (js ''--- '')"
  "\<not> skipped_line (hunk_header a b c d)" "10 \<notin> set (hunk_header a b c d)"
proof -
  have "list_all is_digit (nat_digits n)" for n
    using nat_digits_spec by blast
  then have "10 \<notin> set (nat_digits n)" for n
    by (force simp: list_all_iff is_digit_def)
  then show "10 \<notin> set (hunk_header a b c d)"
    by (simp add: hunk_header_def units)
  have "trim (64 # s) \<noteq> []" for s
    by (auto simp: trim_def trim_start_def is_space_def is_line_terminator_def dropWhile_eq_Nil_conv)
  then show "\<not> skipped_line (hunk_header a b c d)"
    by (simp add: skipped_line_def hunk_header_def units)
qed (simp_all add: hunk_header_def units)

lemma plain_span: "plain_ops ops \<Longrightarrow> plain_ops (ph_lines (span_hunk ops span))"
  by (cases span) (auto simp: plain_ops_def span_hunk_def Let_def dest: in_set_dropD in_set_takeD)

lemma parse_lines_render:
  "plain_ops ops \<Longrightarrow> parse_lines True (concat (map (render_hunk ops) spans)) = Inr (map (span_hunk ops) spans)"
proof (induction spans)
  case (Cons span spans)
  let ?h = "span_hunk ops span" and ?rest = "concat (map (render_hunk ops) spans)"
  obtain a b c d where r: "render_hunk ops span = hunk_header a b c d # map render_op (ph_lines ?h)"
    and ab: "a = ph_oldStart ?h" "b = ph_oldCount ?h"
    using render_hunk_Cons by blast
  have "?rest = [] \<or> starts_with (hd ?rest) (js ''@@'')"
  proof (cases spans)
    case (Cons s ss)
    then show ?thesis
      using render_hunk_Cons [of ops s] header_shape(1) by auto
  qed simp
  then have "hunk_body (map render_op (ph_lines ?h) @ ?rest) = Inr (ph_lines ?h, ?rest)"
    by (rule hunk_body_render [OF plain_span [OF Cons.prems]])
  then have "parse_lines True (hunk_header a b c d # map render_op (ph_lines ?h) @ ?rest)
      = Inr (\<lparr>ph_oldStart = a, ph_oldCount = b, ph_lines = ph_lines ?h\<rparr> # map (span_hunk ops) spans)"
    using Cons.IH [OF Cons.prems]
    by (simp only: parse_lines.simps header_shape read_hunk_header_render if_True if_False sum.case option.case
        prod.case simp_thms)
  then show ?case
    by (simp add: r ab)
qed simp

lemma payload_headers:
  "skipped_line (js ''--- a/content'') = False" "path_token (js ''--- a/content'') = js ''a/content''"
  "path_token (js ''+++ b/content'') = js ''b/content''"
  by (simp_all add: skipped_line_def path_token_def units trim_def trim_start_def is_space_def is_line_terminator_def)

lemma rendered_lines:
  assumes "plain_ops ops"
  shows "split_on 10 (butlast (renderPatch ops spans)) =
      [js ''--- a/content'', js ''+++ b/content''] @ concat (map (render_hunk ops) spans)"
    and "split_on 10 (renderPatch ops spans) =
      [js ''--- a/content'', js ''+++ b/content''] @ concat (map (render_hunk ops) spans) @ [[]]"
proof -
  let ?ls = "[js ''--- a/content'', js ''+++ b/content''] @ concat (map (render_hunk ops) spans)"
  have "10 \<notin> set (render_op p)" if "p \<in> set ops" for p
    using assms that by (cases "op_type p") (auto simp: plain_ops_def render_op_def units)
  then have "\<forall>l \<in> set (render_hunk ops span). 10 \<notin> set l" for span
    by (cases span) (auto simp: render_hunk_def Let_def header_shape dest!: in_set_dropD in_set_takeD)
  then have free: "\<forall>l \<in> set ?ls. 10 \<notin> set l"
    by (auto simp: units)
  then have "split_on 10 (join_with 10 ?ls) = ?ls"
    by (intro split_join) simp_all
  moreover have "renderPatch ops spans = join_with 10 ?ls @ [10]"
    by (simp only: renderPatch_def)
  moreover have "split_on 10 (join_with 10 ?ls @ [10]) = split_on 10 (join_with 10 ?ls) @ [[]]"
    using split_on_append [of 10 "join_with 10 ?ls" "[]"] by (simp only: split_on.simps)
  ultimately show "split_on 10 (butlast (renderPatch ops spans)) = ?ls"
    "split_on 10 (renderPatch ops spans) =
      [js ''--- a/content'', js ''+++ b/content''] @ concat (map (render_hunk ops) spans) @ [[]]"
    by (simp_all only: butlast_snoc append_assoc)
qed

lemma render_parse:
  assumes "plain_ops ops"
  shows "parsePatch (renderPatch ops spans) = Inr (map (span_hunk ops) spans)"
proof -
  have "at_last (renderPatch ops spans) = Some 10"
    by (simp add: renderPatch_def at_last_def)
  then have "parsePatch (renderPatch ops spans) =
      parse_lines False (js ''--- a/content'' # js ''+++ b/content'' # concat (map (render_hunk ops) spans))"
    by (simp add: parsePatch_def rendered_lines [OF assms])
  also have "\<dots> = parse_lines True (concat (map (render_hunk ops) spans))"
    using payload_headers by (subst parse_lines.simps) (simp add: units)
  finally show ?thesis
    by (simp add: parse_lines_render [OF assms])
qed

text \<open>
  C34. Parsing undoes rendering: the payload rendered from an edit script and any spans of it parses to one hunk per
  span, with the start and count of the old side and the script's own operations in it (the numbers of the new side
  are not kept), when no line of the script holds a line feed and no deleted line starts with two dashes and a
  space. Nothing is said of rendering what was parsed.
\<close>

theorem render_parse_roundtrip:
  assumes "plain_ops ops"
  shows "parsePatch (renderPatch ops spans) = Inr (map (span_hunk ops) spans)"
  using assms by (rule render_parse)

section \<open>A patch is found in its own text\<close>

definition clean_ops :: "diff_op list \<Rightarrow> bool" where
  "clean_ops ops \<longleftrightarrow>
     (\<forall>p \<in> set ops. (\<forall>c \<in> set (op_line p). \<not> is_line_terminator c)
        \<and> (op_type p = Del \<longrightarrow> \<not> starts_with (op_line p) (js ''-- '')))"

lemma clean_plain: "clean_ops ops \<Longrightarrow> plain_ops ops"
  by (auto simp: clean_ops_def plain_ops_def is_line_terminator_def)

lemma starts_with_line: "10 \<notin> set p \<Longrightarrow> starts_with (l @ 10 # r) p \<longleftrightarrow> starts_with l p"
proof (induction p arbitrary: l)
  case (Cons c p)
  then show ?case
    by (cases l) auto
qed simp

lemma header_start_line: "header_start (l @ 10 # r) \<longleftrightarrow> header_start l"
  by (simp add: header_start_def units starts_with_line)

lemma hasHeaders_inside:
  "\<forall>c \<in> set l. \<not> is_line_terminator c \<Longrightarrow> hasHeaders False (l @ 10 # r) \<longleftrightarrow> hasHeaders True r"
  by (induction l) (auto simp: is_line_terminator_def)

lemma hasHeaders_line:
  "\<forall>c \<in> set l. \<not> is_line_terminator c \<Longrightarrow>
   hasHeaders True (l @ 10 # r) \<longleftrightarrow> header_start l \<or> hasHeaders True r"
proof (cases l)
  case Nil
  have "\<not> header_start (10 # r)" "\<not> header_start []"
    by (simp_all add: header_start_def units)
  then show ?thesis
    by (simp add: Nil is_line_terminator_def)
next
  case (Cons c m)
  assume clean: "\<forall>c \<in> set l. \<not> is_line_terminator c"
  then show ?thesis
    using header_start_line [of l r] hasHeaders_inside [of m r] by (simp add: Cons)
qed

lemma lines_text_headers:
  "\<forall>l \<in> set ls. \<not> header_start l \<and> (\<forall>c \<in> set l. \<not> is_line_terminator c) \<Longrightarrow> \<not> hasHeaders True (lines_text ls)"
  by (induction ls) (simp_all add: lines_text_def hasHeaders_line)

lemma fenced_body_lines: "fenced_body n ls = Some body \<Longrightarrow> set body \<subseteq> set ls"
  by (induction ls arbitrary: body) (auto split: if_splits)

lemma first_fenced_lines: "first_fenced ls = Some f \<Longrightarrow> \<exists>body. f = lines_text body \<and> set body \<subseteq> set ls"
proof (induction ls)
  case (Cons l ls)
  show ?case
  proof (cases "backtick_fence l")
    case None
    with Cons show ?thesis by auto
  next
    case (Some w)
    obtain n info where o: "w = (n, info)" by (cases w)
    show ?thesis
    proof (cases "isPayloadInfo info \<and> fenced_body n ls = None")
      case True
      then show ?thesis
        using Cons.prems Some o
        by (intro exI [of _ "if at_last ls = Some [] then butlast ls else ls"]) (auto dest: in_set_butlastD)
    next
      case False
      then show ?thesis
        using Cons Some o fenced_body_lines [of n ls] by (auto split: if_splits)
    qed
  qed
qed simp

lemma render_hunk_lines:
  assumes "clean_ops ops" "l \<in> set (render_hunk ops span)"
  shows "\<not> header_start l \<and> (\<forall>c \<in> set l. \<not> is_line_terminator c)"
proof -
  obtain a b c d where r: "render_hunk ops span = hunk_header a b c d # map render_op (ph_lines (span_hunk ops span))"
    using render_hunk_Cons by blast
  consider "l = hunk_header a b c d" | p where "p \<in> set ops" "l = render_op p"
    using assms(2) r by (cases span) (auto simp: span_hunk_def Let_def dest!: in_set_dropD in_set_takeD)
  then show ?thesis
  proof cases
    case 1
    have "list_all is_digit (nat_digits n)" for n
      using nat_digits_spec by blast
    then have "\<not> is_line_terminator u" if "u \<in> set (nat_digits n)" for u n
      using that by (fastforce simp: list_all_iff is_digit_def is_line_terminator_def)
    then show ?thesis
      unfolding 1 by (auto simp: hunk_header_def header_start_def units is_line_terminator_def)
  next
    case 2
    then have "\<not> header_start l"
      using assms(1) by (auto simp: header_start_def clean_ops_def render_op_simps) (cases "op_type p"; simp add: render_op_def units)
    moreover have "\<not> is_line_terminator (op_marker t)" for t
      by (cases t) (simp_all add: units is_line_terminator_def)
    ultimately show ?thesis
      using 2 assms(1) by (auto simp: clean_ops_def render_op_def)
  qed
qed

lemma rendered_start: "\<exists>r. renderPatch ops spans = 45 # 45 # 45 # 32 # r"
  by (simp add: renderPatch_def units)

lemma extract_rendered:
  assumes "clean_ops ops"
  shows "extractPatchPayload (renderPatch ops spans) = renderPatch ops spans"
proof -
  let ?p = "renderPatch ops spans" and ?ls = "concat (map (render_hunk ops) spans) @ [[]]"
  obtain r where r: "?p = 45 # 45 # 45 # 32 # r"
    using rendered_start by blast
  have headed: "hasHeaders True ?p"
    unfolding r by (simp add: header_start_def units)
  have no: "backtick_fence (js ''--- a/content'') = None" "backtick_fence (js ''+++ b/content'') = None"
    by (simp_all add: backtick_fence_def skip_indent_def units)
  have "findFirstFencedBlock ?p = first_fenced ?ls"
    by (simp add: findFirstFencedBlock_def rendered_lines [OF clean_plain [OF assms]] no)
  moreover have "\<not> hasHeaders True f" if f: "first_fenced ?ls = Some f" for f
  proof -
    obtain body where body: "f = lines_text body" "set body \<subseteq> set ?ls"
      using first_fenced_lines [OF f] by blast
    have "\<not> header_start l \<and> (\<forall>c \<in> set l. \<not> is_line_terminator c)" if "l \<in> set ?ls" for l
      using that render_hunk_lines [OF assms] by (auto simp: header_start_def units)
    then show ?thesis
      unfolding body(1) using body(2) by (intro lines_text_headers) blast
  qed
  ultimately show ?thesis
    using headed by (simp add: extractPatchPayload_def split: option.splits)
qed

section \<open>The spans of the hunks\<close>

text \<open>Groups of changes are apart by more than twice the context, so their padded spans do not meet.\<close>

definition apart :: "nat \<Rightarrow> nat \<times> nat \<Rightarrow> nat \<times> nat \<Rightarrow> bool" where
  "apart d g h \<longleftrightarrow> snd g + d \<le> fst h"

definition covered :: "(nat \<times> nat) list \<Rightarrow> nat \<Rightarrow> bool" where
  "covered gs i \<longleftrightarrow> (\<exists>g \<in> set gs. fst g \<le> i \<and> i < snd g)"

definition groups_ok :: "nat \<Rightarrow> nat \<Rightarrow> (nat \<times> nat) list \<Rightarrow> bool" where
  "groups_ok d n gs \<longleftrightarrow> sorted_wrt (apart d) gs \<and> (\<forall>g \<in> set gs. fst g < snd g \<and> snd g \<le> n)"

lemma merge_change_eq:
  "merge_change i (m, s, e) =
     (if i - e \<le> 2 * CONTEXT_LINES then (m, s, i + 1) else (m @ [(s, e)], i, i + 1))"
  by (simp add: merge_change_def)

lemma merge_changes:
  assumes "fold merge_change cs (merged, s, e) = (merged', s', e')"
    and "sorted_wrt (<) cs" "\<forall>c \<in> set cs. e \<le> c \<and> c < n" "groups_ok (2 * CONTEXT_LINES + 1) n (merged @ [(s, e)])"
  shows "groups_ok (2 * CONTEXT_LINES + 1) n (merged' @ [(s', e')])
    \<and> (\<forall>i. covered (merged @ [(s, e)]) i \<or> i \<in> set cs \<longrightarrow> covered (merged' @ [(s', e')]) i)"
  using assms
proof (induction cs arbitrary: merged s e)
  case (Cons c cs)
  have se: "s < e" "e \<le> c" "c < n"
    using Cons.prems(3,4) by (auto simp: groups_ok_def)
  have later: "\<forall>x \<in> set cs. c + 1 \<le> x \<and> x < n" "sorted_wrt (<) cs"
    using Cons.prems(2,3) by auto
  show ?case
  proof (cases "c - e \<le> 2 * CONTEXT_LINES")
    case True
    then have f: "fold merge_change cs (merged, s, c + 1) = (merged', s', e')"
      using Cons.prems(1) by (simp add: merge_change_eq)
    have "groups_ok (2 * CONTEXT_LINES + 1) n (merged @ [(s, c + 1)])"
      using Cons.prems(4) se by (auto simp: groups_ok_def sorted_wrt_append apart_def)
    note IH = Cons.IH [OF f later(2,1) this]
    have "covered (merged @ [(s, c + 1)]) i" if "covered (merged @ [(s, e)]) i \<or> i = c" for i
      using that se by (auto simp: covered_def)
    with IH show ?thesis
      by auto
  next
    case False
    then have f: "fold merge_change cs (merged @ [(s, e)], c, c + 1) = (merged', s', e')"
      using Cons.prems(1) by (simp add: merge_change_eq)
    have "groups_ok (2 * CONTEXT_LINES + 1) n ((merged @ [(s, e)]) @ [(c, c + 1)])"
      using Cons.prems(4) se False by (fastforce simp: groups_ok_def sorted_wrt_append apart_def)
    note IH = Cons.IH [OF f later(2,1) this]
    have "covered ((merged @ [(s, e)]) @ [(c, c + 1)]) i" if "covered (merged @ [(s, e)]) i \<or> i = c" for i
      using that by (auto simp: covered_def)
    with IH show ?thesis
      by auto
  qed
qed simp

text \<open>
  (P1) The spans of the hunks lie inside the script, are non-empty, in order and disjoint, and every change
  of the script lies in one of them.
\<close>

theorem hunkRanges_cover:
  "groups_ok 1 (length ops) (hunkRanges ops)
   \<and> {i. i < length ops \<and> op_type (ops ! i) \<noteq> Equal} \<subseteq> {i. covered (hunkRanges ops) i}"
proof (cases "changed_indices ops")
  case Nil
  then have "op_type (ops ! i) = Equal" if "i < length ops" for i
    using that by (auto simp: changed_indices_def filter_empty_conv)
  then show ?thesis
    using Nil by (auto simp: hunkRanges_def groups_ok_def)
next
  case (Cons c cs)
  let ?pad = "\<lambda>(s, e). (s - CONTEXT_LINES, min (length ops) (e + CONTEXT_LINES))"
  obtain m s e where f: "fold merge_change cs ([], c, c + 1) = (m, s, e)"
    by (cases "fold merge_change cs ([], c, c + 1)")
  have h: "hunkRanges ops = map ?pad (m @ [(s, e)])"
    by (simp only: hunkRanges_def Cons list.case f prod.case)
  have ch: "i \<in> set (c # cs) \<longleftrightarrow> i < length ops \<and> op_type (ops ! i) \<noteq> Equal" for i
    unfolding Cons [symmetric] by (auto simp: changed_indices_def)
  have "sorted_wrt (<) (changed_indices ops)"
    unfolding changed_indices_def by (rule sorted_wrt_filter) (rule sorted_wrt_upt)
  then have so: "sorted_wrt (<) cs" "\<forall>x \<in> set cs. c + 1 \<le> x \<and> x < length ops" "c < length ops"
    using ch by (auto simp: Cons)
  have "groups_ok (2 * CONTEXT_LINES + 1) (length ops) ([] @ [(c, c + 1)])"
    using so(3) by (simp add: groups_ok_def)
  note g = merge_changes [OF f so(1,2) this]
  have pads: "apart 1 (?pad x) (?pad y)" if "apart (2 * CONTEXT_LINES + 1) x y" for x y
    using that by (cases x; cases y) (simp add: apart_def)
  have "sorted_wrt (\<lambda>x y. apart 1 (?pad x) (?pad y)) (m @ [(s, e)])"
    by (rule sorted_wrt_mono_rel [of _ "apart (2 * CONTEXT_LINES + 1)"])
      (use g pads in \<open>simp_all only: groups_ok_def\<close>)
  then have "sorted_wrt (apart 1) (hunkRanges ops)"
    by (simp only: h sorted_wrt_map)
  moreover have "\<forall>x \<in> set (hunkRanges ops). fst x < snd x \<and> snd x \<le> length ops"
  proof
    fix x assume "x \<in> set (hunkRanges ops)"
    then obtain y where y: "y \<in> set (m @ [(s, e)])" "x = ?pad y"
      unfolding h by (auto simp only: set_map image_iff)
    then have "fst y < snd y \<and> snd y \<le> length ops"
      using g unfolding groups_ok_def by blast
    then show "fst x < snd x \<and> snd x \<le> length ops"
      by (cases y) (simp add: y(2) CONTEXT_LINES_def less_imp_diff_less trans_less_add1)
  qed
  moreover have "covered (hunkRanges ops) i" if "covered (m @ [(s, e)]) i" "i < length ops" for i
  proof -
    obtain a b where ab: "(a, b) \<in> set (m @ [(s, e)])" "a \<le> i" "i < b"
      using \<open>covered (m @ [(s, e)]) i\<close> unfolding covered_def by (metis prod.collapse)
    from imageI [OF ab(1), of ?pad] have "?pad (a, b) \<in> set (hunkRanges ops)"
      by (simp only: h set_map)
    then show ?thesis
      unfolding covered_def by (rule rev_bexI) (use ab(2,3) \<open>i < length ops\<close> in simp)
  qed
  moreover have "covered ([] @ [(c, c + 1)]) i \<or> i \<in> set cs" if "i \<in> set (c # cs)" for i
    using that by (auto simp: covered_def)
  ultimately show ?thesis
    using g ch unfolding groups_ok_def by blast
qed

section \<open>Producing a patch\<close>

lemma trim_Nil: "trim s = [] \<longleftrightarrow> (\<forall>c \<in> set s. is_space c)"
proof -
  have "(\<forall>c \<in> set (dropWhile is_space s). is_space c) \<longleftrightarrow> (\<forall>c \<in> set s. is_space c)"
    by (induction s) auto
  then show ?thesis
    by (simp add: trim_def trim_start_def dropWhile_eq_Nil_conv)
qed

lemma find_whole: "ls \<noteq> [] \<Longrightarrow> find_hunk ls ls = Inr 0"
  by (simp add: find_hunk_def match_from_iff)

lemma line_numbers_start: "line_numbers t n ops ! 0 = n"
  by (cases ops) simp_all

lemma widened_applies:
  assumes "clean_ops ops" "old_side ops = split_on 10 old" "new_side ops = split_on 10 new"
  shows "applyPatch old (renderPatch ops [(0, length ops)]) = Inr new"
proof -
  let ?p = "renderPatch ops [(0, length ops)]"
  obtain r where r: "?p = 45 # r"
    using rendered_start by blast
  have "trim ?p \<noteq> []"
    unfolding r by (simp add: trim_Nil is_space_def is_line_terminator_def)
  moreover have "ph_lines (span_hunk ops (0, length ops)) = ops"
    by (simp add: span_hunk_def Let_def)
  ultimately show ?thesis
    using assms(2,3) by (simp add: applyPatch_def extract_rendered [OF assms(1)] Let_def
        render_parse [OF clean_plain [OF assms(1)]] find_whole)
qed

text \<open>Every operation of a script carries a line of one of the two texts; a deletion, one of the old.\<close>

lemma op_line_side: "p \<in> set ops \<Longrightarrow> op_line p \<in> set (old_side ops) \<or> op_type p = Ins \<and> op_line p \<in> set (new_side ops)"
  by (cases "op_type p") (auto simp: old_side_def new_side_def)

definition plain_text :: "jsstr \<Rightarrow> bool" where
  "plain_text s \<longleftrightarrow> (\<forall>c \<in> set s. is_line_terminator c \<longrightarrow> c = 10)"

definition no_dash_line :: "jsstr \<Rightarrow> bool" where
  "no_dash_line s \<longleftrightarrow> (\<forall>l \<in> set (split_on 10 s). \<not> starts_with l (js ''-- ''))"

lemma plain_line: "plain_text s \<Longrightarrow> l \<in> set (split_on 10 s) \<Longrightarrow> \<forall>c \<in> set l. \<not> is_line_terminator c"
  using split_line [of l 10 s] split_on_parts [of l 10 s] by (auto simp: plain_text_def)

lemma diff_clean:
  assumes "plain_text old" "plain_text new" "no_dash_line old"
  shows "clean_ops (diffLines (split_on 10 old) (split_on 10 new))"
  unfolding clean_ops_def
proof
  fix p
  assume "p \<in> set (diffLines (split_on 10 old) (split_on 10 new))"
  from op_line_side [OF this]
  have "op_line p \<in> set (split_on 10 old) \<or> op_type p = Ins \<and> op_line p \<in> set (split_on 10 new)"
    by (simp add: diffLines_sides)
  then show "(\<forall>c \<in> set (op_line p). \<not> is_line_terminator c)
      \<and> (op_type p = Del \<longrightarrow> \<not> starts_with (op_line p) (js ''-- ''))"
    using assms plain_line unfolding no_dash_line_def by (elim disjE) auto
qed

lemma createPatch_sound: "createPatch old new = Inr p \<Longrightarrow> applyPatch old p = Inr new"
  by (auto simp: createPatch_def Let_def applyPatch_def extractPatchPayload_def findFirstFencedBlock_def
      backtick_fence_def skip_indent_def trim_Nil split: if_splits)

lemma rendered_nonempty: "renderPatch ops spans \<noteq> []"
  by (simp add: renderPatch_def)

lemma createPatch_nonempty: "createPatch old new = Inr p \<Longrightarrow> p = [] \<longleftrightarrow> old = new"
  using rendered_nonempty by (auto simp: createPatch_def Let_def split: if_splits)

lemma createPatch_returns:
  assumes "plain_text old" "plain_text new" "no_dash_line old"
  shows "\<exists>p. createPatch old new = Inr p"
proof -
  have "applyPatch old (renderPatch (diffLines (split_on 10 old) (split_on 10 new))
      [(0, length (diffLines (split_on 10 old) (split_on 10 new)))]) = Inr new"
    by (rule widened_applies [OF diff_clean [OF assms]]) (rule diffLines_sides)+
  then show ?thesis
    by (simp add: createPatch_def Let_def)
qed

text \<open>
  C27. (P4) The producer is total and its patches work: for contents whose only line terminators are
  line feeds, the old one without a line that starts with two dashes and a space, \<open>createPatch\<close>
  returns, and applying what it returns to the old content gives the new one. The patch is
  empty exactly when the two are equal.
\<close>

theorem createPatch_total:
  assumes "plain_text old" "plain_text new" "no_dash_line old"
  shows "\<exists>p. createPatch old new = Inr p \<and> applyPatch old p = Inr new \<and> (p = [] \<longleftrightarrow> old = new)"
  using createPatch_returns [OF assms] createPatch_sound createPatch_nonempty by blast

text \<open>A deleted line that is rendered as a line the parser takes for a file header.\<close>

definition dashed :: "diff_op \<Rightarrow> bool" where
  "dashed p \<longleftrightarrow> op_type p = Del \<and> starts_with (op_line p) (js ''-- '')"

text \<open>What follows the dashes is not the one path the parser accepts.\<close>

definition other_path :: "diff_op \<Rightarrow> bool" where
  "other_path p \<longleftrightarrow> takeWhile (\<lambda>c. \<not> is_space c) (trim (drop 3 (op_line p))) \<noteq> js ''a/content''"

lemma dashed_line:
  assumes "dashed p" "other_path p"
  shows "parse_lines saw (render_op p # ls) = Inl C1_violation"
proof -
  obtain r where r: "op_line p = 45 # 45 # 32 # r" "op_type p = Del"
    using assms(1) by (auto simp: dashed_def units starts_with_iff)
  have l: "render_op p = 45 # 45 # 45 # 32 # r"
    by (simp add: render_op_def r units)
  have "\<not> skipped_line (render_op p)"
    by (simp add: l skipped_line_def units trim_Nil is_space_def is_line_terminator_def)
  moreover have "path_token (render_op p) \<noteq> js ''a/content''"
    using assms(2) by (simp add: other_path_def path_token_def l r)
  moreover have "starts_with (render_op p) (js ''--- '')"
    by (simp add: l units)
  ultimately show ?thesis
    by (simp only: parse_lines.simps if_False if_True simp_thms)
qed

lemma hunk_body_stops:
  assumes "\<forall>p \<in> set ops. \<not> dashed p" "rest = [] \<or> starts_with (hd rest) (js ''@@'') \<or> starts_with (hd rest) (js ''--- '')"
  shows "hunk_body (map render_op ops @ rest) = Inr (ops, rest)"
  using assms(1)
proof (induction ops)
  case Nil
  then show ?case
    using assms(2) by (cases rest) auto
next
  case (Cons p ops)
  obtain t l where p: "p = mk_op t l"
    by (cases p) simp
  have "\<not> (t = Del \<and> starts_with l (js ''-- ''))"
    using Cons.prems by (auto simp: dashed_def p)
  then show ?case
    using Cons.IH Cons.prems by (cases t) (simp_all add: p render_op_def units)
qed

text \<open>A hunk with such a line in it is cut short, and the parser stops at the line.\<close>

lemma dashed_hunks:
  assumes "\<forall>p \<in> set ops. dashed p \<longrightarrow> other_path p"
    and "\<exists>span \<in> set spans. \<exists>p \<in> set (ph_lines (span_hunk ops span)). dashed p"
  shows "parse_lines True (concat (map (render_hunk ops) spans)) = Inl C1_violation"
  using assms(2)
proof (induction spans)
  case (Cons span spans)
  let ?h = "ph_lines (span_hunk ops span)" and ?rest = "concat (map (render_hunk ops) spans)"
  obtain a b c d where r: "render_hunk ops span = hunk_header a b c d # map render_op ?h"
    using render_hunk_Cons by blast
  have sub: "set ?h \<subseteq> set ops"
    by (cases span) (auto simp: span_hunk_def Let_def dest!: in_set_dropD in_set_takeD)
  have parsed: "parse_lines True (hunk_header a b c d # ls) =
      (case hunk_body ls of Inl err \<Rightarrow> Inl err
       | Inr (body, rest) \<Rightarrow> (case parse_lines True rest of Inl err \<Rightarrow> Inl err
           | Inr hunks \<Rightarrow> Inr (\<lparr>ph_oldStart = a, ph_oldCount = b, ph_lines = body\<rparr> # hunks)))" for ls
    by (simp only: parse_lines.simps header_shape read_hunk_header_render if_True if_False option.case prod.case simp_thms)
  show ?case
  proof (cases "\<exists>p \<in> set ?h. dashed p")
    case True
    obtain pre p post where split: "?h = pre @ p # post" "dashed p" "\<forall>q \<in> set pre. \<not> dashed q"
      using split_list_first_prop [OF True] by blast
    have "hunk_body (map render_op pre @ render_op p # map render_op post @ ?rest) = Inr (pre, render_op p # map render_op post @ ?rest)"
      using split(2) by (intro hunk_body_stops [OF split(3)]) (simp add: dashed_def render_op_simps)
    moreover have "parse_lines True (render_op p # map render_op post @ ?rest) = Inl C1_violation"
      by (rule dashed_line [OF split(2)]) (use assms(1) sub split(1,2) in auto)
    ultimately show ?thesis
      by (simp add: r split(1) parsed del: parse_lines.simps)
  next
    case False
    have "?rest = [] \<or> starts_with (hd ?rest) (js ''@@'') \<or> starts_with (hd ?rest) (js ''--- '')"
    proof (cases spans)
      case (Cons s ss)
      then show ?thesis
        using render_hunk_Cons [of ops s] header_shape(1) by auto
    qed simp
    then have "hunk_body (map render_op ?h @ ?rest) = Inr (?h, ?rest)"
      using False by (intro hunk_body_stops) auto
    moreover have "parse_lines True ?rest = Inl C1_violation"
      using Cons False by auto
    ultimately show ?thesis
      by (simp add: r parsed del: parse_lines.simps)
  qed
qed simp

text \<open>The lines of a rendered patch, and what starts a header among them.\<close>

definition line_ops :: "diff_op list \<Rightarrow> bool" where
  "line_ops ops \<longleftrightarrow> (\<forall>p \<in> set ops. \<forall>c \<in> set (op_line p). \<not> is_line_terminator c)"

lemma render_hunk_free:
  assumes "line_ops ops" "l \<in> set (render_hunk ops span)"
  shows "(\<forall>c \<in> set l. \<not> is_line_terminator c)
    \<and> ((\<exists>a b c d. l = hunk_header a b c d) \<or> (\<exists>p \<in> set ops. l = render_op p))"
proof -
  obtain a b c d where r: "render_hunk ops span = hunk_header a b c d # map render_op (ph_lines (span_hunk ops span))"
    using render_hunk_Cons by blast
  consider "l = hunk_header a b c d" | p where "p \<in> set ops" "l = render_op p"
    using assms(2) r by (cases span) (auto simp: span_hunk_def Let_def dest!: in_set_dropD in_set_takeD)
  then show ?thesis
  proof cases
    case 1
    have "list_all is_digit (nat_digits n)" for n
      using nat_digits_spec by blast
    then have "\<not> is_line_terminator u" if "u \<in> set (nat_digits n)" for u n
      using that by (fastforce simp: list_all_iff is_digit_def is_line_terminator_def)
    then have "\<forall>c \<in> set l. \<not> is_line_terminator c"
      unfolding 1 by (auto simp: hunk_header_def units is_line_terminator_def)
    then show ?thesis
      using 1 by blast
  next
    case 2
    have "\<not> is_line_terminator (op_marker t)" for t
      by (cases t) (simp_all add: units is_line_terminator_def)
    then show ?thesis
      using 2 assms(1) by (auto simp: line_ops_def render_op_def)
  qed
qed

lemma rendered_split:
  assumes "line_ops ops"
  shows "split_on 10 (butlast (renderPatch ops spans)) =
      [js ''--- a/content'', js ''+++ b/content''] @ concat (map (render_hunk ops) spans)"
    and "split_on 10 (renderPatch ops spans) =
      [js ''--- a/content'', js ''+++ b/content''] @ concat (map (render_hunk ops) spans) @ [[]]"
proof -
  let ?ls = "[js ''--- a/content'', js ''+++ b/content''] @ concat (map (render_hunk ops) spans)"
  have "10 \<notin> set l" if "l \<in> set (render_hunk ops span)" for l span
    using render_hunk_free [OF assms that] by (auto simp: is_line_terminator_def)
  then have "\<forall>l \<in> set ?ls. 10 \<notin> set l"
    by (auto simp: units)
  then have "split_on 10 (join_with 10 ?ls) = ?ls"
    by (intro split_join) simp_all
  moreover have "renderPatch ops spans = join_with 10 ?ls @ [10]"
    by (simp only: renderPatch_def)
  moreover have "split_on 10 (join_with 10 ?ls @ [10]) = split_on 10 (join_with 10 ?ls) @ [[]]"
    using split_on_append [of 10 "join_with 10 ?ls" "[]"] by (simp only: split_on.simps)
  ultimately show "split_on 10 (butlast (renderPatch ops spans)) = ?ls"
    "split_on 10 (renderPatch ops spans) =
      [js ''--- a/content'', js ''+++ b/content''] @ concat (map (render_hunk ops) spans) @ [[]]"
    by (simp_all only: butlast_snoc append_assoc)
qed

text \<open>A block that starts inside the hunks does not parse either once it has a header line.\<close>

lemma inner_lines:
  assumes "\<forall>l \<in> set ls. l = [] \<or> (\<exists>a b c d. l = hunk_header a b c d) \<or> (\<exists>p. l = render_op p \<and> (dashed p \<longrightarrow> other_path p))"
    and "\<exists>l \<in> set ls. header_start l"
  shows "\<exists>err. parse_lines False ls = Inl err"
  using assms
proof (induction ls)
  case (Cons l ls)
  have no: "\<not> header_start (hunk_header a b c d)" "\<not> header_start []" for a b c d
    by (simp_all add: header_start_def hunk_header_def units)
  show ?case
  proof (cases "skipped_line l")
    case True
    have "\<not> header_start l"
    proof
      assume "header_start l"
      then obtain p where p: "l = render_op p" "header_start (render_op p)"
        using Cons.prems(1) no by auto
      then have "op_type p = Del \<and> starts_with (op_line p) (js ''-- '')"
        by (cases "op_type p") (simp_all add: header_start_def render_op_def units)
      then show False
        using True by (auto simp: p(1) skipped_line_def render_op_def units trim_Nil is_space_def is_line_terminator_def)
    qed
    then show ?thesis
      using Cons True by simp
  next
    case False
    consider a b c d where "l = hunk_header a b c d" | p where "l = render_op p" "dashed p \<longrightarrow> other_path p" | "l = []"
      using Cons.prems(1) by auto
    then show ?thesis
    proof cases
      case 1
      then show ?thesis
        using False header_shape(1,2) by simp
    next
      case 2
      show ?thesis
      proof (cases "dashed p")
        case True
        then show ?thesis
          using dashed_line [of p False ls] 2 by (simp del: parse_lines.simps)
      next
        case plain: False
        then show ?thesis
          using False 2(1) render_op_simps [of p] by (auto simp: dashed_def)
      qed
    next
      case 3
      then show ?thesis
        using False by (simp add: skipped_line_def trim_Nil)
    qed
  qed
qed simp

lemma lines_text_split:
  assumes "ls \<noteq> []" "\<forall>l \<in> set ls. 10 \<notin> set l"
  shows "at_last (lines_text ls) = Some 10" "split_on 10 (butlast (lines_text ls)) = ls"
proof -
  have content: "lines_text ls = join_with 10 ls @ [10]"
    using assms(1)
  proof (induction ls)
    case (Cons l ls)
    then show ?case
      by (cases ls) (simp_all add: lines_text_def)
  qed simp
  then show "at_last (lines_text ls) = Some 10" "split_on 10 (butlast (lines_text ls)) = ls"
    using split_join [of ls 10] assms by (simp_all add: at_last_def)
qed

lemma dashed_rejected:
  assumes "line_ops ops" "\<forall>p \<in> set ops. dashed p \<longrightarrow> other_path p"
    and "\<exists>span \<in> set spans. \<exists>p \<in> set (ph_lines (span_hunk ops span)). dashed p"
  shows "\<exists>err. applyPatch old (renderPatch ops spans) = Inl err"
proof -
  let ?p = "renderPatch ops spans" and ?ls = "concat (map (render_hunk ops) spans) @ [[]]"
  obtain r where r: "?p = 45 # 45 # 45 # 32 # r"
    using rendered_start by blast
  have content: "trim ?p \<noteq> []" "hasHeaders True ?p"
    unfolding r by (simp_all add: header_start_def units trim_Nil is_space_def is_line_terminator_def)
  have whole: "parsePatch ?p = Inl C1_violation"
  proof -
    have "at_last ?p = Some 10"
      by (simp add: renderPatch_def at_last_def)
    then have "parsePatch ?p =
        parse_lines False (js ''--- a/content'' # js ''+++ b/content'' # concat (map (render_hunk ops) spans))"
      by (simp add: parsePatch_def rendered_split [OF assms(1)])
    also have "\<dots> = parse_lines True (concat (map (render_hunk ops) spans))"
      using payload_headers by (subst parse_lines.simps) (simp add: units)
    finally show ?thesis
      by (simp add: dashed_hunks [OF assms(2,3)])
  qed
  have no: "backtick_fence (js ''--- a/content'') = None" "backtick_fence (js ''+++ b/content'') = None"
    by (simp_all add: backtick_fence_def skip_indent_def units)
  have found: "findFirstFencedBlock ?p = first_fenced ?ls"
    by (simp add: findFirstFencedBlock_def rendered_split [OF assms(1)] no)
  have inner: "\<exists>err. parsePatch f = Inl err" "trim f \<noteq> []" if f: "first_fenced ?ls = Some f" "hasHeaders True f" for f
  proof -
    obtain body where body: "f = lines_text body" "set body \<subseteq> set ?ls"
      using first_fenced_lines [OF f(1)] by blast
    have free: "\<forall>c \<in> set l. \<not> is_line_terminator c" if "l \<in> set body" for l
      using that body(2) render_hunk_free [OF assms(1)] by fastforce
    obtain l where l: "l \<in> set body" "header_start l"
      using lines_text_headers [of body] free f(2) body(1) by blast
    have "\<forall>l \<in> set body. l = [] \<or> (\<exists>a b c d. l = hunk_header a b c d) \<or> (\<exists>p. l = render_op p \<and> (dashed p \<longrightarrow> other_path p))"
    proof
      fix l assume "l \<in> set body"
      then have "l = [] \<or> (\<exists>span. l \<in> set (render_hunk ops span))"
        using body(2) by auto
      then show "l = [] \<or> (\<exists>a b c d. l = hunk_header a b c d) \<or> (\<exists>p. l = render_op p \<and> (dashed p \<longrightarrow> other_path p))"
        using render_hunk_free [OF assms(1), of l] assms(2) by blast
    qed
    from inner_lines [OF this] have "\<exists>err. parse_lines False body = Inl err"
      using l by blast
    moreover have "body \<noteq> []" "\<forall>l \<in> set body. 10 \<notin> set l"
      using l(1) free by (auto simp: is_line_terminator_def)
    ultimately show "\<exists>err. parsePatch f = Inl err"
      using lines_text_split [of body] by (simp add: parsePatch_def body(1))
    have "\<not> is_space (hd l)" "hd l \<in> set l"
      using l(2) by (auto simp: header_start_def units starts_with_iff is_space_def is_line_terminator_def)
    then show "trim f \<noteq> []"
      using l(1) by (auto simp: trim_Nil body(1) lines_text_def)
  qed
  show ?thesis
  proof (cases "\<exists>f. first_fenced ?ls = Some f \<and> hasHeaders True f")
    case True
    then obtain f where f: "first_fenced ?ls = Some f" "hasHeaders True f"
      by blast
    then show ?thesis
      using inner [OF f] by (auto simp: applyPatch_def extractPatchPayload_def found Let_def)
  next
    case False
    then have "extractPatchPayload ?p = ?p"
      using content(2) by (auto simp: extractPatchPayload_def found split: option.split)
    then show ?thesis
      using content(1) whole by (simp add: applyPatch_def)
  qed
qed

text \<open>
  C35. The producer throws on dashes: for contents whose only line terminators are line feeds, when the edit script
  deletes a line that starts with two dashes and a space, and no such deleted line goes on with the word
  \<open>a/content\<close>, \<open>createPatch\<close> returns no patch. Rendered, the line starts with three dashes and a space,
  and the parser that the producer checks its own output with takes it for a file header.
\<close>

theorem createPatch_dashes:
  assumes "plain_text old" "plain_text new"
    and "\<exists>p \<in> set (diffLines (split_on 10 old) (split_on 10 new)). dashed p"
    and "\<forall>p \<in> set (diffLines (split_on 10 old) (split_on 10 new)). dashed p \<longrightarrow> other_path p"
  shows "createPatch old new = Inl P4_failed"
proof -
  let ?ops = "diffLines (split_on 10 old) (split_on 10 new)"
  obtain p where p: "p \<in> set ?ops" "dashed p"
    using assms(3) by blast
  obtain i where i: "i < length ?ops" "?ops ! i = p"
    using p(1) by (auto simp: in_set_conv_nth)
  have lines: "line_ops ?ops"
    unfolding line_ops_def
  proof
    fix q assume "q \<in> set ?ops"
    from op_line_side [OF this] show "\<forall>c \<in> set (op_line q). \<not> is_line_terminator c"
      using plain_line [OF assms(1)] plain_line [OF assms(2)] by (auto simp: diffLines_sides)
  qed
  have "old \<noteq> new"
    using p by (auto simp: diffLines_equal dashed_def)
  moreover have "\<exists>err. applyPatch old (renderPatch ?ops (hunkRanges ?ops)) = Inl err"
  proof (rule dashed_rejected [OF lines assms(4)])
    have "op_type (?ops ! i) \<noteq> Equal"
      using p(2) i(2) by (simp add: dashed_def)
    then obtain s e where s: "(s, e) \<in> set (hunkRanges ?ops)" "s \<le> i" "i < e"
      using hunkRanges_cover [of ?ops] i(1) by (fastforce simp: covered_def)
    have "p \<in> set (drop s (take e ?ops))"
      using s(2,3) i by (auto simp: in_set_conv_nth intro!: exI [of _ "i - s"])
    then show "\<exists>span \<in> set (hunkRanges ?ops). \<exists>p \<in> set (ph_lines (span_hunk ?ops span)). dashed p"
      using s(1) p(2) by (intro bexI [of _ "(s, e)"] bexI [of _ p]) (simp_all add: span_hunk_def Let_def)
  qed
  moreover have "\<exists>err. applyPatch old (renderPatch ?ops [(0, length ?ops)]) = Inl err"
    by (rule dashed_rejected [OF lines assms(4)]) (use p in \<open>auto simp: span_hunk_def Let_def\<close>)
  ultimately show ?thesis
    by (auto simp: createPatch_def Let_def)
qed

section \<open>The envelope\<close>

lemma wrap_is_fence:
  "wrapPatchEventPayload diff =
     fencePatchPayload (if diff = [] \<or> at_last diff = Some 10 then diff else diff @ [10]) (js ''diff'')"
  by (simp add: wrapPatchEventPayload_def fencePatchPayload_def fenceLength_def longestBacktickRun_def Let_def)

lemma rendered_last: "createPatch old new = Inr p \<Longrightarrow> p = [] \<or> at_last p = Some 10"
  by (auto simp: createPatch_def Let_def renderPatch_def at_last_def split: if_splits)

lemma wrapped_found:
  assumes "createPatch old new = Inr p" "10 \<notin> set prose" "opener prose = None"
  shows "findPatchPayload (prose @ [10, 10] @ wrapPatchEventPayload p) = Some p"
proof -
  have p: "wrapPatchEventPayload p = fencePatchPayload p (js ''diff'')"
    using rendered_last [OF assms(1)] by (auto simp: wrap_is_fence)
  have "split_on 10 (prose @ [10, 10] @ q) = prose # [] # split_on 10 q" for q
    using split_on_append_sep [OF assms(2), of "10 # q"] by simp
  then have "findPatchPayload (prose @ [10, 10] @ q) = findPatchPayload q" for q
    using assms(3) by (simp add: findPatchPayload_def findFencedBlocks_def opener_def fence_open_def skip_indent_def)
  moreover have "findPatchPayload (fencePatchPayload p (js ''diff'')) = Some p"
    by (rule fence_payload [OF rendered_last [OF assms(1)]]) (code_simp, code_simp, code_simp)
  ultimately show ?thesis
    by (simp add: p)
qed

text \<open>
  (E2, E4) The envelope of the mirror is read by the consumer of the core package: after any line of
  prose that opens no fence, and an empty line, the payload found is the patch, byte for byte.
\<close>

theorem wrapped_patch_found:
  assumes "createPatch old new = Inr p" "10 \<notin> set prose" "opener prose = None"
  shows "findPatchPayload (prose @ [10, 10] @ wrapPatchEventPayload p) = Some p"
  using assms by (rule wrapped_found)

section \<open>Instances\<close>

lemma render_parse_roundtrip_witness:
  "parsePatch (renderPatch [mk_op Del [97], mk_op Ins [98]] [(0, 2)])
     = Inr [\<lparr>ph_oldStart = 1, ph_oldCount = 1, ph_lines = [mk_op Del [97], mk_op Ins [98]]\<rparr>]"
proof -
  have "plain_ops [mk_op Del [97], mk_op Ins [98]]"
    by (simp add: plain_ops_def units)
  from render_parse_roundtrip [OF this, of "[(0, 2)]"] show ?thesis
    by (simp add: span_hunk_def Let_def numeral_2_eq_2)
qed

lemma sample_plain: "plain_text [97]" "plain_text [98]" "no_dash_line [97]"
  by (simp_all add: plain_text_def no_dash_line_def is_line_terminator_def units)

lemma createPatch_total_witness:
  "\<exists>p. createPatch [97] [98] = Inr p \<and> applyPatch [97] p = Inr [98] \<and> p \<noteq> []"
  using createPatch_total [OF sample_plain] by auto

lemma dashes_script:
  "diffLines [[45, 45, 32, 98]] [[97]] = [mk_op Del [45, 45, 32, 98], mk_op Ins [97]]"
  by (simp add: diffLines_def common_end.simps DP_CELL_CAP_def lcsOps_def lcs_walk.simps)

lemma createPatch_dashes_witness:
  "createPatch (js ''-- b'') (js ''a'') = Inl P4_failed \<and> createPatch (js ''- b'') (js ''a'') \<noteq> Inl P4_failed"
proof
  have l: "split_on 10 (js ''-- b'') = [[45, 45, 32, 98]]" "split_on 10 (js ''a'') = [[97]]"
    by (simp_all add: js_def cu_def)
  show "createPatch (js ''-- b'') (js ''a'') = Inl P4_failed"
  proof (rule createPatch_dashes)
    show "plain_text (js ''-- b'')" "plain_text (js ''a'')"
      by (simp_all add: plain_text_def is_line_terminator_def js_def cu_def)
  qed (simp_all add: l dashes_script dashed_def other_path_def units trim_def trim_start_def is_space_def is_line_terminator_def)
  have "plain_text (js ''- b'')" "plain_text (js ''a'')" "no_dash_line (js ''- b'')"
    by (simp_all add: plain_text_def no_dash_line_def is_line_terminator_def js_def cu_def)
  from createPatch_returns [OF this] show "createPatch (js ''- b'') (js ''a'') \<noteq> Inl P4_failed"
    by auto
qed

lemma wrapped_patch_found_witness:
  "\<exists>p. createPatch [97] [98] = Inr p \<and> findPatchPayload (js ''content update'' @ [10, 10] @ wrapPatchEventPayload p) = Some p"
proof -
  obtain p where p: "createPatch [97] [98] = Inr p"
    using createPatch_returns [OF sample_plain] by blast
  have "10 \<notin> set (js ''content update'')" "opener (js ''content update'') = None"
    by (simp_all add: js_def cu_def opener_def fence_open_def skip_indent_def units)
  from wrapped_patch_found [OF p this] p show ?thesis
    by blast
qed

end
