(* ===== verification/Ledger.thy ===== *)
theory Ledger
  imports JsonValue
begin

text \<open>
  The mirror's ledger: \<open>packages/mirror/src/ledger/schema.ts\<close>, \<open>index.ts\<close> and \<open>seccertsLedger.ts\<close>. A table
  is a map from its primary key to a row of the schema's columns, so \<open>ON CONFLICT DO UPDATE\<close> is \<open>dset\<close>;
  columns that hold JSON hold its text. \<open>ORDER BY\<close> compares UTF-8 bytes, which is the order of code
  points. The clock of a statement is the argument \<open>now\<close>.

  Three abstractions. A text column keeps the string it is given; the database stores a lone surrogate as the replacement
  character, so the model is exact for well-formed strings (JSON columns escape lone surrogates and are exact for every
  string). The rows of a caller have the state type \<open>row_state\<close> for the two literal types of the code, \<open>live | retired\<close>
  of a root and \<open>live | retracted\<close> of a relation, which the type checker of the source keeps apart; the columns hold the
  word of their own table. Opening the database, its pragmas, the creation of its tables and the migration of an older
  schema are not modelled: a ledger here has all its tables.

  The locale \<open>keyed_table\<close> states what the clients of a table rely on and is interpreted for the roots, the relations
  and the publish log. \<open>upsertRoots_reads_back\<close> says that a row reads back as it was stored, \<open>chain_gate\<close> what closes
  and opens the gate of a build.
\<close>

section \<open>Tables\<close>

record record_db_row =
  rc_source_hash :: jsstr
  rc_gen_version :: jsstr
  rc_event_ids :: jsstr
  rc_i_set :: jsstr
  rc_updated_at :: int

record publish_log_db_row =
  pl_ok :: int
  pl_msg :: "jsstr option"
  pl_ts :: int

record relay_db_row =
  ry_capability :: "jsstr option"
  ry_ts :: "int option"

record root_db_row =
  rd_root_event_id :: jsstr
  rd_tip_event_id :: jsstr
  rd_tip_content :: jsstr
  rd_content_hash :: jsstr
  rd_i_set :: jsstr
  rd_imeta :: jsstr
  rd_source_hash :: jsstr
  rd_gen_version :: jsstr
  rd_state :: jsstr
  rd_updated_at :: int

record relation_db_row =
  ld_kind :: jsstr
  ld_subject_id :: jsstr
  ld_object_key :: jsstr
  ld_fingerprint :: jsstr
  ld_event_id :: jsstr
  ld_state :: jsstr
  ld_updated_at :: int

type_synonym root_key = "jsstr \<times> jsstr \<times> jsstr"
type_synonym relation_key = "jsstr \<times> jsstr"

record ledger =
  lg_records :: "((jsstr \<times> jsstr) \<times> record_db_row) list"
  lg_publish_log :: "((jsstr \<times> jsstr) \<times> publish_log_db_row) list"
  lg_relays :: "(jsstr \<times> relay_db_row) list"
  lg_roots :: "(root_key \<times> root_db_row) list"
  lg_relations :: "(relation_key \<times> relation_db_row) list"

definition empty_ledger :: ledger where
  "empty_ledger = \<lparr>lg_records = [], lg_publish_log = [], lg_relays = [], lg_roots = [], lg_relations = []\<rparr>"

section \<open>Rows\<close>

definition SECCERTS_GEN_VERSION :: jsstr where
  "SECCERTS_GEN_VERSION = js ''seccerts-v1''"

definition ABANDONED_MSG :: jsstr where
  "ABANDONED_MSG = js ''abandoned by operator (force-reset)''"

datatype row_state = Live | Gone

text \<open>The columns a root row shares with its upsert; \<open>Gone\<close> is \<open>'retired'\<close> for roots, \<open>'retracted'\<close> for relations.\<close>

record root_fields =
  rf_corpus :: jsstr
  rf_sourceId :: jsstr
  rf_role :: jsstr
  rf_rootEventId :: jsstr
  rf_tipEventId :: jsstr
  rf_tipContent :: jsstr
  rf_contentHash :: jsstr
  rf_iSet :: "jsstr list"
  rf_sourceHash :: jsstr
  rf_genVersion :: jsstr
  rf_state :: row_state

record root_row = root_fields +
  rw_imeta :: "jsstr list list"
  rw_updatedAt :: int

record root_upsert = root_fields +
  ru_imeta :: "jsstr list list option"

record relation_upsert =
  lu_corpus :: jsstr
  lu_relationId :: jsstr
  lu_kind :: jsstr
  lu_subjectId :: jsstr
  lu_objectKey :: jsstr
  lu_fingerprint :: jsstr
  lu_eventId :: jsstr
  lu_state :: row_state

record relation_row = relation_upsert +
  lw_updatedAt :: int

record ledger_record =
  lr_corpus :: jsstr
  lr_sourceId :: jsstr
  lr_sourceHash :: jsstr
  lr_genVersion :: jsstr
  lr_eventIds :: "jsstr list"
  lr_iSet :: "jsstr list"

record publish_log_row =
  po_eventId :: jsstr
  po_relay :: jsstr
  po_ok :: bool
  po_msg :: "jsstr option"
  po_ts :: int

record relay_row =
  ro_relay :: jsstr
  ro_capability :: "jsstr option"
  ro_ts :: "int option"

section \<open>Columns that hold JSON\<close>

definition str_array_text :: "jsstr list \<Rightarrow> jsstr" where
  "str_array_text xs = json_text (JArray (map JString xs))"

definition imeta_text :: "jsstr list list \<Rightarrow> jsstr" where
  "imeta_text rows = json_text (JArray (map (\<lambda>r. JArray (map JString r)) rows))"

definition json_strings :: "json list \<Rightarrow> jsstr list" where
  "json_strings vs = concat (map (\<lambda>v. case v of JString s \<Rightarrow> [s] | _ \<Rightarrow> []) vs)"

text \<open>\<open>parseStrArray\<close> and \<open>parseJsonArray\<close>; then \<open>parseImeta\<close>.\<close>

definition parseStrArray :: "jsstr \<Rightarrow> jsstr list" where
  "parseStrArray raw = (case json_parse raw of Some (JArray vs) \<Rightarrow> json_strings vs | _ \<Rightarrow> [])"

definition parseImeta :: "jsstr option \<Rightarrow> jsstr list list" where
  "parseImeta raw =
     (case json_parse (case raw of None \<Rightarrow> js ''[]'' | Some r \<Rightarrow> r) of
        Some (JArray rows) \<Rightarrow> concat (map (\<lambda>r. case r of JArray cells \<Rightarrow> [json_strings cells] | _ \<Rightarrow> []) rows)
      | _ \<Rightarrow> [])"

fun root_state_text :: "row_state \<Rightarrow> jsstr" where
  "root_state_text Live = js ''live''"
| "root_state_text Gone = js ''retired''"

fun relation_state_text :: "row_state \<Rightarrow> jsstr" where
  "relation_state_text Live = js ''live''"
| "relation_state_text Gone = js ''retracted''"

definition rowToRoot :: "root_key \<times> root_db_row \<Rightarrow> root_row" where
  "rowToRoot r =
     (case r of ((corpus, source_id, role), d) \<Rightarrow>
        \<lparr>rf_corpus = corpus, rf_sourceId = source_id, rf_role = role, rf_rootEventId = rd_root_event_id d,
         rf_tipEventId = rd_tip_event_id d, rf_tipContent = rd_tip_content d, rf_contentHash = rd_content_hash d,
         rf_iSet = parseStrArray (rd_i_set d), rf_sourceHash = rd_source_hash d, rf_genVersion = rd_gen_version d,
         rf_state = (if rd_state d = js ''retired'' then Gone else Live),
         rw_imeta = parseImeta (Some (rd_imeta d)), rw_updatedAt = rd_updated_at d\<rparr>)"

definition rowToRelation :: "relation_key \<times> relation_db_row \<Rightarrow> relation_row" where
  "rowToRelation r =
     (case r of ((corpus, relation_id), d) \<Rightarrow>
        \<lparr>lu_corpus = corpus, lu_relationId = relation_id, lu_kind = ld_kind d, lu_subjectId = ld_subject_id d,
         lu_objectKey = ld_object_key d, lu_fingerprint = ld_fingerprint d, lu_eventId = ld_event_id d,
         lu_state = (if ld_state d = js ''retracted'' then Gone else Live), lw_updatedAt = ld_updated_at d\<rparr>)"

definition rowToRecord :: "(jsstr \<times> jsstr) \<times> record_db_row \<Rightarrow> ledger_record" where
  "rowToRecord r =
     (case r of ((corpus, source_id), d) \<Rightarrow>
        \<lparr>lr_corpus = corpus, lr_sourceId = source_id, lr_sourceHash = rc_source_hash d, lr_genVersion = rc_gen_version d,
         lr_eventIds = parseStrArray (rc_event_ids d), lr_iSet = parseStrArray (rc_i_set d)\<rparr>)"

definition rowToPublishLog :: "(jsstr \<times> jsstr) \<times> publish_log_db_row \<Rightarrow> publish_log_row" where
  "rowToPublishLog r =
     (case r of ((event_id, relay), d) \<Rightarrow>
        \<lparr>po_eventId = event_id, po_relay = relay, po_ok = (pl_ok d = 1), po_msg = pl_msg d, po_ts = pl_ts d\<rparr>)"

definition rowToRelay :: "jsstr \<times> relay_db_row \<Rightarrow> relay_row" where
  "rowToRelay r = (case r of (relay, d) \<Rightarrow> \<lparr>ro_relay = relay, ro_capability = ry_capability d, ro_ts = ry_ts d\<rparr>)"

section \<open>The order of the database\<close>

text \<open>Code points; a lone surrogate is stored as the replacement character.\<close>

fun code_points :: "jsstr \<Rightarrow> nat list" where
  "code_points [] = []"
| "code_points (c # s) =
     (if is_high_surrogate c \<and> (case s of [] \<Rightarrow> False | d # _ \<Rightarrow> is_low_surrogate d)
      then (0x10000 + (unat c - 0xD800) * 0x400 + (unat (hd s) - 0xDC00)) # code_points (drop 1 s)
      else (if is_high_surrogate c \<or> is_low_surrogate c then 0xFFFD else unat c) # code_points s)"

section \<open>Statements of the first leg\<close>

definition upsert_record :: "int \<Rightarrow> ledger_record \<Rightarrow> ledger \<Rightarrow> ledger" where
  "upsert_record now row db =
     db\<lparr>lg_records := dset (lr_corpus row, lr_sourceId row)
          \<lparr>rc_source_hash = lr_sourceHash row, rc_gen_version = lr_genVersion row,
           rc_event_ids = str_array_text (lr_eventIds row), rc_i_set = str_array_text (lr_iSet row),
           rc_updated_at = now\<rparr> (lg_records db)\<rparr>"

definition upsertRecords :: "int \<Rightarrow> ledger_record list \<Rightarrow> ledger \<Rightarrow> ledger \<times> nat" where
  "upsertRecords now rows db = (fold (upsert_record now) rows db, length rows)"

definition markPublish :: "int \<Rightarrow> jsstr \<Rightarrow> jsstr \<Rightarrow> bool \<Rightarrow> jsstr option \<Rightarrow> ledger \<Rightarrow> ledger" where
  "markPublish now eventId relay acked msg db =
     db\<lparr>lg_publish_log := dset (eventId, relay) \<lparr>pl_ok = (if acked then 1 else 0), pl_msg = msg, pl_ts = now\<rparr>
          (lg_publish_log db)\<rparr>"

definition wasPublished :: "jsstr \<Rightarrow> jsstr \<Rightarrow> ledger \<Rightarrow> bool" where
  "wasPublished eventId relay db =
     (case dget (lg_publish_log db) (eventId, relay) of None \<Rightarrow> False | Some row \<Rightarrow> pl_ok row = 1)"

definition setRelayCapability :: "int \<Rightarrow> jsstr \<Rightarrow> jsstr option \<Rightarrow> ledger \<Rightarrow> ledger" where
  "setRelayCapability now relay capability db =
     db\<lparr>lg_relays := dset relay \<lparr>ry_capability = capability, ry_ts = Some now\<rparr> (lg_relays db)\<rparr>"

record ledger_snapshot =
  ls_records :: "ledger_record list"
  ls_publishLog :: "publish_log_row list"
  ls_relays :: "relay_row list"

definition readAll :: "ledger \<Rightarrow> ledger_snapshot" where
  "readAll db =
     \<lparr>ls_records = map rowToRecord
        (sort_key (\<lambda>r. (code_points (fst (fst r)), code_points (snd (fst r)))) (lg_records db)),
      ls_publishLog = map rowToPublishLog
        (sort_key (\<lambda>r. (code_points (fst (fst r)), code_points (snd (fst r)))) (lg_publish_log db)),
      ls_relays = map rowToRelay (sort_key (\<lambda>r. code_points (fst r)) (lg_relays db))\<rparr>"

section \<open>Statements of the second leg\<close>

definition rootsByCorpus :: "jsstr \<Rightarrow> ledger \<Rightarrow> root_row list" where
  "rootsByCorpus corpus db =
     map rowToRoot
       (sort_key (\<lambda>r. (code_points (fst (snd (fst r))), code_points (snd (snd (fst r)))))
          (filter (\<lambda>r. fst (fst r) = corpus \<and> rd_state (snd r) = js ''live'') (lg_roots db)))"

text \<open>\<open>SELECT DISTINCT\<close>; no order is asked for, the rows come in the order of the primary key.\<close>

definition knownSourceIds :: "jsstr \<Rightarrow> jsstr \<Rightarrow> ledger \<Rightarrow> jsstr list" where
  "knownSourceIds corpus role db =
     sort_key code_points
       (remdups (map (\<lambda>r. fst (snd (fst r)))
          (filter (\<lambda>r. fst (fst r) = corpus \<and> snd (snd (fst r)) = role) (lg_roots db))))"

definition relationsByCorpus :: "jsstr \<Rightarrow> ledger \<Rightarrow> relation_row list" where
  "relationsByCorpus corpus db =
     map rowToRelation
       (sort_key (\<lambda>r. code_points (snd (fst r))) (filter (\<lambda>r. fst (fst r) = corpus) (lg_relations db)))"

definition chain_points :: "ledger \<Rightarrow> jsstr list" where
  "chain_points db =
     (let roots = filter (\<lambda>d. rd_state d = js ''live'') (dvalues (lg_roots db));
          relations = filter (\<lambda>d. ld_state d = js ''live'') (dvalues (lg_relations db))
      in map rd_tip_event_id roots @ map rd_root_event_id roots @ map ld_event_id relations)"

definition unpublishedChainPointIds :: "jsstr \<Rightarrow> ledger \<Rightarrow> jsstr list" where
  "unpublishedChainPointIds relay db =
     remdups (filter (\<lambda>i. \<not> dhas (lg_publish_log db) (i, relay)) (chain_points db))"

definition abandon_point :: "int \<Rightarrow> jsstr \<Rightarrow> jsstr \<Rightarrow> ledger \<Rightarrow> ledger" where
  "abandon_point now relay i db =
     db\<lparr>lg_publish_log := dset (i, relay) \<lparr>pl_ok = 0, pl_msg = Some ABANDONED_MSG, pl_ts = now\<rparr> (lg_publish_log db)\<rparr>"

definition abandonChainPoints :: "int \<Rightarrow> jsstr \<Rightarrow> jsstr list \<Rightarrow> ledger \<Rightarrow> ledger \<times> nat" where
  "abandonChainPoints now relay ids db = (fold (abandon_point now relay) ids db, length ids)"

definition root_key_of :: "'a root_fields_scheme \<Rightarrow> root_key" where
  "root_key_of r = (rf_corpus r, rf_sourceId r, rf_role r)"

definition upsert_root :: "int \<Rightarrow> root_upsert \<Rightarrow> ledger \<Rightarrow> ledger" where
  "upsert_root now r db =
     (let imetaJson = map_option imeta_text (ru_imeta r);
          imeta = (case dget (lg_roots db) (root_key_of r) of
                     None \<Rightarrow> (case imetaJson of None \<Rightarrow> js ''[]'' | Some t \<Rightarrow> t)
                   | Some old \<Rightarrow> (case imetaJson of None \<Rightarrow> rd_imeta old | Some t \<Rightarrow> t))
      in db\<lparr>lg_roots := dset (root_key_of r)
          \<lparr>rd_root_event_id = rf_rootEventId r, rd_tip_event_id = rf_tipEventId r, rd_tip_content = rf_tipContent r,
           rd_content_hash = rf_contentHash r, rd_i_set = str_array_text (rf_iSet r), rd_imeta = imeta,
           rd_source_hash = rf_sourceHash r, rd_gen_version = rf_genVersion r, rd_state = root_state_text (rf_state r),
           rd_updated_at = now\<rparr> (lg_roots db)\<rparr>)"

definition upsertRoots :: "int \<Rightarrow> root_upsert list \<Rightarrow> ledger \<Rightarrow> ledger \<times> nat" where
  "upsertRoots now rows db = (fold (upsert_root now) rows db, length rows)"

definition relation_key_of :: "'a relation_upsert_scheme \<Rightarrow> relation_key" where
  "relation_key_of r = (lu_corpus r, lu_relationId r)"

definition upsert_relation :: "int \<Rightarrow> relation_upsert \<Rightarrow> ledger \<Rightarrow> ledger" where
  "upsert_relation now r db =
     db\<lparr>lg_relations := dset (relation_key_of r)
          \<lparr>ld_kind = lu_kind r, ld_subject_id = lu_subjectId r, ld_object_key = lu_objectKey r,
           ld_fingerprint = lu_fingerprint r, ld_event_id = lu_eventId r, ld_state = relation_state_text (lu_state r),
           ld_updated_at = now\<rparr> (lg_relations db)\<rparr>"

definition upsertRelations :: "int \<Rightarrow> relation_upsert list \<Rightarrow> ledger \<Rightarrow> ledger \<times> nat" where
  "upsertRelations now rows db = (fold (upsert_relation now) rows db, length rows)"

section \<open>JSON columns read back\<close>

lemma parse_plain: "plain_json v \<Longrightarrow> json_parse (json_text v) = Some v"
  using json_value_text [of v "2 * length (json_text v) + 2" "[]"]
  by (simp add: json_parse_def closes_def skip_space_def)

lemma json_strings_map [simp]: "json_strings (map JString xs) = xs"
  by (induction xs) (simp_all add: json_strings_def)

lemma parseStrArray_text [simp]: "parseStrArray (str_array_text xs) = xs"
  by (simp add: parseStrArray_def str_array_text_def parse_plain del: json_text.simps)

lemma parseImeta_text [simp]: "parseImeta (Some (imeta_text rows)) = rows"
proof -
  have "concat (map (\<lambda>r. case r of JArray cells \<Rightarrow> [json_strings cells] | _ \<Rightarrow> [])
      (map (\<lambda>r. JArray (map JString r)) rows)) = rows"
    by (induction rows) simp_all
  then show ?thesis
    by (simp add: parseImeta_def imeta_text_def parse_plain del: json_text.simps)
qed

lemma parseImeta_empty [simp]: "parseImeta (Some (js ''[]'')) = []" "parseImeta None = []"
proof -
  have "js ''[]'' = imeta_text []"
    by (simp add: imeta_text_def json_array_def js_def cu_def)
  then show "parseImeta (Some (js ''[]'')) = []" "parseImeta None = []"
    using parseImeta_text [of "[]"] by (simp_all add: parseImeta_def)
qed

lemma state_texts [simp]:
  "root_state_text s = js ''retired'' \<longleftrightarrow> s = Gone" "root_state_text s = js ''live'' \<longleftrightarrow> s = Live"
  "relation_state_text s = js ''retracted'' \<longleftrightarrow> s = Gone" "relation_state_text s = js ''live'' \<longleftrightarrow> s = Live"
  by (cases s; simp)+

lemma not_Gone [simp]: "s \<noteq> Gone \<longleftrightarrow> s = Live"
  by (cases s) simp_all

section \<open>Tables as maps\<close>

text \<open>
  What the clients of a table rely on: storing a row changes the value under the row's key and no other. \<open>val\<close>
  is the value, which may depend on the one before.
\<close>

locale keyed_table =
  fixes key :: "'r \<Rightarrow> 'k" and store :: "'r \<Rightarrow> 'd \<Rightarrow> 'd" and lookup :: "'d \<Rightarrow> 'k \<Rightarrow> 'v option"
    and val :: "'r \<Rightarrow> 'v option \<Rightarrow> 'v"
  assumes lookup_store: "lookup (store r d) k = (if k = key r then Some (val r (lookup d k)) else lookup d k)"
begin

lemma lookup_other: "k \<notin> key ` set rows \<Longrightarrow> lookup (fold store rows d) k = lookup d k"
  by (induction rows arbitrary: d) (auto simp: lookup_store)

lemma lookup_last:
  "key r \<notin> key ` set ys \<Longrightarrow>
   lookup (fold store (xs @ r # ys) d) (key r) = Some (val r (lookup (fold store xs d) (key r)))"
  by (simp add: lookup_other lookup_store)

lemma lookup_distinct:
  assumes "distinct (map key rows)" "r \<in> set rows"
  shows "lookup (fold store rows d) (key r) = Some (val r (lookup d (key r)))"
proof -
  obtain xs ys where rows: "rows = xs @ r # ys"
    using assms(2) by (auto dest: split_list)
  then have "key r \<notin> key ` set xs" "key r \<notin> key ` set ys"
    using assms(1) by auto
  then show ?thesis
    unfolding rows using lookup_last [of r ys xs d] lookup_other [of "key r" xs d] by simp
qed

lemma lookup_dom: "lookup (fold store rows d) k = None \<longleftrightarrow> k \<notin> key ` set rows \<and> lookup d k = None"
  by (induction rows arbitrary: d) (auto simp: lookup_store)

lemma lookup_dec:
  "lookup (fold store rows d) k =
     (case filter (\<lambda>r. key r = k) rows of
        [] \<Rightarrow> lookup d k
      | r # rs \<Rightarrow> Some (fold (\<lambda>r v. val r (Some v)) rs (val r (lookup d k))))"
proof (induction rows rule: rev_induct)
  case (snoc x rows)
  then show ?case
    by (auto simp: lookup_store split: list.splits)
qed simp

lemma lookup_cases:
  assumes "lookup (fold store rows d) k = Some v"
  obtains (stored) r old where "r \<in> set rows" "key r = k" "v = val r old" | (before) "lookup d k = Some v" "k \<notin> key ` set rows"
proof -
  have "(\<exists>r \<in> set rows. key r = k \<and> (\<exists>old. v = val r old)) \<or> lookup d k = Some v \<and> k \<notin> key ` set rows"
    using assms by (induction rows rule: rev_induct) (auto simp: lookup_store split: if_splits)
  then show thesis
    using stored before by blast
qed

end

definition root_at :: "ledger \<Rightarrow> root_key \<Rightarrow> root_row option" where
  "root_at db k = map_option (\<lambda>d. rowToRoot (k, d)) (dget (lg_roots db) k)"

definition relation_at :: "ledger \<Rightarrow> relation_key \<Rightarrow> relation_row option" where
  "relation_at db k = map_option (\<lambda>d. rowToRelation (k, d)) (dget (lg_relations db) k)"

definition published_at :: "ledger \<Rightarrow> jsstr \<times> jsstr \<Rightarrow> publish_log_row option" where
  "published_at db k = map_option (\<lambda>d. rowToPublishLog (k, d)) (dget (lg_publish_log db) k)"

definition stored_root :: "int \<Rightarrow> root_upsert \<Rightarrow> root_row option \<Rightarrow> root_row" where
  "stored_root now r old =
     \<lparr>rf_corpus = rf_corpus r, rf_sourceId = rf_sourceId r, rf_role = rf_role r, rf_rootEventId = rf_rootEventId r,
      rf_tipEventId = rf_tipEventId r, rf_tipContent = rf_tipContent r, rf_contentHash = rf_contentHash r,
      rf_iSet = rf_iSet r, rf_sourceHash = rf_sourceHash r, rf_genVersion = rf_genVersion r, rf_state = rf_state r,
      rw_imeta = (case ru_imeta r of Some m \<Rightarrow> m | None \<Rightarrow> (case old of None \<Rightarrow> [] | Some p \<Rightarrow> rw_imeta p)),
      rw_updatedAt = now\<rparr>"

definition stored_relation :: "int \<Rightarrow> relation_upsert \<Rightarrow> relation_row option \<Rightarrow> relation_row" where
  "stored_relation now r old =
     \<lparr>lu_corpus = lu_corpus r, lu_relationId = lu_relationId r, lu_kind = lu_kind r, lu_subjectId = lu_subjectId r,
      lu_objectKey = lu_objectKey r, lu_fingerprint = lu_fingerprint r, lu_eventId = lu_eventId r, lu_state = lu_state r,
      lw_updatedAt = now\<rparr>"

interpretation roots: keyed_table root_key_of "upsert_root now" root_at "stored_root now" for now
  by unfold_locales
    (auto simp: root_at_def upsert_root_def Let_def rowToRoot_def stored_root_def root_key_of_def
      split: option.splits)

interpretation relations: keyed_table relation_key_of "upsert_relation now" relation_at "stored_relation now" for now
  by unfold_locales
    (auto simp: relation_at_def upsert_relation_def rowToRelation_def stored_relation_def relation_key_of_def)

interpretation acks: keyed_table "\<lambda>(i, relay, _, _). (i, relay)" "\<lambda>(i, relay, acked, msg). markPublish now i relay acked msg"
    published_at "\<lambda>(i, relay, acked, msg) _. \<lparr>po_eventId = i, po_relay = relay, po_ok = acked, po_msg = msg, po_ts = now\<rparr>"
    for now
  by unfold_locales (auto simp: published_at_def markPublish_def rowToPublishLog_def split: if_splits)

lemma upserts_frame [simp]:
  "relation_at (upsert_root now r db) k = relation_at db k" "root_at (upsert_relation now l db) j = root_at db j"
  "published_at (upsert_root now r db) i = published_at db i" "published_at (upsert_relation now l db) i = published_at db i"
  "root_at (markPublish now e relay acked msg db) j = root_at db j"
  "relation_at (markPublish now e relay acked msg db) k = relation_at db k"
  "root_at (upsert_record now rec db) j = root_at db j" "relation_at (upsert_record now rec db) k = relation_at db k"
  by (simp_all add: root_at_def relation_at_def published_at_def upsert_root_def upsert_relation_def markPublish_def
      upsert_record_def Let_def)

section \<open>The ledger is well formed\<close>

definition ledger_ok :: "ledger \<Rightarrow> bool" where
  "ledger_ok db \<longleftrightarrow>
     distinct (dkeys (lg_records db)) \<and> distinct (dkeys (lg_publish_log db)) \<and> distinct (dkeys (lg_relays db))
     \<and> distinct (dkeys (lg_roots db)) \<and> distinct (dkeys (lg_relations db))
     \<and> (\<forall>d \<in> set (dvalues (lg_roots db)). \<exists>s. rd_state d = root_state_text s)
     \<and> (\<forall>d \<in> set (dvalues (lg_relations db)). \<exists>s. ld_state d = relation_state_text s)"

lemma dvalues_dset: "x \<in> set (dvalues (dset k v d)) \<Longrightarrow> x = v \<or> x \<in> set (dvalues d)"
  by (induction d) (auto split: if_splits)

lemma ledger_ok_steps:
  "ledger_ok empty_ledger"
  "ledger_ok db \<Longrightarrow> ledger_ok (upsert_record now rec db)"
  "ledger_ok db \<Longrightarrow> ledger_ok (markPublish now e relay acked msg db)"
  "ledger_ok db \<Longrightarrow> ledger_ok (setRelayCapability now relay cap db)"
  "ledger_ok db \<Longrightarrow> ledger_ok (upsert_root now r db)"
  "ledger_ok db \<Longrightarrow> ledger_ok (upsert_relation now l db)"
  "ledger_ok db \<Longrightarrow> ledger_ok (abandon_point now relay e db)"
  by (auto simp: ledger_ok_def empty_ledger_def upsert_record_def markPublish_def setRelayCapability_def
      upsert_root_def upsert_relation_def abandon_point_def Let_def simp del: set_map dest!: dvalues_dset)

lemma ledger_ok_fold: "(\<And>x db. ledger_ok db \<Longrightarrow> ledger_ok (f x db)) \<Longrightarrow> ledger_ok db \<Longrightarrow> ledger_ok (fold f xs db)"
  by (rule fold_keeps)

text \<open>
  The type of the ledger: from the empty database every statement keeps the primary keys unique and the
  state columns within their two words, so each row reads back as one row of its typed form.
\<close>

theorem ledger_type:
  assumes "ledger_ok db"
  shows "ledger_ok (fst (upsertRecords now recs db)) \<and> ledger_ok (fst (upsertRoots now roots db))
    \<and> ledger_ok (fst (upsertRelations now rels db)) \<and> ledger_ok (markPublish now e relay acked msg db)
    \<and> ledger_ok (setRelayCapability now relay cap db) \<and> ledger_ok (fst (abandonChainPoints now relay ids db))"
  using assms unfolding upsertRecords_def upsertRoots_def upsertRelations_def abandonChainPoints_def fst_conv
  by (intro conjI ledger_ok_fold ledger_ok_steps)

section \<open>What the queries return\<close>

lemma live_root_iff:
  assumes "ledger_ok db"
  shows "row \<in> set (rootsByCorpus corpus db) \<longleftrightarrow>
     root_at db (root_key_of row) = Some row \<and> rf_corpus row = corpus \<and> rf_state row = Live"
proof
  assume "row \<in> set (rootsByCorpus corpus db)"
  then obtain k d where r: "row = rowToRoot (k, d)" "(k, d) \<in> set (lg_roots db)" "fst k = corpus" "rd_state d = js ''live''"
    by (auto simp: rootsByCorpus_def)
  have "dget (lg_roots db) k = Some d"
    using r(2) assms by (simp add: ledger_ok_def)
  moreover have "root_key_of row = k"
    by (cases k) (simp add: r(1) rowToRoot_def root_key_of_def)
  ultimately show "root_at db (root_key_of row) = Some row \<and> rf_corpus row = corpus \<and> rf_state row = Live"
    using r(1,3,4) by (cases k) (simp add: root_at_def rowToRoot_def)
next
  assume a: "root_at db (root_key_of row) = Some row \<and> rf_corpus row = corpus \<and> rf_state row = Live"
  then obtain d where d: "dget (lg_roots db) (root_key_of row) = Some d" "row = rowToRoot (root_key_of row, d)"
    by (auto simp: root_at_def)
  from d(1) have m: "(root_key_of row, d) \<in> set (lg_roots db)"
    by (rule map_of_SomeD)
  then obtain s where "rd_state d = root_state_text s"
    using assms by (force simp: ledger_ok_def)
  moreover have "rd_state d \<noteq> js ''retired''"
    using a d(2) by (cases "root_key_of row") (auto simp: rowToRoot_def)
  ultimately have "rd_state d = js ''live''"
    by (cases s) auto
  then show "row \<in> set (rootsByCorpus corpus db)"
    using m d(2) a by (auto simp: rootsByCorpus_def root_key_of_def)
qed

lemma relation_row_iff:
  assumes "ledger_ok db"
  shows "row \<in> set (relationsByCorpus corpus db) \<longleftrightarrow>
     relation_at db (relation_key_of row) = Some row \<and> lu_corpus row = corpus"
proof
  assume "row \<in> set (relationsByCorpus corpus db)"
  then obtain k d where r: "row = rowToRelation (k, d)" "(k, d) \<in> set (lg_relations db)" "fst k = corpus"
    by (auto simp: relationsByCorpus_def)
  have "dget (lg_relations db) k = Some d"
    using r(2) assms by (simp add: ledger_ok_def)
  moreover have "relation_key_of row = k"
    by (cases k) (simp add: r(1) rowToRelation_def relation_key_of_def)
  ultimately show "relation_at db (relation_key_of row) = Some row \<and> lu_corpus row = corpus"
    using r(1,3) by (cases k) (simp add: relation_at_def rowToRelation_def)
next
  assume a: "relation_at db (relation_key_of row) = Some row \<and> lu_corpus row = corpus"
  then obtain d where d: "dget (lg_relations db) (relation_key_of row) = Some d" "row = rowToRelation (relation_key_of row, d)"
    by (auto simp: relation_at_def)
  from d(1) have "(relation_key_of row, d) \<in> set (lg_relations db)"
    by (rule map_of_SomeD)
  then show "row \<in> set (relationsByCorpus corpus db)"
    using d(2) a by (auto simp: relationsByCorpus_def relation_key_of_def)
qed

lemma knownSourceIds_iff:
  "s \<in> set (knownSourceIds corpus role db) \<longleftrightarrow> root_at db (corpus, s, role) \<noteq> None"
  by (force simp: knownSourceIds_def root_at_def map_of_eq_None_iff)

text \<open>
  C33. An upsert is read back: after \<open>upsertRoots\<close> a key holds the last row stored under it, every column as
  given, through its JSON text where it has one; a row that names no attachments keeps those that were
  stored, and the other keys keep their rows. A key is listed among the live roots of its corpus exactly when
  its row is live.
\<close>

theorem upsertRoots_reads_back:
  assumes "ledger_ok db" "rows = xs @ r # ys" "root_key_of r \<notin> root_key_of ` set ys"
  shows "let db' = fst (upsertRoots now rows db); row = stored_root now r (root_at (fst (upsertRoots now xs db)) (root_key_of r))
    in root_at db' (root_key_of r) = Some row
       \<and> (row \<in> set (rootsByCorpus (rf_corpus r) db') \<longleftrightarrow> rf_state r = Live)
       \<and> (\<forall>k. k \<notin> root_key_of ` set rows \<longrightarrow> root_at db' k = root_at db k)"
proof -
  let ?row = "stored_root now r (root_at (fst (upsertRoots now xs db)) (root_key_of r))"
  have at: "root_at (fst (upsertRoots now rows db)) (root_key_of r) = Some ?row"
    using roots.lookup_last [OF assms(3), of now xs db] by (simp add: upsertRoots_def assms(2))
  have ok: "ledger_ok (fst (upsertRoots now rows db))"
    unfolding upsertRoots_def fst_conv by (intro ledger_ok_fold ledger_ok_steps assms(1))
  have "root_key_of ?row = root_key_of r" "rf_corpus ?row = rf_corpus r" "rf_state ?row = rf_state r"
    by (simp_all add: stored_root_def root_key_of_def)
  then have "?row \<in> set (rootsByCorpus (rf_corpus r) (fst (upsertRoots now rows db))) \<longleftrightarrow> rf_state r = Live"
    using live_root_iff [OF ok, of ?row "rf_corpus r"] at by simp
  moreover have "root_at (fst (upsertRoots now rows db)) k = root_at db k" if "k \<notin> root_key_of ` set rows" for k
    using roots.lookup_other [OF that] by (simp add: upsertRoots_def)
  ultimately show ?thesis
    using at by (simp only: Let_def) blast
qed

section \<open>The chain-integrity gate\<close>

lemma abandon_log:
  "dhas (lg_publish_log (fold (abandon_point now relay) ids db)) k \<longleftrightarrow>
     dhas (lg_publish_log db) k \<or> (\<exists>i \<in> set ids. k = (i, relay))"
  by (induction ids arbitrary: db) (auto simp: abandon_point_def)

lemma abandon_points: "chain_points (fold (abandon_point now relay) ids db) = chain_points db"
  by (induction ids arbitrary: db) (simp_all add: abandon_point_def chain_points_def)

lemma abandoned_rows:
  "published_at (fold (abandon_point now relay) ids db) (i, r) =
     (if r = relay \<and> i \<in> set ids
      then Some \<lparr>po_eventId = i, po_relay = relay, po_ok = False, po_msg = Some ABANDONED_MSG, po_ts = now\<rparr>
      else published_at db (i, r))"
  by (induction ids arbitrary: db) (auto simp: published_at_def abandon_point_def rowToPublishLog_def)

lemma abandon_tables:
  "lg_roots (fold (abandon_point now relay) ids db) = lg_roots db"
  "lg_relations (fold (abandon_point now relay) ids db) = lg_relations db"
  by (induction ids arbitrary: db) (simp_all add: abandon_point_def)

lemma chain_point_rows:
  assumes "ledger_ok db"
  shows "i \<in> set (chain_points db) \<longleftrightarrow>
     (\<exists>c. \<exists>row \<in> set (rootsByCorpus c db). i = rf_tipEventId row \<or> i = rf_rootEventId row)
     \<or> (\<exists>c. \<exists>row \<in> set (relationsByCorpus c db). lu_state row = Live \<and> i = lu_eventId row)"
proof -
  have rels: "lu_state (rowToRelation ((c, k), d)) = Live \<longleftrightarrow> ld_state d = js ''live''"
    if "((c, k), d) \<in> set (lg_relations db)" for c k d
  proof -
    have "\<exists>s. ld_state d = relation_state_text s"
      using assms that unfolding ledger_ok_def by force
    then show ?thesis
      by (auto simp: rowToRelation_def)
  qed
  have root: "row \<in> set (rootsByCorpus c db) \<longleftrightarrow>
      (\<exists>k d. (k, d) \<in> set (lg_roots db) \<and> rd_state d = js ''live'' \<and> fst k = c \<and> row = rowToRoot (k, d))" for row c
    by (auto simp: rootsByCorpus_def image_iff)
  have relation: "row \<in> set (relationsByCorpus c db) \<longleftrightarrow>
      (\<exists>k d. (k, d) \<in> set (lg_relations db) \<and> fst k = c \<and> row = rowToRelation (k, d))" for row c
    by (auto simp: relationsByCorpus_def image_iff)
  have roots: "(\<exists>c. \<exists>row \<in> set (rootsByCorpus c db). P row) \<longleftrightarrow>
      (\<exists>k d. (k, d) \<in> set (lg_roots db) \<and> rd_state d = js ''live'' \<and> P (rowToRoot (k, d)))" for P
    unfolding Bex_def root by blast
  have relations: "(\<exists>c. \<exists>row \<in> set (relationsByCorpus c db). P row) \<longleftrightarrow>
      (\<exists>k d. (k, d) \<in> set (lg_relations db) \<and> P (rowToRelation (k, d)))" for P
    unfolding Bex_def relation by blast
  have entries: "x \<in> set (map f (filter P (dvalues xs))) \<longleftrightarrow> (\<exists>k d. (k, d) \<in> set xs \<and> P d \<and> x = f d)"
    for x f P and xs :: "('k \<times> 'd) list"
    by (auto simp: image_iff) (metis snd_conv)+
  have "i \<in> set (chain_points db) \<longleftrightarrow>
      (\<exists>k d. (k, d) \<in> set (lg_roots db) \<and> rd_state d = js ''live'' \<and> (i = rd_tip_event_id d \<or> i = rd_root_event_id d))
      \<or> (\<exists>k d. (k, d) \<in> set (lg_relations db) \<and> ld_state d = js ''live'' \<and> i = ld_event_id d)"
    unfolding chain_points_def Let_def set_append Un_iff entries by blast
  also have "\<dots> \<longleftrightarrow> (\<exists>k d. (k, d) \<in> set (lg_roots db) \<and> rd_state d = js ''live''
        \<and> (i = rf_tipEventId (rowToRoot (k, d)) \<or> i = rf_rootEventId (rowToRoot (k, d))))
      \<or> (\<exists>k d. (k, d) \<in> set (lg_relations db) \<and> lu_state (rowToRelation (k, d)) = Live \<and> i = lu_eventId (rowToRelation (k, d)))"
  proof -
    have "rf_tipEventId (rowToRoot (k, d)) = rd_tip_event_id d" "rf_rootEventId (rowToRoot (k, d)) = rd_root_event_id d" for k d
      by (simp_all add: rowToRoot_def split: prod.split)
    moreover have "lu_eventId (rowToRelation (k, d)) = ld_event_id d" for k d
      by (simp add: rowToRelation_def split: prod.split)
    moreover have "lu_state (rowToRelation (k, d)) = Live \<longleftrightarrow> ld_state d = js ''live''" if "(k, d) \<in> set (lg_relations db)" for k d
      using rels that by (cases k) simp
    ultimately show ?thesis
      by (simp cong: conj_cong)
  qed
  finally show ?thesis
    by (simp only: roots relations)
qed

text \<open>
  C32. The gate of a build: in a ledger whose state columns hold the two words of their table, it is closed by exactly
  the tips and origins of live roots and the events of live relations that have no verdict of this relay, an
  acknowledgement, a rejection and an operator's note alike. Abandoning what closes it opens it: each of these ids
  gets a row that says it was not accepted, with the operator's note, and no other row of the log, no root and no
  relation changes.
\<close>

theorem chain_gate:
  assumes "ledger_ok db"
  shows "let ids = unpublishedChainPointIds relay db; db' = fst (abandonChainPoints now relay ids db) in
     (\<forall>i. i \<in> set ids \<longleftrightarrow> published_at db (i, relay) = None
        \<and> ((\<exists>c. \<exists>row \<in> set (rootsByCorpus c db). i = rf_tipEventId row \<or> i = rf_rootEventId row)
           \<or> (\<exists>c. \<exists>row \<in> set (relationsByCorpus c db). lu_state row = Live \<and> i = lu_eventId row)))
     \<and> unpublishedChainPointIds relay db' = []
     \<and> (\<forall>i r. published_at db' (i, r) =
          (if r = relay \<and> i \<in> set ids
           then Some \<lparr>po_eventId = i, po_relay = relay, po_ok = False, po_msg = Some ABANDONED_MSG, po_ts = now\<rparr>
           else published_at db (i, r)))
     \<and> root_at db' = root_at db \<and> relation_at db' = relation_at db"
proof -
  let ?ids = "unpublishedChainPointIds relay db"
  have "i \<in> set ?ids \<longleftrightarrow> published_at db (i, relay) = None \<and> i \<in> set (chain_points db)" for i
    by (auto simp: unpublishedChainPointIds_def dhas_def published_at_def)
  moreover have "unpublishedChainPointIds relay (fst (abandonChainPoints now relay ?ids db)) = []"
    by (auto simp: unpublishedChainPointIds_def abandonChainPoints_def abandon_points abandon_log filter_empty_conv)
  moreover have "root_at (fold (abandon_point now relay) ?ids db) = root_at db"
    "relation_at (fold (abandon_point now relay) ?ids db) = relation_at db"
    by (simp_all add: root_at_def relation_at_def abandon_tables fun_eq_iff)
  ultimately show ?thesis
    by (simp only: Let_def abandonChainPoints_def fst_conv abandoned_rows chain_point_rows [OF assms] simp_thms)
qed

section \<open>Instances\<close>

definition sample_root_upsert :: root_upsert where
  "sample_root_upsert =
     \<lparr>rf_corpus = js ''seccerts/cc'', rf_sourceId = js ''a1'', rf_role = js ''product'', rf_rootEventId = js ''e1'',
      rf_tipEventId = js ''e1'', rf_tipContent = js ''A'', rf_contentHash = js ''h'', rf_iSet = [js ''cc:A''],
      rf_sourceHash = js ''s'', rf_genVersion = SECCERTS_GEN_VERSION, rf_state = Live, ru_imeta = Some []\<rparr>"

lemma upsertRoots_reads_back_witness:
  "stored_root 7 sample_root_upsert None \<in> set (rootsByCorpus (js ''seccerts/cc'')
     (fst (upsertRoots 7 [sample_root_upsert] empty_ledger)))"
proof -
  have "root_at (fst (upsertRoots 7 [] empty_ledger)) k = None" for k
    by (simp add: upsertRoots_def root_at_def empty_ledger_def)
  then show ?thesis
    using upsertRoots_reads_back [OF ledger_ok_steps(1), of "[sample_root_upsert]" "[]" sample_root_upsert "[]" 7]
    by (simp add: Let_def sample_root_upsert_def)
qed

lemma chain_gate_witness:
  "let db = fst (upsertRoots 7 [sample_root_upsert] empty_ledger); ids = unpublishedChainPointIds (js ''wss://r'') db in
     ids = [js ''e1'']
     \<and> published_at (fst (abandonChainPoints 9 (js ''wss://r'') ids db)) (js ''e1'', js ''wss://r'') =
         Some \<lparr>po_eventId = js ''e1'', po_relay = js ''wss://r'', po_ok = False, po_msg = Some ABANDONED_MSG, po_ts = 9\<rparr>"
proof -
  let ?db = "fst (upsertRoots 7 [sample_root_upsert] empty_ledger)"
  have ok: "ledger_ok ?db"
    by (simp add: upsertRoots_def ledger_ok_steps)
  have ids: "unpublishedChainPointIds (js ''wss://r'') ?db = [js ''e1'']"
    by (simp add: unpublishedChainPointIds_def chain_points_def upsertRoots_def upsert_root_def empty_ledger_def Let_def
        sample_root_upsert_def dhas_def)
  show ?thesis
    using chain_gate [OF ok, of "js ''wss://r''" 9] unfolding Let_def ids by simp
qed

end
