(* ===== verification/Engine.thy ===== *)
theory Engine
  imports Content Diff Ledger
begin

text \<open>
  \<open>packages/mirror/src/emit/seccerts/engine.ts\<close> with the builders it calls (\<open>emit/binding.ts\<close>, \<open>emit/deletion.ts\<close>
  and the clock of \<open>emit/keys.ts\<close>): one run compares the desired state with the ledger and returns the signed
  events and the rows that record them. The signer and the hash are arguments (\<open>engine_env\<close>), \<open>runEngine\<close> fails
  where the code throws, and a warning keeps its kind and what it names instead of its prose.
\<close>

section \<open>What a run is given\<close>

record engine_env =
  ee_pubkey :: jsstr
  ee_sign :: "unsigned_event \<Rightarrow> nostr_event"
  ee_clock :: "nat \<Rightarrow> int"
  ee_sha256 :: "jsstr \<Rightarrow> jsstr"
  ee_lower :: "jsstr \<Rightarrow> jsstr"

text \<open>
  \<open>createClock\<close>: the value of the \<open>n\<close>th call of \<open>next\<close>, where \<open>readings\<close> are the seconds the wall clock shows, first
  when the clock is made and then at each call.
\<close>

definition createClock :: "int option \<Rightarrow> (nat \<Rightarrow> int) \<Rightarrow> nat \<Rightarrow> int" where
  "createClock base readings n =
     (case base of
        Some b \<Rightarrow> b + int n
      | None \<Rightarrow> fold (\<lambda>i last. if last < readings i then readings i else last) [1..<n + 2] (readings 0))"

record desired_root =
  dr_corpus :: jsstr
  dr_sourceId :: jsstr
  dr_role :: jsstr
  dr_sourceHash :: jsstr
  dr_iSet :: "jsstr list"
  dr_facets :: "jsstr list"
  dr_content :: jsstr
  dr_imeta :: "jsstr list list"
  dr_supersedes :: "jsstr option"

record endpoint_key =
  ek_corpus :: jsstr
  ek_sourceId :: jsstr
  ek_role :: jsstr
  ek_label :: jsstr

record desired_relation =
  de_corpus :: jsstr
  de_relationId :: jsstr
  de_kind :: jsstr
  de_rootRef :: endpoint_key
  de_linkRef :: endpoint_key
  de_fingerprint :: jsstr
  de_facets :: "jsstr list"
  de_headline :: jsstr
  de_bullets :: "jsstr list"
  de_links :: "jsstr list"

record desired_state =
  ds_roots :: "desired_root list"
  ds_relations :: "desired_relation list"
  ds_sourceIdsByCorpus :: "jsstr list dict"

datatype engine_error =
  Unknown_role | Emit_fault emit_error | Malformed_patch | Empty_diff | Diff_fault patch_error

datatype engine_warning =
    Duplicate_root jsstr | Fork_patch jsstr | Fork_reroot jsstr | Supersedes_mismatch jsstr
  | Source_gone jsstr jsstr "jsstr list" | Duplicate_relation jsstr | Endpoint_missing jsstr

record engine_counts =
  ct_newRoots :: nat
  ct_patches :: nat
  ct_reRoots :: nat
  ct_newRelations :: nat
  ct_retractedRelations :: nat
  ct_replacedRelations :: nat
  ct_unchanged :: nat
  ct_disappeared :: nat

record engine_result =
  rn_events :: "nostr_event list"
  rn_rootRows :: "root_upsert list"
  rn_relationRows :: "relation_upsert list"
  rn_retractions :: "jsstr list"
  rn_counts :: engine_counts
  rn_warnings :: "engine_warning list"

section \<open>Keys and texts\<close>

definition rootKeyOf :: "jsstr \<Rightarrow> jsstr \<Rightarrow> jsstr \<Rightarrow> jsstr" where
  "rootKeyOf corpus sourceId role = corpus @ 0 # sourceId @ 0 # role"

definition ROOT_TYPE_BY_ROLE :: "jsstr dict" where
  "ROOT_TYPE_BY_ROLE =
     [(js ''product'', js ''scrutiny-product''), (js ''corpus'', js ''scrutiny-product''),
      (js ''metadata'', js ''scrutiny-metadata''), (js ''advisory'', js ''scrutiny-metadata''),
      (js ''snapshot'', js ''scrutiny-metadata''), (js ''leaderboard'', js ''scrutiny-metadata'')]"

definition C5_RECORD_ROLES :: "jsstr list" where
  "C5_RECORD_ROLES = [js ''product'', js ''metadata'']"

definition ROOT_GROUP_RANK :: "nat dict" where
  "ROOT_GROUP_RANK =
     [(js ''seccerts/pp'', 1), (js ''seccerts/cc'', 2), (js ''seccerts/eucc'', 3), (js ''seccerts/fips'', 4),
      (js ''seccerts/global'', 5)]"

definition rootGroupRank :: "desired_root \<Rightarrow> nat" where
  "rootGroupRank root =
     (if dr_role root = js ''corpus'' then 0
      else if dr_role root = js ''snapshot'' then 6
      else case dget ROOT_GROUP_RANK (dr_corpus root) of None \<Rightarrow> 7 | Some n \<Rightarrow> n)"

definition formatList :: "jsstr list \<Rightarrow> jsstr" where
  "formatList values =
     (if values = [] then js ''none''
      else
        let head = join_list (take 8 values)
        in if 8 < length values then head @ js '' (+'' @ nat_digits (length values - 8) @ js '' more)'' else head)"

text \<open>\<open>JSON.stringify\<close> of an array of strings.\<close>

definition strings_text :: "jsstr list \<Rightarrow> jsstr" where
  "strings_text xs = json_array (map json_string xs)"

text \<open>\<open>parts.join('; ')\<close>\<close>

fun join_parts :: "jsstr list \<Rightarrow> jsstr" where
  "join_parts [] = []"
| "join_parts [p] = p"
| "join_parts (p # ps) = p @ js ''; '' @ join_parts ps"

definition supersedeParts :: "desired_root \<Rightarrow> root_row \<Rightarrow> jsstr" where
  "supersedeParts root row =
     (let added = filter (\<lambda>v. v \<notin> set (rf_iSet row)) (dr_iSet root);
          removed = filter (\<lambda>v. v \<notin> set (dr_iSet root)) (rf_iSet row);
          parts =
            (if added \<noteq> [] \<or> removed \<noteq> []
             then [js ''i-set updated: added '' @ formatList added @ js ''; removed '' @ formatList removed] else [])
            @ (if json_tags (dr_imeta root) \<noteq> json_tags (rw_imeta row)
               then [js ''imeta updated: pinned artifacts changed''] else [])
            @ (if rf_genVersion row \<noteq> SECCERTS_GEN_VERSION
               then [js ''regenerated under template '' @ SECCERTS_GEN_VERSION] else [])
      in join_parts (if parts = [] then [js ''i-set and imeta unchanged''] else parts))"

definition pop_blank :: "jsstr list \<Rightarrow> jsstr list" where
  "pop_blank ls = rev (dropWhile (\<lambda>l. l = []) (rev ls))"

definition insertSupersedesLine :: "jsstr \<Rightarrow> jsstr \<Rightarrow> jsstr" where
  "insertSupersedesLine content sentence =
     (let ls = split_on 10 content in
      case find_index is_card_line ls of
        None \<Rightarrow> join_with 10 (ls @ [[], sentence])
      | Some i \<Rightarrow> join_with 10 (pop_blank (take i ls) @ [[], sentence, []] @ drop i ls))"

definition NOTICE_PREFIX :: jsstr where
  "NOTICE_PREFIX = js ''This event supersedes ''"

text \<open>\<open>/^This event supersedes [0-9a-f]{64} \(.*\)\.$/\<close>\<close>

definition is_notice :: "jsstr \<Rightarrow> bool" where
  "is_notice line \<longleftrightarrow>
     (let rest = drop (length NOTICE_PREFIX) line; tail = drop 66 rest in
      starts_with line NOTICE_PREFIX
      \<and> 64 \<le> length rest \<and> list_all is_lower_hex (take 64 rest) \<and> take 2 (drop 64 rest) = js '' (''
      \<and> 2 \<le> length tail \<and> drop (length tail - 2) tail = js '').''
      \<and> list_all (\<lambda>c. \<not> is_line_terminator c) (take (length tail - 2) tail))"

text \<open>The body and the notice.\<close>

definition stripSupersedesNotice :: "jsstr \<Rightarrow> jsstr \<times> jsstr option" where
  "stripSupersedesNotice content =
     (let ls = split_on 10 content in
      case find_index is_notice ls of
        None \<Rightarrow> (content, None)
      | Some i \<Rightarrow>
          let before = pop_blank (take i ls); after = dropWhile (\<lambda>l. l = []) (drop (i + 1) ls)
          in if after = [] then (join_with 10 before, Some (ls ! i))
             else (join_with 10 (before @ [] # after), Some (ls ! i)))"

definition supersedes_sentence :: "jsstr \<Rightarrow> jsstr \<Rightarrow> jsstr" where
  "supersedes_sentence i parts = NOTICE_PREFIX @ i @ js '' ('' @ parts @ js '').''"

section \<open>Building events\<close>

definition checked_event :: "engine_env \<Rightarrow> nostr_event \<Rightarrow> engine_error + nostr_event" where
  "checked_event env event =
     (case assertEventShape (ev_content event) (ev_tags event) of
        Inl err \<Rightarrow> Inl (Emit_fault err)
      | Inr _ \<Rightarrow>
          (case assertRule2a (ee_lower env) (ev_content event) (ev_tags event) of
             Inl err \<Rightarrow> Inl (Emit_fault err)
           | Inr _ \<Rightarrow> Inr event))"

definition buildRootEvent ::
    "engine_env \<Rightarrow> desired_root \<Rightarrow> jsstr \<Rightarrow> jsstr option \<Rightarrow> int \<Rightarrow> engine_error + nostr_event" where
  "buildRootEvent env root content supersedesId createdAt =
     (case dget ROOT_TYPE_BY_ROLE (dr_role root) of
        None \<Rightarrow> Inl Unknown_role
      | Some type \<Rightarrow>
          let iRows = iTags (map Some (dr_iSet root));
              tags = emit_baseTags type (dr_facets root) @ iRows @ kTagsFor iRows @ dr_imeta root
                @ (case supersedesId of None \<Rightarrow> [] | Some i \<Rightarrow> [[js ''e'', i, [], js ''supersedes'']])
          in checked_event env (ee_sign env
               \<lparr>un_kind = 1, un_created_at = createdAt, un_tags = tags, un_content = content\<rparr>))"

definition PATCH_TYPE :: jsstr where
  "PATCH_TYPE = js ''scrutiny-patch''"

definition patch_prose :: "desired_root \<Rightarrow> jsstr" where
  "patch_prose root = js ''content update for '' @ dr_sourceId root @ js '' (i-set unchanged)''"

definition marker_count :: "nostr_event \<Rightarrow> jsstr \<Rightarrow> nat" where
  "marker_count event v =
     length (filter (\<lambda>tag. nth_opt tag 0 = Some (js ''t'') \<and> nth_opt tag 1 = Some v) (ev_tags event))"

definition e_count :: "nostr_event \<Rightarrow> jsstr \<Rightarrow> nat" where
  "e_count event v =
     length (filter (\<lambda>tag. nth_opt tag 0 = Some (js ''e'') \<and> nth_opt tag 3 = Some v) (ev_tags event))"

definition buildPatchEvent ::
    "engine_env \<Rightarrow> desired_root \<Rightarrow> jsstr \<Rightarrow> jsstr \<Rightarrow> jsstr \<Rightarrow> int \<Rightarrow> engine_error + nostr_event" where
  "buildPatchEvent env root rootEventId tipEventId diff createdAt =
     (let content = patch_prose root @ [10, 10] @ wrapPatchEventPayload diff;
          tags = emit_baseTags PATCH_TYPE (dr_facets root)
            @ [[js ''e'', rootEventId, [], js ''root'', ee_pubkey env], [js ''e'', tipEventId, [], js ''reply'', ee_pubkey env]];
          event = ee_sign env \<lparr>un_kind = 1, un_created_at = createdAt, un_tags = tags, un_content = content\<rparr>
      in if ev_kind event \<noteq> 1 \<or> e_count event (js ''root'') \<noteq> 1 \<or> e_count event (js ''reply'') \<noteq> 1
           \<or> marker_count event (js ''scrutiny-patch'') \<noteq> 1 \<or> marker_count event (js ''scrutiny-fabric'') \<noteq> 1
           \<or> marker_count event FABRIC_VERSION_TAG \<noteq> 1
         then Inl Malformed_patch else Inr event)"

record binding_spec =
  bs_root :: jsstr
  bs_link :: jsstr
  bs_facets :: "jsstr list"
  bs_headline :: jsstr
  bs_bullets :: "jsstr list"
  bs_links :: "jsstr list option"

definition emit_buildBinding :: "engine_env \<Rightarrow> binding_spec \<Rightarrow> int \<Rightarrow> engine_error + nostr_event" where
  "emit_buildBinding env spec createdAt =
     (let base = composeContent (bs_headline spec) (bs_bullets spec)
            (case bs_links spec of None \<Rightarrow> [] | Some l \<Rightarrow> l) None;
          content = base @ [10, 10] @ js ''Refs: root '' @ bs_root spec @ js '' link '' @ bs_link spec;
          tags = emit_baseTags (js ''scrutiny-binding'') (bs_facets spec)
            @ [[js ''e'', bs_root spec, [], js ''root'', ee_pubkey env], [js ''e'', bs_link spec, [], js ''link'', ee_pubkey env]]
      in checked_event env (ee_sign env \<lparr>un_kind = 1, un_created_at = createdAt, un_tags = tags, un_content = content\<rparr>))"

definition buildRelationBinding ::
    "engine_env \<Rightarrow> desired_relation \<Rightarrow> jsstr \<Rightarrow> jsstr \<Rightarrow> int \<Rightarrow> engine_error + nostr_event" where
  "buildRelationBinding env relation rootEventId linkEventId createdAt =
     emit_buildBinding env
       \<lparr>bs_root = rootEventId, bs_link = linkEventId, bs_facets = de_facets relation, bs_headline = de_headline relation,
        bs_bullets = de_bullets relation, bs_links = Some (de_links relation)\<rparr> createdAt"

definition buildDeletion :: "engine_env \<Rightarrow> jsstr \<Rightarrow> jsstr \<Rightarrow> int \<Rightarrow> nostr_event" where
  "buildDeletion env targetId content createdAt =
     ee_sign env
       \<lparr>un_kind = 5, un_created_at = createdAt,
        un_tags = [[js ''t'', js ''scrutiny-fabric''], [js ''t'', FABRIC_VERSION_TAG], [js ''e'', targetId]],
        un_content = content\<rparr>"

section \<open>The state of a run\<close>

record reroot_entry =
  re_event :: nostr_event
  re_bindings :: "nostr_event list"

record engine_state =
  es_tick :: nat
  es_warnings :: "engine_warning list"
  es_retractions :: "jsstr list"
  es_counts :: engine_counts
  es_rootRows :: "root_upsert list"
  es_relationRows :: "relation_upsert list"
  es_rootEventIdByKey :: "jsstr dict"
  es_newRootEvents :: "(desired_root \<times> nostr_event) list"
  es_patchEvents :: "nostr_event list"
  es_reRootEntries :: "reroot_entry list"
  es_reRootEntryByKey :: "nat dict"
  es_reRootedKeys :: "jsstr list"
  es_deletionEvents :: "nostr_event list"
  es_patchParents :: "jsstr list"
  es_seenRootKeys :: "jsstr list"
  es_newRelationEvents :: "nostr_event list"
  es_seenRelationKeys :: "jsstr list"

definition zero_counts :: engine_counts where
  "zero_counts =
     \<lparr>ct_newRoots = 0, ct_patches = 0, ct_reRoots = 0, ct_newRelations = 0, ct_retractedRelations = 0,
      ct_replacedRelations = 0, ct_unchanged = 0, ct_disappeared = 0\<rparr>"

text \<open>The snapshot of the ledger: the live roots and the relations of every corpus the state names.\<close>

definition root_corpora :: "desired_state \<Rightarrow> jsstr list" where
  "root_corpora state =
     set_of (dkeys (ds_sourceIdsByCorpus state) @ map dr_corpus (ds_roots state)
       @ concat (map (\<lambda>r. [ek_corpus (de_rootRef r), ek_corpus (de_linkRef r)]) (ds_relations state)))"

definition relation_corpora :: "desired_state \<Rightarrow> jsstr list" where
  "relation_corpora state = set_of (dkeys (ds_sourceIdsByCorpus state) @ map de_corpus (ds_relations state))"

definition row_key :: "'a root_fields_scheme \<Rightarrow> jsstr" where
  "row_key row = rootKeyOf (rf_corpus row) (rf_sourceId row) (rf_role row)"

definition desired_key :: "desired_root \<Rightarrow> jsstr" where
  "desired_key root = rootKeyOf (dr_corpus root) (dr_sourceId root) (dr_role root)"

definition end_key :: "endpoint_key \<Rightarrow> jsstr" where
  "end_key e = rootKeyOf (ek_corpus e) (ek_sourceId e) (ek_role e)"

definition map_by :: "('r \<Rightarrow> jsstr) \<Rightarrow> 'r list \<Rightarrow> 'r dict" where
  "map_by key rows = fold (\<lambda>r d. dset (key r) r d) rows []"

definition live_roots :: "desired_state \<Rightarrow> ledger \<Rightarrow> root_row dict dict" where
  "live_roots state db = map (\<lambda>c. (c, map_by row_key (rootsByCorpus c db))) (root_corpora state)"

definition ledger_relations :: "desired_state \<Rightarrow> ledger \<Rightarrow> relation_row dict dict" where
  "ledger_relations state db = map (\<lambda>c. (c, map_by lu_relationId (relationsByCorpus c db))) (relation_corpora state)"

definition initial_state :: "desired_state \<Rightarrow> ledger \<Rightarrow> engine_state" where
  "initial_state state db =
     \<lparr>es_tick = 0, es_warnings = [], es_retractions = [], es_counts = zero_counts, es_rootRows = [], es_relationRows = [],
      es_rootEventIdByKey =
        fold (\<lambda>row d. dset (row_key row) (rf_rootEventId row) d) (concat (map dvalues (dvalues (live_roots state db)))) [],
      es_newRootEvents = [], es_patchEvents = [], es_reRootEntries = [], es_reRootEntryByKey = [], es_reRootedKeys = [],
      es_deletionEvents = [], es_patchParents = [], es_seenRootKeys = [], es_newRelationEvents = [],
      es_seenRelationKeys = []\<rparr>"

definition warn :: "engine_warning \<Rightarrow> engine_state \<Rightarrow> engine_state" where
  "warn w st = st\<lparr>es_warnings := es_warnings st @ [w]\<rparr>"

definition count :: "(engine_counts \<Rightarrow> engine_counts) \<Rightarrow> engine_state \<Rightarrow> engine_state" where
  "count f st = st\<lparr>es_counts := f (es_counts st)\<rparr>"

definition push_row :: "root_upsert \<Rightarrow> engine_state \<Rightarrow> engine_state" where
  "push_row row st = st\<lparr>es_rootRows := es_rootRows st @ [row]\<rparr>"

definition tick :: "engine_state \<Rightarrow> engine_state" where
  "tick st = st\<lparr>es_tick := es_tick st + 1\<rparr>"

definition pushDeletion :: "engine_env \<Rightarrow> jsstr \<Rightarrow> jsstr \<Rightarrow> engine_state \<Rightarrow> engine_state" where
  "pushDeletion env targetId content st =
     (let event = buildDeletion env targetId content (ee_clock env (es_tick st))
      in tick (st\<lparr>es_deletionEvents := es_deletionEvents st @ [event],
                  es_retractions := es_retractions st @ [ev_id event]\<rparr>))"

section \<open>Roots: C1 to C4\<close>

text \<open>The row that records a root whose current event, tip and content are given.\<close>

definition emitted_row :: "engine_env \<Rightarrow> desired_root \<Rightarrow> jsstr \<Rightarrow> jsstr \<Rightarrow> jsstr \<Rightarrow> root_upsert" where
  "emitted_row env root rootEventId tipEventId content =
     \<lparr>rf_corpus = dr_corpus root, rf_sourceId = dr_sourceId root, rf_role = dr_role root, rf_rootEventId = rootEventId,
      rf_tipEventId = tipEventId, rf_tipContent = content, rf_contentHash = ee_sha256 env content, rf_iSet = dr_iSet root,
      rf_sourceHash = dr_sourceHash root, rf_genVersion = SECCERTS_GEN_VERSION, rf_state = Live,
      ru_imeta = Some (dr_imeta root)\<rparr>"

definition kept_row :: "root_row \<Rightarrow> jsstr \<Rightarrow> jsstr \<Rightarrow> row_state \<Rightarrow> root_upsert" where
  "kept_row row sourceHash genVersion state =
     \<lparr>rf_corpus = rf_corpus row, rf_sourceId = rf_sourceId row, rf_role = rf_role row,
      rf_rootEventId = rf_rootEventId row, rf_tipEventId = rf_tipEventId row, rf_tipContent = rf_tipContent row,
      rf_contentHash = rf_contentHash row, rf_iSet = rf_iSet row, rf_sourceHash = sourceHash,
      rf_genVersion = genVersion, rf_state = state, ru_imeta = Some (rw_imeta row)\<rparr>"

definition live_row :: "root_row dict dict \<Rightarrow> desired_root \<Rightarrow> root_row option" where
  "live_row live root =
     (case dget live (dr_corpus root) of None \<Rightarrow> None | Some rows \<Rightarrow> dget rows (desired_key root))"

definition effective_content :: "desired_root \<Rightarrow> root_row \<Rightarrow> jsstr" where
  "effective_content root row =
     (case snd (stripSupersedesNotice (rf_tipContent row)) of
        None \<Rightarrow> dr_content root
      | Some notice \<Rightarrow>
          if snd (stripSupersedesNotice (dr_content root)) \<noteq> None then dr_content root
          else insertSupersedesLine (dr_content root) notice)"

definition new_root :: "engine_env \<Rightarrow> desired_root \<Rightarrow> engine_state \<Rightarrow> engine_error + engine_state" where
  "new_root env root st =
     (case buildRootEvent env root (dr_content root) None (ee_clock env (es_tick st)) of
        Inl err \<Rightarrow> Inl err
      | Inr event \<Rightarrow>
          Inr (count (\<lambda>c. c\<lparr>ct_newRoots := ct_newRoots c + 1\<rparr>)
                 (push_row (emitted_row env root (ev_id event) (ev_id event) (dr_content root))
                    (tick (st\<lparr>es_newRootEvents := es_newRootEvents st @ [(root, event)],
                             es_rootEventIdByKey := dset (desired_key root) (ev_id event) (es_rootEventIdByKey st)\<rparr>)))))"

definition patch_root ::
    "engine_env \<Rightarrow> desired_root \<Rightarrow> root_row \<Rightarrow> engine_state \<Rightarrow> engine_error + engine_state" where
  "patch_root env root row st =
     (if rf_tipEventId row \<in> set (es_patchParents st) then Inr (warn (Fork_patch (desired_key root)) st)
      else
        let effective = effective_content root row in
        case createPatch (rf_tipContent row) effective of
          Inl err \<Rightarrow> Inl (Diff_fault err)
        | Inr diff \<Rightarrow>
            if diff = [] then Inl Empty_diff
            else
              (case buildPatchEvent env root (rf_rootEventId row) (rf_tipEventId row) diff (ee_clock env (es_tick st)) of
                 Inl err \<Rightarrow> Inl err
               | Inr event \<Rightarrow>
                   Inr (count (\<lambda>c. c\<lparr>ct_patches := ct_patches c + 1\<rparr>)
                     (push_row (emitted_row env root (rf_rootEventId row) (ev_id event) effective)
                       (tick (st\<lparr>es_patchEvents := es_patchEvents st @ [event],
                                es_patchParents := sadd (rf_tipEventId row) (es_patchParents st)\<rparr>))))))"

definition re_root ::
    "engine_env \<Rightarrow> desired_root \<Rightarrow> root_row \<Rightarrow> engine_state \<Rightarrow> engine_error + engine_state" where
  "re_root env root row st =
     (if rf_tipEventId row \<in> set (es_patchParents st) then Inr (warn (Fork_reroot (desired_key root)) st)
      else
        let key = desired_key root;
            st = (if dr_supersedes root \<noteq> None \<and> dr_supersedes root \<noteq> Some (rf_rootEventId row)
                  then warn (Supersedes_mismatch key) st else st);
            parts = supersedeParts root row;
            content = insertSupersedesLine (fst (stripSupersedesNotice (dr_content root)))
              (supersedes_sentence (rf_rootEventId row) parts)
        in case buildRootEvent env root content (Some (rf_rootEventId row)) (ee_clock env (es_tick st)) of
             Inl err \<Rightarrow> Inl err
           | Inr event \<Rightarrow>
               let st = tick (st\<lparr>es_reRootEntryByKey := dset key (length (es_reRootEntries st)) (es_reRootEntryByKey st),
                      es_reRootEntries := es_reRootEntries st @ [\<lparr>re_event = event, re_bindings = []\<rparr>],
                      es_reRootedKeys := sadd key (es_reRootedKeys st)\<rparr>);
                   st = pushDeletion env (rf_rootEventId row)
                     (js ''Superseded by '' @ ev_id event @ js '' ('' @ parts @ js '').'') st;
                   st = push_row (emitted_row env root (ev_id event) (ev_id event) content) st
               in Inr (count (\<lambda>c. c\<lparr>ct_reRoots := ct_reRoots c + 1\<rparr>)
                    (st\<lparr>es_rootEventIdByKey := dset key (ev_id event) (es_rootEventIdByKey st)\<rparr>)))"

definition root_step ::
    "engine_env \<Rightarrow> root_row dict dict \<Rightarrow> desired_root \<Rightarrow> engine_state \<Rightarrow> engine_error + engine_state" where
  "root_step env live root st =
     (let key = desired_key root in
      if key \<in> set (es_seenRootKeys st) then Inr (warn (Duplicate_root key) st)
      else
        let st = st\<lparr>es_seenRootKeys := sadd key (es_seenRootKeys st)\<rparr> in
        case live_row live root of
          None \<Rightarrow> new_root env root st
        | Some row \<Rightarrow>
            let same = (strings_text (rf_iSet row) = strings_text (dr_iSet root)
                        \<and> json_tags (rw_imeta row) = json_tags (dr_imeta root))
            in if same \<and> rf_tipContent row = effective_content root row then
                 let st = count (\<lambda>c. c\<lparr>ct_unchanged := ct_unchanged c + 1\<rparr>) st
                 in Inr (if rf_genVersion row = SECCERTS_GEN_VERSION \<and> rf_sourceHash row \<noteq> dr_sourceHash root
                         then push_row (kept_row row (dr_sourceHash root) SECCERTS_GEN_VERSION Live) st else st)
               else if same \<and> rf_genVersion row = SECCERTS_GEN_VERSION then patch_root env root row st
               else re_root env root row st)"

fun root_loop ::
    "engine_env \<Rightarrow> root_row dict dict \<Rightarrow> desired_root list \<Rightarrow> engine_state \<Rightarrow> engine_error + engine_state" where
  "root_loop env live [] st = Inr st"
| "root_loop env live (r # rs) st =
     (case root_step env live r st of Inl err \<Rightarrow> Inl err | Inr st' \<Rightarrow> root_loop env live rs st')"

section \<open>Sources that are gone: C5\<close>

definition known_sources :: "ledger \<Rightarrow> jsstr \<Rightarrow> jsstr list" where
  "known_sources db corpus = set_of (concat (map (\<lambda>role. knownSourceIds corpus role db) C5_RECORD_ROLES))"

definition retire_row :: "jsstr \<Rightarrow> jsstr \<Rightarrow> root_row \<Rightarrow> engine_state \<Rightarrow> engine_state" where
  "retire_row corpus sourceId row st =
     (let st = push_row (kept_row row (rf_sourceHash row) (rf_genVersion row) Gone) st
      in st\<lparr>es_rootEventIdByKey := ddel (rootKeyOf corpus sourceId (rf_role row)) (es_rootEventIdByKey st)\<rparr>)"

definition retire_source :: "jsstr \<Rightarrow> root_row dict \<Rightarrow> jsstr list \<Rightarrow> jsstr \<Rightarrow> engine_state \<Rightarrow> engine_state" where
  "retire_source corpus rows desired sourceId st =
     (if sourceId \<in> set desired then st
      else
        let gone = filter (\<lambda>row. rf_sourceId row = sourceId) (dvalues rows) in
        if gone = [] then st
        else warn (Source_gone corpus sourceId (map rf_role gone))
               (count (\<lambda>c. c\<lparr>ct_disappeared := ct_disappeared c + 1\<rparr>) (fold (retire_row corpus sourceId) gone st)))"

definition retire_corpus ::
    "ledger \<Rightarrow> root_row dict dict \<Rightarrow> jsstr \<times> jsstr list \<Rightarrow> engine_state \<Rightarrow> engine_state" where
  "retire_corpus db live entry st =
     (case entry of (corpus, desired) \<Rightarrow>
        (case dget live corpus of
           None \<Rightarrow> st
         | Some rows \<Rightarrow> fold (retire_source corpus rows desired) (known_sources db corpus) st))"

section \<open>Relations: R1 to R5\<close>

definition relation_upsert_of :: "desired_relation \<Rightarrow> jsstr \<Rightarrow> relation_upsert" where
  "relation_upsert_of relation eventId =
     \<lparr>lu_corpus = de_corpus relation, lu_relationId = de_relationId relation, lu_kind = de_kind relation,
      lu_subjectId = ek_sourceId (de_rootRef relation), lu_objectKey = ek_sourceId (de_linkRef relation),
      lu_fingerprint = de_fingerprint relation, lu_eventId = eventId, lu_state = Live\<rparr>"

definition place :: "nat option \<Rightarrow> nostr_event \<Rightarrow> engine_state \<Rightarrow> engine_state" where
  "place index event st =
     (case index of
        None \<Rightarrow> st\<lparr>es_newRelationEvents := es_newRelationEvents st @ [event]\<rparr>
      | Some i \<Rightarrow>
          if i < length (es_reRootEntries st) then
            st\<lparr>es_reRootEntries := (es_reRootEntries st)
                 [i := (es_reRootEntries st ! i)\<lparr>re_bindings := re_bindings (es_reRootEntries st ! i) @ [event]\<rparr>]\<rparr>
          else st\<lparr>es_newRelationEvents := es_newRelationEvents st @ [event]\<rparr>)"

definition reroot_index :: "engine_state \<Rightarrow> jsstr \<Rightarrow> jsstr \<Rightarrow> nat option" where
  "reroot_index st rootAnchorKey linkAnchorKey =
     (if rootAnchorKey \<in> set (es_reRootedKeys st) then dget (es_reRootEntryByKey st) rootAnchorKey
      else if linkAnchorKey \<in> set (es_reRootedKeys st) then dget (es_reRootEntryByKey st) linkAnchorKey
      else None)"

definition replace_reason :: "bool \<Rightarrow> nat option \<Rightarrow> jsstr" where
  "replace_reason fingerprintEqual index =
     (if index \<noteq> None then
        (if fingerprintEqual then js ''anchor root re-rooted'' else js ''anchor root re-rooted and assertion updated'')
      else js ''assertion updated (fingerprint)'')"

definition emit_binding ::
    "engine_env \<Rightarrow> desired_relation \<Rightarrow> jsstr \<Rightarrow> jsstr \<Rightarrow> nat option \<Rightarrow> (engine_counts \<Rightarrow> engine_counts)
     \<Rightarrow> engine_state \<Rightarrow> engine_error + engine_state" where
  "emit_binding env relation rootEventId linkEventId index counted st =
     (case buildRelationBinding env relation rootEventId linkEventId (ee_clock env (es_tick st)) of
        Inl err \<Rightarrow> Inl err
      | Inr event \<Rightarrow>
          let st = place index event (tick st);
              st = st\<lparr>es_relationRows := es_relationRows st @ [relation_upsert_of relation (ev_id event)]\<rparr>
          in Inr (count counted st))"

definition known_row :: "relation_row dict dict \<Rightarrow> desired_relation \<Rightarrow> relation_row option" where
  "known_row known relation =
     (case dget known (de_corpus relation) of None \<Rightarrow> None | Some rows \<Rightarrow> dget rows (de_relationId relation))"

definition relation_step ::
    "engine_env \<Rightarrow> relation_row dict dict \<Rightarrow> desired_relation \<Rightarrow> engine_state \<Rightarrow> engine_error + engine_state" where
  "relation_step env known relation st =
     (let seenKey = de_corpus relation @ 0 # de_relationId relation in
      if seenKey \<in> set (es_seenRelationKeys st) then Inr (warn (Duplicate_relation seenKey) st)
      else
        let st = st\<lparr>es_seenRelationKeys := sadd seenKey (es_seenRelationKeys st)\<rparr>;
            rootAnchorKey = end_key (de_rootRef relation); linkAnchorKey = end_key (de_linkRef relation)
        in case (dget (es_rootEventIdByKey st) rootAnchorKey, dget (es_rootEventIdByKey st) linkAnchorKey) of
             (Some rootEventId, Some linkEventId) \<Rightarrow>
               let index = reroot_index st rootAnchorKey linkAnchorKey;
                   new = emit_binding env relation rootEventId linkEventId index
                     (\<lambda>c. c\<lparr>ct_newRelations := ct_newRelations c + 1\<rparr>) st
               in (case known_row known relation of
                     None \<Rightarrow> new
                   | Some row \<Rightarrow>
                       if lu_state row = Gone then new
                       else if lu_fingerprint row = de_fingerprint relation \<and> index = None then
                         Inr (count (\<lambda>c. c\<lparr>ct_unchanged := ct_unchanged c + 1\<rparr>) st)
                       else
                         emit_binding env relation rootEventId linkEventId index
                           (\<lambda>c. c\<lparr>ct_replacedRelations := ct_replacedRelations c + 1\<rparr>)
                           (pushDeletion env (lu_eventId row)
                              (js ''Replaced by a new binding for '' @ de_relationId relation @ js '' (''
                               @ replace_reason (lu_fingerprint row = de_fingerprint relation) index @ js '').'') st))
           | _ \<Rightarrow> Inr (warn (Endpoint_missing seenKey) st))"

fun relation_loop ::
    "engine_env \<Rightarrow> relation_row dict dict \<Rightarrow> desired_relation list \<Rightarrow> engine_state \<Rightarrow> engine_error + engine_state" where
  "relation_loop env known [] st = Inr st"
| "relation_loop env known (r # rs) st =
     (case relation_step env known r st of Inl err \<Rightarrow> Inl err | Inr st' \<Rightarrow> relation_loop env known rs st')"

definition retract_row :: "engine_env \<Rightarrow> jsstr list \<Rightarrow> relation_row \<Rightarrow> engine_state \<Rightarrow> engine_state" where
  "retract_row env desired row st =
     (if lu_state row \<noteq> Live \<or> lu_relationId row \<in> set desired then st
      else
        let st = pushDeletion env (lu_eventId row)
              (js ''Retracted: binding '' @ lu_relationId row
               @ [32, 0x2014] @ js '' relation absent from the current source projection.'') st;
            st = st\<lparr>es_relationRows := es_relationRows st
                @ [\<lparr>lu_corpus = lu_corpus row, lu_relationId = lu_relationId row, lu_kind = lu_kind row,
                    lu_subjectId = lu_subjectId row, lu_objectKey = lu_objectKey row, lu_fingerprint = lu_fingerprint row,
                    lu_eventId = lu_eventId row, lu_state = Gone\<rparr>]\<rparr>
        in count (\<lambda>c. c\<lparr>ct_retractedRelations := ct_retractedRelations c + 1\<rparr>) st)"

definition retract_corpus ::
    "engine_env \<Rightarrow> desired_relation list \<Rightarrow> jsstr \<times> relation_row dict \<Rightarrow> engine_state \<Rightarrow> engine_state" where
  "retract_corpus env relations entry st =
     (case entry of (corpus, rows) \<Rightarrow>
        fold (retract_row env (map de_relationId (filter (\<lambda>r. de_corpus r = corpus) relations))) (dvalues rows) st)"

section \<open>A run\<close>

definition assemble :: "engine_state \<Rightarrow> nostr_event list" where
  "assemble st =
     map snd (sort_key (\<lambda>entry. rootGroupRank (fst entry)) (es_newRootEvents st))
     @ es_newRelationEvents st @ es_patchEvents st
     @ concat (map (\<lambda>entry. re_event entry # re_bindings entry) (es_reRootEntries st))
     @ es_deletionEvents st"

definition result_of :: "engine_state \<Rightarrow> engine_result" where
  "result_of st =
     \<lparr>rn_events = assemble st, rn_rootRows = es_rootRows st, rn_relationRows = es_relationRows st,
      rn_retractions = es_retractions st, rn_counts = es_counts st, rn_warnings = es_warnings st\<rparr>"

definition run_state :: "engine_env \<Rightarrow> desired_state \<Rightarrow> ledger \<Rightarrow> engine_error + engine_state" where
  "run_state env state db =
     (case root_loop env (live_roots state db) (ds_roots state) (initial_state state db) of
        Inl err \<Rightarrow> Inl err
      | Inr st \<Rightarrow>
          (case relation_loop env (ledger_relations state db) (ds_relations state)
              (fold (retire_corpus db (live_roots state db)) (ds_sourceIdsByCorpus state) st) of
             Inl err \<Rightarrow> Inl err
           | Inr st \<Rightarrow> Inr (fold (retract_corpus env (ds_relations state)) (ledger_relations state db) st)))"

definition runEngine :: "engine_env \<Rightarrow> desired_state \<Rightarrow> ledger \<Rightarrow> engine_error + engine_result" where
  "runEngine env state db = map_sum id result_of (run_state env state db)"

end
