(* ===== verification/EngineRun.thy ===== *)
theory EngineRun
  imports Engine
begin

text \<open>
  What a run of the engine produces: its counts account for its events (\<open>run_accounts\<close>), its deletions
  come last and undo only what the ledger records (\<open>deletions_last\<close>), it never forks a chain (\<open>no_self_fork\<close>), and
  its patches work for a consumer (\<open>patches_apply\<close>). Each follows from an invariant that every step of the loops
  keeps (\<open>run_keeps\<close>).
\<close>

section \<open>Invariants of the steps\<close>

lemma root_loop_keeps:
  assumes "root_loop env live roots st = Inr st'" "P st"
    and "\<And>r s s'. r \<in> set roots \<Longrightarrow> P s \<Longrightarrow> root_step env live r s = Inr s' \<Longrightarrow> P s'"
  shows "P st'"
  using assms
proof (induction roots arbitrary: st)
  case (Cons r roots)
  obtain s where s: "root_step env live r st = Inr s" "root_loop env live roots s = Inr st'"
    using Cons.prems(1) by (auto split: sum.splits)
  have "P s"
    by (rule Cons.prems(3) [OF _ Cons.prems(2) s(1)]) simp
  show ?case
    by (rule Cons.IH [OF s(2) \<open>P s\<close>]) (rule Cons.prems(3); simp)
qed simp

lemma relation_loop_keeps:
  assumes "relation_loop env known rels st = Inr st'" "P st"
    and "\<And>r s s'. r \<in> set rels \<Longrightarrow> P s \<Longrightarrow> relation_step env known r s = Inr s' \<Longrightarrow> P s'"
  shows "P st'"
  using assms
proof (induction rels arbitrary: st)
  case (Cons r rels)
  obtain s where s: "relation_step env known r st = Inr s" "relation_loop env known rels s = Inr st'"
    using Cons.prems(1) by (auto split: sum.splits)
  have "P s"
    by (rule Cons.prems(3) [OF _ Cons.prems(2) s(1)]) simp
  show ?case
    by (rule Cons.IH [OF s(2) \<open>P s\<close>]) (rule Cons.prems(3); simp)
qed simp

lemma run_keeps:
  assumes "run_state env state db = Inr st'" "P (initial_state state db)"
    and "\<And>r s s'. r \<in> set (ds_roots state) \<Longrightarrow> P s \<Longrightarrow> root_step env (live_roots state db) r s = Inr s' \<Longrightarrow> P s'"
    and "\<And>e s. e \<in> set (ds_sourceIdsByCorpus state) \<Longrightarrow> P s \<Longrightarrow> P (retire_corpus db (live_roots state db) e s)"
    and "\<And>r s s'. r \<in> set (ds_relations state) \<Longrightarrow> P s \<Longrightarrow> relation_step env (ledger_relations state db) r s = Inr s' \<Longrightarrow> P s'"
    and "\<And>e s. e \<in> set (ledger_relations state db) \<Longrightarrow> P s \<Longrightarrow> P (retract_corpus env (ds_relations state) e s)"
  shows "P st'"
proof -
  obtain s1 where s1: "root_loop env (live_roots state db) (ds_roots state) (initial_state state db) = Inr s1"
    using assms(1) by (auto simp: run_state_def split: sum.splits)
  let ?s2 = "fold (retire_corpus db (live_roots state db)) (ds_sourceIdsByCorpus state) s1"
  obtain s3 where s3: "relation_loop env (ledger_relations state db) (ds_relations state) ?s2 = Inr s3"
    "st' = fold (retract_corpus env (ds_relations state)) (ledger_relations state db) s3"
    using assms(1) s1 by (auto simp: run_state_def split: sum.splits)
  have "P s1"
    by (rule root_loop_keeps [where P = P, OF s1]) (rule assms(2), rule assms(3))
  then have "P ?s2"
    by (rule fold_keeps) (rule assms(4))
  then have "P s3"
    by (intro relation_loop_keeps [where P = P, OF s3(1)]) (assumption, rule assms(5))
  then show ?thesis
    unfolding s3(2) by (rule fold_keeps) (rule assms(6))
qed

section \<open>Counts\<close>

definition emitted :: "engine_state \<Rightarrow> nat" where
  "emitted st =
     length (es_newRootEvents st) + length (es_newRelationEvents st) + length (es_patchEvents st)
     + sum_list (map (\<lambda>e. Suc (length (re_bindings e))) (es_reRootEntries st)) + length (es_deletionEvents st)"

definition announced :: "engine_counts \<Rightarrow> nat" where
  "announced c =
     ct_newRoots c + ct_patches c + 2 * ct_reRoots c + ct_newRelations c + 2 * ct_replacedRelations c
     + ct_retractedRelations c"

definition counted :: "engine_state \<Rightarrow> bool" where
  "counted st \<longleftrightarrow> emitted st = announced (es_counts st)"

lemma root_event_counted:
  assumes "counted st"
  shows "new_root env root st = Inr st' \<Longrightarrow> counted st'" "patch_root env root row st = Inr st' \<Longrightarrow> counted st'"
proof -
  show "new_root env root st = Inr st' \<Longrightarrow> counted st'"
    using assms by (auto simp: new_root_def count_def push_row_def tick_def counted_def emitted_def announced_def split: sum.splits)
  show "patch_root env root row st = Inr st' \<Longrightarrow> counted st'"
    using assms by (auto simp: patch_root_def Let_def warn_def count_def push_row_def tick_def counted_def emitted_def
        announced_def split: sum.splits if_splits)
qed

text \<open>What a re-root does when it is not aborted.\<close>

lemma re_rootE:
  assumes "re_root env root row st = Inr st'"
  obtains (fork) "st' = warn (Fork_reroot (desired_key root)) st"
  | (rerooted) s content event c where "s = st \<or> (\<exists>w. s = warn w st)"
      "buildRootEvent env root content (Some (rf_rootEventId row)) (ee_clock env (es_tick s)) = Inr event"
      "st' = count (\<lambda>c. c\<lparr>ct_reRoots := ct_reRoots c + 1\<rparr>)
         ((push_row (emitted_row env root (ev_id event) (ev_id event) content)
            (pushDeletion env (rf_rootEventId row) c
              (tick (s\<lparr>es_reRootEntryByKey := dset (desired_key root) (length (es_reRootEntries s)) (es_reRootEntryByKey s),
                      es_reRootEntries := es_reRootEntries s @ [\<lparr>re_event = event, re_bindings = []\<rparr>],
                      es_reRootedKeys := sadd (desired_key root) (es_reRootedKeys s)\<rparr>))))
          \<lparr>es_rootEventIdByKey := dset (desired_key root) (ev_id event)
             (es_rootEventIdByKey (push_row (emitted_row env root (ev_id event) (ev_id event) content)
            (pushDeletion env (rf_rootEventId row) c
              (tick (s\<lparr>es_reRootEntryByKey := dset (desired_key root) (length (es_reRootEntries s)) (es_reRootEntryByKey s),
                      es_reRootEntries := es_reRootEntries s @ [\<lparr>re_event = event, re_bindings = []\<rparr>],
                      es_reRootedKeys := sadd (desired_key root) (es_reRootedKeys s)\<rparr>)))))\<rparr>)"
      "\<not> list_all is_space c"
proof (cases "rf_tipEventId row \<in> set (es_patchParents st)")
  case True
  then show thesis
    using assms fork by (simp add: re_root_def)
next
  case False
  define s where "s = (if dr_supersedes root \<noteq> None \<and> dr_supersedes root \<noteq> Some (rf_rootEventId row)
      then warn (Supersedes_mismatch (desired_key root)) st else st)"
  define parts where "parts = supersedeParts root row"
  define content where "content = insertSupersedesLine (fst (stripSupersedesNotice (dr_content root)))
      (supersedes_sentence (rf_rootEventId row) parts)"
  note step = assms [unfolded re_root_def Let_def if_not_P [OF False], folded s_def, folded parts_def, folded content_def]
  obtain event where e: "buildRootEvent env root content (Some (rf_rootEventId row)) (ee_clock env (es_tick s)) = Inr event"
    using step by (cases "buildRootEvent env root content (Some (rf_rootEventId row)) (ee_clock env (es_tick s))") simp_all
  have "s = st \<or> (\<exists>w. s = warn w st)"
    by (auto simp: s_def)
  then show thesis
    by (rule rerooted [OF _ e, where c = "js ''Superseded by '' @ ev_id event @ js '' ('' @ parts @ js '').''"])
      (use step in \<open>simp_all only: e sum.case sum.inject, simp add: js_def cu_def is_space_def is_line_terminator_def\<close>)
qed

lemma re_root_counted:
  assumes "counted st" "re_root env root row st = Inr st'"
  shows "counted st'"
  using assms(2)
proof (cases rule: re_rootE)
  case (rerooted s content event c)
  have "emitted s = announced (es_counts s)"
    using assms(1) rerooted(1) by (auto simp: counted_def emitted_def warn_def)
  then show ?thesis
    by (simp add: rerooted(3) counted_def emitted_def announced_def tick_def pushDeletion_def push_row_def count_def Let_def)
qed (use assms(1) in \<open>simp add: counted_def emitted_def warn_def\<close>)

lemma root_step_counted:
  assumes "counted st" "root_step env live r st = Inr st'"
  shows "counted st'"
proof -
  let ?s = "st\<lparr>es_seenRootKeys := sadd (desired_key r) (es_seenRootKeys st)\<rparr>"
  have s: "counted ?s" "counted (count (\<lambda>c. c\<lparr>ct_unchanged := ct_unchanged c + 1\<rparr>) ?s)"
    and w: "counted (warn x st)" and p: "counted t \<Longrightarrow> counted (push_row y t)" for x y t
    using assms(1) by (simp_all add: counted_def emitted_def announced_def count_def warn_def push_row_def)
  show ?thesis
    using assms(2) s w p root_event_counted [OF s(1)] re_root_counted [OF s(1)]
    by (auto simp: root_step_def Let_def split: if_splits option.splits)
qed

lemma place_emitted: "emitted (place i e st) = Suc (emitted st)"
proof (cases "\<exists>k. i = Some k \<and> k < length (es_reRootEntries st)")
  case True
  then obtain k where k: "i = Some k" "k < length (es_reRootEntries st)" by blast
  have "sum_list (map (\<lambda>e. Suc (length (re_bindings e))) ((es_reRootEntries st)[k := (es_reRootEntries st ! k)\<lparr>re_bindings := re_bindings (es_reRootEntries st ! k) @ [e]\<rparr>]))
      = Suc (sum_list (map (\<lambda>e. Suc (length (re_bindings e))) (es_reRootEntries st)))"
    using k(2) by (subst map_update, subst sum_list_update) (auto simp: elem_le_sum_list intro: elem_le_sum_list)
  then show ?thesis
    using k by (simp add: place_def emitted_def)
next
  case False
  then show ?thesis
    by (auto simp: place_def emitted_def split: option.splits)
qed

lemma place_counts [simp]: "es_counts (place i e st) = es_counts st"
  by (auto simp: place_def split: option.splits)

lemma emitted_simps [simp]:
  "emitted (count f st) = emitted st" "emitted (tick st) = emitted st" "emitted (warn w st) = emitted st"
  "emitted (pushDeletion env t c st) = Suc (emitted st)"
  "emitted (st\<lparr>es_relationRows := rr\<rparr>) = emitted st" "emitted (st\<lparr>es_seenRelationKeys := kk\<rparr>) = emitted st"
  "es_counts (count f st) = f (es_counts st)" "es_counts (tick st) = es_counts st" "es_counts (warn w st) = es_counts st"
  "es_counts (pushDeletion env t c st) = es_counts st"
  by (simp_all add: emitted_def count_def tick_def warn_def pushDeletion_def Let_def)

lemma relation_step_counted: "counted st \<Longrightarrow> relation_step env known r st = Inr st' \<Longrightarrow> counted st'"
  by (auto simp: relation_step_def emit_binding_def Let_def counted_def announced_def place_emitted
      split: if_splits option.splits sum.splits)

lemma retire_corpus_keeps:
  assumes "P st"
    and "\<And>rows row sid s. dget live (fst e) = Some rows \<Longrightarrow> row \<in> set (dvalues rows) \<Longrightarrow> rf_sourceId row = sid \<Longrightarrow>
           sid \<notin> set (snd e) \<Longrightarrow> sid \<in> set (known_sources db (fst e)) \<Longrightarrow> P s \<Longrightarrow> P (retire_row (fst e) sid row s)"
    and "\<And>s. P s \<Longrightarrow> P (count (\<lambda>c. c\<lparr>ct_disappeared := ct_disappeared c + 1\<rparr>) s)" "\<And>w s. P s \<Longrightarrow> P (warn w s)"
  shows "P (retire_corpus db live e st)"
proof (cases "dget live (fst e)")
  case None
  then show ?thesis
    using assms(1) by (simp add: retire_corpus_def case_prod_beta)
next
  case (Some rows)
  have "P (retire_source (fst e) rows (snd e) sid s)" if "P s" "sid \<in> set (known_sources db (fst e))" for sid s
  proof (cases "sid \<in> set (snd e) \<or> filter (\<lambda>row. rf_sourceId row = sid) (dvalues rows) = []")
    case True
    then show ?thesis
      using that(1) by (auto simp: retire_source_def simp del: filter_empty_conv filter_map)
  next
    case False
    have "P (fold (retire_row (fst e) sid) (filter (\<lambda>row. rf_sourceId row = sid) (dvalues rows)) s)"
      by (rule fold_keeps [of P, OF that(1)]) (rule assms(2) [OF Some]; use False that(2) in auto)
    then have "P (warn (Source_gone (fst e) sid (map rf_role (filter (\<lambda>row. rf_sourceId row = sid) (dvalues rows))))
        (count (\<lambda>c. c\<lparr>ct_disappeared := ct_disappeared c + 1\<rparr>)
          (fold (retire_row (fst e) sid) (filter (\<lambda>row. rf_sourceId row = sid) (dvalues rows)) s)))"
      by (intro assms(3,4))
    then show ?thesis
      using False unfolding retire_source_def Let_def by (simp only: de_Morgan_disj if_False)
  qed
  then have "P (fold (retire_source (fst e) rows (snd e)) (known_sources db (fst e)) st)"
    by (intro fold_keeps [of P, OF assms(1)])
  then show ?thesis
    by (simp add: retire_corpus_def case_prod_beta Some)
qed

lemma retract_corpus_keeps:
  assumes "P st" and "\<And>desired row s. row \<in> set (dvalues (snd e)) \<Longrightarrow> P s \<Longrightarrow> P (retract_row env desired row s)"
  shows "P (retract_corpus env relations e st)"
  unfolding retract_corpus_def case_prod_beta by (rule fold_keeps [of P, OF assms(1)]) (rule assms(2))

lemma run_counted: "run_state env state db = Inr st \<Longrightarrow> counted st"
proof (rule run_keeps [where P = counted])
  show "counted (initial_state state db)"
    by (simp add: counted_def emitted_def announced_def initial_state_def zero_counts_def)
  fix e s assume "counted s"
  then show "counted (retire_corpus db (live_roots state db) e s)"
    by (rule retire_corpus_keeps [where P = counted])
      (simp_all add: counted_def retire_row_def push_row_def emitted_def announced_def warn_def count_def Let_def)
next
  fix e s assume "counted s"
  then show "counted (retract_corpus env (ds_relations state) e s)"
    by (rule retract_corpus_keeps [where P = counted])
      (auto simp: counted_def retract_row_def announced_def Let_def)
qed (assumption, (rule root_step_counted relation_step_counted; assumption)+)

text \<open>
  The counts of a run account for every event: one per new root, patch, new relation and
  retraction, two per re-root and per replaced relation, whose predecessor is deleted.
\<close>

theorem run_accounts:
  assumes "runEngine env state db = Inr r"
  shows "length (rn_events r) =
     ct_newRoots (rn_counts r) + ct_patches (rn_counts r) + 2 * ct_reRoots (rn_counts r)
     + ct_newRelations (rn_counts r) + 2 * ct_replacedRelations (rn_counts r) + ct_retractedRelations (rn_counts r)"
proof -
  obtain st where st: "run_state env state db = Inr st" "r = result_of st"
    using assms by (cases "run_state env state db") (auto simp: runEngine_def)
  have "length (assemble st) = emitted st"
    by (simp add: assemble_def emitted_def length_concat comp_def)
  then show ?thesis
    using run_counted [OF st(1)] by (simp add: st(2) result_of_def counted_def announced_def)
qed

section \<open>The ledger's snapshot\<close>

lemma map_by_lookup: "dget (map_by key rows) k = Some r \<Longrightarrow> r \<in> set rows \<and> key r = k"
proof (induction rows rule: rev_induct)
  case (snoc x rows)
  then show ?case
    by (auto simp: map_by_def split: if_splits)
qed (simp add: map_by_def)

lemma distinct_keys_map_by [simp]: "distinct (dkeys (map_by key rows))"
  by (induction rows rule: rev_induct) (simp_all add: map_by_def)

lemma map_by_values: "r \<in> set (dvalues (map_by key rows)) \<Longrightarrow> r \<in> set rows \<and> dget (map_by key rows) (key r) = Some r"
  using dvalues_iff [of "map_by key rows" r] map_by_lookup [of key rows] by fastforce

lemma dget_map_pairs: "dget (map (\<lambda>c. (c, f c)) cs) c = (if c \<in> set cs then Some (f c) else None)"
  by (induction cs) auto

lemma live_row_in:
  "live_row (live_roots state db) root = Some row \<Longrightarrow>
   row \<in> set (rootsByCorpus (dr_corpus root) db) \<and> row_key row = desired_key root"
  using map_by_lookup [of row_key "rootsByCorpus (dr_corpus root) db" "desired_key root" row]
  by (auto simp: live_row_def live_roots_def dget_map_pairs split: if_splits)

lemma known_row_in:
  "known_row (ledger_relations state db) rel = Some row \<Longrightarrow>
   row \<in> set (relationsByCorpus (de_corpus rel) db) \<and> lu_relationId row = de_relationId rel"
  using map_by_lookup [of lu_relationId "relationsByCorpus (de_corpus rel) db" "de_relationId rel" row]
  by (auto simp: known_row_def ledger_relations_def dget_map_pairs split: if_splits)

lemma ledger_relations_entry:
  "e \<in> set (ledger_relations state db) \<Longrightarrow> row \<in> set (dvalues (snd e)) \<Longrightarrow> row \<in> set (relationsByCorpus (fst e) db)"
proof -
  assume "e \<in> set (ledger_relations state db)" "row \<in> set (dvalues (snd e))"
  moreover then have "snd e = map_by lu_relationId (relationsByCorpus (fst e) db)"
    by (auto simp: ledger_relations_def)
  ultimately show ?thesis
    using map_by_values [of row lu_relationId "relationsByCorpus (fst e) db"] by simp
qed

section \<open>The events of a run\<close>

text \<open>What signing does: the template's fields and the publisher's key. The id and the signature are open.\<close>

definition lawful :: "engine_env \<Rightarrow> bool" where
  "lawful env \<longleftrightarrow>
     (\<forall>u. ev_kind (ee_sign env u) = un_kind u \<and> ev_created_at (ee_sign env u) = un_created_at u
        \<and> ev_tags (ee_sign env u) = un_tags u \<and> ev_content (ee_sign env u) = un_content u
        \<and> ev_pubkey (ee_sign env u) = ee_pubkey env)"

lemma lawful_simps [simp]:
  "lawful env \<Longrightarrow> ev_kind (ee_sign env u) = un_kind u" "lawful env \<Longrightarrow> ev_tags (ee_sign env u) = un_tags u"
  "lawful env \<Longrightarrow> ev_content (ee_sign env u) = un_content u"
  by (auto simp: lawful_def)

definition built :: "nostr_event \<Rightarrow> bool" where
  "built e \<longleftrightarrow> ev_kind e = 1 \<and> assertEventShape (ev_content e) (ev_tags e) = Inr ()"

lemma types_of:
  "scrutinyEventType e = Some ty \<Longrightarrow>
   v \<in> set (concat (map (tag_value (js ''t'')) (ev_tags e))) \<Longrightarrow> dget TYPE_BY_TAG v = Some ty' \<Longrightarrow> ty' = ty"
proof -
  assume t: "scrutinyEventType e = Some ty" and v: "v \<in> set (concat (map (tag_value (js ''t'')) (ev_tags e)))"
    and m: "dget TYPE_BY_TAG v = Some ty'"
  let ?found = "concat (map (\<lambda>t. case dget TYPE_BY_TAG t of None \<Rightarrow> [] | Some ty \<Rightarrow> [ty]) (tTags e))"
  have "?found = [ty]"
    using t by (auto simp: scrutinyEventType_def Let_def split: list.splits)
  moreover have "v \<in> set (tTags e)"
    using v by (simp only: tTags_def tagValues_def)
  then have "ty' \<in> set ?found"
    unfolding set_concat set_map using m by (intro UN_I [of "case dget TYPE_BY_TAG v of None \<Rightarrow> [] | Some ty \<Rightarrow> [ty]"] imageI)
      (simp_all only: option.case list.set insert_iff simp_thms)
  ultimately show "ty' = ty" by simp
qed

lemma built_not_patch: "built e \<Longrightarrow> scrutinyEventType e \<noteq> Some Patch"
proof
  assume b: "built e" and p: "scrutinyEventType e = Some Patch"
  let ?t = "concat (map (tag_value (js ''t'')) (ev_tags e))"
  have "length (filter (\<lambda>v. v \<in> set ROOT_TYPE_TAGS) ?t) = 1"
    using b by (auto simp: built_def assertEventShape_def Let_def split: if_splits)
  then have "filter (\<lambda>v. v \<in> set ROOT_TYPE_TAGS) ?t \<noteq> []"
    by (metis length_0_conv zero_neq_one)
  then obtain v where "v \<in> set (filter (\<lambda>v. v \<in> set ROOT_TYPE_TAGS) ?t)"
    by (meson last_in_set)
  then have v: "v \<in> set ?t" "v \<in> set ROOT_TYPE_TAGS"
    by (simp_all only: set_filter mem_Collect_eq)
  then obtain ty where "dget TYPE_BY_TAG v = Some ty" "ty \<noteq> Patch"
    by (auto simp: ROOT_TYPE_TAGS_def TYPE_BY_TAG_def)
  with types_of [OF p v(1)] show False by blast
qed

lemma checked_event_built: "lawful env \<Longrightarrow> checked_event env (ee_sign env u) = Inr e \<Longrightarrow> un_kind u = 1 \<Longrightarrow> built e"
  by (auto simp: checked_event_def built_def split: sum.splits)

lemma root_event_built: "lawful env \<Longrightarrow> buildRootEvent env root c i t = Inr e \<Longrightarrow> built e"
  by (auto simp: buildRootEvent_def Let_def split: option.splits intro: checked_event_built)

lemma binding_built: "lawful env \<Longrightarrow> buildRelationBinding env rel a b t = Inr e \<Longrightarrow> built e"
  by (auto simp: buildRelationBinding_def emit_buildBinding_def Let_def intro: checked_event_built)

definition deletes :: "ledger \<Rightarrow> nostr_event \<Rightarrow> bool" where
  "deletes db e \<longleftrightarrow>
     ev_kind e = 5 \<and> scrutinyEventType e = None
     \<and> ((\<exists>c. \<exists>row \<in> set (rootsByCorpus c db). map er_id (eTags e) = [rf_rootEventId row])
        \<or> (\<exists>c. \<exists>row \<in> set (relationsByCorpus c db). lu_state row = Live \<and> map er_id (eTags e) = [lu_eventId row]))"

lemma deletion_event:
  assumes "lawful env"
  shows "ev_kind (buildDeletion env t c n) = 5" "scrutinyEventType (buildDeletion env t c n) = None"
    "map er_id (eTags (buildDeletion env t c n)) = [t]"
proof -
  show "scrutinyEventType (buildDeletion env t c n) = None"
    using assms by (simp add: buildDeletion_def scrutinyEventType_def tTags_def tagValues_def tag_value_def
        TYPE_BY_TAG_def FABRIC_VERSION_TAG_def Let_def)
qed (use assms in \<open>simp_all add: buildDeletion_def eTags_def e_tag_def\<close>)

text \<open>A patch of a run, with the row it extends and the row that records it.\<close>

definition patches_row :: "engine_env \<Rightarrow> desired_root list \<Rightarrow> ledger \<Rightarrow> root_upsert list \<Rightarrow> nostr_event \<Rightarrow> bool" where
  "patches_row env roots db rows e \<longleftrightarrow>
     (\<exists>root row diff. root \<in> set roots \<and> row \<in> set (rootsByCorpus (dr_corpus root) db) \<and> ev_kind e = 1
        \<and> rootTarget e = Some (rf_rootEventId row) \<and> replyTarget e = Some (rf_tipEventId row)
        \<and> createPatch (rf_tipContent row) (effective_content root row) = Inr diff
        \<and> ev_content e = patch_prose root @ [10, 10] @ wrapPatchEventPayload diff
        \<and> emitted_row env root (rf_rootEventId row) (ev_id e) (effective_content root row) \<in> set rows)"

lemma base_tags_refs: "concat (map e_tag (emit_baseTags ty fs)) = []"
  by (simp add: emit_baseTags_def e_tag_def)

lemma patch_event_refs:
  assumes "lawful env" "buildPatchEvent env root a t d n = Inr e"
  shows "ev_kind e = 1" "rootTarget e = Some a" "replyTarget e = Some t"
    "ev_content e = patch_prose root @ [10, 10] @ wrapPatchEventPayload d"
proof -
  let ?tags = "emit_baseTags PATCH_TYPE (dr_facets root)
            @ [[js ''e'', a, [], js ''root'', ee_pubkey env], [js ''e'', t, [], js ''reply'', ee_pubkey env]]"
  have e: "ev_tags e = ?tags" "ev_kind e = 1" "ev_content e = patch_prose root @ [10, 10] @ wrapPatchEventPayload d"
    using assms by (auto simp: buildPatchEvent_def Let_def split: if_splits)
  have "eTags e = concat (map e_tag [[js ''e'', a, [], js ''root'', ee_pubkey env], [js ''e'', t, [], js ''reply'', ee_pubkey env]])"
    unfolding eTags_def e(1) map_append concat_append base_tags_refs by simp
  then show "ev_kind e = 1" "rootTarget e = Some a" "replyTarget e = Some t"
    "ev_content e = patch_prose root @ [10, 10] @ wrapPatchEventPayload d"
    using e(2,3) by (simp_all add: rootTarget_def replyTarget_def eTagsWithMarker_def e_tag_def nonempty_def first_id_def)
qed

definition events_inv :: "engine_env \<Rightarrow> desired_root list \<Rightarrow> ledger \<Rightarrow> engine_state \<Rightarrow> bool" where
  "events_inv env roots db st \<longleftrightarrow>
     (\<forall>p \<in> set (es_newRootEvents st). built (snd p)) \<and> (\<forall>e \<in> set (es_newRelationEvents st). built e)
     \<and> (\<forall>en \<in> set (es_reRootEntries st). built (re_event en) \<and> (\<forall>e \<in> set (re_bindings en). built e))
     \<and> (\<forall>e \<in> set (es_deletionEvents st). deletes db e)
     \<and> (\<forall>e \<in> set (es_patchEvents st). patches_row env roots db (es_rootRows st) e)
     \<and> map replyTarget (es_patchEvents st) = map Some (es_patchParents st) \<and> distinct (es_patchParents st)"

lemma patches_row_mono: "patches_row env roots db rows e \<Longrightarrow> set rows \<subseteq> set rows' \<Longrightarrow> patches_row env roots db rows' e"
  unfolding patches_row_def by blast

lemma events_inv_frame:
  "events_inv env roots db st \<Longrightarrow> events_inv env roots db (warn w st)" "events_inv env roots db st \<Longrightarrow> events_inv env roots db (count f st)"
  "events_inv env roots db st \<Longrightarrow> events_inv env roots db (tick st)" "events_inv env roots db st \<Longrightarrow> events_inv env roots db (push_row r st)"
  "events_inv env roots db st \<Longrightarrow> events_inv env roots db (st\<lparr>es_seenRootKeys := k1\<rparr>)"
  "events_inv env roots db st \<Longrightarrow> events_inv env roots db (st\<lparr>es_seenRelationKeys := k2\<rparr>)"
  "events_inv env roots db st \<Longrightarrow> events_inv env roots db (st\<lparr>es_rootEventIdByKey := k3\<rparr>)"
  "events_inv env roots db st \<Longrightarrow> events_inv env roots db (st\<lparr>es_relationRows := k4\<rparr>)"
  "events_inv env roots db st \<Longrightarrow> events_inv env roots db (st\<lparr>es_reRootEntryByKey := k5\<rparr>)"
  "events_inv env roots db st \<Longrightarrow> events_inv env roots db (st\<lparr>es_reRootedKeys := k6\<rparr>)"
  by (auto simp: events_inv_def warn_def count_def tick_def push_row_def intro: patches_row_mono)

lemma events_inv_new_root:
  assumes "lawful env" "new_root env root st = Inr st'" "events_inv env roots db st"
  shows "events_inv env roots db st'"
proof -
  obtain event where e: "buildRootEvent env root (dr_content root) None (ee_clock env (es_tick st)) = Inr event"
    using assms(2) by (auto simp: new_root_def split: sum.splits)
  have "events_inv env roots db (st\<lparr>es_newRootEvents := es_newRootEvents st @ [(root, event)]\<rparr>)"
    using assms(3) root_event_built [OF assms(1) e] by (auto simp: events_inv_def)
  then have "events_inv env roots db (st\<lparr>es_newRootEvents := es_newRootEvents st @ [(root, event)],
      es_rootEventIdByKey := dset (desired_key root) (ev_id event) (es_rootEventIdByKey st)\<rparr>)"
    by (rule events_inv_frame)
  then show ?thesis
    using assms(2) e by (auto simp: new_root_def intro: events_inv_frame)
qed

lemma events_inv_deletion:
  assumes "lawful env" "events_inv env roots db st"
    and "(\<exists>c. \<exists>row \<in> set (rootsByCorpus c db). t = rf_rootEventId row)
      \<or> (\<exists>c. \<exists>row \<in> set (relationsByCorpus c db). lu_state row = Live \<and> t = lu_eventId row)"
  shows "events_inv env roots db (pushDeletion env t c st)"
proof -
  have "deletes db (buildDeletion env t c n)" for n
    using assms(3) by (auto simp: deletes_def deletion_event [OF assms(1)])
  then show ?thesis
    using assms(2) by (auto simp: events_inv_def pushDeletion_def tick_def Let_def)
qed

lemma events_inv_patch:
  assumes "lawful env" "patch_root env root row st = Inr st'" "events_inv env roots db st"
    and row: "row \<in> set (rootsByCorpus (dr_corpus root) db)" "root \<in> set roots"
  shows "events_inv env roots db st'"
proof (cases "rf_tipEventId row \<in> set (es_patchParents st)")
  case True
  then show ?thesis
    using assms(2,3) by (auto simp: patch_root_def intro: events_inv_frame)
next
  case False
  let ?c = "effective_content root row"
  obtain diff event where d: "createPatch (rf_tipContent row) ?c = Inr diff"
    "buildPatchEvent env root (rf_rootEventId row) (rf_tipEventId row) diff (ee_clock env (es_tick st)) = Inr event"
    and st': "st' = count (\<lambda>c. c\<lparr>ct_patches := ct_patches c + 1\<rparr>)
      (push_row (emitted_row env root (rf_rootEventId row) (ev_id event) ?c)
        (tick (st\<lparr>es_patchEvents := es_patchEvents st @ [event],
                 es_patchParents := sadd (rf_tipEventId row) (es_patchParents st)\<rparr>)))"
    using assms(2) False by (auto simp: patch_root_def Let_def split: sum.splits if_splits)
  have new: "patches_row env roots db (es_rootRows st @ [emitted_row env root (rf_rootEventId row) (ev_id event) ?c]) event"
    unfolding patches_row_def using row d(1) patch_event_refs [OF assms(1) d(2)]
    by (intro exI [of _ root] exI [of _ row] exI [of _ diff]) simp
  have "patches_row env roots db (es_rootRows st @ [emitted_row env root (rf_rootEventId row) (ev_id event) ?c]) e"
    if "e \<in> set (es_patchEvents st)" for e
    using that assms(3) by (auto simp: events_inv_def intro: patches_row_mono)
  then show ?thesis
    using assms(3) new False patch_event_refs(3) [OF assms(1) d(2)]
    by (auto simp: st' events_inv_def count_def push_row_def tick_def sadd_def)
qed

lemma events_inv_reroot:
  assumes "lawful env" "re_root env root row st = Inr st'" "events_inv env roots db st"
    and row: "row \<in> set (rootsByCorpus (dr_corpus root) db)"
  shows "events_inv env roots db st'"
  using assms(2)
proof (cases rule: re_rootE)
  case fork
  then show ?thesis
    using assms(3) by (simp only: events_inv_frame)
next
  case (rerooted s content event c)
  have s: "events_inv env roots db s"
    using assms(3) rerooted(1) by (auto intro: events_inv_frame)
  define s1 where "s1 = tick (s\<lparr>es_reRootEntryByKey := dset (desired_key root) (length (es_reRootEntries s)) (es_reRootEntryByKey s),
      es_reRootEntries := es_reRootEntries s @ [\<lparr>re_event = event, re_bindings = []\<rparr>],
      es_reRootedKeys := sadd (desired_key root) (es_reRootedKeys s)\<rparr>)"
  have s1: "events_inv env roots db s1"
    using s root_event_built [OF assms(1) rerooted(2)] by (auto simp: s1_def events_inv_def tick_def)
  have "events_inv env roots db (pushDeletion env (rf_rootEventId row) c s1)"
    by (rule events_inv_deletion [OF assms(1) s1]) (use row in blast)
  then show ?thesis
    unfolding rerooted(3) s1_def [symmetric] by (intro events_inv_frame)
qed

lemma root_step_events:
  assumes "lawful env" "root_step env (live_roots state db) root st = Inr st'" "events_inv env roots db st"
    and member: "root \<in> set roots"
  shows "events_inv env roots db st'"
proof -
  let ?s = "st\<lparr>es_seenRootKeys := sadd (desired_key root) (es_seenRootKeys st)\<rparr>"
  have s: "events_inv env roots db ?s"
    using assms(3) by (rule events_inv_frame)
  show ?thesis
  proof (cases "desired_key root \<in> set (es_seenRootKeys st)")
    case True
    then show ?thesis
      using assms(2,3) by (auto simp: root_step_def Let_def intro: events_inv_frame)
  next
    case fresh: False
    show ?thesis
    proof (cases "live_row (live_roots state db) root")
      case None
      then show ?thesis
        using assms(2) fresh events_inv_new_root [OF assms(1) _ s] by (simp add: root_step_def Let_def)
    next
      case (Some row)
      note row = live_row_in [OF Some, THEN conjunct1]
      show ?thesis
        using assms(2) fresh Some events_inv_patch [OF assms(1) _ s row member] events_inv_reroot [OF assms(1) _ s row] s
        by (auto simp: root_step_def Let_def intro: events_inv_frame split: if_splits)
    qed
  qed
qed

lemma events_inv_place: "built e \<Longrightarrow> events_inv env roots db st \<Longrightarrow> events_inv env roots db (place i e st)"
proof (cases "\<exists>k. i = Some k \<and> k < length (es_reRootEntries st)")
  case True
  then obtain k where k: "i = Some k" "k < length (es_reRootEntries st)" by blast
  assume b: "built e" and st: "events_inv env roots db st"
  have "built (re_event en) \<and> (\<forall>x \<in> set (re_bindings en). built x)"
    if "en \<in> set ((es_reRootEntries st)[k := (es_reRootEntries st ! k)\<lparr>re_bindings := re_bindings (es_reRootEntries st ! k) @ [e]\<rparr>])" for en
  proof -
    have "en = (es_reRootEntries st ! k)\<lparr>re_bindings := re_bindings (es_reRootEntries st ! k) @ [e]\<rparr> \<or> en \<in> set (es_reRootEntries st)"
      using that set_update_subset_insert by fast
    moreover have "es_reRootEntries st ! k \<in> set (es_reRootEntries st)"
      using k(2) by simp
    ultimately show ?thesis
      using st b by (auto simp: events_inv_def)
  qed
  then show ?thesis
    using st k by (simp add: place_def events_inv_def)
next
  case False
  assume "built e" "events_inv env roots db st"
  then show ?thesis
    using False by (auto simp: place_def events_inv_def split: option.splits)
qed

lemma events_inv_binding:
  "lawful env \<Longrightarrow> emit_binding env rel a b i f st = Inr st' \<Longrightarrow> events_inv env roots db st \<Longrightarrow> events_inv env roots db st'"
  by (auto simp: emit_binding_def Let_def split: sum.splits
      intro!: events_inv_frame events_inv_place dest: binding_built)

definition relation_key :: "desired_relation \<Rightarrow> jsstr" where
  "relation_key rel = de_corpus rel @ 0 # de_relationId rel"

definition saw :: "desired_relation \<Rightarrow> engine_state \<Rightarrow> engine_state" where
  "saw rel st = st\<lparr>es_seenRelationKeys := sadd (relation_key rel) (es_seenRelationKeys st)\<rparr>"

definition anchor :: "engine_state \<Rightarrow> desired_relation \<Rightarrow> nat option" where
  "anchor st rel = reroot_index st (end_key (de_rootRef rel)) (end_key (de_linkRef rel))"

lemma saw_simps [simp]:
  "es_rootEventIdByKey (saw rel st) = es_rootEventIdByKey st" "anchor (saw rel st) rel' = anchor st rel'"
  by (simp_all add: saw_def anchor_def reroot_index_def)

text \<open>The outcomes of one relation.\<close>

lemma relation_step_cases:
  assumes "relation_step env known rel st = Inr st'"
  obtains (duplicate) "relation_key rel \<in> set (es_seenRelationKeys st)" "st' = warn (Duplicate_relation (relation_key rel)) st"
  | (missing) "relation_key rel \<notin> set (es_seenRelationKeys st)"
      "dget (es_rootEventIdByKey st) (end_key (de_rootRef rel)) = None
       \<or> dget (es_rootEventIdByKey st) (end_key (de_linkRef rel)) = None"
      "st' = warn (Endpoint_missing (relation_key rel)) (saw rel st)"
  | (fresh) a b where "relation_key rel \<notin> set (es_seenRelationKeys st)"
      "dget (es_rootEventIdByKey st) (end_key (de_rootRef rel)) = Some a"
      "dget (es_rootEventIdByKey st) (end_key (de_linkRef rel)) = Some b"
      "known_row known rel = None \<or> (\<exists>row. known_row known rel = Some row \<and> lu_state row = Gone)"
      "emit_binding env rel a b (anchor st rel) (\<lambda>c. c\<lparr>ct_newRelations := ct_newRelations c + 1\<rparr>) (saw rel st) = Inr st'"
  | (kept) a b row where "relation_key rel \<notin> set (es_seenRelationKeys st)"
      "dget (es_rootEventIdByKey st) (end_key (de_rootRef rel)) = Some a"
      "dget (es_rootEventIdByKey st) (end_key (de_linkRef rel)) = Some b"
      "known_row known rel = Some row" "lu_state row = Live" "lu_fingerprint row = de_fingerprint rel" "anchor st rel = None"
      "st' = count (\<lambda>c. c\<lparr>ct_unchanged := ct_unchanged c + 1\<rparr>) (saw rel st)"
  | (replaced) a b row c where "relation_key rel \<notin> set (es_seenRelationKeys st)"
      "dget (es_rootEventIdByKey st) (end_key (de_rootRef rel)) = Some a"
      "dget (es_rootEventIdByKey st) (end_key (de_linkRef rel)) = Some b"
      "known_row known rel = Some row" "lu_state row = Live" "lu_fingerprint row \<noteq> de_fingerprint rel \<or> anchor st rel \<noteq> None"
      "emit_binding env rel a b (anchor st rel) (\<lambda>c. c\<lparr>ct_replacedRelations := ct_replacedRelations c + 1\<rparr>)
         (pushDeletion env (lu_eventId row) c (saw rel st)) = Inr st'"
      "\<not> list_all is_space c"
proof (cases "relation_key rel \<in> set (es_seenRelationKeys st)")
  case True
  then show thesis
    using assms duplicate by (simp add: relation_step_def relation_key_def Let_def)
next
  case False
  note step = assms [unfolded relation_step_def Let_def, folded relation_key_def, folded saw_def, folded anchor_def, simplified]
  show thesis
  proof (cases "dget (es_rootEventIdByKey st) (end_key (de_rootRef rel)) = None
       \<or> dget (es_rootEventIdByKey st) (end_key (de_linkRef rel)) = None")
    case True
    then show thesis
      using step False missing by (auto split: option.splits)
  next
    case ends: False
    then obtain a b where ab: "dget (es_rootEventIdByKey st) (end_key (de_rootRef rel)) = Some a"
      "dget (es_rootEventIdByKey st) (end_key (de_linkRef rel)) = Some b" by auto
    show thesis
    proof (cases "known_row known rel")
      case None
      then show thesis
        using step False ab fresh [of a b] by simp
    next
      case (Some row)
      show thesis
      proof (cases "lu_state row")
        case Gone
        then show thesis
          using step False ab fresh [of a b] Some by simp
      next
        case live: Live
        show thesis
        proof (cases "lu_fingerprint row = de_fingerprint rel \<and> anchor st rel = None")
          case True
          then show thesis
            using step by (intro kept [OF False ab Some live]) (simp_all add: False ab Some live)
        next
          case changed: False
          have "emit_binding env rel a b (anchor st rel) (\<lambda>c. c\<lparr>ct_replacedRelations := ct_replacedRelations c + 1\<rparr>)
              (pushDeletion env (lu_eventId row) (js ''Replaced by a new binding for '' @ de_relationId rel @ js '' (''
                @ replace_reason (lu_fingerprint row = de_fingerprint rel) (anchor st rel) @ js '').'') (saw rel st)) = Inr st'"
            using step changed by (simp only: False ab Some live if_False option.case prod.case row_state.distinct saw_simps)
          then show thesis
            using changed by (intro replaced [OF False ab Some live])
              (auto simp: js_def cu_def is_space_def is_line_terminator_def)
        qed
      qed
    qed
  qed
qed

lemma events_inv_saw: "events_inv env roots db st \<Longrightarrow> events_inv env roots db (saw rel st)"
  unfolding saw_def by (rule events_inv_frame)

lemma relation_step_events:
  assumes "lawful env" "relation_step env (ledger_relations state db) rel st = Inr st'" "events_inv env roots db st"
  shows "events_inv env roots db st'"
  using assms(2)
proof (cases rule: relation_step_cases)
  case duplicate
  then show ?thesis
    using assms(3) by (simp only: events_inv_frame)
next
  case missing
  then show ?thesis
    using events_inv_saw [OF assms(3)] by (simp only: events_inv_frame)
next
  case (fresh a b)
  show ?thesis
    by (rule events_inv_binding [OF assms(1) fresh(5) events_inv_saw [OF assms(3)]])
next
  case (kept a b row)
  then show ?thesis
    using events_inv_saw [OF assms(3)] by (simp only: events_inv_frame)
next
  case (replaced a b row c)
  have "events_inv env roots db (pushDeletion env (lu_eventId row) c (saw rel st))"
    by (rule events_inv_deletion [OF assms(1) events_inv_saw [OF assms(3)]])
      (use known_row_in [OF replaced(4)] replaced(5) in blast)
  then show ?thesis
    by (rule events_inv_binding [OF assms(1) replaced(7)])
qed

lemma retire_events:
  assumes "events_inv env roots db st"
  shows "events_inv env roots db (retire_corpus db live e st)"
proof (rule retire_corpus_keeps [where P = "events_inv env roots db", OF assms])
  fix rows row sid s
  assume "events_inv env roots db s"
  then show "events_inv env roots db (retire_row (fst e) sid row s)"
    unfolding retire_row_def Let_def by (intro events_inv_frame)
qed (rule events_inv_frame, assumption)+

lemma retract_events:
  assumes "lawful env" "events_inv env roots db st" "e \<in> set (ledger_relations state db)"
  shows "events_inv env roots db (retract_corpus env rels e st)"
proof (rule retract_corpus_keeps [where P = "events_inv env roots db", OF assms(2)])
  fix desired row s assume row: "row \<in> set (dvalues (snd e))" and s: "events_inv env roots db s"
  have deleted: "events_inv env roots db (pushDeletion env (lu_eventId row) c s)" if "lu_state row = Live" for c
    by (rule events_inv_deletion [OF assms(1) s]) (use ledger_relations_entry [OF assms(3) row] that in blast)
  show "events_inv env roots db (retract_row env desired row s)" (is ?goal)
  proof (cases "lu_state row \<noteq> Live \<or> lu_relationId row \<in> set desired")
    case False
    then have "events_inv env roots db (pushDeletion env (lu_eventId row) c s)" for c
      using deleted by simp
    then show "?goal"
      unfolding retract_row_def Let_def if_not_P [OF False] by (intro events_inv_frame)
  qed (simp add: retract_row_def s)
qed

lemma initial_events: "events_inv env roots db (initial_state state db)"
  by (simp add: events_inv_def initial_state_def)

lemma run_events:
  assumes "lawful env" "run_state env state db = Inr st"
  shows "events_inv env (ds_roots state) db st"
  using assms(2)
proof (rule run_keeps [where P = "events_inv env (ds_roots state) db"])
  show "events_inv env (ds_roots state) db (initial_state state db)"
    by (rule initial_events)
next
  fix r s s' assume r: "r \<in> set (ds_roots state)" and s: "events_inv env (ds_roots state) db s"
    and step: "root_step env (live_roots state db) r s = Inr s'"
  show "events_inv env (ds_roots state) db s'"
    by (rule root_step_events [OF assms(1) step s r])
next
  fix e s assume "events_inv env (ds_roots state) db s"
  then show "events_inv env (ds_roots state) db (retire_corpus db (live_roots state db) e s)"
    by (rule retire_events)
next
  fix r s s' assume s: "events_inv env (ds_roots state) db s" and step: "relation_step env (ledger_relations state db) r s = Inr s'"
  show "events_inv env (ds_roots state) db s'"
    by (rule relation_step_events [OF assms(1) step s])
next
  fix e s assume e: "e \<in> set (ledger_relations state db)" and s: "events_inv env (ds_roots state) db s"
  show "events_inv env (ds_roots state) db (retract_corpus env (ds_relations state) e s)"
    by (rule retract_events [OF assms(1) s e])
qed

lemma runE:
  assumes "runEngine env state db = Inr r"
  obtains st where "run_state env state db = Inr st" "r = result_of st"
  using assms by (cases "run_state env state db") (auto simp: runEngine_def)

definition front :: "engine_state \<Rightarrow> nostr_event list" where
  "front st =
     map snd (sort_key (\<lambda>entry. rootGroupRank (fst entry)) (es_newRootEvents st)) @ es_newRelationEvents st"

definition rerooted :: "engine_state \<Rightarrow> nostr_event list" where
  "rerooted st = concat (map (\<lambda>entry. re_event entry # re_bindings entry) (es_reRootEntries st))"

lemma assemble_parts: "assemble st = front st @ es_patchEvents st @ rerooted st @ es_deletionEvents st"
  by (simp add: assemble_def front_def rerooted_def)

lemma parts_built:
  assumes "events_inv env roots db st"
  shows "\<forall>e \<in> set (front st). built e" "\<forall>e \<in> set (rerooted st). built e"
  using assms by (auto simp: events_inv_def front_def rerooted_def)

text \<open>
  C7. (CLASS-4, BD-9, update semantics 5) Deletions come last and only undo what the ledger records: the events
  of a run are kind 1 events followed by kind 5 events, and each of those names exactly one event, the root of
  a live row or the binding of a live relation.
\<close>

theorem deletions_last:
  assumes "lawful env" "runEngine env state db = Inr r"
  shows "\<exists>pre del. rn_events r = pre @ del \<and> list_all (\<lambda>e. ev_kind e = 1) pre \<and> list_all (deletes db) del"
proof -
  obtain st where st: "run_state env state db = Inr st" "r = result_of st"
    using assms(2) by (rule runE)
  note inv = run_events [OF assms(1) st(1)]
  have "list_all (\<lambda>e. ev_kind e = 1) (front st @ es_patchEvents st @ rerooted st)"
    using parts_built [OF inv] inv by (auto simp: list_all_iff built_def events_inv_def patches_row_def)
  moreover have "list_all (deletes db) (es_deletionEvents st)"
    using inv by (auto simp: list_all_iff events_inv_def)
  ultimately show ?thesis
    by (intro exI [of _ "front st @ es_patchEvents st @ rerooted st"] exI [of _ "es_deletionEvents st"])
      (simp add: st(2) result_of_def assemble_parts)
qed

text \<open>
  C5. (SF-1) A run never forks a chain: no two patches of a run reply to the same event, and each replies
  to the tip of a live row, under that row's root.
\<close>

theorem no_self_fork:
  assumes "lawful env" "runEngine env state db = Inr r"
  shows "distinct (map replyTarget (filter (\<lambda>e. scrutinyEventType e = Some Patch) (rn_events r)))
     \<and> list_all (\<lambda>e. \<exists>c. \<exists>row \<in> set (rootsByCorpus c db).
           rootTarget e = Some (rf_rootEventId row) \<and> replyTarget e = Some (rf_tipEventId row))
         (filter (\<lambda>e. scrutinyEventType e = Some Patch) (rn_events r))"
proof -
  obtain st where st: "run_state env state db = Inr st" "r = result_of st"
    using assms(2) by (rule runE)
  note inv = run_events [OF assms(1) st(1)]
  let ?P = "\<lambda>e. scrutinyEventType e = Some Patch"
  have "filter ?P (front st) = []" "filter ?P (rerooted st) = []" "filter ?P (es_deletionEvents st) = []"
    using parts_built [OF inv] built_not_patch inv by (auto simp: filter_empty_conv events_inv_def deletes_def)
  then have "filter ?P (rn_events r) = filter ?P (es_patchEvents st)"
    by (simp add: st(2) result_of_def assemble_parts)
  moreover have "distinct (map replyTarget (es_patchEvents st))"
    using inv by (auto simp: events_inv_def distinct_map)
  then have "distinct (map replyTarget (filter ?P (es_patchEvents st)))"
    by (rule distinct_map_filter)
  moreover have "list_all (\<lambda>e. \<exists>c. \<exists>row \<in> set (rootsByCorpus c db).
      rootTarget e = Some (rf_rootEventId row) \<and> replyTarget e = Some (rf_tipEventId row)) (filter ?P (es_patchEvents st))"
    using inv unfolding events_inv_def patches_row_def list_all_iff by fastforce
  ultimately show ?thesis
    by simp
qed

lemma rootsByCorpus_corpus: "row \<in> set (rootsByCorpus c db) \<Longrightarrow> rf_corpus row = c"
  by (auto simp: rootsByCorpus_def rowToRoot_def)

lemma patch_found:
  assumes "createPatch old new = Inr p" "10 \<notin> set (dr_sourceId root)"
  shows "findPatchPayload (patch_prose root @ [10, 10] @ wrapPatchEventPayload p) = Some p"
  by (rule wrapped_found [OF assms(1)])
    (use assms(2) in \<open>simp_all add: patch_prose_def js_def cu_def opener_def fence_open_def skip_indent_def units\<close>)

text \<open>
  C6. (C3, P4, PT-1) A patch of a run works for a consumer: it replies to the tip of a live row; a consumer of the
  core package finds in it the patch whose application to the row's content gives the content that the new row
  records, with the patch as its tip.
\<close>

theorem patches_apply:
  assumes "lawful env" "runEngine env state db = Inr r"
    and "e \<in> set (rn_events r)" "scrutinyEventType e = Some Patch"
    and "\<forall>root \<in> set (ds_roots state). 10 \<notin> set (dr_sourceId root)"
  shows "\<exists>row payload new.
     row \<in> set (rootsByCorpus (rf_corpus row) db) \<and> replyTarget e = Some (rf_tipEventId row)
     \<and> findPatchPayload (ev_content e) = Some payload
     \<and> new \<in> set (rn_rootRows r) \<and> rf_tipEventId new = ev_id e \<and> rf_rootEventId new = rf_rootEventId row
     \<and> applyPatch (rf_tipContent row) payload = Inr (rf_tipContent new)"
proof -
  obtain st where st: "run_state env state db = Inr st" "r = result_of st"
    using assms(2) by (rule runE)
  note inv = run_events [OF assms(1) st(1)]
  have "e \<in> set (es_patchEvents st)"
    using assms(3,4) parts_built [OF inv] built_not_patch inv
    by (auto simp: st(2) result_of_def assemble_parts events_inv_def deletes_def)
  then have "patches_row env (ds_roots state) db (es_rootRows st) e"
    using inv by (simp add: events_inv_def)
  then obtain root row diff where p: "root \<in> set (ds_roots state)" "row \<in> set (rootsByCorpus (dr_corpus root) db)"
      "replyTarget e = Some (rf_tipEventId row)"
      "createPatch (rf_tipContent row) (effective_content root row) = Inr diff"
      "ev_content e = patch_prose root @ [10, 10] @ wrapPatchEventPayload diff"
      "emitted_row env root (rf_rootEventId row) (ev_id e) (effective_content root row) \<in> set (es_rootRows st)"
    unfolding patches_row_def by blast
  let ?new = "emitted_row env root (rf_rootEventId row) (ev_id e) (effective_content root row)"
  have "rf_corpus row = dr_corpus root"
    using p(2) by (rule rootsByCorpus_corpus)
  then show ?thesis
    using p patch_found [OF p(4)] assms(5) createPatch_sound [OF p(4)]
    by (intro exI [of _ row] exI [of _ diff] exI [of _ ?new]) (simp add: st(2) result_of_def emitted_row_def)
qed

section \<open>Instances\<close>

definition sample_env :: engine_env where
  "sample_env =
     \<lparr>ee_pubkey = replicate 64 98,
      ee_sign = (\<lambda>u. \<lparr>ev_id = replicate 64 97, ev_pubkey = replicate 64 98, ev_created_at = un_created_at u, ev_kind = un_kind u,
                     ev_tags = un_tags u, ev_content = un_content u, ev_sig = replicate 128 97\<rparr>),
      ee_clock = int, ee_sha256 = (\<lambda>s. s), ee_lower = (\<lambda>s. s)\<rparr>"

lemma sample_lawful: "lawful sample_env"
  by (simp add: lawful_def sample_env_def)

definition sample_state :: desired_state where
  "sample_state =
     \<lparr>ds_roots =
        [\<lparr>dr_corpus = js ''c'', dr_sourceId = js ''s'', dr_role = js ''metadata'', dr_sourceHash = [], dr_iSet = [],
          dr_facets = [], dr_content = [98], dr_imeta = [], dr_supersedes = None\<rparr>],
      ds_relations = [], ds_sourceIdsByCorpus = []\<rparr>"

definition sample_ledger :: ledger where
  "sample_ledger = fst (upsertRoots 0
     [\<lparr>rf_corpus = js ''c'', rf_sourceId = js ''s'', rf_role = js ''metadata'', rf_rootEventId = replicate 64 97,
       rf_tipEventId = js ''t'', rf_tipContent = [97], rf_contentHash = [], rf_iSet = [], rf_sourceHash = [],
       rf_genVersion = SECCERTS_GEN_VERSION, rf_state = Live, ru_imeta = Some []\<rparr>] empty_ledger)"

definition sample_row :: root_row where
  "sample_row =
     \<lparr>rf_corpus = js ''c'', rf_sourceId = js ''s'', rf_role = js ''metadata'', rf_rootEventId = replicate 64 97,
      rf_tipEventId = js ''t'', rf_tipContent = [97], rf_contentHash = [], rf_iSet = [], rf_sourceHash = [],
      rf_genVersion = SECCERTS_GEN_VERSION, rf_state = Live, rw_imeta = [], rw_updatedAt = 0\<rparr>"

lemma sample_rows: "rootsByCorpus (js ''c'') sample_ledger = [sample_row]"
  by (simp add: rootsByCorpus_def sample_ledger_def upsertRoots_def upsert_root_def Let_def empty_ledger_def root_key_of_def
      rowToRoot_def sample_row_def parseStrArray_text parseImeta_text)

lemma sample_corpora: "root_corpora sample_state = [js ''c'']" "relation_corpora sample_state = []"
  by (simp_all add: root_corpora_def relation_corpora_def sample_state_def set_of_def sadd_def)

lemma sample_fields:
  "rf_tipContent sample_row = [97]" "rf_tipEventId sample_row = js ''t''" "rf_rootEventId sample_row = replicate 64 97"
  "ee_clock sample_env = int"
  by (simp_all add: sample_row_def sample_env_def)

abbreviation sample_desired :: desired_root where
  "sample_desired \<equiv> hd (ds_roots sample_state)"

lemma sample_live: "live_row (live_roots sample_state sample_ledger) sample_desired = Some sample_row"
  by (simp add: live_row_def live_roots_def sample_corpora sample_rows map_by_def)
    (simp add: sample_state_def sample_row_def row_key_def desired_key_def)

lemma sample_effective: "effective_content sample_desired sample_row = [98]"
  by (simp add: effective_content_def stripSupersedesNotice_def sample_row_def sample_state_def is_notice_def
      NOTICE_PREFIX_def starts_with_def js_def cu_def Let_def)

lemma sample_patch_event:
  "\<exists>e. buildPatchEvent sample_env sample_desired a t d n = Inr e \<and> scrutinyEventType e = Some Patch"
  by (simp add: buildPatchEvent_def sample_env_def sample_state_def e_count_def marker_count_def emit_baseTags_def
      PATCH_TYPE_def FABRIC_VERSION_TAG_def scrutinyEventType_def tTags_def tagValues_def tag_value_def nth_opt_def Let_def
      TYPE_BY_TAG_def FABRIC_TAG_def js_def cu_def del: TYPE_BY_TAG_Some)

lemma sample_patches:
  "\<exists>r. runEngine sample_env sample_state sample_ledger = Inr r \<and> map scrutinyEventType (rn_events r) = [Some Patch]
     \<and> rn_warnings r = []"
proof -
  obtain p where p: "createPatch [97] [98] = Inr p"
    using createPatch_returns [OF sample_plain] by blast
  then have "p \<noteq> []"
    using createPatch_nonempty [OF p] by simp
  obtain e where e: "buildPatchEvent sample_env sample_desired (replicate 64 97) (js ''t'') p 0 = Inr e" "scrutinyEventType e = Some Patch"
    using sample_patch_event by blast
  let ?st = "initial_state sample_state sample_ledger"
  have "root_step sample_env (live_roots sample_state sample_ledger) sample_desired s =
      patch_root sample_env sample_desired sample_row (s\<lparr>es_seenRootKeys := sadd (desired_key sample_desired) (es_seenRootKeys s)\<rparr>)"
    if "es_seenRootKeys s = []" for s
    using that by (simp add: root_step_def sample_live sample_effective Let_def) (simp add: sample_row_def sample_state_def)
  then have "\<exists>st. root_loop sample_env (live_roots sample_state sample_ledger) [sample_desired] ?st = Inr st
      \<and> map scrutinyEventType (assemble st) = [Some Patch] \<and> es_warnings st = []"
    using p \<open>p \<noteq> []\<close> e
    by (simp add: initial_state_def patch_root_def sample_effective sample_fields Let_def assemble_def
        count_def push_row_def tick_def)
  moreover have "ds_roots sample_state = [sample_desired]" "ds_sourceIdsByCorpus sample_state = []" "ds_relations sample_state = []"
    "ledger_relations sample_state sample_ledger = []"
    by (simp_all add: ledger_relations_def sample_corpora) (simp_all add: sample_state_def)
  ultimately show ?thesis
    by (auto simp: runEngine_def run_state_def result_of_def)
qed

lemma run_accounts_witness:
  "\<exists>r. runEngine sample_env sample_state sample_ledger = Inr r
     \<and> length (rn_events r) = ct_newRoots (rn_counts r) + ct_patches (rn_counts r) + 2 * ct_reRoots (rn_counts r)
       + ct_newRelations (rn_counts r) + 2 * ct_replacedRelations (rn_counts r) + ct_retractedRelations (rn_counts r)"
  using sample_patches run_accounts [of sample_env sample_state sample_ledger] by blast

lemma deletions_last_witness:
  "\<exists>r pre del. runEngine sample_env sample_state sample_ledger = Inr r \<and> rn_events r = pre @ del
     \<and> list_all (\<lambda>e. ev_kind e = 1) pre \<and> list_all (deletes sample_ledger) del"
  using sample_patches deletions_last [OF sample_lawful, of sample_state sample_ledger] by blast

lemma no_self_fork_witness:
  "\<exists>r e. runEngine sample_env sample_state sample_ledger = Inr r \<and> rn_events r = [e]
     \<and> (\<exists>c. \<exists>row \<in> set (rootsByCorpus c sample_ledger). replyTarget e = Some (rf_tipEventId row))"
proof -
  obtain r e where r: "runEngine sample_env sample_state sample_ledger = Inr r" "rn_events r = [e]" "scrutinyEventType e = Some Patch"
    using sample_patches by auto
  then show ?thesis
    using no_self_fork [OF sample_lawful r(1)] by auto
qed

lemma patches_apply_witness:
  "\<exists>r e payload new. runEngine sample_env sample_state sample_ledger = Inr r \<and> rn_events r = [e]
     \<and> findPatchPayload (ev_content e) = Some payload \<and> new \<in> set (rn_rootRows r) \<and> rf_tipEventId new = ev_id e"
proof -
  obtain r e where r: "runEngine sample_env sample_state sample_ledger = Inr r" "rn_events r = [e]" "scrutinyEventType e = Some Patch"
    using sample_patches by auto
  moreover have "\<forall>root \<in> set (ds_roots sample_state). 10 \<notin> set (dr_sourceId root)"
    by (simp add: sample_state_def js_def cu_def)
  ultimately show ?thesis
    using patches_apply [OF sample_lawful r(1), of e] by auto
qed

end
