(* ===== verification/Notice.thy ===== *)
theory Notice
  imports Engine
begin

text \<open>
  The notice that a re-root writes into its content (\<open>insertSupersedesLine\<close>) is found again on the next run
  (\<open>stripSupersedesNotice\<close>): \<open>strip_insert\<close>, for the sentences the engine builds by \<open>sentence_notice\<close> and \<open>one_line_parts\<close>.
\<close>

section \<open>The notice is found where it was put\<close>

lemma empty_no_notice [simp]: "\<not> is_notice []"
  by (simp add: is_notice_def starts_with_def NOTICE_PREFIX_def js_def Let_def)

lemma strip_notice_None: "snd (stripSupersedesNotice s) = None \<longleftrightarrow> list_all (\<lambda>l. \<not> is_notice l) (split_on 10 s)"
  unfolding list_all_iff find_index_None [symmetric] by (auto simp: stripSupersedesNotice_def Let_def split: option.splits)

lemma strip_no_notice: "snd (stripSupersedesNotice s) = None \<Longrightarrow> fst (stripSupersedesNotice s) = s"
  by (auto simp: stripSupersedesNotice_def Let_def split: option.splits if_splits)

lemma strip_notice_Some: "snd (stripSupersedesNotice s) = Some n \<Longrightarrow> is_notice n \<and> 10 \<notin> set n"
proof -
  assume n: "snd (stripSupersedesNotice s) = Some n"
  then obtain i where i: "find_index is_notice (split_on 10 s) = Some i" "n = split_on 10 s ! i"
    by (auto simp: stripSupersedesNotice_def Let_def split: option.splits if_splits)
  then obtain a b where "split_on 10 s = a @ n # b" "is_notice n"
    using find_index_SomeD [OF i(1)] by auto
  then show ?thesis
    using split_on_parts [of n 10 s] by simp
qed

lemma strip_insert:
  assumes "is_notice n" "10 \<notin> set n" "snd (stripSupersedesNotice s) = None"
  shows "snd (stripSupersedesNotice (insertSupersedesLine s n)) = Some n"
proof -
  let ?ls = "split_on 10 s"
  have plain: "list_all (\<lambda>l. \<not> is_notice l) ?ls"
    using assms(3) by (simp add: strip_notice_None)
  have found: "snd (stripSupersedesNotice (join_with 10 (xs @ n # ys))) = Some n"
    if "list_all (\<lambda>l. \<not> is_notice l) xs" "\<forall>l \<in> set (xs @ ys). 10 \<notin> set l" for xs ys
  proof -
    have "split_on 10 (join_with 10 (xs @ n # ys)) = xs @ n # ys"
      by (rule split_join) (use that(2) assms(2) in auto)
    then show ?thesis
      by (simp add: stripSupersedesNotice_def find_index_append [OF that(1) [unfolded list_all_iff] assms(1)] Let_def)
  qed
  have parts: "\<forall>l \<in> set ?ls. 10 \<notin> set l"
    using split_on_parts by blast
  show ?thesis
  proof (cases "find_index is_card_line ?ls")
    case None
    have "insertSupersedesLine s n = join_with 10 ((?ls @ [[]]) @ n # [])"
      by (simp add: insertSupersedesLine_def None Let_def)
    then show ?thesis
      using found [of "?ls @ [[]]" "[]"] plain parts by (simp add: list_all_append)
  next
    case (Some i)
    let ?b = "pop_blank (take i ?ls)"
    have b: "set ?b \<subseteq> set ?ls"
      using set_dropWhileD [of _ "\<lambda>l. l = []" "rev (take i ?ls)"] set_take_subset [of i ?ls] by (auto simp: pop_blank_def)
    have "insertSupersedesLine s n = join_with 10 ((?b @ [[]]) @ n # ([] # drop i ?ls))"
      by (simp add: insertSupersedesLine_def Some Let_def)
    moreover have "list_all (\<lambda>l. \<not> is_notice l) (?b @ [[]])"
      using b plain by (auto simp: list_all_iff)
    moreover have "\<forall>l \<in> set ((?b @ [[]]) @ ([] # drop i ?ls)). 10 \<notin> set l"
      using b parts set_drop_subset [of i ?ls] by auto
    ultimately show ?thesis
      using found [of "?b @ [[]]" "[] # drop i ?ls"] by simp
  qed
qed

definition is_id :: "jsstr \<Rightarrow> bool" where
  "is_id i \<longleftrightarrow> length i = 64 \<and> list_all is_lower_hex i"

definition one_line :: "jsstr \<Rightarrow> bool" where
  "one_line v \<longleftrightarrow> list_all (\<lambda>c. \<not> is_line_terminator c) v"

lemma one_line_append [simp]: "one_line (a @ b) \<longleftrightarrow> one_line a \<and> one_line b" "one_line []"
  by (auto simp: one_line_def)

lemma sentence_notice: "is_id i \<Longrightarrow> one_line parts \<Longrightarrow> is_notice (supersedes_sentence i parts)"
  by (simp add: is_notice_def supersedes_sentence_def is_id_def one_line_def Let_def starts_with_def)

lemma digits_one_line: "one_line (nat_digits n)"
  using nat_digits_spec [of n] by (auto simp: one_line_def list_all_iff is_digit_def is_line_terminator_def)

lemma one_line_join: "\<forall>v \<in> set vs. one_line v \<Longrightarrow> one_line (join_list vs)"
  by (induction vs rule: join_list.induct) (auto simp: one_line_def is_line_terminator_def js_def cu_def)

lemma one_line_format: "\<forall>v \<in> set vs. one_line v \<Longrightarrow> one_line (formatList vs)"
proof -
  assume v: "\<forall>v \<in> set vs. one_line v"
  have "one_line (join_list (take 8 vs))"
    by (rule one_line_join) (use v in \<open>auto dest: in_set_takeD\<close>)
  then show ?thesis
    using digits_one_line by (auto simp: formatList_def Let_def) (auto simp: one_line_def is_line_terminator_def js_def cu_def)
qed

lemma one_line_parts:
  assumes "\<forall>v \<in> set (dr_iSet root). one_line v" "\<forall>v \<in> set (rf_iSet row). one_line v"
  shows "one_line (supersedeParts root row)"
proof -
  have join: "\<forall>p \<in> set ps. one_line p \<Longrightarrow> one_line (join_parts ps)" for ps
    by (induction ps rule: join_parts.induct) (auto simp: one_line_def is_line_terminator_def js_def cu_def)
  have f: "one_line (formatList (filter P (dr_iSet root)))" "one_line (formatList (filter P (rf_iSet row)))" for P
    using assms by (auto intro!: one_line_format)
  have texts: "one_line (js ''i-set updated: added '')" "one_line (js ''; removed '')"
    "one_line (js ''imeta updated: pinned artifacts changed'')" "one_line (js ''regenerated under template '')"
    "one_line SECCERTS_GEN_VERSION" "one_line (js ''i-set and imeta unchanged'')"
    by (simp_all add: one_line_def is_line_terminator_def js_def cu_def SECCERTS_GEN_VERSION_def)
  show ?thesis
    unfolding supersedeParts_def Let_def by (rule join) (auto simp: f texts)
qed

end
