(* ===== verification/EngineRows.thy ===== *)
theory EngineRows
  imports EngineRun Notice
begin

text \<open>
  The rows a run records. Every root of the plan ends with a stable row or is left alone (\<open>root_loop_settles\<close>),
  retiring touches only sources outside the plan (\<open>retire_all\<close>), every relation of the plan ends with a live row
  (\<open>relation_loop_records\<close>), and every live relation outside the plan is recorded as gone (\<open>retract_all\<close>).
\<close>

section \<open>What a root leaves behind\<close>

text \<open>A row that the next run leaves alone.\<close>

definition stable :: "desired_root \<Rightarrow> root_row \<Rightarrow> bool" where
  "stable root row \<longleftrightarrow>
     strings_text (rf_iSet row) = strings_text (dr_iSet root) \<and> json_tags (rw_imeta row) = json_tags (dr_imeta root)
     \<and> rf_tipContent row = effective_content root row
     \<and> (rf_genVersion row = SECCERTS_GEN_VERSION \<longrightarrow> rf_sourceHash row = dr_sourceHash root)"

definition keeps :: "desired_root \<Rightarrow> root_upsert \<Rightarrow> bool" where
  "keeps root u \<longleftrightarrow> rf_state u = Live \<and> (\<forall>now old. stable root (stored_root now u old))"

definition root_id :: "desired_root \<Rightarrow> root_key" where
  "root_id root = (dr_corpus root, dr_sourceId root, dr_role root)"

text \<open>A plan whose own texts can be told from the engine's.\<close>

definition plain_root :: "desired_root \<Rightarrow> bool" where
  "plain_root root \<longleftrightarrow>
     0 \<notin> set (dr_sourceId root) \<and> snd (stripSupersedesNotice (dr_content root)) = None
     \<and> (\<forall>v \<in> set (dr_iSet root). one_line v)"

definition plain_row :: "root_row \<Rightarrow> bool" where
  "plain_row row \<longleftrightarrow> 0 \<notin> set (rf_sourceId row) \<and> is_id (rf_rootEventId row) \<and> (\<forall>v \<in> set (rf_iSet row). one_line v)"

lemma stored_fields [simp]:
  "rf_iSet (stored_root now u old) = rf_iSet u" "rf_tipContent (stored_root now u old) = rf_tipContent u"
  "rf_state (stored_root now u old) = rf_state u" "root_key_of (stored_root now u old) = root_key_of u"
  "ru_imeta u = Some m \<Longrightarrow> rw_imeta (stored_root now u old) = m"
  "rf_sourceHash (stored_root now u old) = rf_sourceHash u" "rf_genVersion (stored_root now u old) = rf_genVersion u"
  by (simp_all add: stored_root_def root_key_of_def)

lemma emitted_fields [simp]:
  "rf_iSet (emitted_row env root a t c) = dr_iSet root" "rf_tipContent (emitted_row env root a t c) = c"
  "rf_state (emitted_row env root a t c) = Live" "root_key_of (emitted_row env root a t c) = root_id root"
  "ru_imeta (emitted_row env root a t c) = Some (dr_imeta root)"
  "rf_sourceHash (emitted_row env root a t c) = dr_sourceHash root"
  by (simp_all add: emitted_row_def root_key_of_def root_id_def)

lemma kept_fields [simp]:
  "rf_iSet (kept_row row h g s) = rf_iSet row" "rf_tipContent (kept_row row h g s) = rf_tipContent row"
  "rf_state (kept_row row h g s) = s" "root_key_of (kept_row row h g s) = root_key_of row"
  "ru_imeta (kept_row row h g s) = Some (rw_imeta row)" "rf_sourceId (kept_row row h g s) = rf_sourceId row"
  "rf_sourceHash (kept_row row h g s) = h" "rf_genVersion (kept_row row h g s) = g"
  "row_key (kept_row row h g s) = row_key row" "rf_corpus (kept_row row h g s) = rf_corpus row"
  "rf_role (kept_row row h g s) = rf_role row"
  by (simp_all add: kept_row_def root_key_of_def row_key_def)

lemma effective_cong: "rf_tipContent row = rf_tipContent row' \<Longrightarrow> effective_content root row = effective_content root row'"
  by (simp add: effective_content_def)

text \<open>Content that the engine has recorded is what the plan asks for on the next run.\<close>

lemma effective_plain: "rf_tipContent row = dr_content root \<Longrightarrow> effective_content root row = dr_content root"
  by (auto simp: effective_content_def split: option.splits)

lemma effective_inserted:
  assumes "plain_root root" "is_notice n" "10 \<notin> set n" "rf_tipContent row = insertSupersedesLine (dr_content root) n"
  shows "effective_content root row = insertSupersedesLine (dr_content root) n"
  using assms strip_insert [of n "dr_content root"] by (simp add: effective_content_def plain_root_def)

lemma effective_twice:
  assumes "plain_root root" "rf_tipContent row' = effective_content root row"
  shows "effective_content root row' = effective_content root row"
proof (cases "snd (stripSupersedesNotice (rf_tipContent row))")
  case None
  then show ?thesis
    using assms(2) effective_plain [of row' root] by (simp add: effective_content_def)
next
  case (Some n)
  then have e: "effective_content root row = insertSupersedesLine (dr_content root) n"
    using assms(1) by (simp add: effective_content_def plain_root_def)
  show ?thesis
    using effective_inserted [OF assms(1), of n row'] strip_notice_Some [OF Some] assms(2) by (simp add: e)
qed

lemma keeps_emitted:
  assumes "\<And>row. rf_tipContent row = c \<Longrightarrow> effective_content root row = c"
  shows "keeps root (emitted_row env root a t c)"
  using assms by (simp add: keeps_def stable_def)

lemma sentence_line: "is_id i \<Longrightarrow> one_line parts \<Longrightarrow> 10 \<notin> set (supersedes_sentence i parts)"
  by (auto simp: supersedes_sentence_def is_id_def one_line_def list_all_iff is_line_terminator_def is_lower_hex_def
      is_digit_def NOTICE_PREFIX_def js_def cu_def)

text \<open>Which rows a step pushes, when it is not aborted.\<close>

definition clean :: "engine_state \<Rightarrow> bool" where
  "clean st \<longleftrightarrow>
     list_all (\<lambda>w. case w of Fork_patch _ \<Rightarrow> False | Fork_reroot _ \<Rightarrow> False | Endpoint_missing _ \<Rightarrow> False | _ \<Rightarrow> True) (es_warnings st)"

definition left_alone :: "root_row dict dict \<Rightarrow> desired_root \<Rightarrow> bool" where
  "left_alone live root \<longleftrightarrow> (\<exists>row. live_row live root = Some row \<and> stable root row)"

definition settles :: "root_row dict dict \<Rightarrow> desired_root \<Rightarrow> root_upsert list \<Rightarrow> bool" where
  "settles live root rows \<longleftrightarrow>
     rows = [] \<and> left_alone live root \<or> (\<exists>u. rows = [u] \<and> root_key_of u = root_id root \<and> keeps root u)"

definition pushes :: "engine_state \<Rightarrow> engine_state \<Rightarrow> root_upsert list \<Rightarrow> bool" where
  "pushes st st' rows \<longleftrightarrow> es_rootRows st' = es_rootRows st @ rows \<and> es_relationRows st' = es_relationRows st"

lemma new_root_settles:
  assumes "new_root env root st = Inr st'"
  shows "\<exists>rows. pushes st st' rows \<and> settles live root rows \<and> es_seenRootKeys st' = es_seenRootKeys st"
proof -
  obtain event where "st' = count (\<lambda>c. c\<lparr>ct_newRoots := ct_newRoots c + 1\<rparr>)
      (push_row (emitted_row env root (ev_id event) (ev_id event) (dr_content root))
         (tick (st\<lparr>es_newRootEvents := es_newRootEvents st @ [(root, event)],
                  es_rootEventIdByKey := dset (desired_key root) (ev_id event) (es_rootEventIdByKey st)\<rparr>)))"
    using assms by (auto simp: new_root_def split: sum.splits)
  then show ?thesis
    using keeps_emitted [OF effective_plain, of root env "ev_id event" "ev_id event"]
    by (auto simp: pushes_def settles_def count_def push_row_def tick_def)
qed

lemma patch_root_settles:
  assumes "patch_root env root row st = Inr st'" "clean st'" "plain_root root"
  shows "\<exists>rows. pushes st st' rows \<and> settles live root rows \<and> es_seenRootKeys st' = es_seenRootKeys st"
proof (cases "rf_tipEventId row \<in> set (es_patchParents st)")
  case True
  then show ?thesis
    using assms(1,2) by (auto simp: patch_root_def clean_def warn_def)
next
  case False
  obtain event where "st' = count (\<lambda>c. c\<lparr>ct_patches := ct_patches c + 1\<rparr>)
      (push_row (emitted_row env root (rf_rootEventId row) (ev_id event) (effective_content root row))
        (tick (st\<lparr>es_patchEvents := es_patchEvents st @ [event],
                 es_patchParents := sadd (rf_tipEventId row) (es_patchParents st)\<rparr>)))"
    using assms(1) False by (auto simp: patch_root_def Let_def split: sum.splits if_splits)
  then show ?thesis
    using keeps_emitted [OF effective_twice [OF assms(3)], of row env "rf_rootEventId row" "ev_id event"]
    by (auto simp: pushes_def settles_def count_def push_row_def tick_def)
qed

lemma re_root_content:
  assumes "re_root env root row st = Inr st'" "clean st'"
  obtains s event c where "s = st \<or> (\<exists>w. s = warn w st)"
      "st' = count (\<lambda>c. c\<lparr>ct_reRoots := ct_reRoots c + 1\<rparr>)
         ((push_row (emitted_row env root (ev_id event) (ev_id event)
              (insertSupersedesLine (fst (stripSupersedesNotice (dr_content root)))
                 (supersedes_sentence (rf_rootEventId row) (supersedeParts root row))))
            (pushDeletion env (rf_rootEventId row) c
              (tick (s\<lparr>es_reRootEntryByKey := dset (desired_key root) (length (es_reRootEntries s)) (es_reRootEntryByKey s),
                      es_reRootEntries := es_reRootEntries s @ [\<lparr>re_event = event, re_bindings = []\<rparr>],
                      es_reRootedKeys := sadd (desired_key root) (es_reRootedKeys s)\<rparr>))))
          \<lparr>es_rootEventIdByKey := dset (desired_key root) (ev_id event) (es_rootEventIdByKey s)\<rparr>)"
proof -
  define s where "s = (if dr_supersedes root \<noteq> None \<and> dr_supersedes root \<noteq> Some (rf_rootEventId row)
      then warn (Supersedes_mismatch (desired_key root)) st else st)"
  define content where "content = insertSupersedesLine (fst (stripSupersedesNotice (dr_content root)))
                 (supersedes_sentence (rf_rootEventId row) (supersedeParts root row))"
  have no_fork: "rf_tipEventId row \<notin> set (es_patchParents st)"
    using assms by (auto simp: re_root_def clean_def warn_def)
  note step = assms(1) [unfolded re_root_def Let_def if_not_P [OF no_fork], folded s_def, folded content_def]
  obtain event where e: "buildRootEvent env root content (Some (rf_rootEventId row)) (ee_clock env (es_tick s)) = Inr event"
    using step by (cases "buildRootEvent env root content (Some (rf_rootEventId row)) (ee_clock env (es_tick s))") simp_all
  have ids: "es_rootEventIdByKey (push_row r (pushDeletion env t c (tick (s\<lparr>es_reRootEntryByKey := k, es_reRootEntries := l,
      es_reRootedKeys := m\<rparr>)))) = es_rootEventIdByKey s" for r t c k l m
    by (simp add: push_row_def pushDeletion_def tick_def Let_def)
  have "s = st \<or> (\<exists>w. s = warn w st)"
    by (auto simp: s_def)
  then show thesis
    by (rule that [where event = event and c = "js ''Superseded by '' @ ev_id event @ js '' ('' @ supersedeParts root row @ js '').''"])
      (use step in \<open>simp only: e [unfolded content_def] sum.case sum.inject ids content_def\<close>)
qed

lemma re_root_settles:
  assumes "re_root env root row st = Inr st'" "clean st'" "plain_root root" "plain_row row"
  shows "\<exists>rows. pushes st st' rows \<and> settles live root rows \<and> es_seenRootKeys st' = es_seenRootKeys st"
  using assms(1,2)
proof (cases rule: re_root_content)
  case (1 s event c)
  let ?n = "supersedes_sentence (rf_rootEventId row) (supersedeParts root row)"
  have parts: "one_line (supersedeParts root row)" "is_id (rf_rootEventId row)"
    using one_line_parts assms(3,4) by (auto simp: plain_root_def plain_row_def)
  have c: "fst (stripSupersedesNotice (dr_content root)) = dr_content root"
    using strip_no_notice assms(3) by (simp add: plain_root_def)
  have "keeps root (emitted_row env root (ev_id event) (ev_id event) (insertSupersedesLine (dr_content root) ?n))"
    by (rule keeps_emitted)
      (rule effective_inserted [OF assms(3) sentence_notice [OF parts(2,1)] sentence_line [OF parts(2,1)]])
  moreover have "es_rootRows s = es_rootRows st" "es_relationRows s = es_relationRows st" "es_seenRootKeys s = es_seenRootKeys st"
    using 1(1) by (auto simp: warn_def)
  ultimately show ?thesis
    by (auto simp: 1(2) pushes_def settles_def count_def push_row_def pushDeletion_def tick_def Let_def c)
qed

lemma clean_mono: "set (es_warnings st) \<subseteq> set (es_warnings st') \<Longrightarrow> clean st' \<Longrightarrow> clean st"
  by (auto simp: clean_def list_all_iff)

lemma pushed_rows [simp]:
  "es_rootRows (push_row r st) = es_rootRows st @ [r]" "es_relationRows (push_row r st) = es_relationRows st"
  "es_seenRootKeys (push_row r st) = es_seenRootKeys st"
  by (simp_all add: push_row_def)

lemma counted_rows [simp]:
  "es_rootRows (count f st) = es_rootRows st" "es_relationRows (count f st) = es_relationRows st"
  "es_seenRootKeys (count f st) = es_seenRootKeys st"
  by (simp_all add: count_def)

lemma root_step_settles:
  assumes "root_step env live root st = Inr st'" "clean st'" "plain_root root" "desired_key root \<notin> set (es_seenRootKeys st)"
    and "\<And>row. live_row live root = Some row \<Longrightarrow> plain_row row \<and> root_key_of row = root_id root"
  shows "\<exists>rows. pushes st st' rows \<and> settles live root rows \<and> es_seenRootKeys st' = sadd (desired_key root) (es_seenRootKeys st)"
proof -
  let ?s = "st\<lparr>es_seenRootKeys := sadd (desired_key root) (es_seenRootKeys st)\<rparr>"
  have lift: ?thesis if "\<exists>rows. pushes ?s st' rows \<and> settles live root rows \<and> es_seenRootKeys st' = es_seenRootKeys ?s"
    using that by (simp add: pushes_def)
  show ?thesis
  proof (cases "live_row live root")
    case None
    then show ?thesis
      using assms(1,4) lift [OF new_root_settles] by (simp add: root_step_def Let_def)
  next
    case (Some row)
    note row = assms(5) [OF Some]
    let ?same = "strings_text (rf_iSet row) = strings_text (dr_iSet root) \<and> json_tags (rw_imeta row) = json_tags (dr_imeta root)
      \<and> rf_tipContent row = effective_content root row"
    let ?c = "count (\<lambda>c. c\<lparr>ct_unchanged := ct_unchanged c + 1\<rparr>) ?s"
    let ?u = "kept_row row (dr_sourceHash root) SECCERTS_GEN_VERSION Live"
    consider (stable) "stable root row" "st' = ?c" | (hash) "?same" "st' = push_row ?u ?c"
      | (patched) "patch_root env root row ?s = Inr st'" | (rerooted) "re_root env root row ?s = Inr st'"
      using assms(1,4) by (auto simp: root_step_def Some Let_def stable_def split: if_splits)
    then show ?thesis
    proof cases
      case stable
      then have "left_alone live root"
        using Some by (simp add: left_alone_def)
      then show ?thesis
        using stable(2) by (auto simp: pushes_def settles_def)
    next
      case hash
      have "keeps root ?u"
        using hash(1) effective_cong [of "stored_root now ?u old" row root for now old]
        by (simp add: keeps_def stable_def)
      then show ?thesis
        using row hash(2) by (auto simp: pushes_def settles_def)
    next
      case patched
      then show ?thesis
        using lift [OF patch_root_settles [OF _ assms(2,3)]] by blast
    next
      case rerooted
      then show ?thesis
        using lift [OF re_root_settles [OF _ assms(2,3)]] row by blast
    qed
  qed
qed

text \<open>What no step over a root touches.\<close>

definition extends :: "engine_state \<Rightarrow> engine_state \<Rightarrow> bool" where
  "extends st st' \<longleftrightarrow> set (es_warnings st) \<subseteq> set (es_warnings st') \<and> es_seenRelationKeys st' = es_seenRelationKeys st"

lemma root_step_extends:
  assumes step: "root_step env live root st = Inr st'"
  shows "extends st st'"
proof -
  let ?s = "st\<lparr>es_seenRootKeys := sadd (desired_key root) (es_seenRootKeys st)\<rparr>"
  have re: "extends s st'" if "re_root env root row s = Inr st'" for row s
    using that
  proof (cases rule: re_rootE)
    case (rerooted t content event c)
    then show ?thesis
      by (auto simp: extends_def count_def push_row_def pushDeletion_def tick_def warn_def Let_def)
  qed (auto simp: extends_def warn_def)
  have patch: "extends s st'" if "patch_root env root row s = Inr st'" for row s
    using that by (auto simp: extends_def patch_root_def Let_def warn_def count_def push_row_def tick_def split: if_splits sum.splits)
  have new: "extends s st'" if "new_root env root s = Inr st'" for s
    using that by (auto simp: extends_def new_root_def count_def push_row_def tick_def split: sum.splits)
  have "extends ?s st' \<Longrightarrow> extends st st'"
    by (simp add: extends_def)
  then show ?thesis
    using step re [of _ ?s] patch [of _ ?s] new [of ?s]
    by (auto simp: root_step_def extends_def Let_def warn_def count_def push_row_def split: if_splits option.splits)
qed

lemma root_step_warnings: "root_step env live root st = Inr st' \<Longrightarrow> set (es_warnings st) \<subseteq> set (es_warnings st')"
  using root_step_extends [of env live root st st'] by (simp add: extends_def)

lemma root_loop_warnings: "root_loop env live roots st = Inr st' \<Longrightarrow> set (es_warnings st) \<subseteq> set (es_warnings st')"
  by (rule root_loop_keeps [where P = "\<lambda>s. set (es_warnings st) \<subseteq> set (es_warnings s)"])
    (assumption, simp, metis root_step_warnings order_trans)

text \<open>After the loop every desired root is left alone or has one row of its own.\<close>

definition settled :: "root_row dict dict \<Rightarrow> root_upsert list \<Rightarrow> desired_root \<Rightarrow> bool" where
  "settled live rows root \<longleftrightarrow>
     left_alone live root \<and> root_id root \<notin> root_key_of ` set rows
     \<or> (\<exists>u \<in> set rows. root_key_of u = root_id root \<and> keeps root u)"

lemma desired_key_id: "root_id r = root_id r' \<Longrightarrow> desired_key r = desired_key r'"
  by (simp add: root_id_def desired_key_def)

lemma single_apart: "A \<subseteq> {x} \<Longrightarrow> x \<notin> B \<Longrightarrow> A \<inter> B = {}"
  by blast

lemma settled_first:
  assumes "settles live r rows" "root_id r \<notin> root_key_of ` set rows'"
  shows "settled live (rows @ rows') r"
proof (cases rows)
  case Nil
  then show ?thesis
    using assms unfolding settles_def settled_def  Nil append_Nil by simp
next
  case (Cons u us)
  then show ?thesis
    using assms(1) unfolding settles_def settled_def  by (intro disjI2 bexI [of _ u]) simp_all
qed

lemma settled_later: "settled live rows' r \<Longrightarrow> root_id r \<notin> root_key_of ` set rows \<Longrightarrow> settled live (rows @ rows') r"
  unfolding settled_def  set_append image_Un by blast

lemma root_loop_settles:
  assumes "root_loop env live roots st = Inr st'" "clean st'" "distinct (map desired_key roots)"
    and "\<And>root. root \<in> set roots \<Longrightarrow> plain_root root \<and> desired_key root \<notin> set (es_seenRootKeys st)"
    and "\<And>root row. root \<in> set roots \<Longrightarrow> live_row live root = Some row \<Longrightarrow> plain_row row \<and> root_key_of row = root_id root"
  shows "\<exists>rows. pushes st st' rows \<and> root_key_of ` set rows \<subseteq> root_id ` set roots \<and> distinct (map root_key_of rows)
    \<and> (\<forall>root \<in> set roots. settled live rows root)"
  using assms
proof (induction roots arbitrary: st)
  case Nil
  then show ?case
    by (simp add: pushes_def)
next
  case (Cons r roots)
  obtain s where s: "root_step env live r st = Inr s" "root_loop env live roots s = Inr st'"
    using Cons.prems(1) by (auto split: sum.splits)
  have "clean s"
    by (rule clean_mono [OF root_loop_warnings [OF s(2)] Cons.prems(2)])
  then obtain rows where rows: "pushes st s rows" "settles live r rows"
      "es_seenRootKeys s = sadd (desired_key r) (es_seenRootKeys st)"
    using root_step_settles [OF s(1)] Cons.prems(4,5) [of r] by (meson list.set_intros(1))
  have unseen: "plain_root root \<and> desired_key root \<notin> set (es_seenRootKeys s)" if "root \<in> set roots" for root
  proof -
    have "desired_key r \<notin> desired_key ` set roots"
      using Cons.prems(3) by simp
    then have "desired_key root \<noteq> desired_key r"
      using imageI [OF that, of desired_key] by metis
    then show ?thesis
      using that Cons.prems(4) rows(3) by simp
  qed
  have "\<exists>rows. pushes s st' rows \<and> root_key_of ` set rows \<subseteq> root_id ` set roots \<and> distinct (map root_key_of rows)
    \<and> (\<forall>root \<in> set roots. settled live rows root)"
  proof (rule Cons.IH [OF s(2) Cons.prems(2) _ unseen])
    show "distinct (map desired_key roots)"
      using Cons.prems(3) by simp
  qed (use Cons.prems(5) in auto)
  then obtain rows' where all: "pushes s st' rows' \<and> root_key_of ` set rows' \<subseteq> root_id ` set roots \<and> distinct (map root_key_of rows')
    \<and> (\<forall>root \<in> set roots. settled live rows' root)" ..
  note rows' = all [THEN conjunct1] all [THEN conjunct2, THEN conjunct1] all [THEN conjunct2, THEN conjunct2, THEN conjunct1]
    all [THEN conjunct2, THEN conjunct2, THEN conjunct2]
  have other: "root_id r \<notin> root_id ` set roots"
  proof
    assume "root_id r \<in> root_id ` set roots"
    then obtain r' where "r' \<in> set roots" "root_id r = root_id r'"
      by (rule imageE) (rule that)
    then show False
      using Cons.prems(3) desired_key_id [of r r'] imageI [of r' "set roots" desired_key] by simp
  qed
  have own: "root_key_of ` set rows \<subseteq> {root_id r}" "distinct (map root_key_of rows)"
    using rows(2) by (auto simp: settles_def)
  have apart: "root_id r \<notin> root_key_of ` set rows'"
    using rows'(2) other by blast
  have all_settled: "settled live (rows @ rows') root" if "root \<in> set (r # roots)" for root
  proof (cases "root = r")
    case True
    then show ?thesis
      using settled_first [OF rows(2) apart] by simp
  next
    case False
    then have root: "root \<in> set roots"
      using that by simp
    have "root_id root \<noteq> root_id r"
      using other imageI [OF root, of root_id] by metis
    then have "root_id root \<notin> root_key_of ` set rows"
      using own(1) by blast
    then show ?thesis
      by (rule settled_later [OF bspec [OF rows'(4) root]])
  qed
  have dist: "distinct (map root_key_of (rows @ rows'))"
    unfolding map_append distinct_append set_map by (intro conjI own(2) rows'(3) single_apart [OF own(1) apart])
  have sub: "root_key_of ` set (rows @ rows') \<subseteq> root_id ` set (r # roots)"
    using own(1) rows'(2) by auto
  have push: "pushes st st' (rows @ rows')"
    using rows(1) rows'(1) by (simp add: pushes_def)
  show ?case
    using push sub dist by (intro exI [of _ "rows @ rows'"] conjI ballI) (assumption, assumption, assumption, rule all_settled)
qed

text \<open>Retiring touches only sources that the ledger has as products or metadata and the plan does not name.\<close>

definition undesired :: "ledger \<Rightarrow> (jsstr \<times> jsstr list) list \<Rightarrow> root_upsert \<Rightarrow> bool" where
  "undesired db sources u \<longleftrightarrow>
     rf_state u = Gone \<and> 0 \<notin> set (rf_sourceId u) \<and> rf_sourceId u \<in> set (known_sources db (rf_corpus u))
     \<and> (\<exists>ids. (rf_corpus u, ids) \<in> set sources \<and> rf_sourceId u \<notin> set ids)"

text \<open>Retiring pushes rows that are gone and forgets their keys.\<close>

definition known_keys :: "engine_state \<Rightarrow> jsstr set" where
  "known_keys st = {k. dget (es_rootEventIdByKey st) k \<noteq> None}"

lemma known_keys_frame [simp]:
  "known_keys (warn w st) = known_keys st" "known_keys (count f st) = known_keys st" "known_keys (push_row u st) = known_keys st"
  "known_keys (saw rel st) = known_keys st" "known_keys (st\<lparr>es_seenRootKeys := k1\<rparr>) = known_keys st"
  by (simp_all add: known_keys_def warn_def count_def push_row_def saw_def)

definition retires :: "ledger \<Rightarrow> (jsstr \<times> jsstr list) list \<Rightarrow> engine_state \<Rightarrow> engine_state \<Rightarrow> root_upsert list \<Rightarrow> bool" where
  "retires db sources st st' gone \<longleftrightarrow>
     pushes st st' gone \<and> list_all (undesired db sources) gone
     \<and> known_keys st' \<subseteq> known_keys st - row_key ` set gone"

lemma retires_refl: "retires db sources st st []"
  by (simp add: retires_def pushes_def)

lemma retires_trans: "retires db sources st s a \<Longrightarrow> retires db sources s st' b \<Longrightarrow> retires db sources st st' (a @ b)"
  unfolding retires_def pushes_def set_append image_Un list_all_append by (intro conjI) (simp_all, blast)

definition gone_row :: "root_row \<Rightarrow> root_upsert" where
  "gone_row row = kept_row row (rf_sourceHash row) (rf_genVersion row) Gone"

lemma retire_rows:
  assumes "\<And>row. row \<in> set rows \<Longrightarrow> rf_corpus row = c \<and> rf_sourceId row = sid \<and> undesired db sources (gone_row row)"
  shows "retires db sources st (fold (retire_row c sid) rows st) (map gone_row rows)"
  using assms
proof (induction rows arbitrary: st)
  case Nil
  then show ?case
    by (simp add: retires_refl)
next
  case (Cons row rows)
  have "rf_corpus row = c" "rf_sourceId row = sid" "undesired db sources (gone_row row)"
    using Cons.prems by auto
  moreover from this have "row_key (gone_row row) = rootKeyOf c sid (rf_role row)"
    by (simp add: gone_row_def row_key_def)
  then have "known_keys (retire_row c sid row st) = known_keys st - row_key ` set [gone_row row]"
    by (auto simp: known_keys_def retire_row_def push_row_def Let_def)
  moreover have "pushes st (retire_row c sid row st) [gone_row row]"
    by (simp add: pushes_def retire_row_def gone_row_def Let_def)
  ultimately have "retires db sources st (retire_row c sid row st) [gone_row row]"
    unfolding retires_def by simp
  moreover have "retires db sources (retire_row c sid row st) (fold (retire_row c sid) rows (retire_row c sid row st)) (map gone_row rows)"
    by (rule Cons.IH) (rule Cons.prems, simp)
  ultimately show ?case
    using retires_trans by fastforce
qed

lemma retires_frame: "retires db sources st (warn w (count f st')) gone \<longleftrightarrow> retires db sources st st' gone"
  by (simp add: retires_def pushes_def) (simp add: warn_def)

lemma retire_sources:
  assumes "(c, desired) \<in> set sources" "set sids \<subseteq> set (known_sources db c)"
    and "\<And>row. row \<in> set (dvalues rows) \<Longrightarrow> rf_corpus row = c \<and> 0 \<notin> set (rf_sourceId row)"
  shows "\<exists>gone. retires db sources st (fold (retire_source c rows desired) sids st) gone
    \<and> (\<forall>row \<in> set (dvalues rows). rf_sourceId row \<in> set sids \<longrightarrow> rf_sourceId row \<notin> set desired \<longrightarrow>
         root_key_of row \<in> root_key_of ` set gone)"
  using assms(2)
proof (induction sids arbitrary: st)
  case Nil
  show ?case
    by (intro exI [of _ "[]"]) (simp add: retires_refl)
next
  case (Cons sid sids)
  let ?out = "filter (\<lambda>row. rf_sourceId row = sid) (dvalues rows)" and ?s = "retire_source c rows desired sid st"
  have out: "retires db sources st (fold (retire_row c sid) ?out st) (map gone_row ?out)" if sid: "sid \<notin> set desired"
  proof (rule retire_rows)
    fix row
    assume "row \<in> set ?out"
    then have r: "row \<in> set (dvalues rows)" "rf_sourceId row = sid"
      by simp_all
    have "sid \<in> set (known_sources db c)"
      using Cons.prems by simp
    then show "rf_corpus row = c \<and> rf_sourceId row = sid \<and> undesired db sources (gone_row row)"
      using assms(1) assms(3) [OF r(1)] r(2) sid by (auto simp: undesired_def gone_row_def)
  qed
  have step: "retires db sources st ?s (if sid \<in> set desired then [] else map gone_row ?out)"
  proof (cases "sid \<in> set desired")
    case True
    then show ?thesis
      by (simp add: retire_source_def retires_refl)
  next
    case False
    show ?thesis
    proof (cases "?out = []")
      case True
      then show ?thesis
        using False by (simp only: retire_source_def Let_def if_False if_True list.map retires_refl refl)
    next
      case out': False
      show ?thesis
        unfolding retire_source_def Let_def using False out' out [OF False] by (simp only: if_False retires_frame)
    qed
  qed
  obtain gone where gone: "retires db sources ?s (fold (retire_source c rows desired) sids ?s) gone"
    "\<forall>row \<in> set (dvalues rows). rf_sourceId row \<in> set sids \<longrightarrow> rf_sourceId row \<notin> set desired \<longrightarrow>
       root_key_of row \<in> root_key_of ` set gone"
    using Cons.IH [of ?s] Cons.prems by auto
  have "root_key_of row \<in> root_key_of ` set ((if sid \<in> set desired then [] else map gone_row ?out) @ gone)"
    if r: "row \<in> set (dvalues rows)" "rf_sourceId row \<in> set (sid # sids)" "rf_sourceId row \<notin> set desired" for row
  proof (cases "rf_sourceId row = sid")
    case True
    then have "gone_row row \<in> set (map gone_row ?out)" "sid \<notin> set desired"
      using r by auto
    then show ?thesis
      by (intro rev_image_eqI [of "gone_row row"]) (auto simp: gone_row_def)
  next
    case False
    then have "rf_sourceId row \<in> set sids"
      using r(2) by simp
    then have "root_key_of row \<in> root_key_of ` set gone"
      using gone(2) r(1,3) by blast
    then show ?thesis
      by (simp add: image_Un)
  qed
  then show ?case
    using retires_trans [OF step gone(1)] by (intro exI conjI ballI impI) (simp_all only: fold_simps o_apply)
qed

lemma retire_all:
  assumes "\<And>c row. row \<in> set (rootsByCorpus c db) \<Longrightarrow> plain_row row" "set es \<subseteq> set sources"
    and "\<And>e. e \<in> set es \<Longrightarrow> fst e \<in> set (root_corpora state)"
  shows "\<exists>gone. retires db sources st (fold (retire_corpus db (live_roots state db)) es st) gone
    \<and> (\<forall>e \<in> set es. \<forall>row \<in> set (dvalues (map_by row_key (rootsByCorpus (fst e) db))).
         rf_sourceId row \<in> set (known_sources db (fst e)) \<longrightarrow> rf_sourceId row \<notin> set (snd e) \<longrightarrow>
         root_key_of row \<in> root_key_of ` set gone)"
  using assms(2,3)
proof (induction es arbitrary: st)
  case Nil
  show ?case
    by (intro exI [of _ "[]"]) (simp add: retires_refl)
next
  case (Cons e es)
  let ?rows = "map_by row_key (rootsByCorpus (fst e) db)" and ?s = "retire_corpus db (live_roots state db) e st"
  have "dget (live_roots state db) (fst e) = Some ?rows"
    using Cons.prems(2) [of e] by (simp add: live_roots_def dget_map_pairs)
  then have step: "?s = fold (retire_source (fst e) ?rows (snd e)) (known_sources db (fst e)) st"
    by (simp add: retire_corpus_def case_prod_beta)
  have corpus: "rf_corpus row = fst e \<and> 0 \<notin> set (rf_sourceId row)" if "row \<in> set (dvalues ?rows)" for row
  proof -
    have "row \<in> set (rootsByCorpus (fst e) db)"
      using map_by_values [OF that] by simp
    then show ?thesis
      using assms(1) rootsByCorpus_corpus by (auto simp: plain_row_def)
  qed
  have "\<exists>a. retires db sources st ?s a \<and> (\<forall>row \<in> set (dvalues ?rows). rf_sourceId row \<in> set (known_sources db (fst e)) \<longrightarrow>
      rf_sourceId row \<notin> set (snd e) \<longrightarrow> root_key_of row \<in> root_key_of ` set a)"
    unfolding step by (rule retire_sources [OF _ order_refl corpus]) (use Cons.prems(1) in simp)
  then obtain a where a: "retires db sources st ?s a"
    "\<forall>row \<in> set (dvalues ?rows). rf_sourceId row \<in> set (known_sources db (fst e)) \<longrightarrow> rf_sourceId row \<notin> set (snd e) \<longrightarrow>
       root_key_of row \<in> root_key_of ` set a"
    by blast
  obtain b where b: "retires db sources ?s (fold (retire_corpus db (live_roots state db)) es ?s) b"
    "\<forall>e \<in> set es. \<forall>row \<in> set (dvalues (map_by row_key (rootsByCorpus (fst e) db))).
       rf_sourceId row \<in> set (known_sources db (fst e)) \<longrightarrow> rf_sourceId row \<notin> set (snd e) \<longrightarrow>
       root_key_of row \<in> root_key_of ` set b"
    using Cons.IH [of ?s] Cons.prems by auto
  show ?case
  proof (intro exI [of _ "a @ b"] conjI ballI impI)
    show "retires db sources st (fold (retire_corpus db (live_roots state db)) (e # es) st) (a @ b)"
      using retires_trans [OF a(1) b(1)] by simp
  next
    fix e' row
    assume e': "e' \<in> set (e # es)" and row: "row \<in> set (dvalues (map_by row_key (rootsByCorpus (fst e') db)))"
      "rf_sourceId row \<in> set (known_sources db (fst e'))" "rf_sourceId row \<notin> set (snd e')"
    from e' consider "e' = e" | "e' \<in> set es"
      by auto
    then show "root_key_of row \<in> root_key_of ` set (a @ b)"
    proof cases
      case 1
      then have "root_key_of row \<in> root_key_of ` set a"
        using a(2) row by blast
      then show ?thesis
        by (simp add: image_Un)
    next
      case 2
      then have "root_key_of row \<in> root_key_of ` set b"
        using b(2) row by blast
      then show ?thesis
        by (simp add: image_Un)
    qed
  qed
qed

lemma retire_warnings: "set (es_warnings st) \<subseteq> set (es_warnings (retire_corpus db live e st))"
  by (rule retire_corpus_keeps [where P = "\<lambda>s. set (es_warnings st) \<subseteq> set (es_warnings s)"])
    (auto simp: retire_row_def push_row_def count_def warn_def Let_def)

section \<open>What a relation leaves behind\<close>

definition held :: "relation_row dict dict \<Rightarrow> relation_upsert list \<Rightarrow> desired_relation \<Rightarrow> bool" where
  "held known rows rel \<longleftrightarrow>
     (\<exists>row. known_row known rel = Some row \<and> lu_state row = Live \<and> lu_fingerprint row = de_fingerprint rel)
       \<and> (de_corpus rel, de_relationId rel) \<notin> relation_key_of ` set rows
     \<or> (\<exists>u \<in> set rows. relation_key_of u = (de_corpus rel, de_relationId rel) \<and> lu_state u = Live
          \<and> lu_fingerprint u = de_fingerprint rel)"

definition records :: "engine_state \<Rightarrow> engine_state \<Rightarrow> relation_upsert list \<Rightarrow> bool" where
  "records st st' rows \<longleftrightarrow> es_relationRows st' = es_relationRows st @ rows \<and> es_rootRows st' = es_rootRows st"

definition holds :: "relation_row dict dict \<Rightarrow> desired_relation \<Rightarrow> relation_upsert list \<Rightarrow> bool" where
  "holds known rel rows \<longleftrightarrow>
     rows = [] \<and> (\<exists>row. known_row known rel = Some row \<and> lu_state row = Live \<and> lu_fingerprint row = de_fingerprint rel)
     \<or> (\<exists>u. rows = [u] \<and> relation_key_of u = (de_corpus rel, de_relationId rel) \<and> lu_state u = Live
          \<and> lu_fingerprint u = de_fingerprint rel)"

lemma emit_binding_records:
  assumes "emit_binding env rel a b i f st = Inr st'"
  shows "\<exists>u. records st st' [u] \<and> holds known rel [u] \<and> es_seenRelationKeys st' = es_seenRelationKeys st
    \<and> es_warnings st' = es_warnings st"
proof -
  obtain event where "st' = count f ((place i event (tick st))
      \<lparr>es_relationRows := es_relationRows (place i event (tick st)) @ [relation_upsert_of rel (ev_id event)]\<rparr>)"
    using assms by (auto simp: emit_binding_def Let_def split: sum.splits)
  moreover have "es_relationRows (place i event (tick st)) = es_relationRows st" "es_rootRows (place i event (tick st)) = es_rootRows st"
    "es_seenRelationKeys (place i event (tick st)) = es_seenRelationKeys st" "es_warnings (place i event (tick st)) = es_warnings st"
    by (simp_all add: place_def tick_def split: option.splits)
  ultimately show ?thesis
    by (auto simp: records_def holds_def count_def relation_upsert_of_def relation_key_of_def)
qed

lemma saw_fields [simp]:
  "es_relationRows (saw rel st) = es_relationRows st" "es_rootRows (saw rel st) = es_rootRows st"
  "es_seenRelationKeys (saw rel st) = sadd (relation_key rel) (es_seenRelationKeys st)" "es_warnings (saw rel st) = es_warnings st"
  by (simp_all add: saw_def)

lemma pushDeletion_fields [simp]:
  "es_relationRows (pushDeletion env t c st) = es_relationRows st" "es_rootRows (pushDeletion env t c st) = es_rootRows st"
  "es_seenRelationKeys (pushDeletion env t c st) = es_seenRelationKeys st" "es_warnings (pushDeletion env t c st) = es_warnings st"
  by (simp_all add: pushDeletion_def tick_def Let_def)

lemma relation_step_records:
  assumes "relation_step env known rel st = Inr st'" "clean st'" "relation_key rel \<notin> set (es_seenRelationKeys st)"
  shows "\<exists>rows. records st st' rows \<and> holds known rel rows
    \<and> es_seenRelationKeys st' = sadd (relation_key rel) (es_seenRelationKeys st)"
  using assms(1)
proof (cases rule: relation_step_cases)
  case duplicate
  then show ?thesis
    using assms(3) by simp
next
  case missing
  then show ?thesis
    using assms(2) by (simp add: clean_def warn_def)
next
  case (fresh a b)
  then show ?thesis
    using emit_binding_records [OF fresh(5), of known] by (auto simp: records_def)
next
  case (kept a b row)
  then show ?thesis
    by (auto simp: records_def holds_def count_def)
next
  case (replaced a b row c)
  then show ?thesis
    using emit_binding_records [OF replaced(7), of known] by (auto simp: records_def)
qed

lemma relation_step_warnings:
  assumes "relation_step env known rel st = Inr st'"
  shows "set (es_warnings st) \<subseteq> set (es_warnings st')"
  using assms
proof (cases rule: relation_step_cases)
  case (fresh a b)
  then show ?thesis
    using emit_binding_records [OF fresh(5), of known] by auto
next
  case (replaced a b row c)
  then show ?thesis
    using emit_binding_records [OF replaced(7), of known] by auto
qed (auto simp: warn_def count_def)

lemma relation_loop_warnings: "relation_loop env known rels st = Inr st' \<Longrightarrow> set (es_warnings st) \<subseteq> set (es_warnings st')"
  by (rule relation_loop_keeps [where P = "\<lambda>s. set (es_warnings st) \<subseteq> set (es_warnings s)"])
    (assumption, simp, metis relation_step_warnings order_trans)

definition relation_id :: "desired_relation \<Rightarrow> relation_key" where
  "relation_id rel = (de_corpus rel, de_relationId rel)"

lemma held_first:
  assumes "holds known r rows" "relation_id r \<notin> relation_key_of ` set rows'"
  shows "held known (rows @ rows') r"
proof (cases rows)
  case Nil
  then show ?thesis
    using assms unfolding holds_def held_def relation_id_def Nil append_Nil by simp
next
  case (Cons u us)
  then show ?thesis
    using assms(1) unfolding holds_def held_def relation_id_def by (intro disjI2 bexI [of _ u]) simp_all
qed

lemma held_later: "held known rows' r \<Longrightarrow> relation_id r \<notin> relation_key_of ` set rows \<Longrightarrow> held known (rows @ rows') r"
  unfolding held_def relation_id_def set_append image_Un by blast

lemma relation_loop_records:
  assumes "relation_loop env known rels st = Inr st'" "clean st'" "distinct (map relation_key rels)"
    and "\<And>rel. rel \<in> set rels \<Longrightarrow> relation_key rel \<notin> set (es_seenRelationKeys st)"
  shows "\<exists>rows. records st st' rows \<and> relation_key_of ` set rows \<subseteq> relation_id ` set rels \<and> distinct (map relation_key_of rows)
    \<and> (\<forall>rel \<in> set rels. held known rows rel)"
  using assms
proof (induction rels arbitrary: st)
  case Nil
  then show ?case
    by (simp add: records_def)
next
  case (Cons r rels)
  obtain s where s: "relation_step env known r st = Inr s" "relation_loop env known rels s = Inr st'"
    using Cons.prems(1) by (auto split: sum.splits)
  have "clean s"
    by (rule clean_mono [OF relation_loop_warnings [OF s(2)] Cons.prems(2)])
  then obtain rows where rows: "records st s rows" "holds known r rows"
      "es_seenRelationKeys s = sadd (relation_key r) (es_seenRelationKeys st)"
    using relation_step_records [OF s(1)] Cons.prems(4) [of r] by (meson list.set_intros(1))
  have unseen: "relation_key rel \<notin> set (es_seenRelationKeys s)" if "rel \<in> set rels" for rel
  proof -
    have "relation_key r \<notin> relation_key ` set rels"
      using Cons.prems(3) by simp
    then have "relation_key rel \<noteq> relation_key r"
      using imageI [OF that, of relation_key] by metis
    then show ?thesis
      using that Cons.prems(4) rows(3) by simp
  qed
  have "\<exists>rows. records s st' rows \<and> relation_key_of ` set rows \<subseteq> relation_id ` set rels \<and> distinct (map relation_key_of rows)
    \<and> (\<forall>rel \<in> set rels. held known rows rel)"
  proof (rule Cons.IH [OF s(2) Cons.prems(2) _ unseen])
    show "distinct (map relation_key rels)"
      using Cons.prems(3) by simp
  qed
  then obtain rows' where all: "records s st' rows' \<and> relation_key_of ` set rows' \<subseteq> relation_id ` set rels \<and> distinct (map relation_key_of rows')
    \<and> (\<forall>rel \<in> set rels. held known rows' rel)" ..
  note rows' = all [THEN conjunct1] all [THEN conjunct2, THEN conjunct1] all [THEN conjunct2, THEN conjunct2, THEN conjunct1]
    all [THEN conjunct2, THEN conjunct2, THEN conjunct2]
  have other: "relation_id r \<notin> relation_id ` set rels"
  proof
    assume "relation_id r \<in> relation_id ` set rels"
    then obtain r' where "r' \<in> set rels" "relation_id r = relation_id r'"
      by (rule imageE) (rule that)
    moreover from this(2) have "relation_key r = relation_key r'"
      by (simp add: relation_id_def relation_key_def)
    ultimately show False
      using Cons.prems(3) imageI [of r' "set rels" relation_key] by simp
  qed
  have own: "relation_key_of ` set rows \<subseteq> {relation_id r}" "distinct (map relation_key_of rows)"
    using rows(2) by (auto simp: holds_def relation_id_def)
  have apart: "relation_id r \<notin> relation_key_of ` set rows'"
    using rows'(2) other by blast
  have all_settled: "held known (rows @ rows') rel" if "rel \<in> set (r # rels)" for rel
  proof (cases "rel = r")
    case True
    then show ?thesis
      using held_first [OF rows(2) apart] by simp
  next
    case False
    then have rel: "rel \<in> set rels"
      using that by simp
    have "relation_id rel \<noteq> relation_id r"
      using other imageI [OF rel, of relation_id] by metis
    then have "relation_id rel \<notin> relation_key_of ` set rows"
      using own(1) by blast
    then show ?thesis
      by (rule held_later [OF bspec [OF rows'(4) rel]])
  qed
  have dist: "distinct (map relation_key_of (rows @ rows'))"
    unfolding map_append distinct_append set_map by (intro conjI own(2) rows'(3) single_apart [OF own(1) apart])
  have sub: "relation_key_of ` set (rows @ rows') \<subseteq> relation_id ` set (r # rels)"
    using own(1) rows'(2) by auto
  have push: "records st st' (rows @ rows')"
    using rows(1) rows'(1) by (simp add: records_def)
  show ?case
    using push sub dist by (intro exI [of _ "rows @ rows'"] conjI ballI) (assumption, assumption, assumption, rule all_settled)
qed

text \<open>A run without a missing endpoint has found both endpoints of every relation.\<close>

definition anchored :: "engine_state \<Rightarrow> desired_relation \<Rightarrow> bool" where
  "anchored st rel \<longleftrightarrow> end_key (de_rootRef rel) \<in> known_keys st \<and> end_key (de_linkRef rel) \<in> known_keys st"

lemma emit_binding_keys: "emit_binding env rel a b i f st = Inr st' \<Longrightarrow> known_keys st' = known_keys st"
proof -
  assume "emit_binding env rel a b i f st = Inr st'"
  moreover have "es_rootEventIdByKey (place i event (tick st)) = es_rootEventIdByKey st" for event
    by (simp add: place_def tick_def split: option.split)
  ultimately show ?thesis
    by (auto simp: emit_binding_def known_keys_def count_def Let_def split: sum.splits)
qed

lemma relation_step_keys:
  assumes "relation_step env known rel st = Inr st'"
  shows "known_keys st' = known_keys st"
proof -
  have d: "known_keys (pushDeletion env i c s) = known_keys s" for i c s
    by (simp add: known_keys_def pushDeletion_def tick_def Let_def)
  show ?thesis
    using assms
  proof (cases rule: relation_step_cases)
    case (fresh a b)
    then show ?thesis
      using emit_binding_keys [OF fresh(5)] by simp
  next
    case (replaced a b row c)
    then show ?thesis
      using emit_binding_keys [OF replaced(7)] by (simp add: d)
  qed simp_all
qed

lemma relation_loop_anchored:
  assumes "relation_loop env known rels st = Inr st'" "clean st'" "distinct (map relation_key rels)"
    and "\<And>rel. rel \<in> set rels \<Longrightarrow> relation_key rel \<notin> set (es_seenRelationKeys st)"
  shows "\<forall>rel \<in> set rels. anchored st rel"
  using assms
proof (induction rels arbitrary: st)
  case (Cons r rels)
  obtain s where s: "relation_step env known r st = Inr s" "relation_loop env known rels s = Inr st'"
    using Cons.prems(1) by (auto split: sum.splits)
  have clean: "clean s"
    by (rule clean_mono [OF relation_loop_warnings [OF s(2)] Cons.prems(2)])
  then have seen: "es_seenRelationKeys s = sadd (relation_key r) (es_seenRelationKeys st)"
    using relation_step_records [OF s(1)] Cons.prems(4) [of r] by (meson list.set_intros(1))
  have "anchored st r"
    using s(1)
  proof (cases rule: relation_step_cases)
    case missing
    then show ?thesis
      using clean by (simp add: clean_def warn_def)
  qed (use Cons.prems(4) [of r] in \<open>simp_all add: anchored_def known_keys_def\<close>)
  moreover have "\<forall>rel \<in> set rels. anchored s rel"
  proof (rule Cons.IH [OF s(2) Cons.prems(2)])
    fix rel assume rel: "rel \<in> set rels"
    have "relation_key r \<notin> relation_key ` set rels"
      using Cons.prems(3) by simp
    then have "relation_key rel \<noteq> relation_key r"
      using imageI [OF rel, of relation_key] by metis
    then show "relation_key rel \<notin> set (es_seenRelationKeys s)"
      using rel Cons.prems(4) seen by simp
  qed (use Cons.prems(3) in simp)
  ultimately show ?case
    by (simp add: anchored_def relation_step_keys [OF s(1)])
qed simp

lemma root_step_keys:
  assumes "root_step env live root st = Inr st'"
  shows "known_keys st' \<subseteq> insert (desired_key root) (known_keys st)"
proof -
  have new: "known_keys st' \<subseteq> insert (desired_key root) (known_keys s)" if "new_root env root s = Inr st'" for s
    using that by (auto simp: new_root_def known_keys_def count_def push_row_def tick_def split: sum.splits if_splits)
  have patch: "known_keys st' \<subseteq> known_keys s" if "patch_root env root row s = Inr st'" for row s
    using that by (auto simp: patch_root_def known_keys_def count_def push_row_def tick_def warn_def Let_def split: sum.splits if_splits)
  have re: "known_keys st' \<subseteq> insert (desired_key root) (known_keys s)" if "re_root env root row s = Inr st'" for row s
    using that
    by (auto simp: re_root_def known_keys_def count_def push_row_def tick_def warn_def pushDeletion_def Let_def
        split: sum.splits if_splits)
  let ?s = "st\<lparr>es_seenRootKeys := sadd (desired_key root) (es_seenRootKeys st)\<rparr>"
  show ?thesis
    using assms new [of ?s] patch [of _ ?s] re [of _ ?s]
    by (auto simp: root_step_def Let_def split: if_splits option.splits)
qed

lemma root_loop_keys:
  "root_loop env live roots st = Inr st' \<Longrightarrow> known_keys st' \<subseteq> desired_key ` set roots \<union> known_keys st"
  by (rule root_loop_keeps [where P = "\<lambda>s. known_keys s \<subseteq> desired_key ` set roots \<union> known_keys st"])
    (assumption, simp, use root_step_keys in blast)

text \<open>Retractions: every live row outside the plan, and no other, is recorded as gone.\<close>

definition surplus :: "desired_relation list \<Rightarrow> relation_row \<Rightarrow> bool" where
  "surplus rels row \<longleftrightarrow> lu_state row = Live \<and> (lu_corpus row, lu_relationId row) \<notin> relation_id ` set rels"

definition dropped :: "desired_relation list \<Rightarrow> relation_upsert \<Rightarrow> bool" where
  "dropped rels u \<longleftrightarrow> lu_state u = Gone \<and> relation_key_of u \<notin> relation_id ` set rels"

lemma retract_row_records:
  assumes "lu_corpus row = c"
  shows "\<exists>us. records st (retract_row env (map de_relationId (filter (\<lambda>r. de_corpus r = c) rels)) row st) us
    \<and> list_all (dropped rels) us \<and> (surplus rels row \<longrightarrow> relation_key_of row \<in> relation_key_of ` set us)"
proof (cases "lu_state row \<noteq> Live \<or> lu_relationId row \<in> set (map de_relationId (filter (\<lambda>r. de_corpus r = c) rels))")
  case True
  moreover have "\<not> surplus rels row"
    using True assms by (force simp: surplus_def relation_id_def)
  ultimately show ?thesis
    by (intro exI [of _ "[]"]) (simp add: retract_row_def records_def)
next
  case False
  let ?u = "\<lparr>lu_corpus = lu_corpus row, lu_relationId = lu_relationId row, lu_kind = lu_kind row,
      lu_subjectId = lu_subjectId row, lu_objectKey = lu_objectKey row, lu_fingerprint = lu_fingerprint row,
      lu_eventId = lu_eventId row, lu_state = Gone\<rparr>"
  have "(lu_corpus row, lu_relationId row) \<notin> relation_id ` set rels"
    using False assms by (auto simp: relation_id_def)
  then have "dropped rels ?u"
    by (simp add: dropped_def relation_key_of_def)
  moreover have "relation_key_of ?u = relation_key_of row"
    by (simp add: relation_key_of_def)
  moreover have "records st (retract_row env (map de_relationId (filter (\<lambda>r. de_corpus r = c) rels)) row st) [?u]"
    using False unfolding retract_row_def if_not_P [OF False] Let_def by (simp add: records_def)
  ultimately show ?thesis
    by (intro exI [of _ "[?u]"]) simp
qed

lemma retract_fold:
  assumes "\<And>row. row \<in> set rows \<Longrightarrow> lu_corpus row = c"
  shows "\<exists>us. records st (fold (retract_row env (map de_relationId (filter (\<lambda>r. de_corpus r = c) rels))) rows st) us
    \<and> list_all (dropped rels) us \<and> (\<forall>row \<in> set rows. surplus rels row \<longrightarrow> relation_key_of row \<in> relation_key_of ` set us)"
  using assms
proof (induction rows arbitrary: st)
  case Nil
  then show ?case
    by (simp add: records_def)
next
  case (Cons r rows)
  let ?s = "retract_row env (map de_relationId (filter (\<lambda>r. de_corpus r = c) rels)) r st"
  obtain us where us: "records st ?s us" "list_all (dropped rels) us" "surplus rels r \<longrightarrow> relation_key_of r \<in> relation_key_of ` set us"
    using retract_row_records [of r c st env rels] Cons.prems by auto
  obtain us' where us': "records ?s (fold (retract_row env (map de_relationId (filter (\<lambda>r. de_corpus r = c) rels))) rows ?s) us'"
      "list_all (dropped rels) us'" "\<forall>row \<in> set rows. surplus rels row \<longrightarrow> relation_key_of row \<in> relation_key_of ` set us'"
    using Cons.IH [of ?s] Cons.prems by (auto simp del: fold_simps)
  show ?case
    by (intro exI [of _ "us @ us'"]) (use us us' in \<open>auto simp: records_def\<close>)
qed

lemma retract_all:
  assumes "\<And>e row. e \<in> set es \<Longrightarrow> row \<in> set (dvalues (snd e)) \<Longrightarrow> lu_corpus row = fst e"
  shows "\<exists>us. records st (fold (retract_corpus env rels) es st) us \<and> list_all (dropped rels) us
    \<and> (\<forall>e \<in> set es. \<forall>row \<in> set (dvalues (snd e)). surplus rels row \<longrightarrow> relation_key_of row \<in> relation_key_of ` set us)"
  using assms
proof (induction es arbitrary: st)
  case Nil
  then show ?case
    by (simp add: records_def)
next
  case (Cons e es)
  let ?s = "retract_corpus env rels e st"
  obtain us where us: "records st ?s us" "list_all (dropped rels) us"
      "\<forall>row \<in> set (dvalues (snd e)). surplus rels row \<longrightarrow> relation_key_of row \<in> relation_key_of ` set us"
    using retract_fold [of "dvalues (snd e)" "fst e" st env rels] Cons.prems by (auto simp: retract_corpus_def case_prod_beta)
  obtain us' where us': "records ?s (fold (retract_corpus env rels) es ?s) us'" "list_all (dropped rels) us'"
      "\<forall>e \<in> set es. \<forall>row \<in> set (dvalues (snd e)). surplus rels row \<longrightarrow> relation_key_of row \<in> relation_key_of ` set us'"
    using Cons.IH [of ?s] Cons.prems by (metis (no_types, lifting) list.set_intros(2))
  have "relation_key_of row \<in> relation_key_of ` set (us @ us')"
    if "x \<in> set (e # es)" "row \<in> set (dvalues (snd x))" "surplus rels row" for x row
    using that us(3) us'(3) unfolding set_append image_Un by (metis UnI1 UnI2 set_ConsD)
  then show ?case
    using us(1,2) us'(1,2) by (intro exI [of _ "us @ us'"]) (simp add: records_def del: set_map)
qed

end
