(* ===== verification/EngineRerun.thy ===== *)
theory EngineRerun
  imports EngineRows
begin

text \<open>
  A run is idempotent (\<open>rerun_emits_nothing\<close>): the ledger gives the rows of a run back (\<open>recorded_roots\<close>,
  \<open>recorded_relations\<close>, \<open>recorded_no_surplus\<close>), and a run over them finds nothing to do (\<open>idle_roots\<close>,
  \<open>retire_nothing\<close>, \<open>idle_relations\<close>, \<open>no_surplus\<close>).
\<close>

section \<open>The ledger after a run\<close>

definition recorded :: "int \<Rightarrow> int \<Rightarrow> engine_result \<Rightarrow> ledger \<Rightarrow> ledger" where
  "recorded t1 t2 r db = fst (upsertRelations t2 (rn_relationRows r) (fst (upsertRoots t1 (rn_rootRows r) db)))"

text \<open>
  One root per key and one relation per id, and the plan lists the source of every root that is one of a product or
  metadata, in the ledger or in the plan.
\<close>

definition record_source :: "ledger \<Rightarrow> desired_state \<Rightarrow> jsstr \<Rightarrow> jsstr \<Rightarrow> bool" where
  "record_source db state c sid \<longleftrightarrow>
     sid \<in> set (known_sources db c)
     \<or> list_ex (\<lambda>root. dr_corpus root = c \<and> dr_sourceId root = sid \<and> dr_role root \<in> set C5_RECORD_ROLES) (ds_roots state)"

definition plan_ok :: "ledger \<Rightarrow> desired_state \<Rightarrow> bool" where
  "plan_ok db state \<longleftrightarrow>
     distinct (map desired_key (ds_roots state)) \<and> distinct (map relation_key (ds_relations state))
     \<and> list_all plain_root (ds_roots state)
     \<and> list_all (\<lambda>root. list_all (\<lambda>(c, ids). c = dr_corpus root \<longrightarrow> record_source db state c (dr_sourceId root) \<longrightarrow>
           dr_sourceId root \<in> set ids) (ds_sourceIdsByCorpus state))
         (ds_roots state)"

lemma plan_listed:
  "plan_ok db state \<Longrightarrow> root \<in> set (ds_roots state) \<Longrightarrow> (dr_corpus root, ids) \<in> set (ds_sourceIdsByCorpus state) \<Longrightarrow>
     record_source db state (dr_corpus root) (dr_sourceId root) \<Longrightarrow> dr_sourceId root \<in> set ids"
  by (auto simp: plan_ok_def list_all_iff)

definition ledger_plain :: "ledger \<Rightarrow> bool" where
  "ledger_plain db \<longleftrightarrow> ledger_ok db \<and> list_all plain_row (map rowToRoot (lg_roots db))"

lemma plain_live_row: "ledger_plain db \<Longrightarrow> row \<in> set (rootsByCorpus c db) \<Longrightarrow> plain_row row"
  by (auto simp: ledger_plain_def rootsByCorpus_def list_all_iff)

lemma joined_keys:
  "0 \<notin> set (a :: jsstr) \<Longrightarrow> 0 \<notin> set a' \<Longrightarrow> c @ 0 # a @ 0 # b = c @ 0 # a' @ 0 # b' \<Longrightarrow> a = a' \<and> b = b'"
proof -
  assume n: "0 \<notin> set a" "0 \<notin> set a'" and e: "c @ 0 # a @ 0 # b = c @ 0 # a' @ 0 # b'"
  have "takeWhile (\<lambda>x. x \<noteq> 0) (a @ 0 # b) = a" "takeWhile (\<lambda>x. x \<noteq> 0) (a' @ 0 # b') = a'"
    using n by (auto simp: takeWhile_append)
  moreover have "a @ 0 # b = a' @ 0 # b'"
    using e by simp
  ultimately show "a = a' \<and> b = b'"
    by (metis append_same_eq same_append_eq list.inject)
qed

lemma live_row_plain:
  assumes "ledger_plain db" "plain_root root" "live_row (live_roots state db) root = Some row"
  shows "plain_row row \<and> root_key_of row = root_id root"
proof -
  have row: "row \<in> set (rootsByCorpus (dr_corpus root) db)" "row_key row = desired_key root"
    using live_row_in [OF assms(3)] by auto
  have "plain_row row" "rf_corpus row = dr_corpus root"
    using plain_live_row [OF assms(1) row(1)] rootsByCorpus_corpus [OF row(1)] by auto
  moreover from this have "rf_sourceId row = dr_sourceId root \<and> rf_role row = dr_role root"
    using row(2) assms(2) by (intro joined_keys [of _ _ "dr_corpus root"])
      (auto simp: row_key_def desired_key_def rootKeyOf_def plain_row_def plain_root_def)
  ultimately show ?thesis
    by (simp add: root_key_of_def root_id_def)
qed

lemma map_by_get:
  assumes "r \<in> set rows" "\<And>r'. r' \<in> set rows \<Longrightarrow> key r' = key r \<Longrightarrow> r' = r"
  shows "dget (map_by key rows) (key r) = Some r"
proof -
  have "r \<in> set rows \<Longrightarrow> dget (map_by key rows) (key r) \<noteq> None"
    by (induction rows rule: rev_induct) (auto simp: map_by_def)
  then obtain r' where r': "dget (map_by key rows) (key r) = Some r'"
    using assms(1) by auto
  then show ?thesis
    using map_by_lookup [OF r'] assms(2) [of r'] by simp
qed

text \<open>A row at the key of a desired root is the one the next run finds.\<close>

lemma live_row_found:
  assumes "ledger_ok db" "root \<in> set (ds_roots state)" "root_at db (root_id root) = Some row" "rf_state row = Live"
    and "\<And>row'. row' \<in> set (rootsByCorpus (dr_corpus root) db) \<Longrightarrow> 0 \<notin> set (rf_sourceId row')"
  shows "live_row (live_roots state db) root = Some row"
proof -
  have key: "root_key_of row = root_id root"
    using assms(3) by (auto simp: root_at_def root_id_def root_key_of_def rowToRoot_def)
  then have corpus: "rf_corpus row = dr_corpus root" "row_key row = desired_key root"
    by (simp_all add: root_key_of_def root_id_def row_key_def desired_key_def)
  have in_list: "row \<in> set (rootsByCorpus (dr_corpus root) db)"
    using live_root_iff [OF assms(1)] assms(3,4) key corpus(1) by simp
  have "dget (map_by row_key (rootsByCorpus (dr_corpus root) db)) (row_key row) = Some row"
  proof (rule map_by_get [OF in_list])
    fix row' assume row': "row' \<in> set (rootsByCorpus (dr_corpus root) db)" "row_key row' = row_key row"
    have at: "root_at db (root_key_of row') = Some row'" "rf_corpus row' = dr_corpus root"
      using live_root_iff [OF assms(1)] row'(1) by auto
    then have "rf_sourceId row' = rf_sourceId row \<and> rf_role row' = rf_role row"
      using row'(2) corpus(1) assms(5) [OF row'(1)] assms(5) [OF in_list]
      by (intro joined_keys [of _ _ "dr_corpus root"]) (simp_all add: row_key_def rootKeyOf_def)
    then have "root_key_of row' = root_id root"
      using key at(2) corpus(1) by (simp add: root_key_of_def)
    then show "row' = row"
      using at(1) assms(3) by simp
  qed
  moreover have "dr_corpus root \<in> set (root_corpora state)"
    using assms(2) by (simp add: root_corpora_def set_of_facts)
  ultimately show ?thesis
    by (simp add: live_row_def live_roots_def dget_map_pairs corpus(2))
qed

lemma known_row_found:
  assumes "ledger_ok db" "rel \<in> set (ds_relations state)" "relation_at db (relation_id rel) = Some row"
  shows "known_row (ledger_relations state db) rel = Some row"
proof -
  have key: "relation_key_of row = relation_id rel"
    using assms(3) by (auto simp: relation_at_def relation_id_def relation_key_of_def rowToRelation_def)
  then have corpus: "lu_corpus row = de_corpus rel" "lu_relationId row = de_relationId rel"
    by (simp_all add: relation_key_of_def relation_id_def)
  have in_list: "row \<in> set (relationsByCorpus (de_corpus rel) db)"
    using relation_row_iff [OF assms(1)] assms(3) key corpus(1) by simp
  have "dget (map_by lu_relationId (relationsByCorpus (de_corpus rel) db)) (lu_relationId row) = Some row"
  proof (rule map_by_get [OF in_list])
    fix row' assume row': "row' \<in> set (relationsByCorpus (de_corpus rel) db)" "lu_relationId row' = lu_relationId row"
    have at: "relation_at db (relation_key_of row') = Some row'" "lu_corpus row' = de_corpus rel"
      using relation_row_iff [OF assms(1)] row'(1) by auto
    then have "relation_key_of row' = relation_id rel"
      using row'(2) corpus by (simp add: relation_key_of_def relation_id_def)
    then show "row' = row"
      using at(1) assms(3) by simp
  qed
  moreover have "de_corpus rel \<in> set (relation_corpora state)"
    using assms(2) by (simp add: relation_corpora_def set_of_facts)
  ultimately show ?thesis
    by (simp add: known_row_def ledger_relations_def dget_map_pairs corpus(2))
qed

section \<open>The second run\<close>

text \<open>A state that only counts what it has found unchanged.\<close>

definition idle :: "jsstr set \<Rightarrow> nat \<Rightarrow> engine_state \<Rightarrow> bool" where
  "idle keys n st \<longleftrightarrow>
     es_newRootEvents st = [] \<and> es_newRelationEvents st = [] \<and> es_patchEvents st = [] \<and> es_reRootEntries st = []
     \<and> es_deletionEvents st = [] \<and> es_reRootedKeys st = [] \<and> es_relationRows st = [] \<and> es_rootRows st = []
     \<and> es_retractions st = [] \<and> es_warnings st = [] \<and> es_counts st = zero_counts\<lparr>ct_unchanged := n\<rparr>
     \<and> known_keys st = keys"

definition unchanged_result :: "nat \<Rightarrow> engine_result" where
  "unchanged_result n =
     \<lparr>rn_events = [], rn_rootRows = [], rn_relationRows = [], rn_retractions = [],
      rn_counts = zero_counts\<lparr>ct_unchanged := n\<rparr>, rn_warnings = []\<rparr>"

lemma idle_frame [simp]:
  "idle keys n (saw rel st) = idle keys n st" "idle keys n (st\<lparr>es_seenRootKeys := k1\<rparr>) = idle keys n st"
  by (simp_all add: idle_def) (simp_all add: saw_def)

lemma idle_count: "idle keys n st \<Longrightarrow> idle keys (Suc n) (count (\<lambda>c. c\<lparr>ct_unchanged := Suc (ct_unchanged c)\<rparr>) st)"
  by (simp add: idle_def) (simp add: count_def)

lemma idle_roots:
  assumes "\<forall>root \<in> set roots. left_alone live root" "distinct (map desired_key roots)" "idle keys n st"
    and "\<And>root. root \<in> set roots \<Longrightarrow> desired_key root \<notin> set (es_seenRootKeys st)"
  shows "\<exists>st'. root_loop env live roots st = Inr st' \<and> idle keys (n + length roots) st'
    \<and> es_seenRelationKeys st' = es_seenRelationKeys st"
  using assms
proof (induction roots arbitrary: n st)
  case (Cons r roots)
  obtain row where row: "live_row live r = Some row" "stable r row"
    using Cons.prems(1) by (auto simp: left_alone_def)
  let ?s = "count (\<lambda>c. c\<lparr>ct_unchanged := ct_unchanged c + 1\<rparr>) (st\<lparr>es_seenRootKeys := sadd (desired_key r) (es_seenRootKeys st)\<rparr>)"
  have step: "root_step env live r st = Inr ?s"
    using row(2) Cons.prems(4) [of r] by (auto simp: root_step_def Let_def row(1) stable_def)
  have "\<exists>st'. root_loop env live roots ?s = Inr st' \<and> idle keys (Suc n + length roots) st'
    \<and> es_seenRelationKeys st' = es_seenRelationKeys ?s"
  proof (rule Cons.IH)
    fix root assume root: "root \<in> set roots"
    have "desired_key r \<notin> desired_key ` set roots"
      using Cons.prems(2) by simp
    then have "desired_key root \<noteq> desired_key r"
      using imageI [OF root, of desired_key] by metis
    then show "desired_key root \<notin> set (es_seenRootKeys ?s)"
      using Cons.prems(4) [of root] root by (simp add: count_def)
  qed (use Cons.prems(1-3) in \<open>simp_all add: idle_count\<close>)
  then show ?case
    by (simp add: step) (simp add: count_def)
qed simp

lemma idle_relations:
  assumes "\<forall>rel \<in> set rels. \<exists>row. known_row known rel = Some row \<and> lu_state row = Live \<and> lu_fingerprint row = de_fingerprint rel"
    and "distinct (map relation_key rels)" "idle keys n st"
    and "\<And>rel. rel \<in> set rels \<Longrightarrow> relation_key rel \<notin> set (es_seenRelationKeys st)"
    and "\<forall>rel \<in> set rels. end_key (de_rootRef rel) \<in> keys \<and> end_key (de_linkRef rel) \<in> keys"
  shows "\<exists>st'. relation_loop env known rels st = Inr st' \<and> idle keys (n + length rels) st'"
  using assms
proof (induction rels arbitrary: n st)
  case (Cons r rels)
  obtain row where row: "known_row known r = Some row" "lu_state row = Live" "lu_fingerprint row = de_fingerprint r"
    using Cons.prems(1) by auto
  have "es_reRootedKeys st = []" "known_keys st = keys"
    using Cons.prems(3) by (simp_all add: idle_def)
  moreover from this obtain a b where "dget (es_rootEventIdByKey st) (end_key (de_rootRef r)) = Some a"
      "dget (es_rootEventIdByKey st) (end_key (de_linkRef r)) = Some b"
    using Cons.prems(5) by (auto simp: known_keys_def)
  ultimately have step: "relation_step env known r st = Inr (count (\<lambda>c. c\<lparr>ct_unchanged := ct_unchanged c + 1\<rparr>) (saw r st))"
    using Cons.prems(4) [of r]
    by (simp add: relation_step_def Let_def relation_key_def saw_def reroot_index_def row)
  have "\<exists>st'. relation_loop env known rels (count (\<lambda>c. c\<lparr>ct_unchanged := ct_unchanged c + 1\<rparr>) (saw r st)) = Inr st'
    \<and> idle keys (Suc n + length rels) st'"
  proof (rule Cons.IH)
    fix rel assume rel: "rel \<in> set rels"
    have "relation_key r \<notin> relation_key ` set rels"
      using Cons.prems(2) by simp
    then have "relation_key rel \<noteq> relation_key r"
      using imageI [OF rel, of relation_key] by metis
    then show "relation_key rel \<notin> set (es_seenRelationKeys (count (\<lambda>c. c\<lparr>ct_unchanged := ct_unchanged c + 1\<rparr>) (saw r st)))"
      using Cons.prems(4) [of rel] rel by (simp add: count_def)
  qed (use Cons.prems(1-3,5) idle_count [of keys n "saw r st"] in simp_all)
  then show ?case
    by (simp add: step)
qed simp

lemma retire_nothing:
  assumes "\<And>c ids row. (c, ids) \<in> set es \<Longrightarrow> row \<in> set (rootsByCorpus c db) \<Longrightarrow>
      rf_sourceId row \<in> set (known_sources db c) \<Longrightarrow> rf_sourceId row \<in> set ids"
  shows "fold (retire_corpus db (live_roots state db)) es st = st"
  using assms
proof (induction es)
  case (Cons e es)
  obtain c ids where e: "e = (c, ids)"
    by (cases e)
  have sources: "fold (retire_source c (map_by row_key (rootsByCorpus c db)) ids) sids st = st"
    if "set sids \<subseteq> set (known_sources db c)" for sids
    using that
  proof (induction sids)
    case (Cons sid sids)
    have "filter (\<lambda>row. rf_sourceId row = sid) (dvalues (map_by row_key (rootsByCorpus c db))) = []" if "sid \<notin> set ids"
    proof -
      have "rf_sourceId row \<noteq> sid" if "row \<in> set (dvalues (map_by row_key (rootsByCorpus c db)))" for row
      proof
        assume "rf_sourceId row = sid"
        moreover have "row \<in> set (rootsByCorpus c db)"
          using map_by_values [OF that] by simp
        ultimately have "sid \<in> set ids"
          using \<open>\<And>c ids row. (c, ids) \<in> set (e # es) \<Longrightarrow> row \<in> set (rootsByCorpus c db) \<Longrightarrow>
            rf_sourceId row \<in> set (known_sources db c) \<Longrightarrow> rf_sourceId row \<in> set ids\<close> [of c ids row] Cons.prems e by simp
        then show False
          using \<open>sid \<notin> set ids\<close> by simp
      qed
      then show ?thesis
        unfolding filter_empty_conv by blast
    qed
    then have "retire_source c (map_by row_key (rootsByCorpus c db)) ids sid st = st"
      unfolding retire_source_def Let_def by (cases "sid \<in> set ids") (simp_all only: if_True if_False simp_thms)
    then show ?case
      using Cons by simp
  qed simp
  have "retire_corpus db (live_roots state db) e st = st"
    using sources [OF order_refl] by (simp add: e retire_corpus_def live_roots_def dget_map_pairs)
  moreover have "fold (retire_corpus db (live_roots state db)) es st = st"
    by (rule Cons.IH) (use Cons.prems in \<open>blast intro: list.set_intros(2)\<close>)
  ultimately show ?case
    by simp
qed simp

lemma no_surplus:
  assumes "\<And>row. row \<in> set rows \<Longrightarrow> lu_corpus row = c \<and> \<not> surplus rels row"
  shows "fold (retract_row env (map de_relationId (filter (\<lambda>r. de_corpus r = c) rels))) rows st = st"
  using assms
proof (induction rows)
  case (Cons r rows)
  have "lu_state r \<noteq> Live \<or> lu_relationId r \<in> set (map de_relationId (filter (\<lambda>r. de_corpus r = c) rels))"
    using Cons.prems [of r] by (force simp: surplus_def relation_id_def)
  then have "retract_row env (map de_relationId (filter (\<lambda>r. de_corpus r = c) rels)) r st = st"
    unfolding retract_row_def by (rule if_P)
  then show ?case
    using Cons.IH Cons.prems by simp
qed simp

section \<open>A second run\<close>

lemma retract_warnings: "es_warnings (fold (retract_corpus env rels) es st) = es_warnings st"
proof -
  have row: "es_warnings (retract_row env d row s) = es_warnings s" for d row s
    by (simp add: retract_row_def Let_def count_def)
  have rows: "es_warnings (fold (retract_row env d) rs s) = es_warnings s" for d rs s
    by (induction rs arbitrary: s) (simp_all add: row)
  show ?thesis
    by (induction es arbitrary: st) (simp_all add: retract_corpus_def case_prod_beta rows)
qed

lemma ledger_relations_corpus:
  "e \<in> set (ledger_relations state db) \<Longrightarrow> row \<in> set (dvalues (snd e)) \<Longrightarrow> lu_corpus row = fst e"
  using ledger_relations_entry [of e state db row] by (auto simp: relationsByCorpus_def rowToRelation_def)

text \<open>The rows that a run records, when no step was aborted and no endpoint missing.\<close>

lemma run_rows:
  assumes "run_state env state db = Inr st" "clean st" "plan_ok db state" "ledger_plain db"
  obtains rows gone rels drops where
    "es_rootRows st = rows @ gone" "distinct (map root_key_of rows)" "root_key_of ` set rows \<subseteq> root_id ` set (ds_roots state)"
    "\<forall>root \<in> set (ds_roots state). settled (live_roots state db) rows root"
    "list_all (undesired db (ds_sourceIdsByCorpus state)) gone"
    "\<forall>e \<in> set (ds_sourceIdsByCorpus state). \<forall>row \<in> set (dvalues (map_by row_key (rootsByCorpus (fst e) db))).
       rf_sourceId row \<in> set (known_sources db (fst e)) \<longrightarrow> rf_sourceId row \<notin> set (snd e) \<longrightarrow>
       root_key_of row \<in> root_key_of ` set gone"
    "\<forall>rel \<in> set (ds_relations state). \<forall>k \<in> {end_key (de_rootRef rel), end_key (de_linkRef rel)}.
       k \<in> (desired_key ` set (ds_roots state) \<union> known_keys (initial_state state db)) - row_key ` set gone"
    "es_relationRows st = rels @ drops" "distinct (map relation_key_of rels)"
    "relation_key_of ` set rels \<subseteq> relation_id ` set (ds_relations state)"
    "\<forall>rel \<in> set (ds_relations state). held (ledger_relations state db) rels rel"
    "list_all (dropped (ds_relations state)) drops"
    "\<forall>e \<in> set (ledger_relations state db). \<forall>row \<in> set (dvalues (snd e)). surplus (ds_relations state) row \<longrightarrow>
       relation_key_of row \<in> relation_key_of ` set drops"
proof -
  let ?i = "initial_state state db" and ?live = "live_roots state db" and ?known = "ledger_relations state db"
  obtain s1 where s1: "root_loop env ?live (ds_roots state) ?i = Inr s1"
    using assms(1) by (auto simp: run_state_def split: sum.splits)
  let ?s2 = "fold (retire_corpus db ?live) (ds_sourceIdsByCorpus state) s1"
  obtain s3 where s3: "relation_loop env ?known (ds_relations state) ?s2 = Inr s3"
    "st = fold (retract_corpus env (ds_relations state)) ?known s3"
    using assms(1) s1 by (auto simp: run_state_def split: sum.splits)
  have c3: "clean s3"
    using assms(2) by (simp add: s3(2) clean_def retract_warnings)
  have c2: "clean ?s2"
    by (rule clean_mono [OF relation_loop_warnings [OF s3(1)] c3])
  have "set (es_warnings s1) \<subseteq> set (es_warnings ?s2)"
    by (rule fold_keeps [of "\<lambda>s. set (es_warnings s1) \<subseteq> set (es_warnings s)"]) (use retire_warnings in blast)+
  then have c1: "clean s1"
    using c2 by (rule clean_mono)
  have plain: "plain_root root" if "root \<in> set (ds_roots state)" for root
    using assms(3) that by (simp add: plan_ok_def list_all_iff)
  have "\<exists>rows. pushes ?i s1 rows \<and> root_key_of ` set rows \<subseteq> root_id ` set (ds_roots state) \<and> distinct (map root_key_of rows)
    \<and> (\<forall>root \<in> set (ds_roots state). settled ?live rows root)"
  proof (rule root_loop_settles [OF s1 c1])
    fix root row assume r: "root \<in> set (ds_roots state)" "live_row ?live root = Some row"
    show "plain_row row \<and> root_key_of row = root_id root"
      by (rule live_row_plain [OF assms(4) plain [OF r(1)] r(2)])
  qed (use assms(3) plain in \<open>auto simp: plan_ok_def initial_state_def\<close>)
  then obtain rows where rows: "pushes ?i s1 rows \<and> root_key_of ` set rows \<subseteq> root_id ` set (ds_roots state)
    \<and> distinct (map root_key_of rows) \<and> (\<forall>root \<in> set (ds_roots state). settled ?live rows root)" ..
  have corpora: "fst e \<in> set (root_corpora state)" if "e \<in> set (ds_sourceIdsByCorpus state)" for e
    using that by (auto simp: root_corpora_def set_of_facts)
  have "\<exists>gone. retires db (ds_sourceIdsByCorpus state) s1 ?s2 gone
    \<and> (\<forall>e \<in> set (ds_sourceIdsByCorpus state). \<forall>row \<in> set (dvalues (map_by row_key (rootsByCorpus (fst e) db))).
         rf_sourceId row \<in> set (known_sources db (fst e)) \<longrightarrow> rf_sourceId row \<notin> set (snd e) \<longrightarrow>
         root_key_of row \<in> root_key_of ` set gone)"
    by (rule retire_all [OF plain_live_row [OF assms(4)] order_refl corpora])
  then obtain gone where gone: "retires db (ds_sourceIdsByCorpus state) s1 ?s2 gone
    \<and> (\<forall>e \<in> set (ds_sourceIdsByCorpus state). \<forall>row \<in> set (dvalues (map_by row_key (rootsByCorpus (fst e) db))).
         rf_sourceId row \<in> set (known_sources db (fst e)) \<longrightarrow> rf_sourceId row \<notin> set (snd e) \<longrightarrow>
         root_key_of row \<in> root_key_of ` set gone)" ..
  have seen: "es_seenRelationKeys s2 = []" if "s2 = ?s2" for s2
  proof -
    have "es_seenRelationKeys s1 = []"
      by (rule root_loop_keeps [where P = "\<lambda>s. es_seenRelationKeys s = []", OF s1])
        (simp add: initial_state_def, use root_step_extends in \<open>fastforce simp: extends_def\<close>)
    then have "es_seenRelationKeys ?s2 = []"
      by (rule fold_keeps [of "\<lambda>s. es_seenRelationKeys s = []"])
        (rule retire_corpus_keeps [where P = "\<lambda>s. es_seenRelationKeys s = []"],
         simp_all add: retire_row_def push_row_def count_def warn_def Let_def)
    then show ?thesis
      using that by simp
  qed
  have "\<exists>rels. records ?s2 s3 rels \<and> relation_key_of ` set rels \<subseteq> relation_id ` set (ds_relations state)
    \<and> distinct (map relation_key_of rels) \<and> (\<forall>rel \<in> set (ds_relations state). held ?known rels rel)"
    by (rule relation_loop_records [OF s3(1) c3]) (use assms(3) seen [OF refl] in \<open>simp_all add: plan_ok_def\<close>)
  then obtain rels where rels: "records ?s2 s3 rels \<and> relation_key_of ` set rels \<subseteq> relation_id ` set (ds_relations state)
    \<and> distinct (map relation_key_of rels) \<and> (\<forall>rel \<in> set (ds_relations state). held ?known rels rel)" ..
  have "\<exists>drops. records s3 st drops \<and> list_all (dropped (ds_relations state)) drops
    \<and> (\<forall>e \<in> set ?known. \<forall>row \<in> set (dvalues (snd e)). surplus (ds_relations state) row \<longrightarrow>
         relation_key_of row \<in> relation_key_of ` set drops)"
    unfolding s3(2) by (rule retract_all) (use ledger_relations_corpus in blast)
  then obtain drops where drops: "records s3 st drops \<and> list_all (dropped (ds_relations state)) drops
    \<and> (\<forall>e \<in> set ?known. \<forall>row \<in> set (dvalues (snd e)). surplus (ds_relations state) row \<longrightarrow>
         relation_key_of row \<in> relation_key_of ` set drops)" ..
  have "\<forall>rel \<in> set (ds_relations state). anchored ?s2 rel"
    by (rule relation_loop_anchored [OF s3(1) c3]) (use assms(3) seen [OF refl] in \<open>simp_all add: plan_ok_def\<close>)
  moreover have "known_keys ?s2 \<subseteq> known_keys s1 - row_key ` set gone"
    using gone by (simp add: retires_def)
  then have "known_keys ?s2 \<subseteq> (desired_key ` set (ds_roots state) \<union> known_keys ?i) - row_key ` set gone"
    by (rule order_trans) (rule Diff_mono [OF root_loop_keys [OF s1] order_refl])
  ultimately have ends: "\<forall>rel \<in> set (ds_relations state). \<forall>k \<in> {end_key (de_rootRef rel), end_key (de_linkRef rel)}.
      k \<in> (desired_key ` set (ds_roots state) \<union> known_keys ?i) - row_key ` set gone"
    by (metis (no_types, lifting) anchored_def emptyE insertE subsetD)
  have all: "es_rootRows st = rows @ gone" "es_relationRows st = rels @ drops"
    using rows gone rels drops by (simp_all add: retires_def pushes_def records_def initial_state_def)
  show thesis
    by (rule that [OF all(1) rows [THEN conjunct2, THEN conjunct2, THEN conjunct1] rows [THEN conjunct2, THEN conjunct1]
          rows [THEN conjunct2, THEN conjunct2, THEN conjunct2] _ gone [THEN conjunct2] ends all(2)
          rels [THEN conjunct2, THEN conjunct2, THEN conjunct1] rels [THEN conjunct2, THEN conjunct1]
          rels [THEN conjunct2, THEN conjunct2, THEN conjunct2] drops [THEN conjunct2, THEN conjunct1]
          drops [THEN conjunct2, THEN conjunct2]])
      (use gone in \<open>simp add: retires_def\<close>)
qed

definition settled_run :: "engine_result \<Rightarrow> bool" where
  "settled_run r \<longleftrightarrow>
     list_all (\<lambda>w. case w of Fork_patch _ \<Rightarrow> False | Fork_reroot _ \<Rightarrow> False | Endpoint_missing _ \<Rightarrow> False | _ \<Rightarrow> True) (rn_warnings r)"

lemma recorded_ok: "ledger_ok db \<Longrightarrow> ledger_ok (recorded t1 t2 r db)"
  unfolding recorded_def upsertRoots_def upsertRelations_def fst_conv by (intro ledger_ok_fold ledger_ok_steps)

lemma recorded_at:
  "root_at (recorded t1 t2 r db) k = root_at (fold (upsert_root t1) (rn_rootRows r) db) k"
  "relation_at (recorded t1 t2 r db) j = relation_at (fold (upsert_relation t2) (rn_relationRows r) db) j"
proof -
  have root: "root_at (fold (upsert_relation t2) ls d) k = root_at d k" for ls d
    by (induction ls arbitrary: d) simp_all
  have rel: "relation_at (fold (upsert_root t1) rs d) j = relation_at d j" for rs d
    by (induction rs arbitrary: d) simp_all
  have cong: "relation_at (fold (upsert_relation t2) ls d) j = relation_at (fold (upsert_relation t2) ls d') j"
    if "relation_at d j = relation_at d' j" for ls d d'
    using that by (induction ls rule: rev_induct) (auto simp: relations.lookup_store)
  show "root_at (recorded t1 t2 r db) k = root_at (fold (upsert_root t1) (rn_rootRows r) db) k"
    by (simp add: recorded_def upsertRoots_def upsertRelations_def root)
  show "relation_at (recorded t1 t2 r db) j = relation_at (fold (upsert_relation t2) (rn_relationRows r) db) j"
    by (simp add: recorded_def upsertRoots_def upsertRelations_def cong [OF rel])
qed

lemma root_at_key: "root_at db k = Some row \<Longrightarrow> root_key_of row = k"
  by (cases k) (auto simp: root_at_def root_key_of_def rowToRoot_def)

lemma relation_at_key: "relation_at db k = Some row \<Longrightarrow> relation_key_of row = k"
  by (cases k) (auto simp: relation_at_def relation_key_of_def rowToRelation_def)

text \<open>The roots of the plan after the run.\<close>

lemma recorded_roots:
  assumes "rn_rootRows r = rows @ gone" "distinct (map root_key_of rows)" "settled (live_roots state db) rows root"
    and "list_all (undesired db (ds_sourceIdsByCorpus state)) gone" "plan_ok db state" "ledger_plain db" "root \<in> set (ds_roots state)"
  obtains row where "root_at (recorded t1 t2 r db) (root_id root) = Some row" "rf_state row = Live" "stable root row"
proof -
  have not_gone: "root_id root \<notin> root_key_of ` set gone"
  proof
    assume "root_id root \<in> root_key_of ` set gone"
    then obtain u where u: "u \<in> set gone" "root_key_of u = root_id root"
      by (metis imageE)
    then obtain ids where "(rf_corpus u, ids) \<in> set (ds_sourceIdsByCorpus state)" "rf_sourceId u \<notin> set ids"
      "rf_sourceId u \<in> set (known_sources db (rf_corpus u))"
      using assms(4) u(1) by (auto simp: undesired_def list_all_iff)
    moreover have "rf_corpus u = dr_corpus root" "rf_sourceId u = dr_sourceId root"
      using u(2) by (simp_all add: root_key_of_def root_id_def)
    ultimately show False
      using plan_listed [OF assms(5,7)] by (auto simp: record_source_def)
  qed
  from assms(3) consider (alone) "left_alone (live_roots state db) root" "root_id root \<notin> root_key_of ` set rows"
    | (pushed) u where "u \<in> set rows" "root_key_of u = root_id root" "keeps root u"
    unfolding settled_def by blast
  then show thesis
  proof cases
    case alone
    then obtain row where row: "live_row (live_roots state db) root = Some row" "stable root row"
      by (auto simp: left_alone_def)
    have "plain_root root"
      using assms(5,7) by (simp add: plan_ok_def list_all_iff)
    then have "root_key_of row = root_id root"
      using live_row_plain [OF assms(6) _ row(1)] by simp
    then have "root_at db (root_id root) = Some row" "rf_state row = Live"
      using live_row_in [OF row(1)] live_root_iff [of db row "dr_corpus root"] assms(6) by (auto simp: ledger_plain_def)
    moreover have "root_id root \<notin> root_key_of ` set (rn_rootRows r)"
      unfolding assms(1) set_append image_Un using alone(2) not_gone by blast
    ultimately show thesis
      using that row(2) by (simp add: recorded_at roots.lookup_other)
  next
    case pushed
    obtain xs ys where rows: "rows = xs @ u # ys"
      using split_list [OF pushed(1)] by blast
    have "root_key_of u \<notin> root_key_of ` set (ys @ gone)"
      using assms(2) not_gone unfolding rows pushed(2) [symmetric] by (simp add: image_Un)
    from roots.lookup_last [OF this, of t1 xs db] show thesis
      using that pushed(2,3) by (simp add: recorded_at assms(1) rows keeps_def)
  qed
qed

lemma recorded_sources:
  assumes "rn_rootRows r = rows @ gone" "root_key_of ` set rows \<subseteq> root_id ` set (ds_roots state)"
    and "list_all (undesired db (ds_sourceIdsByCorpus state)) gone" "plan_ok db state" "ledger_plain db"
    and "row \<in> set (rootsByCorpus c (recorded t1 t2 r db))"
  shows "0 \<notin> set (rf_sourceId row)"
proof -
  have ok: "ledger_ok db"
    using assms(5) by (simp add: ledger_plain_def)
  have at: "root_at (fold (upsert_root t1) (rn_rootRows r) db) (root_key_of row) = Some row" "rf_state row = Live"
    using live_root_iff [OF recorded_ok [OF ok], of row c t1 t2 r] assms(6) by (simp_all add: recorded_at)
  from at(1) show ?thesis
  proof (cases rule: roots.lookup_cases)
    case (stored u old)
    have "0 \<notin> set (rf_sourceId u)"
    proof (cases "u \<in> set gone")
      case True
      then show ?thesis
        using assms(3) by (simp add: list_all_iff undesired_def)
    next
      case False
      then have "root_key_of u \<in> root_id ` set (ds_roots state)"
        using stored(1) assms(1,2) by auto
      then show ?thesis
        using assms(4) by (auto simp: plan_ok_def list_all_iff plain_root_def root_key_of_def root_id_def)
    qed
    then show ?thesis
      using stored(2) by (simp add: root_key_of_def)
  next
    case before
    then have "row \<in> set (rootsByCorpus (rf_corpus row) db)"
      using live_root_iff [OF ok] at(2) by simp
    then show ?thesis
      using plain_live_row [OF assms(5)] by (simp add: plain_row_def)
  qed
qed

lemma known_sources_at: "sid \<in> set (known_sources db c) \<longleftrightarrow> (\<exists>role \<in> set C5_RECORD_ROLES. root_at db (c, sid, role) \<noteq> None)"
  by (auto simp: known_sources_def set_of_facts knownSourceIds_iff)

text \<open>A source the ledger knows after the run is one the plan had to list, and what was not listed is gone.\<close>

lemma recorded_known:
  assumes "rn_rootRows r = rows @ gone" "root_key_of ` set rows \<subseteq> root_id ` set (ds_roots state)"
    and "list_all (undesired db (ds_sourceIdsByCorpus state)) gone" "sid \<in> set (known_sources (recorded t1 t2 r db) c)"
  shows "record_source db state c sid"
proof -
  obtain role row where role: "role \<in> set C5_RECORD_ROLES"
    and row: "root_at (fold (upsert_root t1) (rn_rootRows r) db) (c, sid, role) = Some row"
    using assms(4) by (auto simp: known_sources_at recorded_at)
  from row show ?thesis
  proof (cases rule: roots.lookup_cases)
    case (stored u old)
    then have key: "rf_corpus u = c" "rf_sourceId u = sid" "rf_role u = role"
      by (simp_all add: root_key_of_def)
    show ?thesis
    proof (cases "u \<in> set gone")
      case True
      then show ?thesis
        using assms(3) key by (auto simp: record_source_def undesired_def list_all_iff)
    next
      case False
      then have "root_key_of u \<in> root_id ` set (ds_roots state)"
        using stored(1) assms(1,2) by auto
      then obtain root where "root \<in> set (ds_roots state)" "root_id root = (c, sid, role)"
        using stored(2) by auto
      then show ?thesis
        using role by (auto simp: record_source_def list_ex_iff root_id_def)
    qed
  next
    case before
    then show ?thesis
      using role by (auto simp: record_source_def known_sources_at)
  qed
qed

lemma live_row_stored:
  assumes "ledger_plain db" "row \<in> set (rootsByCorpus c db)"
  shows "row \<in> set (dvalues (map_by row_key (rootsByCorpus c db)))"
proof -
  have "dget (map_by row_key (rootsByCorpus c db)) (row_key row) = Some row"
  proof (rule map_by_get [OF assms(2)])
    fix row' assume row': "row' \<in> set (rootsByCorpus c db)" "row_key row' = row_key row"
    have plain: "0 \<notin> set (rf_sourceId row)" "0 \<notin> set (rf_sourceId row')"
      using plain_live_row [OF assms(1)] assms(2) row'(1) by (auto simp: plain_row_def)
    have corpus: "rf_corpus row = c" "rf_corpus row' = c"
      using rootsByCorpus_corpus assms(2) row'(1) by auto
    then have "rf_sourceId row' = rf_sourceId row \<and> rf_role row' = rf_role row"
      using row'(2) plain by (intro joined_keys [of _ _ c]) (simp_all add: row_key_def rootKeyOf_def)
    then have "root_key_of row' = root_key_of row"
      using corpus by (simp add: root_key_of_def)
    then show "row' = row"
      using live_root_iff [of db] assms row'(1) by (metis ledger_plain_def option.inject)
  qed
  then show ?thesis
    by (metis map_of_SomeD imageI list.set_map snd_conv)
qed

lemma recorded_listed:
  assumes "rn_rootRows r = rows @ gone" "root_key_of ` set rows \<subseteq> root_id ` set (ds_roots state)"
    and "list_all (undesired db (ds_sourceIdsByCorpus state)) gone" "plan_ok db state" "ledger_plain db"
    and complete: "\<forall>e \<in> set (ds_sourceIdsByCorpus state). \<forall>row \<in> set (dvalues (map_by row_key (rootsByCorpus (fst e) db))).
       rf_sourceId row \<in> set (known_sources db (fst e)) \<longrightarrow> rf_sourceId row \<notin> set (snd e) \<longrightarrow>
       root_key_of row \<in> root_key_of ` set gone"
    and e: "(c, ids) \<in> set (ds_sourceIdsByCorpus state)" and row: "row \<in> set (rootsByCorpus c (recorded t1 t2 r db))"
    and known: "rf_sourceId row \<in> set (known_sources (recorded t1 t2 r db) c)"
  shows "rf_sourceId row \<in> set ids"
proof -
  have ok: "ledger_ok db"
    using assms(5) by (simp add: ledger_plain_def)
  have source: "record_source db state c (rf_sourceId row)"
    by (rule recorded_known [OF assms(1-3) known])
  have listed: "rf_sourceId row \<in> set ids" if "root \<in> set (ds_roots state)" "dr_corpus root = c" "dr_sourceId root = rf_sourceId row"
    for root
    using plan_listed [OF assms(4) that(1), of ids] that(2,3) e source by simp
  have at: "root_at (fold (upsert_root t1) (rn_rootRows r) db) (root_key_of row) = Some row" "rf_state row = Live" "rf_corpus row = c"
    using live_root_iff [OF recorded_ok [OF ok], of row c t1 t2 r] row by (simp_all add: recorded_at)
  from at(1) show ?thesis
  proof (cases rule: roots.lookup_cases)
    case (stored u old)
    have "u \<notin> set gone"
      using at(2) stored(3) assms(3) by (auto simp: undesired_def list_all_iff)
    then have "root_key_of u \<in> root_id ` set (ds_roots state)"
      using stored(1) assms(1,2) by auto
    then obtain root where "root \<in> set (ds_roots state)" "root_id root = root_key_of row"
      using stored(2) by auto
    then show ?thesis
      using listed [of root] at(3) by (simp add: root_id_def root_key_of_def)
  next
    case before
    then have live: "row \<in> set (rootsByCorpus c db)"
      using live_root_iff [OF ok] at(2,3) by simp
    show ?thesis
    proof (cases "rf_sourceId row \<in> set (known_sources db c)")
      case True
      have "root_key_of row \<notin> root_key_of ` set gone"
        using before(2) assms(1) by auto
      then show ?thesis
        using complete e True live_row_stored [OF assms(5) live] by fastforce
    next
      case False
      then obtain root where "root \<in> set (ds_roots state)" "dr_corpus root = c" "dr_sourceId root = rf_sourceId row"
        using source by (auto simp: record_source_def list_ex_iff)
      then show ?thesis
        by (rule listed)
    qed
  qed
qed

text \<open>The keys the next run starts with.\<close>

lemma known_keys_fold:
  "dget (fold (\<lambda>row d. dset (row_key row) (rf_rootEventId row) d) rows d) k \<noteq> None \<longleftrightarrow>
     k \<in> row_key ` set rows \<or> dget d k \<noteq> None" for rows :: "root_row list"
  by (induction rows arbitrary: d) auto

lemma known_keys_initial:
  "known_keys (initial_state state db) = row_key ` (\<Union>c \<in> set (root_corpora state). set (rootsByCorpus c db))"
proof -
  have keys: "row_key ` set (dvalues (map_by row_key rows)) = row_key ` set rows" for rows :: "root_row list"
  proof -
    have "dget (map_by row_key rows) k \<noteq> None \<longleftrightarrow> k \<in> row_key ` set rows" for k
      by (induction rows rule: rev_induct) (auto simp: map_by_def)
    moreover have "distinct (dkeys (map_by row_key rows))"
      by (induction rows rule: rev_induct) (simp_all add: map_by_def)
    ultimately have "row_key row \<in> row_key ` set (dvalues (map_by row_key rows))" if row: "row \<in> set rows" for row
    proof -
      obtain row' where row': "dget (map_by row_key rows) (row_key row) = Some row'"
        using \<open>\<And>k. dget (map_by row_key rows) k \<noteq> None \<longleftrightarrow> k \<in> row_key ` set rows\<close> [of "row_key row"] row by blast
      then have "row' \<in> set (dvalues (map_by row_key rows))"
        using dvalues_iff [OF \<open>distinct (dkeys (map_by row_key rows))\<close>] by blast
      then show ?thesis
        using map_by_lookup [OF row'] by (metis imageI)
    qed
    then show ?thesis
      using map_by_values [of _ row_key rows] by blast
  qed
  have "known_keys (initial_state state db) = row_key ` set (concat (map dvalues (dvalues (live_roots state db))))"
    unfolding known_keys_def initial_state_def by (simp only: engine_state.simps known_keys_fold) simp
  also have "\<dots> = (\<Union>c \<in> set (root_corpora state). row_key ` set (dvalues (map_by row_key (rootsByCorpus c db))))"
    by (auto simp: live_roots_def)
  finally show ?thesis
    by (simp only: keys image_UN)
qed

text \<open>The relations of the plan, and of none other, are live after the run.\<close>

lemma recorded_relations:
  assumes "rn_relationRows r = rels @ drops" "distinct (map relation_key_of rels)"
    and "held (ledger_relations state db) rels rel" "list_all (dropped (ds_relations state)) drops" "ledger_ok db"
    and "rel \<in> set (ds_relations state)"
  obtains row where "relation_at (recorded t1 t2 r db) (relation_id rel) = Some row" "lu_state row = Live"
    "lu_fingerprint row = de_fingerprint rel"
proof -
  have not_dropped: "relation_id rel \<notin> relation_key_of ` set drops"
  proof
    assume "relation_id rel \<in> relation_key_of ` set drops"
    then obtain u where "u \<in> set drops" "relation_key_of u = relation_id rel"
      by (metis imageE)
    then show False
      using assms(4,6) by (auto simp: dropped_def list_all_iff)
  qed
  from assms(3) consider (alone) row where "known_row (ledger_relations state db) rel = Some row" "lu_state row = Live"
      "lu_fingerprint row = de_fingerprint rel" "relation_id rel \<notin> relation_key_of ` set rels"
    | (pushed) u where "u \<in> set rels" "relation_key_of u = relation_id rel" "lu_state u = Live" "lu_fingerprint u = de_fingerprint rel"
    unfolding held_def relation_id_def [symmetric] by blast
  then show thesis
  proof cases
    case (alone row)
    have "relation_at db (relation_key_of row) = Some row" "relation_key_of row = relation_id rel"
      using known_row_in [OF alone(1)] relation_row_iff [OF assms(5), of row "de_corpus rel"]
      by (auto simp: relation_key_of_def relation_id_def)
    moreover have "relation_id rel \<notin> relation_key_of ` set (rn_relationRows r)"
      unfolding assms(1) set_append image_Un using alone(4) not_dropped by blast
    ultimately show thesis
      using that alone(2,3) by (simp add: recorded_at relations.lookup_other)
  next
    case (pushed u)
    obtain xs ys where rels: "rels = xs @ u # ys"
      using split_list [OF pushed(1)] by blast
    have "relation_key_of u \<notin> relation_key_of ` set (ys @ drops)"
      using assms(2) not_dropped unfolding rels pushed(2) [symmetric] by (simp add: image_Un)
    from relations.lookup_last [OF this, of t2 xs db] show thesis
      using that pushed(2,3,4) by (simp add: recorded_at assms(1) rels stored_relation_def)
  qed
qed

lemma recorded_no_surplus:
  assumes "rn_relationRows r = rels @ drops" "relation_key_of ` set rels \<subseteq> relation_id ` set (ds_relations state)"
    and "list_all (dropped (ds_relations state)) drops" "ledger_ok db"
    and "\<forall>e \<in> set (ledger_relations state db). \<forall>row \<in> set (dvalues (snd e)). surplus (ds_relations state) row \<longrightarrow>
           relation_key_of row \<in> relation_key_of ` set drops"
    and "e \<in> set (ledger_relations state (recorded t1 t2 r db))" "row \<in> set (dvalues (snd e))"
  shows "\<not> surplus (ds_relations state) row"
proof
  assume surplus: "surplus (ds_relations state) row"
  have c: "fst e \<in> set (relation_corpora state)"
    using assms(6) by (auto simp: ledger_relations_def)
  have "row \<in> set (relationsByCorpus (fst e) (recorded t1 t2 r db))"
    by (rule ledger_relations_entry [OF assms(6,7)])
  then have at: "relation_at (fold (upsert_relation t2) (rn_relationRows r) db) (relation_key_of row) = Some row"
      "lu_corpus row = fst e"
    using relation_row_iff [OF recorded_ok [OF assms(4)], of row "fst e" t1 t2 r] by (simp_all add: recorded_at)
  have outside: "relation_key_of row \<notin> relation_id ` set (ds_relations state)" "lu_state row = Live"
    using surplus by (auto simp: surplus_def relation_key_of_def)
  from at(1) show False
  proof (cases rule: relations.lookup_cases)
    case (stored u old)
    have "u \<notin> set rels"
    proof
      assume "u \<in> set rels"
      then have "relation_key_of u \<in> relation_id ` set (ds_relations state)"
        using assms(2) by blast
      then show False
        using outside(1) stored(2) by simp
    qed
    then have "lu_state u = Gone"
      using stored(1) assms(1,3) by (auto simp: list_all_iff dropped_def)
    then show False
      using stored(3) outside(2) by (simp add: stored_relation_def)
  next
    case before
    then have in_db: "row \<in> set (relationsByCorpus (fst e) db)"
      using relation_row_iff [OF assms(4)] at(2) by simp
    have "dget (map_by lu_relationId (relationsByCorpus (fst e) db)) (lu_relationId row) = Some row"
    proof (rule map_by_get [OF in_db])
      fix row' assume row': "row' \<in> set (relationsByCorpus (fst e) db)" "lu_relationId row' = lu_relationId row"
      then have "relation_at db (relation_key_of row') = Some row'" "lu_corpus row' = fst e"
        using relation_row_iff [OF assms(4)] by auto
      then show "row' = row"
        using before(1) at(2) row'(2) by (simp add: relation_key_of_def)
    qed
    then have "row \<in> set (dvalues (map_by lu_relationId (relationsByCorpus (fst e) db)))"
      by (subst dvalues_iff) (simp, blast)
    moreover have "(fst e, map_by lu_relationId (relationsByCorpus (fst e) db)) \<in> set (ledger_relations state db)"
      using c by (auto simp: ledger_relations_def)
    ultimately have "relation_key_of row \<in> relation_key_of ` set drops"
      using assms(5) surplus by fastforce
    then show False
      using before(2) assms(1) by auto
  qed
qed

lemma fold_idle: "(\<And>x s. x \<in> set xs \<Longrightarrow> f x s = s) \<Longrightarrow> fold f xs s = s"
  by (induction xs) simp_all


section \<open>Instance\<close>

lemma sample_plan: "plan_ok sample_ledger sample_state" "ledger_plain sample_ledger"
proof -
  show "plan_ok sample_ledger sample_state"
    by (simp add: plan_ok_def sample_state_def plain_root_def stripSupersedesNotice_def is_notice_def NOTICE_PREFIX_def
        starts_with_def js_def cu_def Let_def)
  have "ledger_ok sample_ledger"
    unfolding sample_ledger_def upsertRoots_def fst_conv by (intro ledger_ok_fold ledger_ok_steps)
  then show "ledger_plain sample_ledger"
    by (simp add: ledger_plain_def sample_ledger_def upsertRoots_def upsert_root_def empty_ledger_def Let_def rowToRoot_def
        root_key_of_def plain_row_def parseStrArray_text is_id_def is_lower_hex_def list_all_iff js_def cu_def)
qed


end
