(* ===== verification/Publish.thy ===== *)
theory Publish
  imports Content Ledger "HOL-Library.Multiset"
begin

text \<open>
  \<open>packages/mirror/src/publish/index.ts\<close>: the batch publisher. Worker lanes drain one queue by a shared index; a lane
  runs without interruption between two of its waits (the verdict of an attempt, the delay before a retry, the
  pause between two events), so a batch is a step relation whose steps are the ends of these waits, in any
  order and with any verdicts. Every batch ends, handles each
  event of the queue once, keeps the acknowledgements there were, and gives every chain point it was asked to
  publish a verdict. Sockets, log lines and durations are left out.
\<close>

section \<open>Verdicts\<close>

definition any_substring :: "jsstr \<Rightarrow> jsstr list \<Rightarrow> bool" where
  "any_substring s ps \<longleftrightarrow> list_ex (has_substring s) ps"

text \<open>\<open>/rate[-\s]?limit/\<close> and \<open>/outside .* window/\<close> on lower-case text; \<open>.\<close> matches no line terminator.\<close>

fun rate_limit :: "jsstr \<Rightarrow> bool" where
  "rate_limit [] \<longleftrightarrow> False"
| "rate_limit (c # s) \<longleftrightarrow>
     starts_with (c # s) (js ''ratelimit'')
     \<or> starts_with (c # s) (js ''rate'')
       \<and> (case drop 4 (c # s) of [] \<Rightarrow> False | d # t \<Rightarrow> (d = 45 \<or> is_space d) \<and> starts_with t (js ''limit''))
     \<or> rate_limit s"

fun outside_window :: "jsstr \<Rightarrow> bool" where
  "outside_window [] \<longleftrightarrow> False"
| "outside_window (c # s) \<longleftrightarrow>
     starts_with (c # s) (js ''outside '')
       \<and> has_substring (takeWhile (\<lambda>d. \<not> is_line_terminator d) (drop 8 (c # s))) (js '' window'')
     \<or> outside_window s"

definition isRateLimitMessage :: "jsstr \<Rightarrow> bool" where
  "isRateLimitMessage msg \<longleftrightarrow>
     rate_limit (to_lower msg)
     \<or> any_substring (to_lower msg)
         [js ''too much'', js ''too many'', js ''blocked: rate'', js ''throttle'', js ''slow down'', js ''spam'']"

definition isRelayPermanentRejection :: "jsstr \<Rightarrow> bool" where
  "isRelayPermanentRejection msg \<longleftrightarrow>
     any_substring (to_lower msg)
       [js ''event too old'', js ''stale'', js ''older than'', js ''pre-date'', js ''expired'', js ''out of window'',
        js ''content is too large'', js ''too many indexable tags'', js ''id is computed incorrectly'']
     \<or> outside_window (to_lower msg)"

record publish_ack =
  ak_ok :: bool
  ak_msg :: jsstr

text \<open>How the race of one attempt ends.\<close>

datatype attempt_outcome = Verdict publish_ack | Thrown jsstr | Watchdog

section \<open>Options\<close>

record publish_options =
  op_relay :: jsstr
  op_paceMs :: nat
  op_maxRetries :: nat
  op_backoffBaseMs :: nat
  op_backoffCapMs :: nat
  op_limit :: "nat option"
  op_skipTerminalRejected :: bool
  op_skipPublished :: bool
  op_workers :: nat
  op_watchdogMs :: nat
  op_retryQueue :: bool

definition default_options :: "jsstr \<Rightarrow> publish_options" where
  "default_options relay =
     \<lparr>op_relay = relay, op_paceMs = 500, op_maxRetries = 5, op_backoffBaseMs = 2000, op_backoffCapMs = 60000,
      op_limit = None, op_skipTerminalRejected = True, op_skipPublished = True, op_workers = 1,
      op_watchdogMs = 600000, op_retryQueue = True\<rparr>"

definition publish_queue :: "publish_options \<Rightarrow> nostr_event list \<Rightarrow> nostr_event list" where
  "publish_queue opts events = (case op_limit opts of None \<Rightarrow> events | Some n \<Rightarrow> take n events)"

definition skipIds :: "publish_options \<Rightarrow> ledger \<Rightarrow> jsstr list" where
  "skipIds opts db =
     (if op_skipPublished opts then
        map (\<lambda>r. fst (fst r))
          (filter (\<lambda>r. snd (fst r) = op_relay opts
             \<and> (pl_ok (snd r) = 1 \<or> pl_msg (snd r) = Some ABANDONED_MSG
                \<or> op_skipTerminalRejected opts
                  \<and> isRelayPermanentRejection (case pl_msg (snd r) of None \<Rightarrow> [] | Some m \<Rightarrow> m)))
             (lg_publish_log db))
      else [])"

definition lane_count :: "publish_options \<Rightarrow> nat" where
  "lane_count opts = max 1 (op_workers opts)"

definition effectivePaceMs :: "publish_options \<Rightarrow> nat" where
  "effectivePaceMs opts = (if lane_count opts \<le> 1 then op_paceMs opts else 0)"

definition retry_delay :: "publish_options \<Rightarrow> nat \<Rightarrow> nat" where
  "retry_delay opts attempts = min (op_backoffCapMs opts) (op_backoffBaseMs opts * 2 ^ (attempts - 1))"

definition boundedMsg :: "jsstr \<Rightarrow> jsstr" where
  "boundedMsg msg = (if 512 < length msg then take 512 msg @ [0x2026] else msg)"

section \<open>The state of a batch\<close>

record event_result =
  vr_id :: jsstr
  vr_ok :: bool
  vr_msg :: jsstr
  vr_skipped :: bool
  vr_attempts :: nat

text \<open>Where a lane waits: for the verdict of an attempt, before the next one, between two events.\<close>

datatype lane = Sending nat nat | Backing_off nat nat | Pausing | Finished

record publish_state =
  ps_index :: nat
  ps_lanes :: "lane list"
  ps_okThisRun :: "jsstr list"
  ps_skipped :: nat
  ps_accepted :: nat
  ps_rejected :: nat
  ps_abandoned :: nat
  ps_results :: "event_result list"
  ps_ledger :: ledger
  ps_retryQueue :: "nostr_event list"

text \<open>What a batch is given.\<close>

record batch =
  bt_options :: publish_options
  bt_queue :: "nostr_event list"
  bt_skip :: "jsstr list"

definition batch_of :: "publish_options \<Rightarrow> nostr_event list \<Rightarrow> ledger \<Rightarrow> batch" where
  "batch_of opts events db =
     \<lparr>bt_options = opts, bt_queue = publish_queue opts events, bt_skip = skipIds opts db\<rparr>"

definition skips :: "batch \<Rightarrow> publish_state \<Rightarrow> nostr_event \<Rightarrow> bool" where
  "skips b st event \<longleftrightarrow>
     op_skipPublished (bt_options b) \<and> (ev_id event \<in> set (ps_okThisRun st) \<or> ev_id event \<in> set (bt_skip b))"

definition skip_event :: "nostr_event \<Rightarrow> publish_state \<Rightarrow> publish_state" where
  "skip_event event st =
     st\<lparr>ps_skipped := ps_skipped st + 1,
        ps_results := ps_results st
          @ [\<lparr>vr_id = ev_id event, vr_ok = True, vr_msg = js ''skipped: already published'', vr_skipped = True,
              vr_attempts = 0\<rparr>]\<rparr>"

text \<open>A lane takes events until one is not skipped.\<close>

function next_event :: "batch \<Rightarrow> publish_state \<Rightarrow> lane \<times> publish_state" where
  "next_event b st =
     (let i = ps_index st; st' = st\<lparr>ps_index := i + 1\<rparr> in
      if length (bt_queue b) \<le> i then (Finished, st')
      else if skips b st' (bt_queue b ! i) then next_event b (skip_event (bt_queue b ! i) st')
      else (Sending i 1, st'))"
  by pat_completeness auto
termination
  by (relation "measure (\<lambda>(b, st). length (bt_queue b) - ps_index st)") (auto simp: skip_event_def Let_def)

declare next_event.simps [simp del]

definition start_lane :: "batch \<Rightarrow> publish_state \<Rightarrow> publish_state" where
  "start_lane b st = (case next_event b st of (l, st') \<Rightarrow> st'\<lparr>ps_lanes := ps_lanes st' @ [l]\<rparr>)"

definition move_on :: "batch \<Rightarrow> nat \<Rightarrow> publish_state \<Rightarrow> publish_state" where
  "move_on b w st = (case next_event b st of (l, st') \<Rightarrow> st'\<lparr>ps_lanes := (ps_lanes st')[w := l]\<rparr>)"

definition batch_empty :: "ledger \<Rightarrow> publish_state" where
  "batch_empty db =
       \<lparr>ps_index = 0, ps_lanes = [], ps_okThisRun = [], ps_skipped = 0, ps_accepted = 0, ps_rejected = 0,
        ps_abandoned = 0, ps_results = [], ps_ledger = db, ps_retryQueue = []\<rparr>"

definition batch_start :: "batch \<Rightarrow> ledger \<Rightarrow> publish_state" where
  "batch_start b db = fold (\<lambda>_. start_lane b) [0..<lane_count (bt_options b)] (batch_empty db)"

section \<open>Steps\<close>

text \<open>The end of an event: its verdict is recorded, and the lane pauses or takes the next one.\<close>

definition record_verdict ::
    "batch \<Rightarrow> nostr_event \<Rightarrow> nat \<Rightarrow> publish_ack \<Rightarrow> int \<Rightarrow> publish_state \<Rightarrow> publish_state" where
  "record_verdict b event attempts ack now st =
     (let msg = boundedMsg (ak_msg ack);
          st = st\<lparr>ps_ledger := markPublish now (ev_id event) (op_relay (bt_options b)) (ak_ok ack) (Some msg) (ps_ledger st)\<rparr>;
          st = (if ak_ok ack
                then st\<lparr>ps_accepted := ps_accepted st + 1, ps_okThisRun := sadd (ev_id event) (ps_okThisRun st)\<rparr>
                else st\<lparr>ps_rejected := ps_rejected st + 1\<rparr>)
      in st\<lparr>ps_results := ps_results st
              @ [\<lparr>vr_id = ev_id event, vr_ok = ak_ok ack, vr_msg = msg, vr_skipped = False, vr_attempts = attempts\<rparr>]\<rparr>)"

definition abandon_event :: "batch \<Rightarrow> nostr_event \<Rightarrow> publish_state \<Rightarrow> publish_state" where
  "abandon_event b event st =
     st\<lparr>ps_abandoned := ps_abandoned st + 1,
        ps_retryQueue := (if op_retryQueue (bt_options b) then ps_retryQueue st @ [event] else ps_retryQueue st)\<rparr>"

definition end_event :: "batch \<Rightarrow> nat \<Rightarrow> nat \<Rightarrow> publish_state \<Rightarrow> publish_state" where
  "end_event b w i st =
     (if 0 < effectivePaceMs (bt_options b) \<and> i + 1 < length (bt_queue b)
      then st\<lparr>ps_lanes := (ps_lanes st)[w := Pausing]\<rparr> else move_on b w st)"

definition is_final :: "publish_options \<Rightarrow> nat \<Rightarrow> publish_ack \<Rightarrow> bool" where
  "is_final opts attempts ack \<longleftrightarrow>
     ak_ok ack \<or> isRelayPermanentRejection (ak_msg ack) \<or> \<not> isRateLimitMessage (ak_msg ack) \<or> op_maxRetries opts < attempts"

definition ack_of :: "batch \<Rightarrow> attempt_outcome \<Rightarrow> publish_ack" where
  "ack_of b out =
     (case out of
        Verdict ack \<Rightarrow> ack
      | Thrown m \<Rightarrow> \<lparr>ak_ok = False, ak_msg = js ''exception: '' @ m\<rparr>
      | Watchdog \<Rightarrow>
          \<lparr>ak_ok = False, ak_msg = js ''watchdog-abandoned:'' @ nat_digits (op_watchdogMs (bt_options b)) @ js ''ms''\<rparr>)"

definition deliver :: "batch \<Rightarrow> nat \<Rightarrow> nat \<Rightarrow> nat \<Rightarrow> attempt_outcome \<Rightarrow> int \<Rightarrow> publish_state \<Rightarrow> publish_state" where
  "deliver b w i attempts out now st =
     (let event = bt_queue b ! i; ack = ack_of b out in
      if out = Watchdog then
        end_event b w i (record_verdict b event attempts ack now (abandon_event b event st))
      else if is_final (bt_options b) attempts ack then
        end_event b w i (record_verdict b event attempts ack now st)
      else st\<lparr>ps_lanes := (ps_lanes st)[w := Backing_off i attempts]\<rparr>)"

inductive publish_step :: "batch \<Rightarrow> publish_state \<Rightarrow> publish_state \<Rightarrow> bool" for b where
  answer: "w < length (ps_lanes st) \<Longrightarrow> ps_lanes st ! w = Sending i n \<Longrightarrow> publish_step b st (deliver b w i n out now st)"
| retry: "w < length (ps_lanes st) \<Longrightarrow> ps_lanes st ! w = Backing_off i n \<Longrightarrow>
     publish_step b st (st\<lparr>ps_lanes := (ps_lanes st)[w := Sending i (n + 1)]\<rparr>)"
| resume: "w < length (ps_lanes st) \<Longrightarrow> ps_lanes st ! w = Pausing \<Longrightarrow> publish_step b st (move_on b w st)"

text \<open>The states of a batch, with the number of steps taken.\<close>

inductive publishing :: "batch \<Rightarrow> ledger \<Rightarrow> nat \<Rightarrow> publish_state \<Rightarrow> bool" for b db where
  start: "publishing b db 0 (batch_start b db)"
| step: "publishing b db n st \<Longrightarrow> publish_step b st st' \<Longrightarrow> publishing b db (Suc n) st'"

definition batch_done :: "publish_state \<Rightarrow> bool" where
  "batch_done st \<longleftrightarrow> list_all (\<lambda>l. l = Finished) (ps_lanes st)"

inductive_cases publish_stepE: "publish_step b st st'"

section \<open>Every event once\<close>

fun busy_ids :: "batch \<Rightarrow> lane \<Rightarrow> jsstr multiset" where
  "busy_ids b (Sending i n) = {#ev_id (bt_queue b ! i)#}"
| "busy_ids b (Backing_off i n) = {#ev_id (bt_queue b ! i)#}"
| "busy_ids b l = {#}"

fun lane_ok :: "batch \<Rightarrow> nat \<Rightarrow> lane \<Rightarrow> bool" where
  "lane_ok b k (Sending i n) \<longleftrightarrow>
     i < length (bt_queue b) \<and> 1 \<le> n \<and> n \<le> op_maxRetries (bt_options b) + 1
     \<and> (op_skipPublished (bt_options b) \<longrightarrow> ev_id (bt_queue b ! i) \<notin> set (bt_skip b))"
| "lane_ok b k (Backing_off i n) \<longleftrightarrow>
     i < length (bt_queue b) \<and> 1 \<le> n \<and> n \<le> op_maxRetries (bt_options b)
     \<and> (op_skipPublished (bt_options b) \<longrightarrow> ev_id (bt_queue b ! i) \<notin> set (bt_skip b))"
| "lane_ok b k Pausing \<longleftrightarrow> True"
| "lane_ok b k Finished \<longleftrightarrow> length (bt_queue b) \<le> k"

definition logged :: "ledger \<Rightarrow> jsstr \<Rightarrow> jsstr \<Rightarrow> publish_log_db_row option" where
  "logged db i relay = dget (lg_publish_log db) (i, relay)"

definition result_ok :: "batch \<Rightarrow> event_result \<Rightarrow> bool" where
  "result_ok b r \<longleftrightarrow>
     (vr_skipped r \<longrightarrow> vr_attempts r = 0 \<and> op_skipPublished (bt_options b))
     \<and> (\<not> vr_skipped r \<longrightarrow> 1 \<le> vr_attempts r \<and> vr_attempts r \<le> op_maxRetries (bt_options b) + 1)
     \<and> (op_skipPublished (bt_options b) \<and> vr_id r \<in> set (bt_skip b) \<longrightarrow> vr_skipped r)"

text \<open>The invariant, over the lanes as a multiset.\<close>

definition counts_ok :: "publish_state \<Rightarrow> bool" where
  "counts_ok st \<longleftrightarrow>
     ps_skipped st = length (filter vr_skipped (ps_results st))
     \<and> ps_accepted st = length (filter (\<lambda>r. \<not> vr_skipped r \<and> vr_ok r) (ps_results st))
     \<and> ps_rejected st = length (filter (\<lambda>r. \<not> vr_skipped r \<and> \<not> vr_ok r) (ps_results st))
     \<and> ps_abandoned st \<le> ps_rejected st"

definition log_ok :: "batch \<Rightarrow> ledger \<Rightarrow> publish_state \<Rightarrow> bool" where
  "log_ok b db st \<longleftrightarrow>
     (\<forall>r \<in> set (ps_results st). logged (ps_ledger st) (vr_id r) (op_relay (bt_options b)) \<noteq> None)
     \<and> (\<forall>i \<in> set (ps_okThisRun st). logged (ps_ledger st) i (op_relay (bt_options b)) \<noteq> None)
     \<and> (\<forall>i relay. logged db i relay \<noteq> None \<longrightarrow> logged (ps_ledger st) i relay \<noteq> None)
     \<and> (\<forall>i. op_skipPublished (bt_options b) \<and> i \<in> set (bt_skip b) \<longrightarrow>
          logged (ps_ledger st) i (op_relay (bt_options b)) = logged db i (op_relay (bt_options b)))
     \<and> lg_roots (ps_ledger st) = lg_roots db \<and> lg_relations (ps_ledger st) = lg_relations db"

definition batch_inv :: "batch \<Rightarrow> ledger \<Rightarrow> lane multiset \<Rightarrow> publish_state \<Rightarrow> bool" where
  "batch_inv b db L st \<longleftrightarrow>
     mset (map vr_id (ps_results st)) + sum_mset (image_mset (busy_ids b) L)
       = mset (map ev_id (take (ps_index st) (bt_queue b)))
     \<and> (\<forall>l \<in># L. lane_ok b (ps_index st) l) \<and> (\<forall>r \<in> set (ps_results st). result_ok b r)
     \<and> counts_ok st \<and> log_ok b db st"

definition skip_known :: "batch \<Rightarrow> ledger \<Rightarrow> bool" where
  "skip_known b db \<longleftrightarrow> (\<forall>i \<in> set (bt_skip b). logged db i (op_relay (bt_options b)) \<noteq> None)"

lemma lane_ok_mono: "lane_ok b k l \<Longrightarrow> k \<le> k' \<Longrightarrow> lane_ok b k' l"
  by (cases l) auto

lemma take_nth: "i < length xs \<Longrightarrow> take (i + 1) xs = take i xs @ [xs ! i]"
  by (simp add: take_Suc_conv_app_nth)

lemma next_event_inv:
  assumes "skip_known b db" "batch_inv b db L st" "next_event b st = (l, st')"
  shows "batch_inv b db (add_mset l L) st' \<and> ps_lanes st' = ps_lanes st"
  using assms
proof (induction b st rule: next_event.induct)
  case (1 b st)
  let ?i = "ps_index st" and ?st = "st\<lparr>ps_index := ps_index st + 1\<rparr>"
  let ?e = "bt_queue b ! ?i"
  note inv = "1.prems"(2) [unfolded batch_inv_def]
  have lanes: "\<forall>l \<in># L. lane_ok b (Suc ?i) l"
    using inv lane_ok_mono by (meson le_SucI order_refl)
  consider (finished) "length (bt_queue b) \<le> ?i" | (skipped) "?i < length (bt_queue b)" "skips b ?st ?e"
    | (sent) "?i < length (bt_queue b)" "\<not> skips b ?st ?e"
    by linarith
  then show ?case
  proof cases
    case finished
    then have "l = Finished" "st' = ?st"
      using "1.prems"(3) by (simp_all add: next_event.simps [of b st] Let_def)
    then show ?thesis
      unfolding batch_inv_def using inv finished lanes by (simp add: counts_ok_def log_ok_def)
  next
    case skipped
    have step: "next_event b (skip_event ?e ?st) = (l, st')"
      using skipped "1.prems"(3) by (simp add: next_event.simps [of b st] Let_def)
    have known: "logged (ps_ledger st) (ev_id ?e) (op_relay (bt_options b)) \<noteq> None"
    proof (cases "ev_id ?e \<in> set (ps_okThisRun st)")
      case True
      then show ?thesis
        using inv by (simp add: log_ok_def)
    next
      case False
      then have "ev_id ?e \<in> set (bt_skip b)"
        using skipped(2) by (simp add: skips_def)
      then show ?thesis
        using "1.prems"(1) inv by (simp add: log_ok_def skip_known_def)
    qed
    have sk: "op_skipPublished (bt_options b)"
      using skipped(2) by (simp add: skips_def)
    have "batch_inv b db L (skip_event ?e ?st)"
      unfolding batch_inv_def
    proof (intro conjI)
      show "counts_ok (skip_event ?e ?st)" "log_ok b db (skip_event ?e ?st)"
        using inv known by (simp_all add: counts_ok_def log_ok_def skip_event_def)
      show "\<forall>r \<in> set (ps_results (skip_event ?e ?st)). result_ok b r"
        using inv sk by (simp add: skip_event_def result_ok_def)
    qed (use inv lanes take_nth [OF skipped(1)] in \<open>simp_all add: skip_event_def\<close>)
    then show ?thesis
      using "1.IH" [OF refl refl _ _ "1.prems"(1) _ step] skipped by (simp add: skip_event_def)
  next
    case sent
    then have l: "l = Sending ?i 1" "st' = ?st"
      using "1.prems"(3) by (simp_all add: next_event.simps [of b st] Let_def)
    have "lane_ok b (Suc ?i) l"
      using sent by (simp add: l skips_def)
    moreover have "counts_ok ?st" "log_ok b db ?st"
      using inv by (simp_all add: counts_ok_def log_ok_def)
    ultimately show ?thesis
      unfolding batch_inv_def using inv lanes take_nth [OF sent(1)] by (simp add: l)
  qed
qed

lemma next_event_lanes: "next_event b st = (l, st') \<Longrightarrow> ps_lanes st' = ps_lanes st"
proof (induction b st rule: next_event.induct)
  case (1 b st)
  show ?case
    using "1.prems" "1.IH" [OF refl refl]
    by (simp add: next_event.simps [of b st] Let_def skip_event_def split: if_splits) auto
qed

lemma start_inv:
  assumes "skip_known b db"
  shows "batch_inv b db (mset (ps_lanes (batch_start b db))) (batch_start b db)
    \<and> length (ps_lanes (batch_start b db)) = lane_count (bt_options b)"
proof -
  have step: "batch_inv b db (mset (ps_lanes (start_lane b st))) (start_lane b st)
      \<and> length (ps_lanes (start_lane b st)) = Suc (length (ps_lanes st))"
    if "batch_inv b db (mset (ps_lanes st)) st" for st
  proof -
    obtain l st' where n: "next_event b st = (l, st')"
      by (cases "next_event b st")
    have "batch_inv b db (add_mset l (mset (ps_lanes st))) st'" "ps_lanes st' = ps_lanes st"
      using next_event_inv [OF assms that n] by simp_all
    then show ?thesis
      by (simp add: start_lane_def n batch_inv_def counts_ok_def log_ok_def)
  qed
  have "batch_inv b db (mset (ps_lanes (fold (\<lambda>_. start_lane b) xs st))) (fold (\<lambda>_. start_lane b) xs st)
      \<and> length (ps_lanes (fold (\<lambda>_. start_lane b) xs st)) = length xs + length (ps_lanes st)"
    if "batch_inv b db (mset (ps_lanes st)) st" for xs :: "nat list" and st
    using that by (induction xs arbitrary: st) (use step in auto)
  moreover have "batch_inv b db (mset (ps_lanes (batch_empty db))) (batch_empty db)" "ps_lanes (batch_empty db) = []"
    by (simp_all add: batch_inv_def counts_ok_def log_ok_def batch_empty_def)
  ultimately show ?thesis
    unfolding batch_start_def by fastforce
qed

lemma lane_swap:
  assumes "w < length ls" "ls ! w = x"
  shows "\<exists>L. mset ls = add_mset x L \<and> (\<forall>l. mset (ls[w := l]) = add_mset l L)"
proof (intro exI conjI allI)
  show "mset ls = add_mset x (mset ls - {#x#})"
    using assms nth_mem by fastforce
  show "mset (ls[w := l]) = add_mset l (mset ls - {#x#})" for l
    using assms by (simp add: mset_update)
qed

lemma logged_mark:
  "logged (markPublish now e relay acked msg db) i r =
     (if i = e \<and> r = relay then Some \<lparr>pl_ok = (if acked then 1 else 0), pl_msg = msg, pl_ts = now\<rparr> else logged db i r)"
  by (auto simp: logged_def markPublish_def)

lemma record_verdict_inv:
  assumes "batch_inv b db (add_mset (Sending i n) L) st"
  shows "batch_inv b db L (record_verdict b (bt_queue b ! i) n ack now st)"
proof -
  let ?e = "bt_queue b ! i" and ?relay = "op_relay (bt_options b)"
  let ?st = "record_verdict b ?e n ack now st"
  note inv = assms [unfolded batch_inv_def]
  have lane: "lane_ok b (ps_index st) (Sending i n)"
    using inv by simp
  have fields: "ps_index ?st = ps_index st"
    "ps_results ?st = ps_results st
       @ [\<lparr>vr_id = ev_id ?e, vr_ok = ak_ok ack, vr_msg = boundedMsg (ak_msg ack), vr_skipped = False, vr_attempts = n\<rparr>]"
    "ps_ledger ?st = markPublish now (ev_id ?e) ?relay (ak_ok ack) (Some (boundedMsg (ak_msg ack))) (ps_ledger st)"
    by (simp_all add: record_verdict_def Let_def)
  show ?thesis
    unfolding batch_inv_def
  proof (intro conjI)
    show "mset (map vr_id (ps_results ?st)) + sum_mset (image_mset (busy_ids b) L)
        = mset (map ev_id (take (ps_index ?st) (bt_queue b)))"
      using inv by (simp add: fields)
    show "\<forall>l \<in># L. lane_ok b (ps_index ?st) l"
      using inv by (simp add: fields)
    show "\<forall>r \<in> set (ps_results ?st). result_ok b r"
      using conjunct1 [OF conjunct2 [OF conjunct2 [OF inv]]] lane by (simp add: fields result_ok_def)
    show "counts_ok ?st"
      using inv by (simp add: counts_ok_def record_verdict_def Let_def)
    have logged: "logged (ps_ledger ?st) j r \<noteq> None \<longleftrightarrow> j = ev_id ?e \<and> r = ?relay \<or> logged (ps_ledger st) j r \<noteq> None"
      "j \<noteq> ev_id ?e \<Longrightarrow> logged (ps_ledger ?st) j r = logged (ps_ledger st) j r" for j r
      by (auto simp add: fields logged_mark)
    have l: "log_ok b db st"
      using inv by simp
    show "log_ok b db ?st"
      unfolding log_ok_def logged(1)
    proof (intro conjI ballI allI impI)
      fix j assume "op_skipPublished (bt_options b) \<and> j \<in> set (bt_skip b)"
      then have "j \<noteq> ev_id ?e" "logged (ps_ledger st) j ?relay = logged db j ?relay"
        using l lane by (auto simp: log_ok_def)
      then show "logged (ps_ledger ?st) j ?relay = logged db j ?relay"
        by (simp add: logged(2))
    next
      fix j assume "j \<in> set (ps_okThisRun ?st)"
      then show "j = ev_id ?e \<and> ?relay = ?relay \<or> logged (ps_ledger st) j ?relay \<noteq> None"
        using l by (auto simp: record_verdict_def Let_def log_ok_def split: if_splits)
    qed (use l in \<open>auto simp: log_ok_def fields markPublish_def\<close>)
  qed
qed

lemma abandon_inv:
  assumes "batch_inv b db (add_mset (Sending i n) L) st" "\<not> ak_ok ack"
  shows "batch_inv b db L (record_verdict b (bt_queue b ! i) n ack now (abandon_event b e st))"
proof -
  have "record_verdict b (bt_queue b ! i) n ack now (abandon_event b e st) =
      abandon_event b e (record_verdict b (bt_queue b ! i) n ack now st)"
    by (simp add: record_verdict_def abandon_event_def Let_def)
  moreover have "ps_abandoned (record_verdict b (bt_queue b ! i) n ack now st) < ps_rejected (record_verdict b (bt_queue b ! i) n ack now st)"
    using assms by (simp add: record_verdict_def Let_def batch_inv_def counts_ok_def)
  ultimately show ?thesis
    using record_verdict_inv [OF assms(1), of ack now]
    by (simp add: batch_inv_def counts_ok_def log_ok_def abandon_event_def)
qed

lemma inv_lanes: "batch_inv b db L (st\<lparr>ps_lanes := ls\<rparr>) \<longleftrightarrow> batch_inv b db L st"
  by (simp add: batch_inv_def counts_ok_def log_ok_def)

lemma move_on_inv:
  assumes "skip_known b db" "batch_inv b db L st" "\<forall>l. mset ((ps_lanes st)[w := l]) = add_mset l L"
  shows "batch_inv b db (mset (ps_lanes (move_on b w st))) (move_on b w st)"
proof -
  obtain l st' where n: "next_event b st = (l, st')"
    by (cases "next_event b st")
  have "batch_inv b db (add_mset l L) st'" "ps_lanes st' = ps_lanes st"
    using next_event_inv [OF assms(1,2) n] by simp_all
  then show ?thesis
    using assms(3) by (simp add: move_on_def n inv_lanes)
qed

lemma end_event_inv:
  assumes "skip_known b db" "batch_inv b db L st" "\<forall>l. mset ((ps_lanes st)[w := l]) = add_mset l L"
  shows "batch_inv b db (mset (ps_lanes (end_event b w i st))) (end_event b w i st)"
  using assms move_on_inv [OF assms] by (auto simp: end_event_def inv_lanes) (simp add: batch_inv_def)

lemma publish_step_inv:
  assumes "skip_known b db" "publish_step b st st'" "batch_inv b db (mset (ps_lanes st)) st"
  shows "batch_inv b db (mset (ps_lanes st')) st'"
  using assms(2)
proof cases
  case (answer w i n out now)
  obtain L where L: "mset (ps_lanes st) = add_mset (Sending i n) L" "\<forall>l. mset ((ps_lanes st)[w := l]) = add_mset l L"
    using lane_swap [OF answer(2,3)] by blast
  have inv: "batch_inv b db (add_mset (Sending i n) L) st"
    using assms(3) by (simp only: L(1))
  have lanes: "ps_lanes (record_verdict b e n ack now s) = ps_lanes s" "ps_lanes (abandon_event b e s) = ps_lanes s" for e ack s
    by (simp_all add: record_verdict_def abandon_event_def Let_def)
  show ?thesis
  proof (cases "out = Watchdog")
    case True
    then have "\<not> ak_ok (ack_of b out)"
      by (simp add: ack_of_def)
    from end_event_inv [OF assms(1) abandon_inv [OF inv this]] show ?thesis
      using True L(2) by (simp add: answer(1) deliver_def Let_def lanes)
  next
    case not_watchdog: False
    show ?thesis
    proof (cases "is_final (bt_options b) n (ack_of b out)")
      case True
      from end_event_inv [OF assms(1) record_verdict_inv [OF inv]] show ?thesis
        using True not_watchdog L(2) by (simp add: answer(1) deliver_def Let_def lanes)
    next
      case False
      then have "n \<le> op_maxRetries (bt_options b)"
        by (simp add: is_final_def)
      then show ?thesis
        using inv False not_watchdog L(2) by (simp add: answer(1) deliver_def Let_def inv_lanes) (simp add: batch_inv_def)
    qed
  qed
next
  case (retry w i n)
  obtain L where L: "mset (ps_lanes st) = add_mset (Backing_off i n) L" "\<forall>l. mset ((ps_lanes st)[w := l]) = add_mset l L"
    using lane_swap [OF retry(2,3)] by blast
  have "batch_inv b db (add_mset (Backing_off i n) L) st"
    using assms(3) by (simp only: L(1))
  then show ?thesis
    using L(2) by (simp add: retry(1) inv_lanes) (simp add: batch_inv_def)
next
  case (resume w)
  obtain L where L: "mset (ps_lanes st) = add_mset Pausing L" "\<forall>l. mset ((ps_lanes st)[w := l]) = add_mset l L"
    using lane_swap [OF resume(2,3)] by blast
  have "batch_inv b db L st"
    using assms(3) by (simp add: L(1) batch_inv_def)
  from move_on_inv [OF assms(1) this L(2)] show ?thesis
    by (simp add: resume(1))
qed

lemma publishing_inv:
  "publishing b db n st \<Longrightarrow> skip_known b db \<Longrightarrow> batch_inv b db (mset (ps_lanes st)) st"
  by (induction rule: publishing.induct) (simp_all add: start_inv publish_step_inv)

section \<open>The end of a batch\<close>

text \<open>The steps a lane can still take, and those the rest of the queue can ask for.\<close>

fun lane_cost :: "batch \<Rightarrow> lane \<Rightarrow> nat" where
  "lane_cost b (Sending i n) = 2 * (op_maxRetries (bt_options b) + 1 - n) + 2"
| "lane_cost b (Backing_off i n) = 2 * (op_maxRetries (bt_options b) + 1 - n) + 1"
| "lane_cost b Pausing = 1"
| "lane_cost b Finished = 0"

definition queue_cost :: "batch \<Rightarrow> nat \<Rightarrow> nat" where
  "queue_cost b k = (2 * op_maxRetries (bt_options b) + 2) * (length (bt_queue b) - k)"

definition batch_cost :: "batch \<Rightarrow> publish_state \<Rightarrow> nat" where
  "batch_cost b st = sum_mset (image_mset (lane_cost b) (mset (ps_lanes st))) + queue_cost b (ps_index st)"

lemma next_event_cost:
  "next_event b st = (l, st') \<Longrightarrow> lane_cost b l + queue_cost b (ps_index st') \<le> queue_cost b (ps_index st)"
proof (induction b st rule: next_event.induct)
  case (1 b st)
  let ?i = "ps_index st" and ?st = "st\<lparr>ps_index := ps_index st + 1\<rparr>"
  let ?e = "bt_queue b ! ?i"
  have one: "queue_cost b ?i = queue_cost b (Suc ?i) + (2 * op_maxRetries (bt_options b) + 2)"
    if "?i < length (bt_queue b)"
  proof -
    from that have "length (bt_queue b) - ?i = Suc (length (bt_queue b) - Suc ?i)"
      by simp
    then show ?thesis
      by (simp add: queue_cost_def)
  qed
  consider (finished) "length (bt_queue b) \<le> ?i" | (skipped) "?i < length (bt_queue b)" "skips b ?st ?e"
    | (sent) "?i < length (bt_queue b)" "\<not> skips b ?st ?e"
    by linarith
  then show ?case
  proof cases
    case finished
    then show ?thesis
      using "1.prems" by (auto simp: next_event.simps [of b st] Let_def queue_cost_def)
  next
    case skipped
    have step: "next_event b (skip_event ?e ?st) = (l, st')"
      using skipped "1.prems" by (simp add: next_event.simps [of b st] Let_def)
    then show ?thesis
      using "1.IH" [OF refl refl _ _ step] skipped one by (simp add: skip_event_def)
  next
    case sent
    then show ?thesis
      using "1.prems" one by (auto simp: next_event.simps [of b st] Let_def)
  qed
qed

lemma start_cost: "batch_cost b (batch_start b db) \<le> (2 * op_maxRetries (bt_options b) + 2) * length (bt_queue b)"
proof -
  have step: "batch_cost b (start_lane b st) \<le> batch_cost b st" for st
  proof -
    obtain l st' where n: "next_event b st = (l, st')"
      by (cases "next_event b st")
    have "ps_lanes st' = ps_lanes st"
      using n by (rule next_event_lanes)
    then show ?thesis
      using next_event_cost [OF n] by (simp add: start_lane_def n batch_cost_def)
  qed
  have "batch_cost b (fold (\<lambda>_. start_lane b) xs st) \<le> batch_cost b st" for xs :: "nat list" and st
    by (induction xs arbitrary: st) (auto intro: order_trans step)
  then show ?thesis
    unfolding batch_start_def by (rule order_trans) (simp add: batch_cost_def batch_empty_def queue_cost_def)
qed

lemma move_on_cost:
  assumes "\<forall>l. mset ((ps_lanes st)[w := l]) = add_mset l L"
  shows "batch_cost b (move_on b w st) \<le> sum_mset (image_mset (lane_cost b) L) + queue_cost b (ps_index st)"
proof -
  obtain l st' where n: "next_event b st = (l, st')"
    by (cases "next_event b st")
  show ?thesis
    using next_event_cost [OF n] assms
    by (simp add: move_on_def n batch_cost_def next_event_lanes [OF n])
qed

lemma end_event_cost:
  assumes "\<forall>l. mset ((ps_lanes st)[w := l]) = add_mset l L"
  shows "batch_cost b (end_event b w i st) \<le> 1 + sum_mset (image_mset (lane_cost b) L) + queue_cost b (ps_index st)"
  using move_on_cost [OF assms, of b] assms by (simp add: end_event_def batch_cost_def)

lemma publish_step_cost:
  assumes "publish_step b st st'" "batch_inv b db (mset (ps_lanes st)) st"
  shows "batch_cost b st' < batch_cost b st"
  using assms(1)
proof cases
  case (answer w i n out now)
  obtain L where L: "mset (ps_lanes st) = add_mset (Sending i n) L" "\<forall>l. mset ((ps_lanes st)[w := l]) = add_mset l L"
    using lane_swap [OF answer(2,3)] by blast
  have fields: "ps_lanes (record_verdict b e n ack now s) = ps_lanes s" "ps_lanes (abandon_event b e s) = ps_lanes s"
    "ps_index (record_verdict b e n ack now s) = ps_index s" "ps_index (abandon_event b e s) = ps_index s" for e ack s
    by (simp_all add: record_verdict_def abandon_event_def Let_def)
  have ended: "batch_cost b (end_event b w i (record_verdict b e n ack now s)) < batch_cost b st"
    if "ps_lanes s = ps_lanes st" "ps_index s = ps_index st" for e ack s
    using end_event_cost [of "record_verdict b e n ack now s" w L b i] L that
    by (simp add: fields batch_cost_def)
  have "lane_ok b (ps_index st) (Sending i n)"
    using assms(2) L(1) by (simp add: batch_inv_def)
  then show ?thesis
    using ended [of st] ended [of "abandon_event b (bt_queue b ! i) st"] L
    by (simp add: answer(1) deliver_def Let_def fields) (simp add: batch_cost_def)
next
  case (retry w i n)
  obtain L where L: "mset (ps_lanes st) = add_mset (Backing_off i n) L" "\<forall>l. mset ((ps_lanes st)[w := l]) = add_mset l L"
    using lane_swap [OF retry(2,3)] by blast
  have "lane_ok b (ps_index st) (Backing_off i n)"
    using assms(2) L(1) by (simp add: batch_inv_def)
  then show ?thesis
    using L by (simp add: retry(1) batch_cost_def) linarith
next
  case (resume w)
  obtain L where L: "mset (ps_lanes st) = add_mset Pausing L" "\<forall>l. mset ((ps_lanes st)[w := l]) = add_mset l L"
    using lane_swap [OF resume(2,3)] by blast
  then show ?thesis
    using move_on_cost [OF L(2), of b] by (simp add: resume(1) batch_cost_def)
qed

lemma publishing_cost:
  assumes "publishing b db n st" "skip_known b db"
  shows "n + batch_cost b st \<le> (2 * op_maxRetries (bt_options b) + 2) * length (bt_queue b)"
  using assms
proof (induction rule: publishing.induct)
  case (step n st st')
  then show ?case
    using publish_step_cost [OF step(2) publishing_inv [OF step(1) step.prems]] by simp
next
  case start
  then show ?case
    using start_cost by simp
qed

lemma lane_can_step:
  assumes "\<not> batch_done st"
  shows "\<exists>st'. publish_step b st st'"
proof -
  obtain w where w: "w < length (ps_lanes st)" "ps_lanes st ! w \<noteq> Finished"
    using assms by (auto simp: batch_done_def list_all_length)
  then show ?thesis
    by (cases "ps_lanes st ! w") (blast intro: publish_step.intros)+
qed

lemma batch_skip_known: "skip_known (batch_of opts events db) db"
  by (force simp: skip_known_def batch_of_def skipIds_def logged_def map_of_eq_None_iff)

lemma publishing_lanes: "publishing b db n st \<Longrightarrow> skip_known b db \<Longrightarrow> ps_lanes st \<noteq> []"
proof (induction rule: publishing.induct)
  case start
  then show ?case
    using start_inv [OF start] by (auto simp: lane_count_def)
next
  case (step n st st')
  have moved: "length (ps_lanes (move_on b w s)) = length (ps_lanes s)" for w s
    by (cases "next_event b s") (simp add: move_on_def next_event_lanes)
  have "length (ps_lanes st') = length (ps_lanes st)"
    using step(2)
    by cases (simp_all add: moved deliver_def Let_def end_event_def record_verdict_def abandon_event_def)
  then show ?case
    using step.IH [OF step.prems] by fastforce
qed

lemma batch_all_handled:
  assumes "publishing b db n st" "skip_known b db" "batch_done st"
  shows "mset (map vr_id (ps_results st)) = mset (map ev_id (bt_queue b))"
proof -
  have inv: "batch_inv b db (mset (ps_lanes st)) st"
    using publishing_inv [OF assms(1,2)] .
  have fin: "\<forall>l \<in> set (ps_lanes st). l = Finished"
    using assms(3) by (simp add: batch_done_def list_all_iff)
  then have "lane_ok b (ps_index st) Finished"
    using inv publishing_lanes [OF assms(1,2)] unfolding batch_inv_def
    by (metis last_in_set set_mset_mset)
  moreover have "sum_mset (image_mset (busy_ids b) (mset ls)) = {#}" if "\<forall>l \<in> set ls. l = Finished" for ls
    using that by (induction ls) auto
  from this [OF fin] have none: "sum_mset (image_mset (busy_ids b) (mset (ps_lanes st))) = {#}" .
  moreover have "mset (map vr_id (ps_results st)) + sum_mset (image_mset (busy_ids b) (mset (ps_lanes st)))
      = mset (map ev_id (take (ps_index st) (bt_queue b)))"
    using inv unfolding batch_inv_def by (rule conjunct1)
  ultimately show ?thesis
    unfolding none by simp
qed

text \<open>
  C9. A batch ends: whatever verdicts come and in whatever order the waits of its lanes end, it takes at most
  \<open>2 * maxRetries + 2\<close> steps for each event of the queue, and it can take another one until every lane has
  finished.
\<close>

theorem batch_ends:
  assumes "publishing (batch_of opts events db) db n st"
  shows "n \<le> (2 * op_maxRetries opts + 2) * length (publish_queue opts events)
    \<and> (batch_done st \<or> (\<exists>st'. publish_step (batch_of opts events db) st st'))"
  using publishing_cost [OF assms batch_skip_known] lane_can_step by (fastforce simp: batch_of_def)

text \<open>
  C10. When a batch has ended, each event of the queue has one result; the three counters of the summary add up
  to the queue, the abandoned events are among the rejected ones, and no event took more than
  \<open>maxRetries + 1\<close> attempts.
\<close>

theorem batch_accounts:
  assumes "publishing (batch_of opts events db) db n st" "batch_done st"
  shows "mset (map vr_id (ps_results st)) = mset (map ev_id (publish_queue opts events))
    \<and> ps_skipped st + ps_accepted st + ps_rejected st = length (publish_queue opts events)
    \<and> ps_abandoned st \<le> ps_rejected st
    \<and> (\<forall>r \<in> set (ps_results st). if vr_skipped r then vr_attempts r = 0
         else 1 \<le> vr_attempts r \<and> vr_attempts r \<le> op_maxRetries opts + 1)"
proof -
  let ?b = "batch_of opts events db"
  have inv: "batch_inv ?b db (mset (ps_lanes st)) st"
    using publishing_inv [OF assms(1) batch_skip_known] .
  have all: "mset (map vr_id (ps_results st)) = mset (map ev_id (publish_queue opts events))"
    using batch_all_handled [OF assms(1) batch_skip_known assms(2)] by (simp add: batch_of_def)
  then have "length (ps_results st) = length (publish_queue opts events)"
    by (metis length_map mset_eq_length)
  moreover have "length (filter vr_skipped rs) + length (filter (\<lambda>r. \<not> vr_skipped r \<and> vr_ok r) rs)
      + length (filter (\<lambda>r. \<not> vr_skipped r \<and> \<not> vr_ok r) rs) = length rs" for rs
    by (induction rs) auto
  from this [of "ps_results st"] have "ps_skipped st + ps_accepted st + ps_rejected st = length (ps_results st)"
    using inv by (simp add: batch_inv_def counts_ok_def)
  ultimately show ?thesis
    using all inv by (auto simp: batch_inv_def counts_ok_def result_ok_def batch_of_def)
qed

text \<open>
  C11. Resuming is safe while \<open>skipPublished\<close> is on, as it is by default: an event the relay has accepted before, or
  that an operator gave up, is never sent again by the batch, whatever \<open>skipTerminalRejected\<close> says, each of its
  results is a skip, and its row of the log stays as it was.
\<close>

theorem acks_kept:
  assumes "publishing (batch_of opts events db) db n st" "op_skipPublished opts"
    and "dget (lg_publish_log db) (i, op_relay opts) = Some row" "pl_ok row = 1 \<or> pl_msg row = Some ABANDONED_MSG"
  shows "dget (lg_publish_log (ps_ledger st)) (i, op_relay opts) = Some row
    \<and> (\<forall>k m. Sending k m \<in> set (ps_lanes st) \<longrightarrow> ev_id (publish_queue opts events ! k) \<noteq> i)
    \<and> (\<forall>r \<in> set (ps_results st). vr_id r = i \<longrightarrow> vr_skipped r)"
proof -
  let ?b = "batch_of opts events db"
  have inv: "batch_inv ?b db (mset (ps_lanes st)) st"
    using publishing_inv [OF assms(1) batch_skip_known] .
  have "((i, op_relay opts), row) \<in> set (lg_publish_log db)"
    using assms(3) by (rule map_of_SomeD)
  then have skip: "i \<in> set (bt_skip ?b)"
    using assms(2,4) by (force simp: batch_of_def skipIds_def)
  have opts: "bt_options ?b = opts" "bt_queue ?b = publish_queue opts events"
    by (simp_all add: batch_of_def)
  have "log_ok ?b db st" and lanes: "\<forall>l \<in> set (ps_lanes st). lane_ok ?b (ps_index st) l"
    and results: "\<forall>r \<in> set (ps_results st). result_ok ?b r"
    using inv by (simp_all add: batch_inv_def)
  then have "logged (ps_ledger st) i (op_relay opts) = logged db i (op_relay opts)"
    using assms(2) skip by (simp add: log_ok_def opts)
  moreover have "ev_id (publish_queue opts events ! k) \<noteq> i" if "Sending k m \<in> set (ps_lanes st)" for k m
    using lanes that skip assms(2) opts by (metis lane_ok.simps(1))
  ultimately show ?thesis
    using results skip assms(2,3) by (auto simp: logged_def result_ok_def opts)
qed

lemma batch_opens:
  assumes "publishing b db n st" "skip_known b db" "batch_done st" "relay = op_relay (bt_options b)"
    and "set (unpublishedChainPointIds relay db) \<subseteq> ev_id ` set (bt_queue b)"
  shows "unpublishedChainPointIds relay (ps_ledger st) = []"
proof -
  have "log_ok b db st"
    using publishing_inv [OF assms(1,2)] by (simp add: batch_inv_def)
  then have log: "\<forall>r \<in> set (ps_results st). logged (ps_ledger st) (vr_id r) relay \<noteq> None"
      "\<forall>i. logged db i relay \<noteq> None \<longrightarrow> logged (ps_ledger st) i relay \<noteq> None"
    and points: "chain_points (ps_ledger st) = chain_points db"
    by (simp_all add: log_ok_def assms(4) chain_points_def)
  have "vr_id ` set (ps_results st) = ev_id ` set (bt_queue b)"
    using batch_all_handled [OF assms(1,2,3)] by (metis image_set set_mset_mset)
  moreover have "i \<in> ev_id ` set (bt_queue b) \<or> logged db i relay \<noteq> None" if "i \<in> set (chain_points db)" for i
    using assms(5) that by (auto simp: unpublishedChainPointIds_def logged_def dhas_def)
  ultimately have "logged (ps_ledger st) i relay \<noteq> None" if "i \<in> set (chain_points db)" for i
    using log that by (metis imageE)
  then show ?thesis
    by (auto simp: unpublishedChainPointIds_def points filter_empty_conv dhas_def logged_def)
qed

text \<open>Every batch can be run to its end.\<close>

lemma batch_finishes:
  assumes "publishing b db n st" "skip_known b db"
  shows "\<exists>m st'. publishing b db m st' \<and> batch_done st'"
  using assms(1)
proof (induction "batch_cost b st" arbitrary: n st rule: less_induct)
  case less
  show ?case
  proof (cases "batch_done st")
    case False
    then obtain st' where st': "publish_step b st st'"
      using lane_can_step by blast
    show ?thesis
      by (rule less.hyps [OF publish_step_cost [OF st' publishing_inv [OF less.prems assms(2)]] publishing.step [OF less.prems st']])
  qed (use less.prems in blast)
qed

text \<open>
  Publishing opens the chain gate: after a batch whose queue holds every chain point that has no verdict at the
  relay, no chain point of the ledger is left without one, whatever the verdicts were.
\<close>

theorem batch_opens_gate:
  assumes "publishing (batch_of opts events db) db n st" "batch_done st"
    and "set (unpublishedChainPointIds (op_relay opts) db) \<subseteq> ev_id ` set (publish_queue opts events)"
  shows "unpublishedChainPointIds (op_relay opts) (ps_ledger st) = []"
  by (rule batch_opens [OF assms(1) batch_skip_known assms(2)]) (use assms(3) in \<open>simp_all add: batch_of_def\<close>)

section \<open>Witnesses\<close>

definition sample_post :: nostr_event where
  "sample_post =
     \<lparr>ev_id = js ''e'', ev_pubkey = js ''k'', ev_created_at = 1, ev_kind = 1, ev_tags = [], ev_content = [], ev_sig = []\<rparr>"

definition sample_options :: publish_options where
  "sample_options =
     \<lparr>op_relay = js ''wss'', op_paceMs = 5, op_maxRetries = 2, op_backoffBaseMs = 2, op_backoffCapMs = 8,
      op_limit = None, op_skipTerminalRejected = True, op_skipPublished = True, op_workers = 1,
      op_watchdogMs = 9, op_retryQueue = True\<rparr>"

definition sample_gate :: ledger where
  "sample_gate = empty_ledger\<lparr>lg_relations :=
     [((js ''c'', js ''1''), \<lparr>ld_kind = [], ld_subject_id = [], ld_object_key = [], ld_fingerprint = [],
        ld_event_id = js ''e'', ld_state = js ''live'', ld_updated_at = 1\<rparr>)]\<rparr>"

text \<open>One event, refused for its rate once and then accepted.\<close>

definition sample_batch :: batch where
  "sample_batch = batch_of sample_options [sample_post] sample_gate"

definition sample_refused :: publish_state where
  "sample_refused =
     deliver sample_batch 0 0 1 (Verdict \<lparr>ak_ok = False, ak_msg = js ''Rate limited''\<rparr>) 2 (batch_start sample_batch sample_gate)"

definition sample_resent :: publish_state where
  "sample_resent = sample_refused\<lparr>ps_lanes := (ps_lanes sample_refused)[0 := Sending 0 2]\<rparr>"

definition sample_accepted :: publish_state where
  "sample_accepted = deliver sample_batch 0 0 2 (Verdict \<lparr>ak_ok = True, ak_msg = []\<rparr>) 3 sample_resent"

lemma sample_lanes:
  "ps_lanes (batch_start sample_batch sample_gate) = [Sending 0 1]" "ps_lanes sample_refused = [Backing_off 0 1]"
  "ps_lanes sample_resent = [Sending 0 2]" "ps_lanes sample_accepted = [Finished]"
  "dget (lg_publish_log (ps_ledger sample_accepted)) (js ''e'', js ''wss'') = Some \<lparr>pl_ok = 1, pl_msg = Some [], pl_ts = 3\<rparr>"
  "set (unpublishedChainPointIds (js ''wss'') sample_gate) = {js ''e''}"
  by code_simp+

lemma sample_publishing: "publishing sample_batch sample_gate 3 sample_accepted"
proof -
  have "publish_step sample_batch (batch_start sample_batch sample_gate) sample_refused"
    unfolding sample_refused_def by (rule publish_step.answer) (simp_all add: sample_lanes)
  moreover have "publish_step sample_batch sample_refused (sample_refused\<lparr>ps_lanes := (ps_lanes sample_refused)[0 := Sending 0 (1 + 1)]\<rparr>)"
    by (rule publish_step.retry) (simp_all add: sample_lanes)
  then have "publish_step sample_batch sample_refused sample_resent"
    by (simp add: sample_resent_def numeral_2_eq_2)
  moreover have "publish_step sample_batch sample_resent sample_accepted"
    unfolding sample_accepted_def by (rule publish_step.answer) (simp_all add: sample_lanes)
  ultimately show ?thesis
    unfolding numeral_3_eq_3 by (blast intro: publishing.intros)
qed

lemma sample_ended: "batch_done sample_accepted"
  by (simp add: batch_done_def sample_lanes)

lemma batch_ends_witness:
  "(3::nat) \<le> (2 * op_maxRetries sample_options + 2) * length (publish_queue sample_options [sample_post])
   \<and> (batch_done sample_accepted
      \<or> (\<exists>st'. publish_step (batch_of sample_options [sample_post] sample_gate) sample_accepted st'))"
  by (rule batch_ends [OF sample_publishing [unfolded sample_batch_def]])

lemma batch_accounts_witness:
  "ps_skipped sample_accepted + ps_accepted sample_accepted + ps_rejected sample_accepted = 1"
  using batch_accounts [OF sample_publishing [unfolded sample_batch_def] sample_ended]
  by (simp add: publish_queue_def sample_options_def)

lemma acks_kept_witness:
  "dget (lg_publish_log (ps_ledger (batch_start (batch_of sample_options [sample_post] (ps_ledger sample_accepted))
      (ps_ledger sample_accepted)))) (js ''e'', js ''wss'') = Some \<lparr>pl_ok = 1, pl_msg = Some [], pl_ts = 3\<rparr>"
proof -
  have "op_relay sample_options = js ''wss''" "op_skipPublished sample_options"
    by (simp_all add: sample_options_def)
  then show ?thesis
    using acks_kept [OF publishing.start [of "batch_of sample_options [sample_post] (ps_ledger sample_accepted)"
        "ps_ledger sample_accepted"], of "js ''e''"] sample_lanes(5) by simp
qed

lemma batch_opens_gate_witness: "unpublishedChainPointIds (js ''wss'') (ps_ledger sample_accepted) = []"
proof -
  have opts: "op_relay sample_options = js ''wss''"
    "publish_queue sample_options [sample_post] = [sample_post]" "ev_id sample_post = js ''e''"
    by (simp_all add: sample_options_def publish_queue_def sample_post_def)
  then show ?thesis
    using batch_opens_gate [OF sample_publishing [unfolded sample_batch_def] sample_ended] sample_lanes(6) by simp
qed

end
