(* ===== verification/Bundle.thy ===== *)
theory Bundle
  imports EngineRerun Publish
begin

text \<open>
  \<open>packages/mirror/src/emit/seccerts/index.ts\<close>: one build. It refuses to move while the ledger holds chain points
  that the target relay has not answered for, seeds the ledger from the artifacts of the first leg, runs the engine
  and records its rows. Reading the artifacts file is left to the caller (\<open>None\<close> where it does not exist), a
  warning of the build keeps what it names instead of its prose, and \<open>clock\<close> gives the times of the statements.
\<close>

section \<open>What the first leg has published\<close>

text \<open>\<open>/Record card \(JSON\): (.+)/\<close>: the rest of the line after the first label that is followed by something.\<close>

fun card_capture :: "jsstr \<Rightarrow> jsstr option" where
  "card_capture [] = None"
| "card_capture (c # s) =
     (let rest = takeWhile (\<lambda>d. \<not> is_line_terminator d) (drop (length RECORD_CARD_LABEL) (c # s)) in
      if starts_with (c # s) RECORD_CARD_LABEL \<and> rest \<noteq> [] then Some rest else card_capture s)"

definition string_field :: "(jsstr \<times> json) list \<Rightarrow> string \<Rightarrow> jsstr option" where
  "string_field rec k = (case dget rec (js k) of Some (JString s) \<Rightarrow> Some s | _ \<Rightarrow> None)"

definition card_key :: "(jsstr \<Rightarrow> jsstr) \<Rightarrow> (jsstr \<times> json) list \<Rightarrow> jsstr option" where
  "card_key lower rec =
     (case string_field rec ''jcard'' of
        Some jcard \<Rightarrow> Some (js ''jcard:'' @ jcard)
      | None \<Rightarrow>
          (case string_field rec ''atr'' of
             Some (c # atr) \<Rightarrow> Some (js ''atr:'' @ lower (trim (c # atr)))
           | _ \<Rightarrow>
               (case string_field rec ''name'' of
                  Some (c # name) \<Rightarrow> Some (js ''name:'' @ lower (trim (c # name)))
                | _ \<Rightarrow> None)))"

record leg1_card =
  lc_cardKey :: jsstr
  lc_content :: jsstr
  lc_iSet :: "jsstr list"
  lc_rootEventId :: jsstr

record leg1_scan =
  sc_cards :: "leg1_card dict"
  sc_metas :: "jsstr dict"

definition scan_event :: "(jsstr \<Rightarrow> jsstr) \<Rightarrow> nostr_event \<Rightarrow> leg1_scan \<Rightarrow> leg1_scan" where
  "scan_event lower e sc =
     (case card_capture (ev_content e) of
        None \<Rightarrow> sc
      | Some text \<Rightarrow>
          (case json_parse text of
             Some (JObject rec) \<Rightarrow>
               if string_field rec ''type'' = Some (js ''jcalgtest-card@1'') then
                 (case card_key lower rec of
                    None \<Rightarrow> sc
                  | Some k \<Rightarrow>
                      sc\<lparr>sc_cards := dset (ev_id e)
                           \<lparr>lc_cardKey = k, lc_content = ev_content e,
                            lc_iSet = map (\<lambda>t. case nth_opt t 1 of None \<Rightarrow> [] | Some v \<Rightarrow> v)
                              (filter (\<lambda>t. nth_opt t 0 = Some (js ''i'')) (ev_tags e)),
                            lc_rootEventId = ev_id e\<rparr> (sc_cards sc)\<rparr>)
               else if string_field rec ''type'' = Some (js ''sec-certs-cc-record@1'') then
                 (case string_field rec ''dgst'' of
                    None \<Rightarrow> sc
                  | Some d \<Rightarrow> sc\<lparr>sc_metas := dset (ev_id e) d (sc_metas sc)\<rparr>)
               else sc
           | _ \<Rightarrow> sc))"

definition scan_leg1 :: "(jsstr \<Rightarrow> jsstr) \<Rightarrow> nostr_event list \<Rightarrow> leg1_scan" where
  "scan_leg1 lower events = fold (scan_event lower) events \<lparr>sc_cards = [], sc_metas = []\<rparr>"

definition seed_root :: "engine_env \<Rightarrow> leg1_card \<Rightarrow> root_upsert" where
  "seed_root env row =
     \<lparr>rf_corpus = js ''jcalgtest'', rf_sourceId = lc_cardKey row, rf_role = js ''product'',
      rf_rootEventId = lc_rootEventId row, rf_tipEventId = lc_rootEventId row, rf_tipContent = lc_content row,
      rf_contentHash = ee_sha256 env (lc_content row), rf_iSet = lc_iSet row, rf_sourceHash = js ''leg1-seed'',
      rf_genVersion = js ''seccerts-v1'', rf_state = Live, ru_imeta = Some []\<rparr>"

text \<open>Cross-links, as far as the seed reads them.\<close>

record crosslink =
  xl_cardKey :: jsstr
  xl_certDgst :: jsstr
  xl_evidence :: "jsstr list"

definition crosslinkRelationId :: "crosslink \<Rightarrow> jsstr" where
  "crosslinkRelationId pair = js ''xlink:'' @ xl_cardKey pair @ [58] @ xl_certDgst pair"

definition crosslinkFingerprintOf :: "engine_env \<Rightarrow> crosslink \<Rightarrow> jsstr" where
  "crosslinkFingerprintOf env pair =
     ee_sha256 env (crosslinkRelationId pair @ [124] @ xl_cardKey pair @ [124] @ xl_certDgst pair @ [124]
       @ join_with 124 (xl_evidence pair))"

definition marked_target :: "nostr_event \<Rightarrow> string \<Rightarrow> jsstr option" where
  "marked_target e marker =
     (case find (\<lambda>t. nth_opt t 0 = Some (js ''e'') \<and> nth_opt t 3 = Some (js marker)) (ev_tags e) of
        None \<Rightarrow> None
      | Some t \<Rightarrow> nth_opt t 1)"

text \<open>The card and the certificate a binding of the first leg links.\<close>

definition leg1_link :: "leg1_scan \<Rightarrow> nostr_event \<Rightarrow> (jsstr \<times> jsstr) option" where
  "leg1_link sc e =
     (if list_ex (\<lambda>t. nth_opt t 0 = Some (js ''t'') \<and> nth_opt t 1 = Some (js ''scrutiny-binding'')) (ev_tags e) then
        (case (marked_target e ''root'', marked_target e ''link'') of
           (Some rootId, Some linkId) \<Rightarrow>
             (case (dget (sc_metas sc) linkId, dget (sc_cards sc) rootId) of
                (Some dgst, Some row) \<Rightarrow> Some (lc_cardKey row, dgst)
              | _ \<Rightarrow> None)
         | _ \<Rightarrow> None)
      else None)"

datatype build_warning =
    Seed_skipped | Seed_summary nat nat | Pair_absent jsstr jsstr jsstr | Force_reset nat | Engine_warning engine_warning

definition seed_relation :: "engine_env \<Rightarrow> crosslink list \<Rightarrow> jsstr \<Rightarrow> jsstr \<times> jsstr \<Rightarrow> relation_upsert" where
  "seed_relation env matrix eventId link =
     (case link of (cardKey, dgst) \<Rightarrow>
        let relationId = js ''xlink:'' @ cardKey @ [58] @ dgst in
        \<lparr>lu_corpus = js ''seccerts/cc'', lu_relationId = relationId, lu_kind = js ''crosslink'', lu_subjectId = cardKey,
         lu_objectKey = dgst,
         lu_fingerprint =
           (case dget (map_by crosslinkRelationId matrix) relationId of
              None \<Rightarrow> ee_sha256 env (relationId @ [124] @ cardKey @ [124] @ dgst @ [124] @ js ''leg1-seed'')
            | Some pair \<Rightarrow> crosslinkFingerprintOf env pair),
         lu_eventId = eventId, lu_state = Live\<rparr>)"

definition seed_links :: "leg1_scan \<Rightarrow> nostr_event list \<Rightarrow> (jsstr \<times> jsstr \<times> jsstr) list" where
  "seed_links sc events = concat (map (\<lambda>e. case leg1_link sc e of None \<Rightarrow> [] | Some l \<Rightarrow> [(ev_id e, l)]) events)"

definition seed_binding :: "engine_env \<Rightarrow> crosslink list \<Rightarrow> int \<Rightarrow> jsstr \<times> jsstr \<times> jsstr \<Rightarrow> ledger \<Rightarrow> ledger" where
  "seed_binding env matrix now entry db =
     (case entry of (eventId, link) \<Rightarrow> fst (upsertRelations now [seed_relation env matrix eventId link] db))"

record seed_report =
  sr_rootsSeeded :: nat
  sr_relationsSeeded :: nat
  sr_warnings :: "build_warning list"

definition seedLeg1 ::
    "engine_env \<Rightarrow> crosslink list \<Rightarrow> nostr_event list option \<Rightarrow> int \<Rightarrow> int \<Rightarrow> ledger \<Rightarrow> ledger \<times> seed_report" where
  "seedLeg1 env matrix leg1 t1 t2 db =
     (case leg1 of
        None \<Rightarrow> (db, \<lparr>sr_rootsSeeded = 0, sr_relationsSeeded = 0, sr_warnings = [Seed_skipped]\<rparr>)
      | Some events \<Rightarrow>
          let sc = scan_leg1 (ee_lower env) events;
              db = fst (upsertRoots t1 (map (seed_root env) (dvalues (sc_cards sc))) db);
              links = seed_links sc events
          in (fold (seed_binding env matrix t2) links db,
              \<lparr>sr_rootsSeeded = length (sc_cards sc), sr_relationsSeeded = length links,
               sr_warnings = concat (map (\<lambda>(i, cardKey, dgst).
                 if dget (map_by crosslinkRelationId matrix) (js ''xlink:'' @ cardKey @ [58] @ dgst) = None
                 then [Pair_absent i cardKey dgst] else []) links)\<rparr>))"

section \<open>A build\<close>

record emit_options =
  eo_targetRelay :: "jsstr option"
  eo_forceReset :: bool
  eo_leg1 :: "nostr_event list option"

datatype build_error = Unpublished jsstr nat | Engine_error engine_error

record emit_result =
  er_events :: "nostr_event list"
  er_snapshot :: jsstr
  er_counts :: type_counts
  er_ledgerPreview :: nat
  er_warnings :: "build_warning list"
  er_engine :: engine_result

text \<open>The largest of the snapshots that are strings, in the order of code units.\<close>

definition maxCorpusSnapshot :: "jsstr option list \<Rightarrow> jsstr" where
  "maxCorpusSnapshot snapshots =
     fold (\<lambda>s m. case s of None \<Rightarrow> m | Some t \<Rightarrow> if m < t then t else m) snapshots []"

definition chain_integrity :: "emit_options \<Rightarrow> int \<Rightarrow> ledger \<Rightarrow> build_error + ledger \<times> nat option" where
  "chain_integrity opts now db =
     (case eo_targetRelay opts of
        None \<Rightarrow> Inr (db, None)
      | Some relay \<Rightarrow>
          let unpublished = unpublishedChainPointIds relay db in
          if unpublished = [] then Inr (db, None)
          else if eo_forceReset opts then
            (case abandonChainPoints now relay unpublished db of (db', n) \<Rightarrow> Inr (db', Some n))
          else Inl (Unpublished relay (length unpublished)))"

definition emitSeccertsBundle ::
    "engine_env \<Rightarrow> desired_state \<Rightarrow> crosslink list \<Rightarrow> jsstr option list \<Rightarrow> emit_options \<Rightarrow> (nat \<Rightarrow> int) \<Rightarrow> ledger
     \<Rightarrow> (build_error + emit_result) \<times> ledger" where
  "emitSeccertsBundle env state matrix snapshots opts clock db =
     (case chain_integrity opts (clock 0) db of
        Inl err \<Rightarrow> (Inl err, db)
      | Inr (db, reset) \<Rightarrow>
          (case seedLeg1 env matrix (eo_leg1 opts) (clock 1) (clock 2) db of
             (db, seed) \<Rightarrow>
               (case runEngine env state db of
                  Inl err \<Rightarrow> (Inl (Engine_error err), db)
                | Inr engine \<Rightarrow>
                    (Inr \<lparr>er_events = rn_events engine, er_snapshot = maxCorpusSnapshot snapshots,
                          er_counts = countByType (rn_events engine),
                          er_ledgerPreview = length (rn_rootRows engine) + length (rn_relationRows engine),
                          er_warnings = (case reset of None \<Rightarrow> [] | Some n \<Rightarrow> [Force_reset n])
                            @ Seed_summary (sr_rootsSeeded seed) (sr_relationsSeeded seed) # sr_warnings seed
                            @ map Engine_warning (rn_warnings engine),
                          er_engine = engine\<rparr>,
                     recorded (clock 3) (clock 4) engine db))))"

section \<open>The rows of a run name its events\<close>

definition root_points :: "root_upsert \<Rightarrow> jsstr set" where
  "root_points u = (if rf_state u = Live then {rf_rootEventId u, rf_tipEventId u} else {})"

definition relation_points :: "relation_upsert \<Rightarrow> jsstr set" where
  "relation_points l = (if lu_state l = Live then {lu_eventId l} else {})"

definition traced :: "ledger \<Rightarrow> engine_state \<Rightarrow> bool" where
  "traced db st \<longleftrightarrow>
     (\<forall>u \<in> set (es_rootRows st). root_points u \<subseteq> ev_id ` set (assemble st) \<union> set (chain_points db))
     \<and> (\<forall>l \<in> set (es_relationRows st). relation_points l \<subseteq> ev_id ` set (assemble st))"

lemma set_assemble:
  "set (assemble st) =
     snd ` set (es_newRootEvents st) \<union> set (es_newRelationEvents st) \<union> set (es_patchEvents st)
     \<union> (\<Union>en \<in> set (es_reRootEntries st). insert (re_event en) (set (re_bindings en))) \<union> set (es_deletionEvents st)"
  by (auto simp: assemble_def)

lemma traced_grow:
  assumes "traced db st" "set (assemble st) \<subseteq> set (assemble st')"
    and "es_rootRows st' = es_rootRows st @ rows" "es_relationRows st' = es_relationRows st @ rels"
    and "\<And>u. u \<in> set rows \<Longrightarrow> root_points u \<subseteq> ev_id ` set (assemble st') \<union> set (chain_points db)"
    and "\<And>l. l \<in> set rels \<Longrightarrow> relation_points l \<subseteq> ev_id ` set (assemble st')"
  shows "traced db st'"
proof -
  have ids: "ev_id ` set (assemble st) \<subseteq> ev_id ` set (assemble st')"
    using assms(2) by (rule image_mono)
  have "root_points u \<subseteq> ev_id ` set (assemble st') \<union> set (chain_points db)" if u: "u \<in> set (es_rootRows st')" for u
  proof (cases "u \<in> set rows")
    case False
    then have "root_points u \<subseteq> ev_id ` set (assemble st) \<union> set (chain_points db)"
      using u assms(1,3) by (simp add: traced_def)
    then show ?thesis
      using ids by blast
  qed (rule assms(5))
  moreover have "relation_points l \<subseteq> ev_id ` set (assemble st')" if l: "l \<in> set (es_relationRows st')" for l
  proof (cases "l \<in> set rels")
    case False
    then have "relation_points l \<subseteq> ev_id ` set (assemble st)"
      using l assms(1,4) by (simp add: traced_def)
    then show ?thesis
      using ids by blast
  qed (rule assms(6))
  ultimately show ?thesis
    by (simp add: traced_def)
qed

lemma live_row_points:
  assumes "row \<in> set (rootsByCorpus c db)"
  shows "rf_rootEventId row \<in> set (chain_points db)" "rf_tipEventId row \<in> set (chain_points db)"
proof -
  obtain k d where "(k, d) \<in> set (lg_roots db)" "rd_state d = js ''live''" "row = rowToRoot (k, d)"
    using assms by (auto simp: rootsByCorpus_def)
  then show "rf_rootEventId row \<in> set (chain_points db)" "rf_tipEventId row \<in> set (chain_points db)"
    by (cases k; force simp: chain_points_def rowToRoot_def Let_def)+
qed

lemma place_assemble: "insert e (set (assemble st)) \<subseteq> set (assemble (place i e st))"
proof (cases "\<exists>k. i = Some k \<and> k < length (es_reRootEntries st)")
  case True
  then obtain k where k: "i = Some k" "k < length (es_reRootEntries st)"
    by blast
  let ?xs = "es_reRootEntries st"
  let ?f = "\<lambda>en. insert (re_event en) (set (re_bindings en))"
  let ?new = "(?xs ! k)\<lparr>re_bindings := re_bindings (?xs ! k) @ [e]\<rparr>"
  have "?f en \<subseteq> (\<Union>x \<in> set (?xs[k := ?new]). ?f x)" if "en \<in> set ?xs" for en
  proof -
    obtain j where j: "j < length ?xs" "en = ?xs ! j"
      using \<open>en \<in> set ?xs\<close> by (auto simp: in_set_conv_nth)
    have "?xs[k := ?new] ! j \<in> set (?xs[k := ?new])"
      using j(1) by (intro nth_mem) simp
    moreover have "?f en \<subseteq> ?f (?xs[k := ?new] ! j)"
      using j by (cases "j = k") auto
    ultimately show ?thesis
      by (meson UN_upper subset_trans)
  qed
  moreover have "e \<in> (\<Union>x \<in> set (?xs[k := ?new]). ?f x)"
    using set_update_memI [OF k(2), of ?new] by (intro UN_I) auto
  ultimately show ?thesis
    using k by (auto simp: set_assemble place_def)
next
  case False
  then show ?thesis
    by (auto simp: set_assemble place_def split: option.splits)
qed

lemma assemble_frame [simp]:
  "assemble (warn w st) = assemble st" "assemble (count f st) = assemble st" "assemble (tick st) = assemble st"
  "assemble (push_row u st) = assemble st" "assemble (saw rel st) = assemble st"
  "assemble (st\<lparr>es_relationRows := rr\<rparr>) = assemble st" "assemble (st\<lparr>es_rootEventIdByKey := k3\<rparr>) = assemble st"
  "assemble (st\<lparr>es_seenRootKeys := k1\<rparr>) = assemble st" "assemble (pushDeletion env t c st) = assemble st @ [buildDeletion env t c (ee_clock env (es_tick st))]"
  by (simp_all add: assemble_def warn_def count_def tick_def push_row_def saw_def pushDeletion_def Let_def)

lemma traced_frame [simp]:
  "traced db (warn w st) = traced db st" "traced db (count f st) = traced db st"
  "traced db (saw rel st) = traced db st" "traced db (st\<lparr>es_rootEventIdByKey := k3\<rparr>) = traced db st"
  "traced db (st\<lparr>es_seenRootKeys := k1\<rparr>) = traced db st"
  unfolding traced_def assemble_frame by (simp_all add: warn_def count_def saw_def)

lemma emitted_points [simp]: "root_points (emitted_row env root a t c) = {a, t}"
  by (simp add: root_points_def emitted_row_def)

lemma kept_points [simp]:
  "root_points (kept_row row h g s) = (if s = Live then {rf_rootEventId row, rf_tipEventId row} else {})"
  by (simp add: root_points_def kept_row_def)

lemma traced_new_root:
  assumes "new_root env root st = Inr st'" "traced db st"
  shows "traced db st'"
proof -
  obtain event where st': "st' = count (\<lambda>c. c\<lparr>ct_newRoots := ct_newRoots c + 1\<rparr>)
      (push_row (emitted_row env root (ev_id event) (ev_id event) (dr_content root))
         (tick (st\<lparr>es_newRootEvents := es_newRootEvents st @ [(root, event)],
                  es_rootEventIdByKey := dset (desired_key root) (ev_id event) (es_rootEventIdByKey st)\<rparr>)))"
    using assms(1) by (auto simp: new_root_def split: sum.splits)
  show ?thesis
    by (rule traced_grow [OF assms(2), of _ "[emitted_row env root (ev_id event) (ev_id event) (dr_content root)]" "[]"])
      (auto simp: st' set_assemble count_def push_row_def tick_def)
qed

lemma traced_patch:
  assumes "patch_root env root row st = Inr st'" "traced db st" "row \<in> set (rootsByCorpus c db)"
  shows "traced db st'"
proof (cases "rf_tipEventId row \<in> set (es_patchParents st)")
  case True
  then show ?thesis
    using assms(1,2) by (auto simp: patch_root_def)
next
  case False
  obtain event where st': "st' = count (\<lambda>c. c\<lparr>ct_patches := ct_patches c + 1\<rparr>)
      (push_row (emitted_row env root (rf_rootEventId row) (ev_id event) (effective_content root row))
        (tick (st\<lparr>es_patchEvents := es_patchEvents st @ [event],
                 es_patchParents := sadd (rf_tipEventId row) (es_patchParents st)\<rparr>)))"
    using assms(1) False by (auto simp: patch_root_def Let_def split: sum.splits if_splits)
  show ?thesis
    by (rule traced_grow [OF assms(2), of _ "[emitted_row env root (rf_rootEventId row) (ev_id event) (effective_content root row)]" "[]"])
      (use live_row_points [OF assms(3)] in \<open>auto simp: st' set_assemble count_def push_row_def tick_def\<close>)
qed

lemma traced_reroot:
  assumes "re_root env root row st = Inr st'" "traced db st"
  shows "traced db st'"
  using assms(1)
proof (cases rule: re_rootE)
  case fork
  then show ?thesis
    using assms(2) by simp
next
  case (rerooted s content event c)
  have s: "assemble s = assemble st" "es_rootRows s = es_rootRows st" "es_relationRows s = es_relationRows st"
    "es_reRootEntries s = es_reRootEntries st" "es_newRootEvents s = es_newRootEvents st"
    "es_newRelationEvents s = es_newRelationEvents st" "es_patchEvents s = es_patchEvents st" "es_deletionEvents s = es_deletionEvents st"
    using rerooted(1) by (auto simp: warn_def assemble_def)
  show ?thesis
    by (rule traced_grow [OF assms(2), of _ "[emitted_row env root (ev_id event) (ev_id event) content]" "[]"])
      (auto simp: rerooted(3) set_assemble count_def push_row_def tick_def pushDeletion_def Let_def s)
qed

lemma traced_deletion: "traced db st \<Longrightarrow> traced db (pushDeletion env t c st)"
proof (rule traced_grow [of db st _ "[]" "[]"])
  show "es_rootRows (pushDeletion env t c st) = es_rootRows st @ []" "es_relationRows (pushDeletion env t c st) = es_relationRows st @ []"
    by (simp_all add: pushDeletion_def tick_def Let_def)
qed auto

lemma traced_push: "traced db st \<Longrightarrow> root_points u \<subseteq> set (chain_points db) \<Longrightarrow> traced db (push_row u st)"
  by (rule traced_grow [of _ _ _ "[u]" "[]"]) (auto simp: push_row_def assemble_def)

lemma traced_root_step:
  assumes "root_step env (live_roots state db) root st = Inr st'" "traced db st"
  shows "traced db st'"
proof -
  let ?s = "st\<lparr>es_seenRootKeys := sadd (desired_key root) (es_seenRootKeys st)\<rparr>"
  have s: "traced db ?s"
    using assms(2) by simp
  show ?thesis
  proof (cases "desired_key root \<in> set (es_seenRootKeys st)")
    case True
    then show ?thesis
      using assms by (auto simp: root_step_def Let_def)
  next
    case fresh: False
    show ?thesis
    proof (cases "live_row (live_roots state db) root")
      case None
      then show ?thesis
        using assms(1) fresh traced_new_root [OF _ s] by (simp add: root_step_def Let_def)
    next
      case (Some row)
      note row = live_row_in [OF Some, THEN conjunct1]
      have "traced db (push_row (kept_row row h g Live) (count f ?s))" for h g f
        by (rule traced_push) (use s live_row_points [OF row] in auto)
      then show ?thesis
        using assms fresh Some traced_patch [OF _ s row] traced_reroot [OF _ s]
        by (auto simp: root_step_def Let_def split: if_splits)
    qed
  qed
qed

lemma traced_binding:
  assumes "emit_binding env rel a b i f st = Inr st'" "traced db st"
  shows "traced db st'"
proof -
  obtain event where st': "st' = count f ((place i event (tick st))\<lparr>es_relationRows :=
      es_relationRows (place i event (tick st)) @ [relation_upsert_of rel (ev_id event)]\<rparr>)"
    using assms(1) by (auto simp: emit_binding_def Let_def split: sum.splits)
  have sub: "insert event (set (assemble st)) \<subseteq> set (assemble st')"
    using place_assemble [of event "tick st" i] by (simp add: st')
  have rows: "es_rootRows (place i e s) = es_rootRows s" "es_relationRows (place i e s) = es_relationRows s" for e s
    by (auto simp: place_def split: option.splits)
  show ?thesis
    by (rule traced_grow [OF assms(2), of _ "[]" "[relation_upsert_of rel (ev_id event)]"])
      (use sub in \<open>auto simp: rows st' count_def tick_def relation_points_def relation_upsert_of_def\<close>)
qed

lemma traced_relation_step:
  assumes "relation_step env known rel st = Inr st'" "traced db st"
  shows "traced db st'"
  using assms(1)
proof (cases rule: relation_step_cases)
  case (fresh a b)
  show ?thesis
    by (rule traced_binding [OF fresh(5)]) (simp add: assms(2))
next
  case (replaced a b row c)
  show ?thesis
    by (rule traced_binding [OF replaced(7)]) (rule traced_deletion, simp add: assms(2))
qed (use assms(2) in simp_all)

lemma traced_retract_row: "traced db s \<Longrightarrow> traced db (retract_row env desired row s)"
proof (cases "lu_state row \<noteq> Live \<or> lu_relationId row \<in> set desired")
  case False
  assume s: "traced db s"
  let ?l = "\<lparr>lu_corpus = lu_corpus row, lu_relationId = lu_relationId row, lu_kind = lu_kind row,
      lu_subjectId = lu_subjectId row, lu_objectKey = lu_objectKey row, lu_fingerprint = lu_fingerprint row,
      lu_eventId = lu_eventId row, lu_state = Gone\<rparr>"
  have "traced db (s'\<lparr>es_relationRows := es_relationRows s' @ [?l]\<rparr>)" if "traced db s'" for s'
    by (rule traced_grow [OF that, of _ "[]" "[?l]"]) (auto simp: relation_points_def)
  from this [OF traced_deletion [OF s]] show ?thesis
    unfolding retract_row_def Let_def if_not_P [OF False] traced_frame by simp
qed (simp add: retract_row_def)

lemma run_traced:
  assumes "run_state env state db = Inr st"
  shows "traced db st"
  using assms
proof (rule run_keeps [where P = "traced db"])
  show "traced db (initial_state state db)"
    by (simp add: traced_def initial_state_def)
  show "traced db s'" if "root_step env (live_roots state db) r s = Inr s'" "traced db s" for r s s'
    by (rule traced_root_step [OF that])
  show "traced db s'" if "relation_step env (ledger_relations state db) r s = Inr s'" "traced db s" for r s s'
    by (rule traced_relation_step [OF that])
  show "traced db (retire_corpus db (live_roots state db) e s)" if "traced db s" for e s
  proof (rule retire_corpus_keeps [where P = "traced db", OF that])
    show "traced db (retire_row (fst e) sid row s)" if "traced db s" for row sid s
      using traced_push [OF that, of "kept_row row (rf_sourceHash row) (rf_genVersion row) Gone"]
      by (simp add: retire_row_def Let_def)
  qed simp_all
  show "traced db (retract_corpus env (ds_relations state) e s)" if "traced db s" for e s
    by (rule retract_corpus_keeps [where P = "traced db", OF that]) (rule traced_retract_row)
qed

section \<open>Chain points of the ledger after a build\<close>

definition root_point :: "jsstr \<Rightarrow> root_db_row \<Rightarrow> bool" where
  "root_point i d \<longleftrightarrow> rd_state d = js ''live'' \<and> (i = rd_tip_event_id d \<or> i = rd_root_event_id d)"

definition relation_point :: "jsstr \<Rightarrow> relation_db_row \<Rightarrow> bool" where
  "relation_point i d \<longleftrightarrow> ld_state d = js ''live'' \<and> i = ld_event_id d"

lemma chain_point_iff:
  "i \<in> set (chain_points db) \<longleftrightarrow>
     (\<exists>d \<in> set (dvalues (lg_roots db)). root_point i d) \<or> (\<exists>d \<in> set (dvalues (lg_relations db)). relation_point i d)"
  by (auto simp: chain_points_def Let_def root_point_def relation_point_def)

lemma dvalues_dset_ex: "\<exists>d \<in> set (dvalues (dset k v t)). P d \<Longrightarrow> P v \<or> (\<exists>d \<in> set (dvalues t). P d)"
  using dvalues_dset [of _ k v t] by blast

lemma root_upsert_points:
  "set (chain_points (upsert_root now u db)) \<subseteq> set (chain_points db) \<union> root_points u"
  "lg_publish_log (upsert_root now u db) = lg_publish_log db"
proof
  fix i assume "i \<in> set (chain_points (upsert_root now u db))"
  then show "i \<in> set (chain_points db) \<union> root_points u"
    unfolding chain_point_iff upsert_root_def Let_def
    by (cases "rf_state u") (auto simp del: set_map dest!: dvalues_dset_ex simp: chain_point_iff root_point_def root_points_def)
qed (simp add: upsert_root_def Let_def)

lemma relation_upsert_points:
  "set (chain_points (upsert_relation now l db)) \<subseteq> set (chain_points db) \<union> relation_points l"
  "lg_publish_log (upsert_relation now l db) = lg_publish_log db"
proof
  fix i assume "i \<in> set (chain_points (upsert_relation now l db))"
  then show "i \<in> set (chain_points db) \<union> relation_points l"
    unfolding chain_point_iff upsert_relation_def
    by (cases "lu_state l") (auto simp del: set_map dest!: dvalues_dset_ex simp: chain_point_iff relation_point_def relation_points_def)
qed (simp add: upsert_relation_def)

lemma roots_upsert_points:
  "set (chain_points (fold (upsert_root now) us db)) \<subseteq> set (chain_points db) \<union> (\<Union>u \<in> set us. root_points u)"
  "lg_publish_log (fold (upsert_root now) us db) = lg_publish_log db"
proof (induction us arbitrary: db)
  case (Cons u us)
  case 1
  show ?case
    using Cons(1) [of "upsert_root now u db"] root_upsert_points(1) [of now u db] by simp blast
  case 2
  show ?case
    using Cons(2) [of "upsert_root now u db"] by (simp add: root_upsert_points(2))
qed simp_all

lemma relations_upsert_points:
  "set (chain_points (fold (upsert_relation now) ls db)) \<subseteq> set (chain_points db) \<union> (\<Union>l \<in> set ls. relation_points l)"
  "lg_publish_log (fold (upsert_relation now) ls db) = lg_publish_log db"
proof (induction ls arbitrary: db)
  case (Cons l ls)
  case 1
  show ?case
    using Cons(1) [of "upsert_relation now l db"] relation_upsert_points(1) [of now l db] by simp blast
  case 2
  show ?case
    using Cons(2) [of "upsert_relation now l db"] by (simp add: relation_upsert_points(2))
qed simp_all

lemma recorded_points:
  assumes "runEngine env state db = Inr r"
  shows "set (chain_points (recorded t1 t2 r db)) \<subseteq> ev_id ` set (rn_events r) \<union> set (chain_points db)"
    "lg_publish_log (recorded t1 t2 r db) = lg_publish_log db"
proof -
  obtain st where st: "run_state env state db = Inr st" "r = result_of st"
    using assms by (rule runE)
  have joined: "A \<subseteq> E \<union> C" if "A \<subseteq> B \<union> L" "B \<subseteq> C \<union> R" "R \<subseteq> E \<union> C" "L \<subseteq> E" for A B C E L R :: "jsstr set"
    using that by blast
  have "(\<Union>u \<in> set (rn_rootRows r). root_points u) \<subseteq> ev_id ` set (rn_events r) \<union> set (chain_points db)"
    "(\<Union>l \<in> set (rn_relationRows r). relation_points l) \<subseteq> ev_id ` set (rn_events r)"
    using run_traced [OF st(1)] by (simp_all add: traced_def st(2) result_of_def UN_least)
  then show "set (chain_points (recorded t1 t2 r db)) \<subseteq> ev_id ` set (rn_events r) \<union> set (chain_points db)"
    unfolding recorded_def upsertRoots_def upsertRelations_def fst_conv
    by (rule joined [OF relations_upsert_points(1) roots_upsert_points(1)])
  show "lg_publish_log (recorded t1 t2 r db) = lg_publish_log db"
    unfolding recorded_def upsertRoots_def upsertRelations_def fst_conv relations_upsert_points(2) roots_upsert_points(2) ..
qed

lemma scan_event_cards:
  "sc_cards (scan_event lower e sc) = sc_cards sc
   \<or> (\<exists>c. lc_rootEventId c = ev_id e \<and> sc_cards (scan_event lower e sc) = dset (ev_id e) c (sc_cards sc))"
  unfolding scan_event_def by (simp split: option.split json.split) force

lemma scanned_cards:
  assumes "c \<in> set (dvalues (sc_cards (scan_leg1 lower events)))"
  shows "lc_rootEventId c \<in> ev_id ` set events"
proof -
  let ?P = "\<lambda>sc. \<forall>d \<in> set (dvalues (sc_cards sc)). lc_rootEventId d \<in> ev_id ` set events"
  have "?P (scan_event lower e sc)" if "?P sc" "e \<in> set events" for e sc
    using scan_event_cards [of lower e sc]
  proof (elim disjE exE conjE)
    fix c assume c: "lc_rootEventId c = ev_id e" "sc_cards (scan_event lower e sc) = dset (ev_id e) c (sc_cards sc)"
    show ?thesis
    proof
      fix d assume "d \<in> set (dvalues (sc_cards (scan_event lower e sc)))"
      then have "d = c \<or> d \<in> set (dvalues (sc_cards sc))"
        unfolding c(2) by (rule dvalues_dset)
      then show "lc_rootEventId d \<in> ev_id ` set events"
        using that(2) c(1) bspec [OF that(1)] by (elim disjE) simp_all
    qed
  qed (use that(1) in simp)
  then have "?P (fold (scan_event lower) events \<lparr>sc_cards = [], sc_metas = []\<rparr>)"
    by (intro fold_keeps [of ?P]) simp_all
  then show ?thesis
    using assms by (simp add: scan_leg1_def del: set_map)
qed

definition leg1_ids :: "emit_options \<Rightarrow> jsstr set" where
  "leg1_ids opts = (case eo_leg1 opts of None \<Rightarrow> {} | Some events \<Rightarrow> ev_id ` set events)"

lemma seed_points:
  assumes "seedLeg1 env matrix (eo_leg1 opts) t1 t2 db = (db', report)"
  shows "set (chain_points db') \<subseteq> leg1_ids opts \<union> set (chain_points db)" "lg_publish_log db' = lg_publish_log db"
proof -
  have "set (chain_points db') \<subseteq> leg1_ids opts \<union> set (chain_points db) \<and> lg_publish_log db' = lg_publish_log db"
  proof (cases "eo_leg1 opts")
    case None
    then show ?thesis
      using assms by (auto simp: seedLeg1_def leg1_ids_def)
  next
    case (Some events)
    have joined: "A \<subseteq> E \<union> C" if "A \<subseteq> B \<union> L" "B \<subseteq> C \<union> R" "R \<subseteq> E" "L \<subseteq> E" for A B C E L R :: "jsstr set"
      using that by blast
    let ?sc = "scan_leg1 (ee_lower env) events"
    let ?links = "seed_links ?sc events"
    define db1 where "db1 = fold (upsert_root t1) (map (seed_root env) (dvalues (sc_cards ?sc))) db"
    have db': "db' = fold (seed_binding env matrix t2) ?links db1"
      using assms by (simp add: Some seedLeg1_def Let_def upsertRoots_def db1_def)
    have step: "seed_binding env matrix t2 = (\<lambda>x. upsert_relation t2 (seed_relation env matrix (fst x) (snd x)))"
      by (rule ext)+ (simp add: seed_binding_def case_prod_beta upsertRelations_def)
    have db'': "db' = fold (upsert_relation t2) (map (\<lambda>x. seed_relation env matrix (fst x) (snd x)) ?links) db1"
      unfolding db' step by (simp add: fold_map comp_def)
    have "(\<Union>u \<in> set (map (seed_root env) (dvalues (sc_cards ?sc))). root_points u) \<subseteq> ev_id ` set events"
      using scanned_cards [of _ "ee_lower env" events] by (force simp: root_points_def seed_root_def)
    moreover have "(\<Union>l \<in> set (map (\<lambda>x. seed_relation env matrix (fst x) (snd x)) ?links). relation_points l) \<subseteq> ev_id ` set events"
      by (auto simp: relation_points_def seed_relation_def case_prod_beta seed_links_def Let_def split: option.splits)
    ultimately show ?thesis
      unfolding db'' db1_def leg1_ids_def Some option.case relations_upsert_points(2) roots_upsert_points(2)
      by (intro conjI refl) (rule joined [OF relations_upsert_points(1) roots_upsert_points(1)])
  qed
  then show "set (chain_points db') \<subseteq> leg1_ids opts \<union> set (chain_points db)" "lg_publish_log db' = lg_publish_log db"
    by blast+
qed

lemma gate_passed:
  assumes "chain_integrity opts now db = Inr (db', reset)" "eo_targetRelay opts = Some relay"
  shows "unpublishedChainPointIds relay db' = []" "dhas (lg_publish_log db) k \<Longrightarrow> dhas (lg_publish_log db') k"
proof -
  have "unpublishedChainPointIds relay db' = [] \<and> (dhas (lg_publish_log db) k \<longrightarrow> dhas (lg_publish_log db') k)"
  proof (cases "unpublishedChainPointIds relay db = []")
    case True
    then show ?thesis
      using assms by (simp add: chain_integrity_def)
  next
    case False
    then have "db' = fold (abandon_point now relay) (unpublishedChainPointIds relay db) db"
      using assms by (simp add: chain_integrity_def abandonChainPoints_def Let_def split: if_splits)
    then show ?thesis
      by (auto simp: unpublishedChainPointIds_def abandon_points abandon_log filter_empty_conv)
  qed
  then show "unpublishedChainPointIds relay db' = []" "dhas (lg_publish_log db) k \<Longrightarrow> dhas (lg_publish_log db') k"
    by blast+
qed

lemma build_parts:
  assumes "emitSeccertsBundle env state matrix snapshots opts clock db = (Inr res, db')"
  obtains db1 reset db2 seed r where "chain_integrity opts (clock 0) db = Inr (db1, reset)"
    "seedLeg1 env matrix (eo_leg1 opts) (clock 1) (clock 2) db1 = (db2, seed)" "runEngine env state db2 = Inr r"
    "er_events res = rn_events r" "db' = recorded (clock 3) (clock 4) r db2"
  using assms by (auto simp: emitSeccertsBundle_def split: sum.splits prod.splits)

lemma unpublished_events:
  assumes "emitSeccertsBundle env state matrix snapshots opts clock db = (Inr res, db')"
    and "eo_targetRelay opts = Some relay" "\<forall>i \<in> leg1_ids opts. dhas (lg_publish_log db) (i, relay)"
  shows "set (unpublishedChainPointIds relay db') \<subseteq> ev_id ` set (er_events res)"
proof -
  obtain db1 reset db2 seed r where gate: "chain_integrity opts (clock 0) db = Inr (db1, reset)"
    and seed: "seedLeg1 env matrix (eo_leg1 opts) (clock 1) (clock 2) db1 = (db2, seed)"
    and run: "runEngine env state db2 = Inr r" "er_events res = rn_events r" "db' = recorded (clock 3) (clock 4) r db2"
    using assms(1) by (rule build_parts)
  have "dhas (lg_publish_log db1) (i, relay)" if "i \<in> leg1_ids opts \<union> set (chain_points db1)" for i
    using that assms(3) gate_passed [OF gate assms(2)]
    by (auto simp: unpublishedChainPointIds_def filter_empty_conv)
  then have "dhas (lg_publish_log db') (i, relay)" if "i \<in> set (chain_points db2)" for i
    using that seed_points [OF seed] by (auto simp: run(3) recorded_points(2) [OF run(1)])
  then show ?thesis
    using recorded_points(1) [OF run(1), of "clock 3" "clock 4"]
    by (auto simp: unpublishedChainPointIds_def run(2,3))
qed

text \<open>
  C16. A build that finds its gate closed stops there: it is refused exactly when a relay is named, nothing is forced
  and the ledger holds chain points without a verdict of that relay, it says how many, and it has not touched the
  ledger.
\<close>

theorem build_refused:
  "fst (emitSeccertsBundle env state matrix snapshots opts clock db) = Inl (Unpublished relay n) \<longleftrightarrow>
     eo_targetRelay opts = Some relay \<and> \<not> eo_forceReset opts
     \<and> n = length (unpublishedChainPointIds relay db) \<and> n \<noteq> 0
     \<and> snd (emitSeccertsBundle env state matrix snapshots opts clock db) = db"
  by (auto simp: emitSeccertsBundle_def chain_integrity_def Let_def split: sum.splits prod.splits option.splits if_splits)

text \<open>
  C15. Build, publish, build: when a build for a relay has succeeded, every event of the first leg already has a
  verdict of that relay in the log, and a batch of all the events of the build, without a limit, has been published
  there to its end, whatever the verdicts, then no chain point is left without a verdict, and the next build for
  that relay is not refused.
\<close>

theorem build_publish_build:
  assumes "emitSeccertsBundle env state matrix snapshots opts clock db = (Inr res, db')"
    and "eo_targetRelay opts = Some relay" "\<forall>i \<in> leg1_ids opts. dhas (lg_publish_log db) (i, relay)"
    and "op_relay popts = relay" "op_limit popts = None"
    and "publishing (batch_of popts (er_events res) db') db' n st" "batch_done st"
  shows "unpublishedChainPointIds relay (ps_ledger st) = []
    \<and> fst (emitSeccertsBundle env' state' matrix' snapshots' opts' clock' (ps_ledger st)) \<noteq> Inl (Unpublished relay k)"
proof -
  have "unpublishedChainPointIds relay (ps_ledger st) = []"
    by (rule batch_opens [OF assms(6) batch_skip_known assms(7)])
      (use unpublished_events [OF assms(1-3)] assms(4,5) in \<open>simp_all add: batch_of_def publish_queue_def\<close>)
  then show ?thesis
    by (auto simp: emitSeccertsBundle_def chain_integrity_def Let_def split: sum.splits prod.splits option.splits if_splits)
qed

section \<open>What the seed forgets\<close>

text \<open>
  Whatever the ledger says of a cross-link of the first leg, replaced by the engine or retracted, a seed makes its row
  live again under an event of the first leg.
\<close>

lemma seed_revives:
  assumes "x \<in> set (seed_links (scan_leg1 (ee_lower env) events) events)"
  shows "\<exists>row. relation_at (fst (seedLeg1 env matrix (Some events) t1 t2 db))
      (relation_key_of (seed_relation env matrix (fst x) (snd x))) = Some row
    \<and> lu_state row = Live \<and> lu_eventId row \<in> ev_id ` set events"
proof -
  let ?sc = "scan_leg1 (ee_lower env) events"
  let ?rows = "map (\<lambda>x. seed_relation env matrix (fst x) (snd x)) (seed_links ?sc events)"
  let ?k = "relation_key_of (seed_relation env matrix (fst x) (snd x))"
  let ?db1 = "fst (upsertRoots t1 (map (seed_root env) (dvalues (sc_cards ?sc))) db)"
  have step: "seed_binding env matrix t2 = (\<lambda>x. upsert_relation t2 (seed_relation env matrix (fst x) (snd x)))"
    by (rule ext)+ (simp add: seed_binding_def case_prod_beta upsertRelations_def)
  have db': "fst (seedLeg1 env matrix (Some events) t1 t2 db) = fold (upsert_relation t2) ?rows ?db1"
    unfolding seedLeg1_def Let_def option.case fst_conv step by (simp add: fold_map comp_def)
  have k: "?k \<in> relation_key_of ` set ?rows"
    using assms by simp
  then obtain row where row: "relation_at (fold (upsert_relation t2) ?rows ?db1) ?k = Some row"
    using relations.lookup_dom [of t2 ?rows ?db1 ?k] by auto
  then show ?thesis
    unfolding db'
  proof (cases rule: relations.lookup_cases)
    case (stored r old)
    then obtain y where y: "y \<in> set (seed_links ?sc events)" "r = seed_relation env matrix (fst y) (snd y)"
      by auto
    then have "lu_state r = Live" "lu_eventId r \<in> ev_id ` set events"
      by (auto simp: seed_relation_def seed_links_def Let_def case_prod_beta split: option.splits)
    then show "\<exists>row. relation_at (fold (upsert_relation t2) ?rows ?db1) ?k = Some row \<and> lu_state row = Live
        \<and> lu_eventId row \<in> ev_id ` set events"
      using row stored(3) by (simp add: stored_relation_def)
  qed (use k in simp)
qed

section \<open>Instance\<close>

lemma runEngine_cong:
  assumes "lg_roots db = lg_roots db'" "lg_relations db = lg_relations db'"
  shows "runEngine env state db = runEngine env state db'"
proof -
  have roots: "live_roots state db = live_roots state db'" "known_sources db = known_sources db'"
    using assms(1) by (simp_all add: live_roots_def rootsByCorpus_def known_sources_def knownSourceIds_def fun_eq_iff)
  moreover have "ledger_relations state db = ledger_relations state db'"
    using assms(2) by (simp add: ledger_relations_def relationsByCorpus_def)
  moreover have "retire_corpus db = retire_corpus db'"
    by (intro ext) (simp only: retire_corpus_def roots(2))
  moreover have "initial_state state db = initial_state state db'"
    by (simp only: initial_state_def roots(1))
  ultimately show ?thesis
    by (simp only: runEngine_def run_state_def roots(1))
qed

definition sample_emit :: emit_options where
  "sample_emit = \<lparr>eo_targetRelay = Some (js ''wss''), eo_forceReset = True, eo_leg1 = None\<rparr>"

lemma build_publish_build_witness:
  "\<exists>res db' n st. emitSeccertsBundle sample_env sample_state [] [] sample_emit int sample_ledger = (Inr res, db')
     \<and> length (er_events res) = 1 \<and> publishing (batch_of (default_options (js ''wss'')) (er_events res) db') db' n st
     \<and> batch_done st \<and> unpublishedChainPointIds (js ''wss'') (ps_ledger st) = []"
proof -
  obtain r where all: "runEngine sample_env sample_state sample_ledger = Inr r \<and> map scrutinyEventType (rn_events r) = [Some Patch]
      \<and> rn_warnings r = []"
    using sample_patches ..
  define db1 where "db1 = (if unpublishedChainPointIds (js ''wss'') sample_ledger = [] then sample_ledger
      else fold (abandon_point 0 (js ''wss'')) (unpublishedChainPointIds (js ''wss'') sample_ledger) sample_ledger)"
  have "chain_integrity sample_emit (int 0) sample_ledger = Inr (db1, if unpublishedChainPointIds (js ''wss'') sample_ledger = []
      then None else Some (length (unpublishedChainPointIds (js ''wss'') sample_ledger)))"
    by (simp add: chain_integrity_def sample_emit_def db1_def abandonChainPoints_def Let_def)
  moreover have "lg_roots (fold (abandon_point now relay) ids d) = lg_roots d"
    "lg_relations (fold (abandon_point now relay) ids d) = lg_relations d" for now relay ids d
    by (induction ids arbitrary: d) (simp_all add: abandon_point_def)
  then have "runEngine sample_env sample_state db1 = Inr r"
    using all by (subst runEngine_cong [of db1 sample_ledger]) (simp_all add: db1_def)
  moreover have "seedLeg1 sample_env [] (eo_leg1 sample_emit) (int 1) (int 2) db1
      = (db1, \<lparr>sr_rootsSeeded = 0, sr_relationsSeeded = 0, sr_warnings = [Seed_skipped]\<rparr>)"
    by (simp add: seedLeg1_def sample_emit_def)
  ultimately obtain res db' where built: "emitSeccertsBundle sample_env sample_state [] [] sample_emit int sample_ledger = (Inr res, db')"
      "er_events res = rn_events r"
    by (simp add: emitSeccertsBundle_def)
  have one: "length (er_events res) = 1"
    using arg_cong [OF all [THEN conjunct2, THEN conjunct1], of length] built(2) by simp
  obtain n st where st: "publishing (batch_of (default_options (js ''wss'')) (er_events res) db') db' n st" "batch_done st"
    using batch_finishes [OF publishing.start batch_skip_known] by blast
  have "unpublishedChainPointIds (js ''wss'') (ps_ledger st) = []"
    using build_publish_build [OF built(1) _ _ _ _ st, of "js ''wss''"]
    by (simp add: sample_emit_def leg1_ids_def default_options_def)
  then show ?thesis
    using built(1) one st by blast
qed

end
