(* ===== verification/Gate.thy ===== *)
theory Gate
  imports Bundle Build
begin

text \<open>
  The gate of the mirror: \<open>packages/mirror/src/gate/verify.ts\<close> (one event), \<open>selfConsume.ts\<close> (rule 2a), \<open>index.ts\<close>
  (a batch) and \<open>scorer.ts\<close> (the verdict). Events are typed, as the event record of the core package is, so the
  findings on values that are no events have no counterpart; a finding keeps its code. The hash and the signature
  check of the nostr library and \<open>toLowerCase\<close> are arguments (\<open>gate_env\<close>).
\<close>

section \<open>One event\<close>

record gate_env =
  gv_hash :: "nostr_event \<Rightarrow> jsstr option"
  gv_verify :: "nostr_event \<Rightarrow> bool"
  gv_lower :: "jsstr \<Rightarrow> jsstr"

datatype gate_code =
    SHAPE | KIND | KIND_5_REFS | ID_MISMATCH | SIG_INVALID | TAG_1 | TAG_2 | TAG_3 | IX_2 | ITAG_FORMAT | ITAG_DUP
  | K_COVER | K_FORMAT | CONTENT_EMPTY | BD_E_ROOT | BD_E_LINK | BD_E_ID | REFS_LINE | REFS_TARGET
  | IMETA | IMETA_X | IMETA_SIZE | IMETA_URL | PLACEHOLDER_URL | SELFCONSUME_CARD | PROBE_VERDICT | PROBE_NIPS

record gate_error =
  ge_event :: "jsstr option"
  ge_code :: gate_code

definition hex_text :: "nat \<Rightarrow> jsstr \<Rightarrow> bool" where
  "hex_text n s \<longleftrightarrow> length s = n \<and> list_all is_lower_hex s"

definition GATE_TYPE_TAGS :: "jsstr list" where
  "GATE_TYPE_TAGS = [js ''scrutiny-product'', js ''scrutiny-metadata'', js ''scrutiny-binding'', js ''scrutiny-patch'']"

definition MAX_I_TAGS :: nat where
  "MAX_I_TAGS = 64"

definition shape_codes :: "nostr_event \<Rightarrow> gate_code list" where
  "shape_codes event =
     (if \<not> hex_text 64 (ev_id event) then [SHAPE] else [])
     @ (if \<not> hex_text 64 (ev_pubkey event) then [SHAPE] else [])
     @ (if \<not> hex_text 128 (ev_sig event) then [SHAPE] else [])"

definition kind_codes :: "nostr_event \<Rightarrow> gate_code list" where
  "kind_codes event =
     (if ev_kind event = 5 then (if tagValues event (js ''e'') = [] then [KIND_5_REFS] else [])
      else if ev_kind event \<noteq> 1 then [KIND] else [])"

definition id_codes :: "gate_env \<Rightarrow> nostr_event \<Rightarrow> gate_code list" where
  "id_codes g event =
     (case gv_hash g event of
        None \<Rightarrow> [ID_MISMATCH]
      | Some i \<Rightarrow> if i \<noteq> ev_id event then [ID_MISMATCH] else if \<not> gv_verify g event then [SIG_INVALID] else [])"

definition type_tags :: "nostr_event \<Rightarrow> jsstr list" where
  "type_tags event = filter (\<lambda>v. v \<in> set GATE_TYPE_TAGS) (tagValues event (js ''t''))"

definition eventTypeOf :: "nostr_event \<Rightarrow> jsstr option" where
  "eventTypeOf event = (case type_tags event of [v] \<Rightarrow> Some v | _ \<Rightarrow> None)"

definition t_codes :: "nostr_event \<Rightarrow> gate_code list" where
  "t_codes event =
     (let ts = tagValues event (js ''t'') in
      (if length (filter (\<lambda>v. v = js ''scrutiny-fabric'') ts) \<noteq> 1 then [TAG_1] else [])
      @ (if length (filter (\<lambda>v. v = js ''scrutiny-v0.8.1'') ts) \<noteq> 1 then [TAG_2] else [])
      @ (if ev_kind event = 1 \<and> length (type_tags event) \<noteq> 1 then [TAG_3] else []))"

text \<open>\<open>/^[a-z][a-z0-9-]*$/\<close> and \<open>/^[a-z][a-z0-9-]*:\S+$/\<close>.\<close>

definition is_letter :: "u16 \<Rightarrow> bool" where
  "is_letter c \<longleftrightarrow> 97 \<le> c \<and> c \<le> 122"

definition kebab_unit :: "u16 \<Rightarrow> bool" where
  "kebab_unit c \<longleftrightarrow> is_letter c \<or> is_digit c \<or> c = 45"

definition KEBAB :: "jsstr \<Rightarrow> bool" where
  "KEBAB v \<longleftrightarrow> (case v of [] \<Rightarrow> False | c # s \<Rightarrow> is_letter c \<and> list_all kebab_unit s)"

definition ITAG_VALUE :: "jsstr \<Rightarrow> bool" where
  "ITAG_VALUE v \<longleftrightarrow>
     KEBAB (takeWhile (\<lambda>c. c \<noteq> 58) v)
     \<and> (case dropWhile (\<lambda>c. c \<noteq> 58) v of [] \<Rightarrow> False | _ # s \<Rightarrow> s \<noteq> [] \<and> list_all (\<lambda>c. \<not> is_space c) s)"

fun duplicate_codes :: "jsstr list \<Rightarrow> jsstr list \<Rightarrow> gate_code list" where
  "duplicate_codes seen [] = []"
| "duplicate_codes seen (v # vs) = (if v \<in> set seen then [ITAG_DUP] else []) @ duplicate_codes (v # seen) vs"

definition i_codes :: "nostr_event \<Rightarrow> gate_code list" where
  "i_codes event =
     (let ivals = tagValues event (js ''i''); kvals = set_of (tagValues event (js ''k''));
          prefixes = set_of (map (takeWhile (\<lambda>c. c \<noteq> 58)) (filter ITAG_VALUE ivals))
      in (if MAX_I_TAGS < length ivals then [IX_2] else [])
         @ map (\<lambda>_. ITAG_FORMAT) (filter (\<lambda>v. \<not> ITAG_VALUE v) ivals)
         @ duplicate_codes [] ivals
         @ map (\<lambda>_. K_COVER) (filter (\<lambda>p. p \<notin> set kvals) prefixes)
         @ map (\<lambda>_. K_FORMAT) (filter (\<lambda>k. \<not> KEBAB k) kvals))"

definition content_codes :: "nostr_event \<Rightarrow> gate_code list" where
  "content_codes event = (if trim (ev_content event) = [] then [CONTENT_EMPTY] else [])"

text \<open>
  \<open>/^Refs:\s+root ([0-9a-f]{64}) link ([0-9a-f]{64})$/m\<close>. The blanks after the colon may be line ends, and what
  follows them is no blank, so there is one way to match from a given start.
\<close>

definition refs_at :: "jsstr \<Rightarrow> (jsstr \<times> jsstr) option" where
  "refs_at s =
     (if \<not> starts_with s (js ''Refs:'') then None
      else
        let blanks = takeWhile is_space (drop 5 s); r = dropWhile is_space (drop 5 s) in
        if blanks = [] \<or> \<not> starts_with r (js ''root '') then None
        else
          let a = take 64 (drop 5 r); r = drop 69 r in
          if \<not> hex_text 64 a \<or> \<not> starts_with r (js '' link '') then None
          else
            let b = take 64 (drop 6 r); r = drop 70 r in
            if \<not> hex_text 64 b then None
            else if r = [] \<or> is_line_terminator (hd r) then Some (a, b) else None)"

fun refs_search :: "bool \<Rightarrow> jsstr \<Rightarrow> (jsstr \<times> jsstr) option" where
  "refs_search at_start [] = None"
| "refs_search at_start (c # s) =
     (if at_start \<and> refs_at (c # s) \<noteq> None then refs_at (c # s) else refs_search (is_line_terminator c) s)"

definition binding_codes :: "nostr_event \<Rightarrow> gate_code list" where
  "binding_codes event =
     (if eventTypeOf event \<noteq> Some (js ''scrutiny-binding'') then []
      else
        let tags = filter (\<lambda>t. nth_opt t 0 = Some (js ''e'')) (ev_tags event);
            roots = filter (\<lambda>t. nth_opt t 3 = Some (js ''root'')) tags;
            links = filter (\<lambda>t. nth_opt t 3 = Some (js ''link'')) tags
        in (if length roots \<noteq> 1 then [BD_E_ROOT] else [])
           @ (if length links \<noteq> 1 then [BD_E_LINK] else [])
           @ map (\<lambda>_. BD_E_ID) (filter (\<lambda>t. case nth_opt t 1 of None \<Rightarrow> True | Some i \<Rightarrow> \<not> hex_text 64 i) tags)
           @ (case refs_search True (ev_content event) of
                None \<Rightarrow> [REFS_LINE]
              | Some (a, b) \<Rightarrow>
                  (case roots of [t] \<Rightarrow> if nth_opt t 1 \<noteq> Some a then [REFS_TARGET] else [] | _ \<Rightarrow> [])
                  @ (case links of [t] \<Rightarrow> if nth_opt t 1 \<noteq> Some b then [REFS_TARGET] else [] | _ \<Rightarrow> [])))"

definition imeta_field :: "jsstr \<Rightarrow> jsstr dict \<Rightarrow> jsstr dict" where
  "imeta_field p kvs =
     (case index_of 32 p of None \<Rightarrow> kvs | Some n \<Rightarrow> if 0 < n then dset (take n p) (drop (n + 1) p) kvs else kvs)"

text \<open>A field that is missing and one that is empty are alike to the checks.\<close>

definition imeta_codes_of :: "jsstr list \<Rightarrow> gate_code list" where
  "imeta_codes_of tag =
     (let kvs = fold imeta_field (drop 1 tag) [];
          get = (\<lambda>k. case dget kvs (js k) of None \<Rightarrow> [] | Some v \<Rightarrow> v);
          url = get ''url''; x = get ''x''; size = get ''size'';
          rest = (if starts_with url (js ''https://'') then drop 8 url
                  else if starts_with url (js ''http://'') then drop 7 url else [])
      in (if url = [] \<or> get ''m'' = [] \<or> x = [] \<or> size = [] then [IMETA] else [])
         @ (if x \<noteq> [] \<and> \<not> hex_text 64 x then [IMETA_X] else [])
         @ (if size \<noteq> [] \<and> \<not> list_all is_digit size then [IMETA_SIZE] else [])
         @ (if url \<noteq> [] \<and> \<not> (rest \<noteq> [] \<and> list_all (\<lambda>c. \<not> is_space c) rest) then [IMETA_URL] else []))"

definition imeta_codes :: "nostr_event \<Rightarrow> gate_code list" where
  "imeta_codes event = concat (map imeta_codes_of (filter (\<lambda>t. nth_opt t 0 = Some (js ''imeta'')) (ev_tags event)))"

text \<open>\<open>/\.example\b|\bexample\.(?:org|com|net|edu)\b/i\<close>, with the unit before the place that is looked at.\<close>

definition is_word :: "u16 \<Rightarrow> bool" where
  "is_word c \<longleftrightarrow> is_letter (to_lower_unit c) \<or> is_digit c \<or> c = 95"

definition ends_word :: "jsstr \<Rightarrow> jsstr \<Rightarrow> bool" where
  "ends_word p s \<longleftrightarrow>
     starts_with (to_lower s) p \<and> (case drop (length p) s of [] \<Rightarrow> True | c # _ \<Rightarrow> \<not> is_word c)"

fun example_host :: "u16 option \<Rightarrow> jsstr \<Rightarrow> bool" where
  "example_host prev [] \<longleftrightarrow> False"
| "example_host prev (c # s) \<longleftrightarrow>
     ends_word (js ''.example'') (c # s)
     \<or> (case prev of None \<Rightarrow> True | Some d \<Rightarrow> \<not> is_word d)
       \<and> list_ex (\<lambda>p. ends_word p (c # s)) [js ''example.org'', js ''example.com'', js ''example.net'', js ''example.edu'']
     \<or> example_host (Some c) s"

definition url_codes :: "gate_env \<Rightarrow> nostr_event \<Rightarrow> gate_code list" where
  "url_codes g event =
     (let haystack = join_with 10 (ev_content event # concat (ev_tags event));
          scanned = (eventTypeOf event \<in> {Some (js ''scrutiny-product''), Some (js ''scrutiny-metadata'')})
      in if scanned \<and> (has_substring (gv_lower g haystack) [0xAB] \<or> has_substring (gv_lower g haystack) (js ''placeholder''))
            \<or> example_host None haystack
         then [PLACEHOLDER_URL] else [])"

definition verify_codes :: "gate_env \<Rightarrow> nostr_event \<Rightarrow> gate_code list" where
  "verify_codes g event =
     (if shape_codes event \<noteq> [] then shape_codes event
      else kind_codes event @ id_codes g event @ t_codes event @ i_codes event @ content_codes event
        @ binding_codes event @ imeta_codes event @ url_codes g event)"

definition verifyStoredEvent :: "gate_env \<Rightarrow> nostr_event \<Rightarrow> jsstr option \<Rightarrow> gate_error list" where
  "verifyStoredEvent g event label =
     map (\<lambda>c. \<lparr>ge_event = Some (case label of None \<Rightarrow> ev_id event | Some l \<Rightarrow> l), ge_code = c\<rparr>) (verify_codes g event)"

section \<open>Rule 2a once more\<close>

text \<open>The prose, the first card, and the number of further ones.\<close>

fun consume_lines :: "jsstr list \<Rightarrow> jsstr list \<Rightarrow> jsstr option \<Rightarrow> nat \<Rightarrow> jsstr list \<times> jsstr option \<times> nat" where
  "consume_lines [] prose rcard n = (prose, rcard, n)"
| "consume_lines (l # ls) prose rcard n =
     (if \<not> is_card_line l then consume_lines ls (prose @ [l]) rcard n
      else if rcard \<noteq> None then consume_lines ls prose rcard (n + 1)
      else consume_lines ls prose (Some (drop (length RECORD_CARD_LABEL) (trim_start l))) n)"

text \<open>\<open>selfConsume.ts\<close> has its own copies of the emitter's helpers; they are translated on their own.\<close>

definition COHORT_PREFIXES :: "jsstr list" where
  "COHORT_PREFIXES = [js ''jcver-lte'']"

definition gate_isExemptFact :: "jsstr \<Rightarrow> jsstr option \<Rightarrow> bool" where
  "gate_isExemptFact v pre =
     (if 0xAB \<in> set v then True
      else if 60 \<le> length v \<and> list_all is_lower_hex v then True
      else if takeWhile is_digit (rev v) \<noteq> [] \<and> starts_with (dropWhile is_digit (rev v)) [cu CHR ''@''] then True
      else (case pre of None \<Rightarrow> False | Some p \<Rightarrow> p \<in> set COHORT_PREFIXES))"

fun gate_collectStrings :: "json \<Rightarrow> jsstr list \<Rightarrow> jsstr list" where
  "gate_collectStrings (JString s) out = out @ [s]"
| "gate_collectStrings (JArray vs) out = fold gate_collectStrings vs out"
| "gate_collectStrings (JObject kvs) out = fold (\<lambda>(k, v). gate_collectStrings v) kvs out"
| "gate_collectStrings _ out = out"

definition gate_facts :: "json \<Rightarrow> jsstr list list \<Rightarrow> (jsstr \<times> jsstr option) list" where
  "gate_facts rcard tags =
     (if rcard = JNull then [] else map (\<lambda>s. (s, None)) (filter (\<lambda>s. 4 \<le> length s) (gate_collectStrings rcard [])))
     @ concat (map (\<lambda>tag.
         if nth_opt tag 0 \<noteq> Some (js ''i'') then []
         else (case nth_opt tag 1 of
                 None \<Rightarrow> []
               | Some v \<Rightarrow>
                   (case index_of 58 v of
                      None \<Rightarrow> []
                    | Some n \<Rightarrow> if n = 0 then [] else [(drop (n + 1) v, Some (take n v))]))) tags)"

definition gate_loose :: "jsstr \<Rightarrow> jsstr" where
  "gate_loose s = filter (\<lambda>c. 97 \<le> c \<and> c \<le> 122 \<or> is_digit c) s"

text \<open>The loop over the facts, with what it has reported; the label in its key is the same for all facts of an event.\<close>

definition consume_fact :: "gate_env \<Rightarrow> jsstr \<Rightarrow> jsstr \<times> jsstr option \<Rightarrow> jsstr list \<Rightarrow> jsstr list" where
  "consume_fact g prose f lost =
     (case f of (datum, pre) \<Rightarrow>
        let haystack = gv_lower g prose; needle = gv_lower g datum in
        if gate_isExemptFact datum pre then lost
        else if has_substring haystack needle then lost
        else if gate_loose needle \<noteq> [] \<and> has_substring (gate_loose haystack) (gate_loose needle) then lost
        else if datum \<in> set lost then lost
        else lost @ [datum])"

definition selfConsume :: "gate_env \<Rightarrow> nostr_event \<Rightarrow> jsstr list \<times> gate_code list" where
  "selfConsume g event =
     (case consume_lines (content_lines (ev_content event)) [] None 0 of
        (prose, raw, n) \<Rightarrow>
          let parsed = (case raw of None \<Rightarrow> Some JNull | Some t \<Rightarrow> json_parse t);
              rcard = (case parsed of None \<Rightarrow> JNull | Some v \<Rightarrow> v)
          in (fold (consume_fact g (join_with 10 prose)) (gate_facts rcard (ev_tags event)) [],
              replicate n SELFCONSUME_CARD @ (if parsed = None then [SELFCONSUME_CARD] else [])))"

section \<open>A batch and its verdict\<close>

record gate_report =
  gr_ok :: bool
  gr_eventCount :: nat
  gr_errors :: "gate_error list"
  gr_lostFacts :: "(jsstr \<times> jsstr) list"

definition gateEvents :: "gate_env \<Rightarrow> nostr_event list \<Rightarrow> nat \<times> gate_error list \<times> (jsstr \<times> jsstr) list" where
  "gateEvents g events =
     (length events,
      concat (map (\<lambda>e. verifyStoredEvent g e (Some (ev_id e))
        @ map (\<lambda>c. \<lparr>ge_event = Some (ev_id e), ge_code = c\<rparr>) (snd (selfConsume g e))) events),
      concat (map (\<lambda>e. map (\<lambda>f. (ev_id e, f)) (fst (selfConsume g e))) events))"

definition gateReport :: "gate_error list \<Rightarrow> (jsstr \<times> jsstr) list \<Rightarrow> nat \<Rightarrow> gate_report" where
  "gateReport errors lost n =
     \<lparr>gr_ok = (errors = [] \<and> lost = []), gr_eventCount = n, gr_errors = errors, gr_lostFacts = lost\<rparr>"

record probe_report =
  pr_verdict :: "jsstr option"
  pr_supported_nips :: "int list option"

definition REQUIRED_NIPS :: "int list" where
  "REQUIRED_NIPS = [1, 42]"

definition PUBLISH_READY_VERDICTS :: "jsstr list" where
  "PUBLISH_READY_VERDICTS = [js ''ok'', js ''pass'', js ''reachable'', js ''supported'']"

definition probe_codes :: "gate_env \<Rightarrow> probe_report option \<Rightarrow> gate_code list" where
  "probe_codes g probe =
     (case probe of
        None \<Rightarrow> []
      | Some p \<Rightarrow>
          (case pr_verdict p of
             None \<Rightarrow> [] | Some v \<Rightarrow> if gv_lower g v \<notin> set PUBLISH_READY_VERDICTS then [PROBE_VERDICT] else [])
          @ (case pr_supported_nips p of
               None \<Rightarrow> [] | Some nips \<Rightarrow> if \<exists>n \<in> set REQUIRED_NIPS. n \<notin> set nips then [PROBE_NIPS] else []))"

record gate_score =
  gs_ok :: bool
  gs_exitCode :: int
  gs_probeErrors :: "gate_code list"

definition scoreGate :: "gate_env \<Rightarrow> gate_report \<Rightarrow> probe_report option \<Rightarrow> gate_score" where
  "scoreGate g report probe =
     (let ok = (gr_errors report = [] \<and> gr_lostFacts report = [] \<and> probe_codes g probe = []) in
      \<lparr>gs_ok = ok, gs_exitCode = (if ok then 0 else 1), gs_probeErrors = probe_codes g probe\<rparr>)"

definition gate_batch :: "gate_env \<Rightarrow> nostr_event list \<Rightarrow> probe_report option \<Rightarrow> gate_report \<times> gate_score" where
  "gate_batch g events probe =
     (case gateEvents g events of
        (n, errors, lost) \<Rightarrow> let report = gateReport errors lost n in (report, scoreGate g report probe))"

section \<open>The gate and the emitter agree on rule 2a\<close>

lemma consume_count: "n \<le> snd (snd (consume_lines ls prose c n))"
proof (induction ls arbitrary: prose c n)
  case (Cons l ls)
  then show ?case
    using Suc_leD by (simp; blast)
qed simp

lemma consume_split:
  "split_lines ls prose c =
     (let r = consume_lines ls prose c n in if snd (snd r) = n then Inr (fst r, fst (snd r)) else Inl Two_cards)"
proof (induction ls arbitrary: prose c)
  case (Cons l ls)
  have "snd (snd (consume_lines ls prose c (Suc n))) \<noteq> n" for prose c
    using consume_count [of "Suc n" ls prose c] by simp
  then show ?case
    using Cons by (simp add: Let_def)
qed (simp add: Let_def)

text \<open>The copies agree.\<close>

lemma exempt_agrees: "gate_isExemptFact v pre = isExemptFact v pre"
  by (auto simp: gate_isExemptFact_def isExemptFact_def LONG_HEX_def TYPE_STRING_def COHORT_PREFIXES_def split: option.split)

lemma collect_agrees: "gate_collectStrings v out = out @ collectStrings v"
proof (induction v out rule: gate_collectStrings.induct)
  case (2 vs out)
  have "fold gate_collectStrings ws o' = o' @ concat (map collectStrings ws)" if "set ws \<subseteq> set vs" for ws o'
    using that 2 by (induction ws arbitrary: o') auto
  then show ?case
    by simp
next
  case (3 kvs out)
  have "fold (\<lambda>(k, v). gate_collectStrings v) ws o' = o' @ concat (map (\<lambda>(k, v). collectStrings v) ws)"
    if "set ws \<subseteq> set kvs" for ws o'
    using that 3 by (induction ws arbitrary: o') fastforce+
  then show ?case
    by simp
qed simp_all

lemma concat_parts: "concat (map f (concat (map h xs))) = concat (map (\<lambda>x. concat (map f (h x))) xs)"
  by (induction xs) simp_all

lemma facts_agree: "gate_facts rcard tags = card_facts rcard @ tag_facts tags"
proof -
  let ?f = "\<lambda>v. case colon_split v of None \<Rightarrow> [] | Some (p, f) \<Rightarrow> [(f, Some p)]"
  have pairs: "(case index_of 58 v of None \<Rightarrow> [] | Some n \<Rightarrow> if n = 0 then [] else [(drop (n + 1) v, Some (take n v))]) = ?f v"
    for v
    by (simp add: colon_split_def split: option.split)
  have tag: "(if nth_opt tag 0 \<noteq> Some (js ''i'') then []
         else (case nth_opt tag 1 of None \<Rightarrow> [] | Some v \<Rightarrow> ?f v)) = concat (map ?f (tag_value (js ''i'') tag))" for tag
  proof (cases "\<exists>n v rest. tag = n # v # rest")
    case True
    then show ?thesis
      by (auto simp: tag_value_def)
  next
    case False
    then have "tag = [] \<or> (\<exists>n. tag = [n])"
      by (metis list.exhaust)
    then show ?thesis
      by (auto simp: tag_value_def)
  qed
  show ?thesis
    unfolding gate_facts_def pairs tag tag_facts_def iValues_def concat_parts by (simp add: card_facts_def collect_agrees)
qed

lemma unseen_Nil: "unseen [] vs = [] \<longleftrightarrow> vs = []"
  by (cases vs) simp_all

lemma unseen_cong: "set seen = set seen' \<Longrightarrow> unseen seen vs = unseen seen' vs"
proof (induction vs arbitrary: seen seen')
  case (Cons v vs)
  have "unseen (v # seen) vs = unseen (v # seen') vs" "unseen seen vs = unseen seen' vs"
    by (rule Cons.IH, simp add: Cons.prems)+
  then show ?case
    by (simp add: Cons.prems)
qed simp

lemma consume_agrees:
  "fold (consume_fact g prose) facts lost = lost @ unseen lost (map fst (filter (\<lambda>(datum, pre).
     \<not> isExemptFact datum pre \<and> \<not> in_prose (gv_lower g) prose datum) facts))"
proof (induction facts arbitrary: lost)
  case (Cons f facts)
  obtain datum pre where f: "f = (datum, pre)"
    by (cases f)
  have loose: "gate_loose = loose"
    by (rule ext) (simp add: gate_loose_def loose_def disj_commute)
  have "consume_fact g prose f lost =
      (if isExemptFact datum pre \<or> in_prose (gv_lower g) prose datum \<or> datum \<in> set lost then lost else lost @ [datum])"
    by (simp add: f consume_fact_def Let_def exempt_agrees in_prose_def loose)
  moreover have "unseen (lost @ [datum]) vs = unseen (datum # lost) vs" for vs
    by (rule unseen_cong) simp
  ultimately show ?case
    by (simp add: Cons.IH f)
qed simp

text \<open>
  C19. The gate holds an event to rule 2a exactly as the emitter does: its self-consume check, with its own copies of the
  emitter's helpers, finds nothing, no lost fact and no malformed card, in the events the emitter lets through and in
  no other.
\<close>

theorem rule2a_agrees:
  "selfConsume g e = ([], []) \<longleftrightarrow> assertRule2a (gv_lower g) (ev_content e) (ev_tags e) = Inr ()"
proof -
  obtain prose raw n where r: "consume_lines (content_lines (ev_content e)) [] None 0 = (prose, raw, n)"
    by (metis prod_cases3)
  have split: "split_lines (content_lines (ev_content e)) [] None = (if n = 0 then Inr (prose, raw) else Inl Two_cards)"
    using consume_split [of "content_lines (ev_content e)" "[]" None 0] by (simp add: r)
  show ?thesis
    unfolding selfConsume_def assertRule2a_def lostFacts_def splitContent_def split
    by (simp add: r Let_def facts_agree consume_agrees unseen_Nil split: option.split)
qed

section \<open>Every event of a run comes from a builder\<close>

text \<open>
  What holds of everything the builders return on the roots and relations of a plan, for bindings between ids of a set
  \<open>H\<close> and deletions whose content is not blank, holds of every event of a run, when the ids of the events and of the
  ledger are in \<open>H\<close>.
\<close>

definition run_built :: "engine_env \<Rightarrow> desired_state \<Rightarrow> (jsstr \<Rightarrow> bool) \<Rightarrow> (nostr_event \<Rightarrow> bool) \<Rightarrow> bool" where
  "run_built env state H Q \<longleftrightarrow>
     (\<forall>root \<in> set (ds_roots state). \<forall>c i t e. buildRootEvent env root c i t = Inr e \<longrightarrow> Q e)
     \<and> (\<forall>root \<in> set (ds_roots state). \<forall>a t d n e. buildPatchEvent env root a t d n = Inr e \<longrightarrow> Q e)
     \<and> (\<forall>rel \<in> set (ds_relations state). \<forall>a b t e. H a \<and> H b \<and> buildRelationBinding env rel a b t = Inr e \<longrightarrow> Q e)
     \<and> (\<forall>t c n. \<not> list_all is_space c \<longrightarrow> Q (buildDeletion env t c n))
     \<and> (\<forall>e. Q e \<longrightarrow> H (ev_id e))"

lemma place_only: "set (assemble (place i e st)) \<subseteq> insert e (set (assemble st))"
proof (cases "\<exists>k. i = Some k \<and> k < length (es_reRootEntries st)")
  case True
  then obtain k where k: "i = Some k" "k < length (es_reRootEntries st)"
    by blast
  let ?xs = "es_reRootEntries st"
  let ?f = "\<lambda>en. insert (re_event en) (set (re_bindings en))"
  let ?new = "(?xs ! k)\<lparr>re_bindings := re_bindings (?xs ! k) @ [e]\<rparr>"
  have "?f en \<subseteq> insert e (\<Union>x \<in> set ?xs. ?f x)" if en: "en \<in> set (?xs[k := ?new])" for en
  proof -
    have "en \<in> insert ?new (set ?xs)"
      using en set_update_subset_insert [of ?xs k ?new] by (rule rev_subsetD)
    then show ?thesis
    proof
      assume new: "en = ?new"
      have "?f (?xs ! k) \<subseteq> (\<Union>x \<in> set ?xs. ?f x)"
        using k(2) by (intro UN_upper nth_mem)
      moreover have "?f en = insert e (?f (?xs ! k))"
        by (simp add: new insert_commute)
      ultimately show ?thesis
        by (simp only: insert_mono)
    next
      assume "en \<in> set ?xs"
      then have "?f en \<subseteq> (\<Union>x \<in> set ?xs. ?f x)"
        by (rule UN_upper)
      then show ?thesis
        by (rule subset_insertI2)
    qed
  qed
  then show ?thesis
    using k by (auto simp: set_assemble place_def)
next
  case False
  then show ?thesis
    by (auto simp: set_assemble place_def split: option.splits)
qed

definition all_events :: "(nostr_event \<Rightarrow> bool) \<Rightarrow> engine_state \<Rightarrow> bool" where
  "all_events Q st \<longleftrightarrow> (\<forall>e \<in> set (assemble st). Q e)"

lemma all_frame [simp]:
  "all_events Q (warn w st) = all_events Q st" "all_events Q (count f st) = all_events Q st" "all_events Q (tick st) = all_events Q st"
  "all_events Q (push_row u st) = all_events Q st" "all_events Q (saw rel st) = all_events Q st"
  "all_events Q (st\<lparr>es_relationRows := rr\<rparr>) = all_events Q st" "all_events Q (st\<lparr>es_rootEventIdByKey := k3\<rparr>) = all_events Q st"
  "all_events Q (st\<lparr>es_seenRootKeys := k1\<rparr>) = all_events Q st"
  "all_events Q (pushDeletion env t c st) \<longleftrightarrow> all_events Q st \<and> Q (buildDeletion env t c (ee_clock env (es_tick st)))"
  unfolding all_events_def assemble_frame by auto

lemma all_place: "Q e \<Longrightarrow> all_events Q st \<Longrightarrow> all_events Q (place i e st)"
  using place_only [of i e st] unfolding all_events_def by blast

definition known_ids :: "(jsstr \<Rightarrow> bool) \<Rightarrow> engine_state \<Rightarrow> bool" where
  "known_ids H st \<longleftrightarrow> (\<forall>k i. dget (es_rootEventIdByKey st) k = Some i \<longrightarrow> H i)"

lemma keys_frame [simp]:
  "es_rootEventIdByKey (warn w st) = es_rootEventIdByKey st" "es_rootEventIdByKey (count f st) = es_rootEventIdByKey st"
  "es_rootEventIdByKey (tick st) = es_rootEventIdByKey st" "es_rootEventIdByKey (push_row u st) = es_rootEventIdByKey st"
  "es_rootEventIdByKey (pushDeletion env t c st) = es_rootEventIdByKey st"
  "es_rootEventIdByKey (place i e st) = es_rootEventIdByKey st"
  by (simp_all add: warn_def count_def tick_def push_row_def pushDeletion_def place_def Let_def split: option.split)

lemma known_frame [simp]:
  "known_ids H (warn w st) = known_ids H st" "known_ids H (count f st) = known_ids H st" "known_ids H (tick st) = known_ids H st"
  "known_ids H (push_row u st) = known_ids H st" "known_ids H (saw rel st) = known_ids H st"
  "known_ids H (pushDeletion env t c st) = known_ids H st" "known_ids H (place i e st) = known_ids H st"
  "known_ids H (st\<lparr>es_relationRows := rr\<rparr>) = known_ids H st" "known_ids H (st\<lparr>es_seenRootKeys := k1\<rparr>) = known_ids H st"
  by (simp_all add: known_ids_def)

abbreviation sound_run :: "(jsstr \<Rightarrow> bool) \<Rightarrow> (nostr_event \<Rightarrow> bool) \<Rightarrow> engine_state \<Rightarrow> bool" where
  "sound_run H Q st \<equiv> all_events Q st \<and> known_ids H st"

lemma sound_new_root:
  assumes "run_built env state H Q" "root \<in> set (ds_roots state)" "new_root env root st = Inr st'" "sound_run H Q st"
  shows "sound_run H Q st'"
proof -
  obtain event where e: "buildRootEvent env root (dr_content root) None (ee_clock env (es_tick st)) = Inr event"
    "st' = count (\<lambda>c. c\<lparr>ct_newRoots := ct_newRoots c + 1\<rparr>)
      (push_row (emitted_row env root (ev_id event) (ev_id event) (dr_content root))
         (tick (st\<lparr>es_newRootEvents := es_newRootEvents st @ [(root, event)],
                  es_rootEventIdByKey := dset (desired_key root) (ev_id event) (es_rootEventIdByKey st)\<rparr>)))"
    using assms(3) by (auto simp: new_root_def split: sum.splits)
  then have "Q event" "H (ev_id event)"
    using assms(1,2) by (auto simp: run_built_def)
  then show ?thesis
    using assms(4) by (simp add: e(2)) (auto simp: all_events_def set_assemble known_ids_def)
qed

lemma sound_patch:
  assumes "run_built env state H Q" "root \<in> set (ds_roots state)" "patch_root env root row st = Inr st'" "sound_run H Q st"
  shows "sound_run H Q st'"
proof (cases "rf_tipEventId row \<in> set (es_patchParents st)")
  case True
  then show ?thesis
    using assms(3,4) by (auto simp: patch_root_def)
next
  case False
  obtain diff event where e: "buildPatchEvent env root (rf_rootEventId row) (rf_tipEventId row) diff (ee_clock env (es_tick st)) = Inr event"
    "st' = count (\<lambda>c. c\<lparr>ct_patches := ct_patches c + 1\<rparr>)
      (push_row (emitted_row env root (rf_rootEventId row) (ev_id event) (effective_content root row))
        (tick (st\<lparr>es_patchEvents := es_patchEvents st @ [event],
                 es_patchParents := sadd (rf_tipEventId row) (es_patchParents st)\<rparr>)))"
    using assms(3) False by (auto simp: patch_root_def Let_def split: sum.splits if_splits)
  then have "Q event"
    using assms(1,2) unfolding run_built_def by blast
  then show ?thesis
    using assms(4) by (simp add: e(2)) (auto simp: all_events_def set_assemble known_ids_def)
qed

lemma sound_reroot:
  assumes "run_built env state H Q" "root \<in> set (ds_roots state)" "re_root env root row st = Inr st'" "sound_run H Q st"
  shows "sound_run H Q st'"
  using assms(3)
proof (cases rule: re_rootE)
  case (rerooted s content event c)
  have "Q event" "Q (buildDeletion env t c n)" "H (ev_id event)" for t n
    using assms(1,2) rerooted(2,4) by (auto simp: run_built_def)
  moreover have "sound_run H Q s"
    using rerooted(1) assms(4) by auto
  ultimately show ?thesis
    by (simp add: rerooted(3)) (auto simp: all_events_def set_assemble known_ids_def)
qed (use assms(4) in simp)

lemma sound_binding:
  assumes "run_built env state H Q" "rel \<in> set (ds_relations state)" "emit_binding env rel a b i f st = Inr st'"
    and "sound_run H Q st" "H a" "H b"
  shows "sound_run H Q st'"
proof -
  obtain event where e: "buildRelationBinding env rel a b (ee_clock env (es_tick st)) = Inr event"
    "st' = count f ((place i event (tick st))\<lparr>es_relationRows :=
      es_relationRows (place i event (tick st)) @ [relation_upsert_of rel (ev_id event)]\<rparr>)"
    using assms(3) by (auto simp: emit_binding_def Let_def split: sum.splits)
  then have "Q event"
    using assms(1,2,5,6) unfolding run_built_def by blast
  then show ?thesis
    using assms(4) by (simp add: e(2) all_place)
qed

definition ledger_ids :: "(jsstr \<Rightarrow> bool) \<Rightarrow> ledger \<Rightarrow> bool" where
  "ledger_ids H db \<longleftrightarrow> (\<forall>c. \<forall>row \<in> set (rootsByCorpus c db). H (rf_rootEventId row))"

lemma initial_ids:
  assumes "ledger_ids H db"
  shows "known_ids H (initial_state state db)"
proof -
  have loaded: "H i" if "dget (fold (\<lambda>row d. dset (row_key row) (rf_rootEventId row) d) rows d) k = Some i"
    "\<forall>row \<in> set rows. H (rf_rootEventId row)" "\<forall>k i. dget d k = Some i \<longrightarrow> H i" for rows d k i
    using that
  proof (induction rows arbitrary: d)
    case (Cons row rows)
    show ?case
      by (rule Cons.IH [of "dset (row_key row) (rf_rootEventId row) d"]) (use Cons.prems in auto)
  qed simp
  have stored: "H (rf_rootEventId row)" if row: "row \<in> set (concat (map dvalues (dvalues (live_roots state db))))" for row
  proof -
    obtain rows where rows: "rows \<in> set (dvalues (live_roots state db))" "row \<in> set (dvalues rows)"
      using row by auto
    then obtain c where "rows = map_by row_key (rootsByCorpus c db)"
      by (auto simp: live_roots_def)
    then have "row \<in> set (rootsByCorpus c db)"
      using map_by_values rows(2) by metis
    then show ?thesis
      using assms by (simp add: ledger_ids_def)
  qed
  show ?thesis
    unfolding known_ids_def
  proof (intro allI impI)
    fix k i assume "dget (es_rootEventIdByKey (initial_state state db)) k = Some i"
    then have "dget (fold (\<lambda>row d. dset (row_key row) (rf_rootEventId row) d)
        (concat (map dvalues (dvalues (live_roots state db)))) []) k = Some i"
      by (simp only: initial_state_def engine_state.select_convs)
    then show "H i"
      by (rule loaded) (intro ballI, erule stored, simp)
  qed
qed

lemma run_all_events:
  assumes "run_built env state H Q" "ledger_ids H db" "run_state env state db = Inr st"
  shows "sound_run H Q st"
  using assms(3)
proof (rule run_keeps [where P = "sound_run H Q"])
  have deleted: "Q (buildDeletion env t c n)" if "\<not> list_all is_space c" for t c n
    using assms(1) that by (simp add: run_built_def)
  show "sound_run H Q (initial_state state db)"
    using initial_ids [OF assms(2)] by (simp add: all_events_def set_assemble initial_state_def)
  show "sound_run H Q s'" if "r \<in> set (ds_roots state)" "sound_run H Q s" "root_step env (live_roots state db) r s = Inr s'"
    for r s s'
  proof -
    let ?s = "s\<lparr>es_seenRootKeys := sadd (desired_key r) (es_seenRootKeys s)\<rparr>"
    note steps = sound_new_root [OF assms(1) that(1)] sound_patch [OF assms(1) that(1)] sound_reroot [OF assms(1) that(1)]
    have "sound_run H Q ?s"
      using that(2) by simp
    then show ?thesis
      using that(2,3) steps [where st = ?s and st' = s']
      by (auto simp: root_step_def Let_def split: if_splits option.splits)
  qed
  show "sound_run H Q s'"
    if "r \<in> set (ds_relations state)" "sound_run H Q s" "relation_step env (ledger_relations state db) r s = Inr s'" for r s s'
    using that(3)
  proof (cases rule: relation_step_cases)
    case (fresh a b)
    show ?thesis
      by (rule sound_binding [OF assms(1) that(1) fresh(5)]) (use that(2) fresh(2,3) in \<open>auto simp: known_ids_def [of H s]\<close>)
  next
    case (replaced a b row c)
    show ?thesis
      by (rule sound_binding [OF assms(1) that(1) replaced(7)])
        (use that(2) replaced(2,3) deleted [OF replaced(8)] in \<open>auto simp: known_ids_def [of H s]\<close>)
  qed (use that(2) in simp_all)
  show "sound_run H Q (retire_corpus db (live_roots state db) e s)" if "sound_run H Q s" for e s
    by (rule retire_corpus_keeps [where P = "sound_run H Q", OF that])
      (simp_all add: retire_row_def Let_def, simp add: known_ids_def push_row_def)
  show "sound_run H Q (retract_corpus env (ds_relations state) e s)" if "sound_run H Q s" for e s
    by (rule retract_corpus_keeps [where P = "sound_run H Q", OF that])
      (auto simp: retract_row_def Let_def js_def cu_def is_space_def is_line_terminator_def intro!: deleted)
qed

section \<open>What the engine emits\<close>

text \<open>A signer whose events the nostr library accepts.\<close>

definition trusted_signer :: "engine_env \<Rightarrow> gate_env \<Rightarrow> bool" where
  "trusted_signer env g \<longleftrightarrow>
     (\<forall>u. let e = ee_sign env u in
        shape_codes e = [] \<and> gv_hash g e = Some (ev_id e) \<and> gv_verify g e)"

definition signed_shape :: "engine_env \<Rightarrow> nostr_event \<Rightarrow> bool" where
  "signed_shape env e \<longleftrightarrow>
     (\<exists>u. e = ee_sign env u)
     \<and> (ev_kind e = 1 \<and> trim (ev_content e) \<noteq> [] \<or> ev_kind e = 5 \<and> tagValues e (js ''e'') \<noteq> [])
     \<and> length (filter (\<lambda>v. v = FABRIC_TAG) (tagValues e (js ''t''))) = 1
     \<and> length (filter (\<lambda>v. v = FABRIC_VERSION_TAG) (tagValues e (js ''t''))) = 1
     \<and> length (tagValues e (js ''i'')) \<le> 64
     \<and> check_prefixes (tagValues e (js ''k'')) (tagValues e (js ''i'')) = Inr ()"

lemma built_shape: "built e \<Longrightarrow> e = ee_sign env u \<Longrightarrow> signed_shape env e"
  unfolding built_def signed_shape_def assertEventShape_def tagValues_def iValues_def Let_def
  by (auto split: if_splits sum.splits)

lemma checked_shape:
  "lawful env \<Longrightarrow> checked_event env (ee_sign env u) = Inr e \<Longrightarrow> un_kind u = 1 \<Longrightarrow> signed_shape env e"
proof (rule built_shape)
  assume "lawful env" "checked_event env (ee_sign env u) = Inr e" "un_kind u = 1"
  then show "built e"
    by (rule checked_event_built)
  show "e = ee_sign env u"
    using \<open>checked_event env (ee_sign env u) = Inr e\<close> by (simp add: checked_event_def split: sum.splits)
qed

lemma marker_values:
  "marker_count e v = length (filter (\<lambda>x. x = v) (tagValues e (js ''t'')))"
proof -
  have "length (filter (\<lambda>tag. nth_opt tag 0 = Some (js ''t'') \<and> nth_opt tag 1 = Some v) tags)
      = length (filter (\<lambda>x. x = v) (concat (map (tag_value (js ''t'')) tags)))" for tags
  proof (induction tags)
    case (Cons tag tags)
    then show ?case
      by (cases tag; cases "tl tag") (auto simp: tag_value_def nth_opt_def)
  qed simp
  then show ?thesis
    by (simp add: marker_count_def tagValues_def)
qed

lemma patch_shape:
  assumes "lawful env" "buildPatchEvent env root a t d n = Inr e"
  shows "signed_shape env e"
proof -
  let ?tags = "emit_baseTags PATCH_TYPE (dr_facets root)
            @ [[js ''e'', a, [], js ''root'', ee_pubkey env], [js ''e'', t, [], js ''reply'', ee_pubkey env]]"
  have e: "\<exists>u. e = ee_sign env u" "ev_tags e = ?tags" "ev_kind e = 1" "ev_content e = patch_prose root @ [10, 10] @ wrapPatchEventPayload d"
    "marker_count e FABRIC_TAG = 1" "marker_count e FABRIC_VERSION_TAG = 1"
    using assms by (auto simp: buildPatchEvent_def Let_def FABRIC_TAG_def split: if_splits)
  have "concat (map (tag_value (js k)) (emit_baseTags ty fs)) = []" if "js k \<noteq> js ''t''" for k ty fs
    using that by (simp add: emit_baseTags_def tag_value_def)
  then have none: "tagValues e (js ''i'') = []"
    by (simp add: tagValues_def e(2)) (simp add: tag_value_def)
  have "99 \<in> set (ev_content e)"
    by (simp add: e(4) patch_prose_def js_def cu_def)
  moreover have "\<not> is_space 99"
    by (simp add: is_space_def is_line_terminator_def)
  ultimately have "trim (ev_content e) \<noteq> []"
    unfolding trim_Nil by blast
  then show ?thesis
    using e(1,3,5,6) by (simp add: signed_shape_def none marker_values)
qed

lemma colon_prefix:
  assumes "colon_split w = Some (p, f)"
  shows "takeWhile (\<lambda>c. c \<noteq> 58) w = p"
proof -
  obtain n where n: "index_of 58 w = Some n" "p = take n w"
    using assms by (cases "index_of 58 w") (auto simp: colon_split_def split: if_splits)
  have w: "w = take n w @ 58 # drop (Suc n) w" "58 \<notin> set (take n w)"
    using index_of_split [OF n(1)] index_of_Some [OF n(1)] by auto
  have "takeWhile (\<lambda>c. c \<noteq> 58) (a @ 58 # b) = a" if "58 \<notin> set a" for a b :: jsstr
    using that by (subst takeWhile_append2) auto
  from this [OF w(2)] have "takeWhile (\<lambda>c. c \<noteq> 58) w = take n w"
    using w(1) by metis
  then show ?thesis
    by (simp add: n(2))
qed

lemma prefixes_covered:
  "check_prefixes ks vs = Inr () \<Longrightarrow> v \<in> set vs \<Longrightarrow> takeWhile (\<lambda>c. c \<noteq> 58) v \<in> set ks"
  unfolding check_prefixes_ok using colon_prefix by blast

text \<open>
  What the gate asks of a plan beyond the emitter's own checks: no facet is a type tag, an indexer has the prefix and
  value the gate knows, the attachments are complete, and no text of a relation looks like a \<open>Refs:\<close> line.
\<close>

definition gate_root :: "desired_root \<Rightarrow> bool" where
  "gate_root root \<longleftrightarrow>
     set (dr_facets root) \<inter> set GATE_TYPE_TAGS = {}
     \<and> (\<forall>v \<in> set (dr_iSet root). v = [] \<or> ITAG_VALUE v)
     \<and> (\<forall>row \<in> set (dr_imeta root). nth_opt row 0 = Some (js ''imeta'') \<and> imeta_codes_of row = [])"

definition gate_relation :: "desired_relation \<Rightarrow> bool" where
  "gate_relation rel \<longleftrightarrow>
     set (de_facets rel) \<inter> set GATE_TYPE_TAGS = {}
     \<and> \<not> has_substring (composeContent (de_headline rel) (de_bullets rel) (de_links rel) None) (js ''Refs:'')"

definition gate_plan :: "desired_state \<Rightarrow> bool" where
  "gate_plan state \<longleftrightarrow> list_all gate_root (ds_roots state) \<and> list_all gate_relation (ds_relations state)"

definition gate_passes :: "engine_env \<Rightarrow> gate_env \<Rightarrow> nostr_event \<Rightarrow> bool" where
  "gate_passes env g e \<longleftrightarrow> (\<exists>u. e = ee_sign env u) \<and> set (verify_codes g e) \<subseteq> {PLACEHOLDER_URL}"

lemma clean_passes:
  assumes "trusted_signer env g" "signed_shape env e" "trim (ev_content e) \<noteq> []"
    and "ev_kind e = 1 \<longrightarrow> length (type_tags e) = 1"
    and "distinct (tagValues e (js ''i''))" "\<forall>v \<in> set (tagValues e (js ''i'')). ITAG_VALUE v"
    and "\<forall>k \<in> set (tagValues e (js ''k'')). KEBAB k"
    and "binding_codes e = []" "imeta_codes e = []"
  shows "gate_passes env g e"
proof -
  note s = assms(2) [unfolded signed_shape_def]
  obtain u where u: "e = ee_sign env u"
    using s by blast
  have signed: "shape_codes e = []" "id_codes g e = []"
    using assms(1) by (simp_all add: trusted_signer_def Let_def u id_codes_def)
  have kind: "kind_codes e = []" and content: "content_codes e = []"
    using s assms(3) by (auto simp: kind_codes_def content_codes_def)
  have ts: "t_codes e = []"
    using s assms(4) by (simp add: t_codes_def Let_def FABRIC_TAG_def FABRIC_VERSION_TAG_def)
  have "duplicate_codes seen vs = []" if "distinct vs" "set vs \<inter> set seen = {}" for seen vs
    using that by (induction vs arbitrary: seen) auto
  moreover have "filter (\<lambda>p. p \<notin> set (set_of (tagValues e (js ''k''))))
      (set_of (map (takeWhile (\<lambda>c. c \<noteq> 58)) (filter ITAG_VALUE (tagValues e (js ''i''))))) = []"
    using prefixes_covered s by (fastforce simp: filter_empty_conv set_of_facts)
  ultimately have indexers: "i_codes e = []"
    using s assms(5-7) by (simp add: i_codes_def Let_def MAX_I_TAGS_def filter_empty_conv set_of_facts)
  have "set (url_codes g e) \<subseteq> {PLACEHOLDER_URL}"
    by (auto simp: url_codes_def Let_def)
  moreover have "verify_codes g e = url_codes g e"
    by (simp add: verify_codes_def signed kind content ts indexers assms(8,9))
  moreover have "\<exists>u. e = ee_sign env u"
    using u by (rule exI)
  ultimately show ?thesis
    by (simp only: gate_passes_def simp_thms)
qed

lemma base_heads: "row \<in> set (emit_baseTags ty fs) \<Longrightarrow> nth_opt row 0 = Some (js ''t'')"
  by (auto simp: emit_baseTags_def)

lemma one_type:
  assumes "ty \<in> set GATE_TYPE_TAGS" "set fs \<inter> set GATE_TYPE_TAGS = {}"
  shows "filter (\<lambda>v. v \<in> set GATE_TYPE_TAGS)
      ([FABRIC_TAG, ty, FABRIC_VERSION_TAG] @ unseen [FABRIC_TAG, ty, FABRIC_VERSION_TAG] fs) = [ty]"
proof -
  have "FABRIC_TAG \<notin> set GATE_TYPE_TAGS" "FABRIC_VERSION_TAG \<notin> set GATE_TYPE_TAGS"
    by (simp_all add: GATE_TYPE_TAGS_def FABRIC_TAG_def FABRIC_VERSION_TAG_def)
  moreover have "filter (\<lambda>v. v \<in> set GATE_TYPE_TAGS) (unseen [FABRIC_TAG, ty, FABRIC_VERSION_TAG] fs) = []"
    using assms(2) by (auto simp: filter_empty_conv)
  ultimately show ?thesis
    using assms(1) by simp
qed

lemma base_type:
  assumes "ty \<in> set GATE_TYPE_TAGS" "set fs \<inter> set GATE_TYPE_TAGS = {}"
  shows "filter (\<lambda>v. v \<in> set GATE_TYPE_TAGS) (concat (map (tag_value (js ''t'')) (emit_baseTags ty fs))) = [ty]"
  unfolding built_tag_values if_True simp_thms by (rule one_type [OF assms])

lemma role_types: "dget ROOT_TYPE_BY_ROLE role = Some ty \<Longrightarrow> ty \<in> {js ''scrutiny-product'', js ''scrutiny-metadata''}"
  by (auto simp: ROOT_TYPE_BY_ROLE_def split: if_splits)

lemma root_passes:
  assumes "lawful env" "trusted_signer env g" "gate_root root" "buildRootEvent env root c i t = Inr e"
  shows "gate_passes env g e"
proof -
  let ?extra = "dr_imeta root @ (case i of None \<Rightarrow> [] | Some i \<Rightarrow> [[js ''e'', i, [], js ''supersedes'']])"
  obtain ty where ty: "dget ROOT_TYPE_BY_ROLE (dr_role root) = Some ty"
    using assms(4) by (auto simp: buildRootEvent_def split: option.splits)
  let ?tags = "root_tags ty (dr_facets root) (map Some (dr_iSet root)) ?extra"
  have e: "checked_event env (ee_sign env \<lparr>un_kind = 1, un_created_at = t, un_tags = ?tags, un_content = c\<rparr>) = Inr e"
    using assms(4) by (simp add: buildRootEvent_def ty root_tags_def Let_def)
  have shape: "signed_shape env e"
    by (rule checked_shape [OF assms(1) e]) simp
  have fields: "ev_tags e = ?tags" "ev_kind e = 1"
    using e assms(1) by (auto simp: checked_event_def split: sum.splits)
  have imetas: "nth_opt row 0 = Some (js ''imeta'')" "imeta_codes_of row = []" if "row \<in> set (dr_imeta root)" for row
    using assms(3) that by (auto simp: gate_root_def)
  have extra: "plain_rows ?extra"
    unfolding plain_rows_append
  proof
    show "plain_rows (dr_imeta root)"
      unfolding plain_rows_def
    proof (intro ballI)
      fix row assume "row \<in> set (dr_imeta root)"
      from imetas(1) [OF this] show "row = [] \<or> hd row \<notin> {js ''t'', js ''i'', js ''k''}"
        by (cases row) simp_all
    qed
    show "plain_rows (case i of None \<Rightarrow> [] | Some i \<Rightarrow> [[js ''e'', i, [], js ''supersedes'']])"
      by (cases i) (simp_all add: plain_rows_def)
  qed
  have ty': "ty \<in> set GATE_TYPE_TAGS" "ty \<noteq> js ''scrutiny-binding''"
    using role_types [OF ty] by (auto simp: GATE_TYPE_TAGS_def)
  have types: "type_tags e = [ty]"
    unfolding type_tags_def tagValues_def fields root_tag_values(1) [OF extra]
    by (rule one_type [OF ty'(1)]) (use assms(3) in \<open>simp add: gate_root_def\<close>)
  have indexers: "tagValues e (js ''i'') = indexer_values (map Some (dr_iSet root))"
    using root_tag_values(2) [OF extra] by (simp add: tagValues_def fields iValues_def)
  have ok: "ITAG_VALUE v" if "v \<in> set (indexer_values (map Some (dr_iSet root)))" for v
    using assms(3) that by (auto simp: gate_root_def indexer_values_def split: if_splits)
  show ?thesis
  proof (rule clean_passes [OF assms(2) shape])
    show "trim (ev_content e) \<noteq> []"
      using shape fields by (simp add: signed_shape_def)
    show "ev_kind e = 1 \<longrightarrow> length (type_tags e) = 1"
      by (simp add: types)
    show "distinct (tagValues e (js ''i''))" "\<forall>v \<in> set (tagValues e (js ''i'')). ITAG_VALUE v"
      using ok by (simp_all add: indexers, simp add: indexer_values_def)
    show "\<forall>k \<in> set (tagValues e (js ''k'')). KEBAB k"
    proof
      fix k assume "k \<in> set (tagValues e (js ''k''))"
      then obtain v p where v: "v \<in> set (indexer_values (map Some (dr_iSet root)))" "colon_split v = Some (k, p)"
        unfolding tagValues_def fields root_tag_values(3) [OF extra] by (auto split: option.splits) metis
      then show "KEBAB k"
        using ok [OF v(1)] colon_prefix [OF v(2)] by (simp add: ITAG_VALUE_def)
    qed
    show "binding_codes e = []"
      using ty'(2) by (simp add: binding_codes_def eventTypeOf_def types)
    have "imeta_codes_of row = []" if "row \<in> set ?tags" "nth_opt row 0 = Some (js ''imeta'')" for row
      using that imetas(2) base_heads [of row ty "dr_facets root"]
      by (auto simp: root_tags_def iTags_def kTagsFor_def split: option.splits)
    then show "imeta_codes e = []"
      by (auto simp: imeta_codes_def fields)
  qed
qed

lemma patch_passes:
  assumes "lawful env" "trusted_signer env g" "gate_root root" "buildPatchEvent env root a t d n = Inr e"
  shows "gate_passes env g e"
proof -
  let ?refs = "[[js ''e'', a, [], js ''root'', ee_pubkey env], [js ''e'', t, [], js ''reply'', ee_pubkey env]]"
  have shape: "signed_shape env e"
    by (rule patch_shape [OF assms(1,4)])
  have fields: "ev_tags e = emit_baseTags PATCH_TYPE (dr_facets root) @ ?refs" "ev_kind e = 1"
    using assms(1,4) by (auto simp: buildPatchEvent_def Let_def split: if_splits)
  have extra: "plain_rows ?refs"
    by (simp add: plain_rows_def)
  have tags: "tagValues e n = concat (map (tag_value n) (emit_baseTags PATCH_TYPE (dr_facets root)))"
    if "n \<noteq> js ''e''" for n
    using that by (simp add: tagValues_def fields tag_value_def)
  have "PATCH_TYPE \<in> set GATE_TYPE_TAGS"
    by (simp add: PATCH_TYPE_def GATE_TYPE_TAGS_def)
  then have types: "type_tags e = [PATCH_TYPE]"
    using assms(3) base_type [of PATCH_TYPE "dr_facets root"] by (simp add: type_tags_def tags gate_root_def)
  show ?thesis
  proof (rule clean_passes [OF assms(2) shape])
    show "trim (ev_content e) \<noteq> []"
      using shape fields by (simp add: signed_shape_def)
    show "binding_codes e = []"
      by (simp add: binding_codes_def eventTypeOf_def types PATCH_TYPE_def)
    show "imeta_codes e = []"
      by (auto simp: imeta_codes_def fields dest: base_heads)
  qed (simp_all add: types tags built_tag_values)
qed

text \<open>The \<open>Refs:\<close> line the emitter appends is the one the gate finds.\<close>

lemma substring_drop: "\<not> has_substring s p \<Longrightarrow> \<not> starts_with (drop n s) p \<or> p = []"
  by (induction s arbitrary: n) (auto simp: starts_with_def drop_Cons split: nat.splits)

lemma refs_at_none: "\<not> starts_with s (js ''Refs:'') \<Longrightarrow> refs_at s = None"
  by (simp add: refs_at_def)

lemma refs_search_skip:
  assumes "\<And>n. n < length s \<Longrightarrow> \<not> starts_with (drop n s @ 10 # r) (js ''Refs:'')"
  shows "refs_search at_start (s @ 10 # r) = refs_search True r"
  using assms
proof (induction s arbitrary: at_start)
  case Nil
  have "refs_at (10 # r) = None"
    by (rule refs_at_none) (simp add: starts_with_def js_def cu_def)
  then show ?case
    by (simp add: is_line_terminator_def)
next
  case (Cons c s)
  have "refs_at (c # s @ 10 # r) = None"
    using Cons.prems [of 0] by (simp add: refs_at_none)
  moreover have "refs_search b (s @ 10 # r) = refs_search True r" for b
    by (rule Cons.IH) (use Cons.prems [of "Suc n" for n] in simp)
  ultimately show ?case
    by simp
qed

lemma refs_search_found:
  assumes "refs_at r = Some ab"
  shows "refs_search True r = Some ab"
  using assms by (cases r) (simp_all add: refs_at_def starts_with_def js_def cu_def)

lemma refs_line:
  assumes "hex_text 64 a" "hex_text 64 b"
  shows "refs_at (js ''Refs: root '' @ a @ js '' link '' @ b) = Some (a, b)"
proof -
  have split: "js ''Refs: root '' = js ''Refs:'' @ [32] @ js ''root ''" "js ''root '' = 114 # js ''oot ''"
    by (simp_all add: js_def cu_def)
  have "\<not> is_space 114" "is_space 32"
    by (simp_all add: is_space_def is_line_terminator_def)
  then have blanks: "takeWhile is_space ([32] @ js ''root '' @ r) = [32]" "dropWhile is_space ([32] @ js ''root '' @ r) = js ''root '' @ r" for r
    by (simp_all add: split(2))
  have len: "length (js ''Refs:'') = 5" "length (js ''root '') = 5" "length (js '' link '') = 6" "length a = 64" "length b = 64"
    using assms by (simp_all add: hex_text_def)
  have "drop 5 (js ''Refs:'' @ r) = r" "drop 5 (js ''root '' @ r) = r" "drop 69 (js ''root '' @ a @ r) = r" "take 64 (a @ r) = a"
    "drop 6 (js '' link '' @ r) = r" "drop 70 (js '' link '' @ b) = []" "take 64 b = b" for r
    using len by simp_all
  then show ?thesis
    using assms by (simp only: split(1) append_assoc refs_at_def Let_def starts_with_append blanks not_True_eq_False if_False if_True simp_thms
        list.simps)
qed

lemma starts_before:
  assumes "starts_with (s @ 10 # r) p" "10 \<notin> set p"
  shows "starts_with s p"
proof -
  obtain t where "s @ 10 # r = p @ t"
    using assms(1) by (auto simp: starts_with_iff)
  then consider us where "s = p @ us" | us where "p = s @ us" "10 # r = us @ t"
    by (auto simp: append_eq_append_conv2)
  then show ?thesis
  proof cases
    case 2
    then show ?thesis
      using assms(2) by (cases us) (auto simp: starts_with_iff)
  qed simp
qed

lemma binding_passes:
  assumes "lawful env" "trusted_signer env g" "gate_relation rel" "hex_text 64 a" "hex_text 64 b"
    and "buildRelationBinding env rel a b t = Inr e"
  shows "gate_passes env g e"
proof -
  let ?base = "composeContent (de_headline rel) (de_bullets rel) (de_links rel) None"
  let ?line = "js ''Refs: root '' @ a @ js '' link '' @ b"
  let ?refs = "[[js ''e'', a, [], js ''root'', ee_pubkey env], [js ''e'', b, [], js ''link'', ee_pubkey env]]"
  let ?ty = "js ''scrutiny-binding''"
  have e: "checked_event env (ee_sign env \<lparr>un_kind = 1, un_created_at = t, un_tags = emit_baseTags ?ty (de_facets rel) @ ?refs,
      un_content = ?base @ [10, 10] @ ?line\<rparr>) = Inr e"
    using assms(6) by (simp add: buildRelationBinding_def emit_buildBinding_def Let_def)
  have shape: "signed_shape env e"
    by (rule checked_shape [OF assms(1) e]) simp
  have fields: "ev_tags e = emit_baseTags ?ty (de_facets rel) @ ?refs" "ev_kind e = 1" "ev_content e = ?base @ 10 # 10 # ?line"
    using e assms(1) by (auto simp: checked_event_def split: sum.splits)
  have tags: "tagValues e n = concat (map (tag_value n) (emit_baseTags ?ty (de_facets rel)))" if "n \<noteq> js ''e''" for n
    using that by (simp add: tagValues_def fields tag_value_def)
  have "?ty \<in> set GATE_TYPE_TAGS"
    by (simp add: GATE_TYPE_TAGS_def)
  then have types: "type_tags e = [?ty]"
    using assms(3) base_type [of ?ty "de_facets rel"] by (simp add: type_tags_def tags gate_relation_def)
  have eTags: "filter (\<lambda>t. nth_opt t 0 = Some (js ''e'')) (ev_tags e) = ?refs"
    by (auto simp: fields filter_empty_conv dest: base_heads)
  have "\<not> starts_with (drop n ?base @ 10 # 10 # ?line) (js ''Refs:'')" for n
    using assms(3) substring_drop [of ?base "js ''Refs:''" n] starts_before [of "drop n ?base" "10 # ?line" "js ''Refs:''"]
    by (auto simp: gate_relation_def js_def cu_def)
  then have "refs_search True (ev_content e) = refs_search True (10 # ?line)"
    unfolding fields by (intro refs_search_skip)
  also have "\<dots> = refs_search True ?line"
    by (rule refs_search_skip [where s = "[]", unfolded append_Nil]) simp
  also have "\<dots> = Some (a, b)"
    by (rule refs_search_found [OF refs_line [OF assms(4,5)]])
  finally have found: "refs_search True (ev_content e) = Some (a, b)" .
  show ?thesis
  proof (rule clean_passes [OF assms(2) shape])
    show "trim (ev_content e) \<noteq> []"
      using shape fields(2) by (simp add: signed_shape_def)
    show "binding_codes e = []"
      unfolding binding_codes_def eTags found using assms(4,5) by (simp add: eventTypeOf_def types nth_opt_def)
    show "imeta_codes e = []"
      by (auto simp: imeta_codes_def fields dest: base_heads)
  qed (simp_all add: types tags built_tag_values)
qed

lemma deletion_passes:
  assumes "lawful env" "trusted_signer env g" "\<not> list_all is_space c"
  shows "gate_passes env g (buildDeletion env t c n)"
proof -
  let ?e = "buildDeletion env t c n"
  have tags: "ev_tags ?e = [[js ''t'', js ''scrutiny-fabric''], [js ''t'', FABRIC_VERSION_TAG], [js ''e'', t]]"
    "ev_kind ?e = 5" "ev_content ?e = c"
    using assms(1) by (simp_all add: buildDeletion_def)
  have types: "type_tags ?e = []"
    by (simp add: type_tags_def tagValues_def tags tag_value_def GATE_TYPE_TAGS_def FABRIC_VERSION_TAG_def)
  have shape: "signed_shape env ?e"
    using tags by (auto simp: signed_shape_def tagValues_def tag_value_def FABRIC_TAG_def FABRIC_VERSION_TAG_def buildDeletion_def)
  show ?thesis
  proof (rule clean_passes [OF assms(2) shape])
    show "trim (ev_content ?e) \<noteq> []"
      using assms(3) by (simp add: tags trim_Nil list_all_iff)
    show "binding_codes ?e = []" "imeta_codes ?e = []"
      by (simp_all add: binding_codes_def eventTypeOf_def types imeta_codes_def tags)
  qed (simp_all add: tagValues_def tags tag_value_def)
qed

lemma plan_built:
  assumes "lawful env" "trusted_signer env g" "gate_plan state"
  shows "run_built env state (hex_text 64) (gate_passes env g)"
proof -
  have "gate_root root" if "root \<in> set (ds_roots state)" for root
    using assms(3) that by (simp add: gate_plan_def list_all_iff)
  moreover have "gate_relation rel" if "rel \<in> set (ds_relations state)" for rel
    using assms(3) that by (simp add: gate_plan_def list_all_iff)
  moreover have "hex_text 64 (ev_id e)" if signed: "gate_passes env g e" for e
  proof -
    obtain u where "e = ee_sign env u"
      using signed by (auto simp: gate_passes_def)
    then have "shape_codes e = []"
      using assms(2) by (simp add: trusted_signer_def Let_def)
    then show ?thesis
      by (simp add: shape_codes_def split: if_splits)
  qed
  ultimately show ?thesis
    unfolding run_built_def
    by (intro conjI ballI allI impI)
      (auto intro: root_passes [OF assms(1,2)] patch_passes [OF assms(1,2)] binding_passes [OF assms(1,2)]
        deletion_passes [OF assms(1,2)])
qed


section \<open>What the gate lets through\<close>

lemma indexer_parses:
  assumes "ITAG_VALUE raw"
  shows "parseIndexer raw \<noteq> None"
proof -
  let ?p = "takeWhile (\<lambda>c. c \<noteq> 58) raw"
  obtain s where s: "dropWhile (\<lambda>c. c \<noteq> 58) raw = 58 # s"
    using assms hd_dropWhile [of "\<lambda>c. c \<noteq> 58" raw] by (cases "dropWhile (\<lambda>c. c \<noteq> 58) raw") (auto simp: ITAG_VALUE_def)
  have raw: "raw = ?p @ colon # s"
    using takeWhile_dropWhile_id [of "\<lambda>c. c \<noteq> 58" raw] by (simp add: s colon_def cu_def)
  have "KEBAB ?p"
    using assms by (simp add: ITAG_VALUE_def)
  then have p: "?p \<noteq> []" "list_all is_prefix_unit ?p"
    by (auto simp: KEBAB_def is_letter_def kebab_unit_def is_prefix_unit_def cu_def list_all_iff split: list.splits)
  have "colon \<notin> set ?p"
    by (auto simp: colon_def cu_def dest: set_takeWhileD)
  then have "index_of colon raw = Some (length ?p)"
    using index_of_append [of colon ?p s] raw by simp
  moreover have "take (length ?p) raw = ?p"
    by (subst raw) simp
  ultimately show ?thesis
    using p by (simp add: parseIndexer_def INDEXER_PREFIX_PATTERN_def)
qed

lemma marked_tag:
  assumes "m \<noteq> []"
  shows "filter (\<lambda>r. er_marker r = Some m) (e_tag t) =
     (if nth_opt t 0 = Some (js ''e'') \<and> nth_opt t 3 = Some m then e_tag t else [])"
    and "nth_opt t 0 = Some (js ''e'') \<Longrightarrow> nth_opt t 3 = Some m \<Longrightarrow> \<exists>r. e_tag t = [r] \<and> nth_opt t 1 = Some (er_id r)"
  using assms by (cases t; cases "tl t"; auto simp: e_tag_def nonempty_def numeral_3_eq_3)+

lemma marked_refs:
  assumes "m \<noteq> []" "filter (\<lambda>t. nth_opt t 3 = Some m) (filter (\<lambda>t. nth_opt t 0 = Some (js ''e'')) (ev_tags e)) = [t]"
  shows "\<exists>r. eTagsWithMarker e m = [r] \<and> nth_opt t 1 = Some (er_id r)"
proof -
  have "filter (\<lambda>r. er_marker r = Some m) (concat (map e_tag ts))
      = concat (map e_tag (filter (\<lambda>t. nth_opt t 0 = Some (js ''e'') \<and> nth_opt t 3 = Some m) ts))" for ts
    by (induction ts) (simp_all add: marked_tag(1) [OF assms(1)])
  moreover have one: "filter (\<lambda>t. nth_opt t 0 = Some (js ''e'') \<and> nth_opt t 3 = Some m) (ev_tags e) = [t]"
    using assms(2) by (simp add: conj_commute)
  ultimately have "eTagsWithMarker e m = e_tag t"
    by (simp add: eTagsWithMarker_def eTags_def)
  moreover have "t \<in> set (filter (\<lambda>t. nth_opt t 0 = Some (js ''e'') \<and> nth_opt t 3 = Some m) (ev_tags e))"
    unfolding one by simp
  ultimately show ?thesis
    using marked_tag(2) [OF assms(1), of t] by auto
qed

lemma binding_refs:
  assumes "binding_codes e = []" "eTypeOf = eventTypeOf e" "eTypeOf = Some (js ''scrutiny-binding'')"
  shows "\<exists>root link. eTagsWithMarker e (js ''root'') = [root] \<and> eTagsWithMarker e (js ''link'') = [link]
    \<and> refs_search True (ev_content e) = Some (er_id root, er_id link)"
proof -
  let ?tags = "filter (\<lambda>t. nth_opt t 0 = Some (js ''e'')) (ev_tags e)"
  have codes: "length (filter (\<lambda>t. nth_opt t 3 = Some (js ''root'')) ?tags) = 1"
    "length (filter (\<lambda>t. nth_opt t 3 = Some (js ''link'')) ?tags) = 1"
    using assms by (auto simp: binding_codes_def Let_def split: if_splits)
  obtain root where root: "filter (\<lambda>t. nth_opt t 3 = Some (js ''root'')) ?tags = [root]"
    using codes(1) unfolding length_Suc_conv One_nat_def by blast
  obtain link where link: "filter (\<lambda>t. nth_opt t 3 = Some (js ''link'')) ?tags = [link]"
    using codes(2) unfolding length_Suc_conv One_nat_def by blast
  obtain a b where "refs_search True (ev_content e) = Some (a, b)" "nth_opt root 1 = Some a" "nth_opt link 1 = Some b"
    using assms unfolding binding_codes_def Let_def root link by (auto split: option.splits if_splits)
  moreover obtain r where "eTagsWithMarker e (js ''root'') = [r]" "nth_opt root 1 = Some (er_id r)"
    using marked_refs [OF _ root] by (auto simp: js_def)
  moreover obtain l where "eTagsWithMarker e (js ''link'') = [l]" "nth_opt link 1 = Some (er_id l)"
    using marked_refs [OF _ link] by (auto simp: js_def)
  ultimately show ?thesis
    by simp
qed

text \<open>
  C17. What the gate's tag checks give the core package: an event of kind 1 without findings that carries exactly one
  version tag has one type; as a product or metadata event it is valid, whatever has been observed; as a binding it
  names one root and one link, the ones its \<open>Refs:\<close> line names, and is valid once these are observed as a product
  and a metadata event. Nothing follows for patches, whose references and payload the gate does not look at, nor for
  deletions.
\<close>

theorem gate_refines_core:
  assumes "verify_codes g e = []" "ev_kind e = 1" "length (versionTags e) = 1"
  shows "\<exists>ty. scrutinyEventType e = Some ty
    \<and> (ty = Product \<or> ty = Metadata \<longrightarrow> (\<exists>is. validateEvent l e = Valid ty is))
    \<and> (ty = Binding \<longrightarrow> (\<exists>root link. eTagsWithMarker e (js ''root'') = [root] \<and> eTagsWithMarker e (js ''link'') = [link]
         \<and> refs_search True (ev_content e) = Some (er_id root, er_id link)
         \<and> (\<forall>p m. l (er_id root) = Some p \<and> scrutinyEventType p = Some Product
              \<and> l (er_id link) = Some m \<and> scrutinyEventType m = Some Metadata \<longrightarrow> (\<exists>is. validateEvent l e = Valid Binding is))))"
proof -
  have codes: "t_codes e = []" "i_codes e = []" "binding_codes e = []"
    using assms(1) by (simp_all add: verify_codes_def split: if_splits)
  have tags: "set TYPE_TAG_SET = set GATE_TYPE_TAGS"
    by (simp add: TYPE_TAG_SET_def GATE_TYPE_TAGS_def)
  obtain v where v: "type_tags e = [v]"
    using codes(1) assms(2) by (auto simp: t_codes_def Let_def length_Suc_conv split: if_splits)
  then have "v \<in> set (filter (\<lambda>v. v \<in> set GATE_TYPE_TAGS) (tagValues e (js ''t'')))"
    by (simp add: type_tags_def)
  then have "v \<in> set (map EVENT_TYPE_TAGS [Product, Metadata, Binding, Patch])"
    by (simp only: set_filter mem_Collect_eq tags [symmetric] TYPE_TAG_SET_def)
  then obtain ty where ty: "v = EVENT_TYPE_TAGS ty"
    unfolding set_map by blast
  have type: "scrutinyEventType e = Some ty"
    unfolding scrutinyEventType_single tags using v by (simp add: type_tags_def tTags_def ty)
  have spec: "tags_spec e"
    using codes(1) assms(3) by (simp add: tags_spec_def t_codes_def Let_def FABRIC_TAG_def tTags_def split: if_splits)
  have "\<forall>raw \<in> set (tagValues e (js ''i'')). ITAG_VALUE raw"
    using codes(2) by (simp add: i_codes_def Let_def filter_empty_conv)
  then have root: "root_spec e"
    using indexer_parses by (simp add: root_spec_def)
  show ?thesis
  proof (intro exI [of _ ty] conjI impI)
    show "scrutinyEventType e = Some ty"
      by (rule type)
  next
    assume "ty = Product \<or> ty = Metadata"
    then show "\<exists>is. validateEvent l e = Valid ty is"
      unfolding valid_spec using type spec root by auto
  next
    assume "ty = Binding"
    then have "eventTypeOf e = Some (js ''scrutiny-binding'')"
      by (simp add: eventTypeOf_def v ty)
    from binding_refs [OF codes(3) refl this] show "\<exists>root link. eTagsWithMarker e (js ''root'') = [root]
        \<and> eTagsWithMarker e (js ''link'') = [link] \<and> refs_search True (ev_content e) = Some (er_id root, er_id link)
        \<and> (\<forall>p m. l (er_id root) = Some p \<and> scrutinyEventType p = Some Product
             \<and> l (er_id link) = Some m \<and> scrutinyEventType m = Some Metadata \<longrightarrow> (\<exists>is. validateEvent l e = Valid Binding is))"
      unfolding valid_spec using type spec \<open>ty = Binding\<close> by (auto simp: binding_spec_def)
  qed
qed

section \<open>Instances\<close>

definition sample_gate_env :: gate_env where
  "sample_gate_env = \<lparr>gv_hash = (\<lambda>e. Some (ev_id e)), gv_verify = (\<lambda>_. True), gv_lower = to_lower\<rparr>"

lemma sample_admitted:
  "trusted_signer sample_env sample_gate_env" "gate_plan sample_state" "ledger_ids (hex_text 64) sample_ledger"
proof -
  show "trusted_signer sample_env sample_gate_env"
    by (simp add: trusted_signer_def sample_env_def sample_gate_env_def shape_codes_def hex_text_def is_lower_hex_def
        list_all_iff Let_def)
  show "gate_plan sample_state"
    by (simp add: gate_plan_def sample_state_def gate_root_def)
  show "ledger_ids (hex_text 64) sample_ledger"
    by (simp add: ledger_ids_def sample_ledger_def upsertRoots_def upsert_root_def Let_def empty_ledger_def rootsByCorpus_def
        rowToRoot_def root_key_of_def hex_text_def is_lower_hex_def list_all_iff)
qed


definition sample_product :: nostr_event where
  "sample_product =
     \<lparr>ev_id = replicate 64 97, ev_pubkey = replicate 64 98, ev_created_at = 1, ev_kind = 1,
      ev_tags = [[js ''t'', js ''scrutiny-fabric''], [js ''t'', js ''scrutiny-product''], [js ''t'', js ''scrutiny-v0.8.1''],
        [js ''i'', js ''vendor:nxp''], [js ''k'', js ''vendor'']],
      ev_content = js ''NXP'', ev_sig = replicate 128 97\<rparr>"

lemma gate_refines_core_witness: "\<exists>is. validateEvent (\<lambda>_. None) sample_product = Valid Product is"
proof -
  have "verify_codes sample_gate_env sample_product = []" "ev_kind sample_product = 1" "length (versionTags sample_product) = 1"
    "scrutinyEventType sample_product = Some Product"
    by code_simp+
  then show ?thesis
    using gate_refines_core [of sample_gate_env sample_product "\<lambda>_. None"] by auto
qed

end
