(* ===== verification/Socket.thy ===== *)
theory Socket
  imports Publish
begin

text \<open>
  \<open>packages/mirror/src/publish/auth.ts\<close>: one authenticated relay session. The session is single-flight by contract:
  \<open>publish\<close> is called when no call is pending. A call runs without interruption between its waits (for the
  connection, for the relay's answer to AUTH, for its OK), so a session is a state machine over what comes in from
  the relay, the timers and the caller: what \<open>publish\<close> does after an \<open>await\<close> runs before the next input. \<open>ready\<close> says whether
  the socket takes a frame when the input arrives (\<open>readyState === 1\<close> and \<open>ws.send\<close> does not throw); signing is an
  argument. Decoding the secret key and logging are left out.
\<close>

section \<open>The state of a session\<close>

datatype frame = Event_frame nostr_event | Auth_frame nostr_event

datatype connection = Connecting | Opened | Failed jsstr

text \<open>Where a call waits; an \<open>Ack_wait\<close> knows whether it is the second one, a \<open>Reauth_wait\<close> keeps the first answer.\<close>

datatype pending_call =
  Open_wait nostr_event | Auth_wait nostr_event | Ack_wait nostr_event bool | Reauth_wait nostr_event publish_ack

record socket_options =
  so_connectTimeoutMs :: nat
  so_ackTimeoutMs :: nat
  so_authRelayUrl :: jsstr

record socket =
  sk_relay :: jsstr
  sk_options :: socket_options
  sk_connection :: connection
  sk_connectTimer :: bool
  sk_isClosed :: bool
  sk_authChallenge :: "jsstr option"
  sk_authEventId :: "jsstr option"
  sk_authSettled :: bool
  sk_notice :: "jsstr option"
  sk_call :: "pending_call option"
  sk_sent :: "frame list"
  sk_answers :: "(nostr_event \<times> publish_ack) list"

definition new_socket :: "jsstr \<Rightarrow> socket_options \<Rightarrow> socket" where
  "new_socket relay opts =
     \<lparr>sk_relay = relay, sk_options = opts, sk_connection = Connecting, sk_connectTimer = True, sk_isClosed = False,
      sk_authChallenge = None, sk_authEventId = None, sk_authSettled = False, sk_notice = None, sk_call = None, sk_sent = [], sk_answers = []\<rparr>"

definition AUTH_REQUIRED :: "jsstr \<Rightarrow> bool" where
  "AUTH_REQUIRED msg \<longleftrightarrow> has_substring (to_lower msg) (js ''auth-required'')"

definition buildAuthEvent :: "(unsigned_event \<Rightarrow> nostr_event) \<Rightarrow> int \<Rightarrow> jsstr \<Rightarrow> jsstr \<Rightarrow> nostr_event" where
  "buildAuthEvent sign now relay challenge =
     sign \<lparr>un_kind = 22242, un_created_at = now,
           un_tags = [[js ''relay'', relay], [js ''challenge'', challenge]], un_content = []\<rparr>"

section \<open>A call\<close>

definition refusal :: "jsstr \<Rightarrow> publish_ack" where
  "refusal msg = \<lparr>ak_ok = False, ak_msg = msg\<rparr>"

definition answer :: "nostr_event \<Rightarrow> publish_ack \<Rightarrow> socket \<Rightarrow> socket" where
  "answer event ack st = st\<lparr>sk_call := None, sk_answers := sk_answers st @ [(event, ack)]\<rparr>"

definition sendAndAwaitAck :: "bool \<Rightarrow> nostr_event \<Rightarrow> bool \<Rightarrow> socket \<Rightarrow> socket" where
  "sendAndAwaitAck ready event again st =
     (if sk_isClosed st then answer event (refusal (js ''socket closed before send'')) st
      else if \<not> ready then answer event (refusal (js ''socket not open for send'')) st
      else st\<lparr>sk_sent := sk_sent st @ [Event_frame event], sk_call := Some (Ack_wait event again)\<rparr>)"

definition got_ack :: "nostr_event \<Rightarrow> bool \<Rightarrow> publish_ack \<Rightarrow> socket \<Rightarrow> socket" where
  "got_ack event again ack st =
     (if \<not> again \<and> \<not> ak_ok ack \<and> AUTH_REQUIRED (ak_msg ack) \<and> \<not> sk_authSettled st
      then st\<lparr>sk_call := Some (Reauth_wait event ack)\<rparr> else answer event ack st)"

definition after_open :: "bool \<Rightarrow> nostr_event \<Rightarrow> socket \<Rightarrow> socket" where
  "after_open ready event st =
     (if sk_authChallenge st \<noteq> None \<and> \<not> sk_authSettled st then st\<lparr>sk_call := Some (Auth_wait event)\<rparr>
      else sendAndAwaitAck ready event False st)"

definition auth_done :: "bool \<Rightarrow> bool \<Rightarrow> socket \<Rightarrow> socket" where
  "auth_done ready ok st =
     (case sk_call st of
        Some (Auth_wait event) \<Rightarrow> sendAndAwaitAck ready event False st
      | Some (Reauth_wait event ack) \<Rightarrow> if ok then sendAndAwaitAck ready event True st else answer event ack st
      | _ \<Rightarrow> st)"

definition publish :: "bool \<Rightarrow> nostr_event \<Rightarrow> socket \<Rightarrow> socket" where
  "publish ready event st =
     (if sk_isClosed st then answer event (refusal (js ''socket closed'')) st
      else (case sk_connection st of
              Connecting \<Rightarrow> st\<lparr>sk_call := Some (Open_wait event)\<rparr>
            | Failed msg \<Rightarrow> answer event (refusal (js ''connect failed: '' @ msg)) st
            | Opened \<Rightarrow> after_open ready event st))"

section \<open>What comes in\<close>

definition settleAuth :: "bool \<Rightarrow> bool \<Rightarrow> socket \<Rightarrow> socket" where
  "settleAuth ready ok st =
     auth_done ready ok (st\<lparr>sk_authSettled := ok, sk_authEventId := (if ok then sk_authEventId st else None)\<rparr>)"

definition flushPending :: "bool \<Rightarrow> jsstr \<Rightarrow> socket \<Rightarrow> socket" where
  "flushPending ready msg st =
     (case sk_call st of
        Some (Ack_wait event again) \<Rightarrow> got_ack event again (refusal msg) st
      | _ \<Rightarrow> auth_done ready False st)"

text \<open>The promise of the connection settles once. Its timer is cleared by whichever event of the socket comes first.\<close>

definition open_failed :: "jsstr \<Rightarrow> socket \<Rightarrow> socket" where
  "open_failed msg st =
     (if sk_connection st \<noteq> Connecting then st
      else
        let st = st\<lparr>sk_connection := Failed msg\<rparr> in
        case sk_call st of
          Some (Open_wait event) \<Rightarrow> answer event (refusal (js ''connect failed: '' @ msg)) st
        | _ \<Rightarrow> st)"

definition connect_timeout :: "socket \<Rightarrow> socket" where
  "connect_timeout st =
     (if sk_connectTimer st then
        open_failed (js ''connect timeout after '' @ nat_digits (so_connectTimeoutMs (sk_options st)) @ js ''ms'')
          (st\<lparr>sk_connectTimer := False\<rparr>)
      else st)"

definition opened :: "bool \<Rightarrow> socket \<Rightarrow> socket" where
  "opened ready st =
     (let st = st\<lparr>sk_connectTimer := False\<rparr> in
      if sk_connection st \<noteq> Connecting then st
      else
        let st = st\<lparr>sk_connection := Opened\<rparr> in
        case sk_call st of Some (Open_wait event) \<Rightarrow> after_open ready event st | _ \<Rightarrow> st)"

definition errored :: "socket \<Rightarrow> socket" where
  "errored st = open_failed (js ''websocket error connecting to '' @ sk_relay st) (st\<lparr>sk_connectTimer := False\<rparr>)"

definition onAuth :: "(unsigned_event \<Rightarrow> nostr_event) \<Rightarrow> bool \<Rightarrow> int \<Rightarrow> jsstr \<Rightarrow> socket \<Rightarrow> socket" where
  "onAuth sign ready now challenge st =
     (if sk_authSettled st then st
      else
        let url = (if so_authRelayUrl (sk_options st) \<noteq> [] then so_authRelayUrl (sk_options st) else sk_relay st);
            event = buildAuthEvent sign now url challenge;
            st = st\<lparr>sk_authChallenge := Some challenge, sk_authEventId := Some (ev_id event)\<rparr>
        in if ready then st\<lparr>sk_sent := sk_sent st @ [Auth_frame event]\<rparr> else settleAuth ready False st)"

definition onOk :: "bool \<Rightarrow> jsstr \<Rightarrow> publish_ack \<Rightarrow> socket \<Rightarrow> socket" where
  "onOk ready i ack st =
     (if sk_authEventId st = Some i then settleAuth ready (ak_ok ack) st
      else (case sk_call st of
              Some (Ack_wait event again) \<Rightarrow> if ev_id event = i then got_ack event again ack st else st
            | _ \<Rightarrow> st))"

definition ok_ack :: "json list \<Rightarrow> publish_ack" where
  "ok_ack args =
     \<lparr>ak_ok = (nth_opt args 0 = Some (JBool True)),
      ak_msg = (case nth_opt args 1 of Some (JString msg) \<Rightarrow> msg | _ \<Rightarrow> [])\<rparr>"

definition onMessage :: "(unsigned_event \<Rightarrow> nostr_event) \<Rightarrow> bool \<Rightarrow> int \<Rightarrow> jsstr \<Rightarrow> socket \<Rightarrow> socket" where
  "onMessage sign ready now raw st =
     (case json_parse raw of
        Some (JArray (JString type # JString s # args)) \<Rightarrow>
          if type = js ''AUTH'' then onAuth sign ready now s st
          else if type = js ''OK'' then onOk ready s (ok_ack args) st
          else if type = js ''NOTICE'' then st\<lparr>sk_notice := Some s\<rparr>
          else st
      | _ \<Rightarrow> st)"

definition onClose :: "bool \<Rightarrow> nat \<Rightarrow> jsstr \<Rightarrow> socket \<Rightarrow> socket" where
  "onClose ready code reason st =
     (if sk_isClosed st then st
      else flushPending ready (js ''connection closed (code '' @ nat_digits code
             @ (if reason = [] then [] else js '': '' @ reason) @ js '')'') (st\<lparr>sk_isClosed := True\<rparr>))"

text \<open>The handler of the close event: after a \<open>close\<close> of the client it clears the timer and rejects nothing.\<close>

definition closed :: "bool \<Rightarrow> nat \<Rightarrow> jsstr \<Rightarrow> socket \<Rightarrow> socket" where
  "closed ready code reason st =
     (let st = st\<lparr>sk_connectTimer := False\<rparr>;
          st = (if sk_isClosed st then st
                else open_failed (js ''closed before open (code '' @ nat_digits code @ js '')'') st)
      in onClose ready code reason st)"

definition close_socket :: "bool \<Rightarrow> socket \<Rightarrow> socket" where
  "close_socket ready st =
     (if sk_isClosed st then st
      else flushPending ready (js ''socket closed by client'') (st\<lparr>sk_isClosed := True\<rparr>))"

datatype socket_input =
    Publish_call nostr_event | On_open | On_error | Connect_timeout | On_message jsstr | Ack_timeout | Auth_timeout
  | On_close nat jsstr | Close_call

definition socket_step :: "(unsigned_event \<Rightarrow> nostr_event) \<Rightarrow> bool \<Rightarrow> int \<Rightarrow> socket_input \<Rightarrow> socket \<Rightarrow> socket" where
  "socket_step sign ready now inp st =
     (case inp of
        Publish_call event \<Rightarrow> publish ready event st
      | On_open \<Rightarrow> opened ready st
      | On_error \<Rightarrow> errored st
      | Connect_timeout \<Rightarrow> connect_timeout st
      | On_message raw \<Rightarrow> onMessage sign ready now raw st
      | Ack_timeout \<Rightarrow>
          (case sk_call st of
             Some (Ack_wait event again) \<Rightarrow>
               got_ack event again (refusal (js ''timeout after '' @ nat_digits (so_ackTimeoutMs (sk_options st))
                 @ js ''ms awaiting OK'')) st
           | _ \<Rightarrow> st)
      | Auth_timeout \<Rightarrow> auth_done ready False st
      | On_close code reason \<Rightarrow> closed ready code reason st
      | Close_call \<Rightarrow> close_socket ready st)"

text \<open>A session, with what has come in, the last input first.\<close>

inductive relay_session :: "(unsigned_event \<Rightarrow> nostr_event) \<Rightarrow> jsstr \<Rightarrow> socket_options \<Rightarrow> socket_input list \<Rightarrow> socket \<Rightarrow> bool"
  for sign relay opts where
  begin_session: "relay_session sign relay opts [] (new_socket relay opts)"
| go_on: "relay_session sign relay opts inputs st \<Longrightarrow> (\<forall>event. inp = Publish_call event \<longrightarrow> sk_call st = None) \<Longrightarrow>
     relay_session sign relay opts (inp # inputs) (socket_step sign ready now inp st)"

section \<open>What a session keeps\<close>

lemmas call_defs =
  answer_def refusal_def sendAndAwaitAck_def got_ack_def after_open_def auth_done_def settleAuth_def flushPending_def

lemmas input_defs =
  publish_def opened_def open_failed_def connect_timeout_def errored_def onAuth_def onOk_def onMessage_def onClose_def closed_def
  close_socket_def

text \<open>Acknowledgements come from the relay: an id is in \<open>ids\<close> when the relay has said OK to it.\<close>

definition sound_acks :: "jsstr set \<Rightarrow> socket \<Rightarrow> bool" where
  "sound_acks ids st \<longleftrightarrow>
     (\<forall>(event, ack) \<in> set (sk_answers st). ak_ok ack \<longrightarrow> ev_id event \<in> ids)
     \<and> (\<forall>event ack. sk_call st = Some (Reauth_wait event ack) \<longrightarrow> \<not> ak_ok ack)"

lemma sound_mono: "sound_acks A st \<Longrightarrow> A \<subseteq> B \<Longrightarrow> sound_acks B st"
  unfolding sound_acks_def by blast

lemma sound_answer: "sound_acks A st \<Longrightarrow> (ak_ok ack \<Longrightarrow> ev_id event \<in> A) \<Longrightarrow> sound_acks A (answer event ack st)"
  by (auto simp: sound_acks_def answer_def)

lemma sound_refused [simp]: "\<not> ak_ok (refusal msg)"
  by (simp add: refusal_def)

lemma sound_frame:
  "sound_acks A (st\<lparr>sk_connection := c\<rparr>) = sound_acks A st" "sound_acks A (st\<lparr>sk_connectTimer := b\<rparr>) = sound_acks A st"
  "sound_acks A (st\<lparr>sk_isClosed := b\<rparr>) = sound_acks A st"
  "sound_acks A (st\<lparr>sk_authSettled := b, sk_authEventId := i\<rparr>) = sound_acks A st"
  "sound_acks A (st\<lparr>sk_authChallenge := ch, sk_authEventId := i\<rparr>) = sound_acks A st"
  "sound_acks A (st\<lparr>sk_sent := fs\<rparr>) = sound_acks A st" "sound_acks A (st\<lparr>sk_notice := n\<rparr>) = sound_acks A st"
  by (simp_all add: sound_acks_def)

lemma sound_send: "sound_acks A st \<Longrightarrow> sound_acks A (sendAndAwaitAck ready event again st)"
  by (auto simp: sendAndAwaitAck_def intro!: sound_answer) (simp add: sound_acks_def)

lemma sound_got: "sound_acks A st \<Longrightarrow> (ak_ok ack \<Longrightarrow> ev_id event \<in> A) \<Longrightarrow> sound_acks A (got_ack event again ack st)"
  by (auto simp: got_ack_def intro!: sound_answer) (simp add: sound_acks_def)

lemma sound_open: "sound_acks A st \<Longrightarrow> sound_acks A (after_open ready event st)"
  by (auto simp: after_open_def intro!: sound_send) (simp add: sound_acks_def)

lemma sound_auth:
  assumes "sound_acks A st"
  shows "sound_acks A (auth_done ready ok st)"
proof -
  have "sk_call st = Some (Reauth_wait event ack) \<Longrightarrow> \<not> ak_ok ack" for event ack
    using assms by (simp add: sound_acks_def)
  then show ?thesis
    unfolding auth_done_def
    by (auto split: option.split pending_call.split intro!: sound_send sound_answer assms)
qed

lemma sound_settle: "sound_acks A st \<Longrightarrow> sound_acks A (settleAuth ready ok st)"
  unfolding settleAuth_def by (rule sound_auth) (simp only: sound_frame)

lemma sound_flush: "sound_acks A st \<Longrightarrow> sound_acks A (flushPending ready msg st)"
  using sound_auth [of A st ready False] unfolding flushPending_def
  by (auto split: option.split pending_call.split intro!: sound_got)

definition acked_ids :: "socket_input \<Rightarrow> jsstr set" where
  "acked_ids inp =
     (case inp of
        On_message raw \<Rightarrow>
          (case json_parse raw of
             Some (JArray (JString type # JString i # JBool True # args)) \<Rightarrow> if type = js ''OK'' then {i} else {}
           | _ \<Rightarrow> {})
      | _ \<Rightarrow> {})"

lemma sound_failed: "sound_acks A st \<Longrightarrow> sound_acks A (open_failed msg st)"
  unfolding open_failed_def Let_def
  by (auto split: option.split pending_call.split intro!: sound_answer simp: sound_frame)

lemma sound_message:
  assumes "sound_acks A st"
  shows "sound_acks (acked_ids (On_message raw) \<union> A) (onMessage sign ready now raw st)"
proof (cases "\<exists>type s args. json_parse raw = Some (JArray (JString type # JString s # args))")
  case True
  then obtain type s args where m: "json_parse raw = Some (JArray (JString type # JString s # args))"
    by blast
  let ?A = "acked_ids (On_message raw) \<union> A"
  have A: "sound_acks ?A st"
    using assms by (rule sound_mono) simp
  have "sound_acks ?A (onAuth sign ready now s st)"
    unfolding onAuth_def Let_def by (auto intro!: sound_settle simp: sound_frame A)
  moreover have "s \<in> ?A" if "ak_ok (ok_ack args)" "type = js ''OK''"
    using that by (cases args) (auto simp: ok_ack_def acked_ids_def m)
  then have "sound_acks ?A (onOk ready s (ok_ack args) st)" if "type = js ''OK''"
    unfolding onOk_def using that
    by (auto split: option.split pending_call.split intro!: sound_settle sound_got simp: A)
  ultimately show ?thesis
    unfolding onMessage_def m by (simp add: A sound_frame)
next
  case False
  then have "onMessage sign ready now raw st = st"
    unfolding onMessage_def by (auto split: option.split json.split list.split)
  then show ?thesis
    using assms sound_mono [OF assms] by auto
qed

lemma sound_step:
  assumes "sound_acks A st"
  shows "sound_acks (acked_ids inp \<union> A) (socket_step sign ready now inp st)"
proof (cases inp)
  case (On_message raw)
  then show ?thesis
    using sound_message [OF assms] by (simp add: socket_step_def)
next
  case (Publish_call event)
  have "sound_acks A (publish ready event st)"
    unfolding publish_def
    by (auto split: connection.split intro!: sound_answer sound_open assms) (use assms in \<open>simp add: sound_acks_def\<close>)
  then show ?thesis
    by (simp add: Publish_call socket_step_def acked_ids_def)
next
  case On_open
  have "sound_acks A (opened ready st)"
    unfolding opened_def Let_def
    by (auto split: option.split pending_call.split intro!: sound_open simp: sound_frame assms)
  then show ?thesis
    by (simp add: On_open socket_step_def acked_ids_def)
next
  case Ack_timeout
  have "sound_acks A (socket_step sign ready now Ack_timeout st)"
    by (auto simp: socket_step_def split: option.split pending_call.split intro!: sound_got assms)
  then show ?thesis
    by (simp add: Ack_timeout acked_ids_def)
next
  case (On_close code reason)
  have "sound_acks A (closed ready code reason st)"
    unfolding closed_def onClose_def Let_def by (auto intro!: sound_flush sound_failed simp: sound_frame assms)
  then show ?thesis
    by (simp add: On_close socket_step_def acked_ids_def)
next
  case Close_call
  have "sound_acks A (close_socket ready st)"
    unfolding close_socket_def by (auto intro!: sound_flush simp: sound_frame assms)
  then show ?thesis
    by (simp add: Close_call socket_step_def acked_ids_def)
qed (use assms in \<open>simp_all add: socket_step_def acked_ids_def sound_failed sound_auth errored_def connect_timeout_def sound_frame\<close>)

text \<open>Every call is answered once, in order, and sends its event at most twice.\<close>

fun call_event :: "pending_call \<Rightarrow> nostr_event" where
  "call_event (Open_wait event) = event"
| "call_event (Auth_wait event) = event"
| "call_event (Ack_wait event again) = event"
| "call_event (Reauth_wait event ack) = event"

definition calls :: "socket \<Rightarrow> nostr_event list" where
  "calls st = map fst (sk_answers st) @ (case sk_call st of None \<Rightarrow> [] | Some c \<Rightarrow> [call_event c])"

fun call_sends :: "pending_call option \<Rightarrow> nat" where
  "call_sends (Some (Ack_wait event again)) = (if again then 2 else 1)"
| "call_sends (Some (Reauth_wait event ack)) = 1"
| "call_sends _ = 0"

definition sends :: "socket \<Rightarrow> nostr_event list" where
  "sends st = concat (map (\<lambda>f. case f of Event_frame e \<Rightarrow> [e] | Auth_frame e \<Rightarrow> []) (sk_sent st))"

definition auths :: "socket \<Rightarrow> nostr_event list" where
  "auths st = concat (map (\<lambda>f. case f of Event_frame e \<Rightarrow> [] | Auth_frame e \<Rightarrow> [e]) (sk_sent st))"

definition repeated :: "nat list \<Rightarrow> 'a list \<Rightarrow> 'a list" where
  "repeated ns xs = concat (map2 replicate ns xs)"

definition within_budget :: "socket \<Rightarrow> bool" where
  "within_budget st \<longleftrightarrow>
     (\<exists>ns. length ns = length (sk_answers st) \<and> list_all (\<lambda>n. n \<le> 2) ns
        \<and> sends st = repeated ns (map fst (sk_answers st))
             @ (case sk_call st of None \<Rightarrow> [] | Some c \<Rightarrow> replicate (call_sends (Some c)) (call_event c)))"

lemma repeated_snoc: "length ns = length xs \<Longrightarrow> repeated (ns @ [n]) (xs @ [x]) = repeated ns xs @ replicate n x"
  by (simp add: repeated_def)

lemma call_sends_le: "call_sends c \<le> 2"
  by (cases c rule: call_sends.cases) auto

text \<open>Ending a call closes its part of the sends.\<close>

lemma within_answer:
  assumes "within_budget st" "sk_call st = Some c" "call_event c = event"
  shows "within_budget (answer event ack st)"
proof -
  obtain ns where ns: "length ns = length (sk_answers st)" "list_all (\<lambda>n. n \<le> 2) ns"
      "sends st = repeated ns (map fst (sk_answers st)) @ replicate (call_sends (Some c)) event"
    using assms by (auto simp: within_budget_def)
  have "sends (answer event ack st) = sends st"
    by (simp add: sends_def answer_def)
  then show ?thesis
    unfolding within_budget_def
    using ns call_sends_le [of "Some c"]
    by (intro exI [of _ "ns @ [call_sends (Some c)]"]) (simp add: answer_def repeated_snoc)
qed

lemma within_wait:
  assumes "within_budget st" "sk_call st = Some c" "call_event c' = call_event c" "call_sends (Some c') = call_sends (Some c)"
  shows "within_budget (st\<lparr>sk_call := Some c'\<rparr>)"
  using assms by (auto simp: within_budget_def sends_def)

lemma within_send:
  assumes "within_budget st" "sk_call st = Some c" "call_event c = event" "call_sends (Some c) = (if again then 1 else 0)"
  shows "within_budget (st\<lparr>sk_sent := sk_sent st @ [Event_frame event], sk_call := Some (Ack_wait event again)\<rparr>)"
proof -
  obtain ns where ns: "length ns = length (sk_answers st)" "list_all (\<lambda>n. n \<le> 2) ns"
      "sends st = repeated ns (map fst (sk_answers st)) @ replicate (call_sends (Some c)) event"
    using assms by (auto simp: within_budget_def)
  then show ?thesis
    unfolding within_budget_def
    by (intro exI [of _ ns]) (use assms(4) in \<open>auto simp: sends_def numeral_2_eq_2\<close>)
qed

text \<open>The waits a call can still have.\<close>

fun call_rank :: "pending_call option \<Rightarrow> nat" where
  "call_rank (Some (Open_wait event)) = 5"
| "call_rank (Some (Auth_wait event)) = 4"
| "call_rank (Some (Ack_wait event again)) = (if again then 1 else 3)"
| "call_rank (Some (Reauth_wait event ack)) = 2"
| "call_rank None = 0"

text \<open>The timers, while they are armed, and an error of the socket that is connecting end a wait whatever the relay does.\<close>

definition ends_wait :: "socket \<Rightarrow> socket_input \<Rightarrow> bool" where
  "ends_wait st inp \<longleftrightarrow>
     (case sk_call st of
        Some (Open_wait event) \<Rightarrow> inp = On_error \<or> inp = Connect_timeout \<and> sk_connectTimer st
      | Some (Ack_wait event again) \<Rightarrow> inp = Ack_timeout
      | Some _ \<Rightarrow> inp = Auth_timeout
      | None \<Rightarrow> False)"

text \<open>What one input does to the pending call, in one relation.\<close>

definition moves :: "socket \<Rightarrow> socket \<Rightarrow> bool" where
  "moves st st' \<longleftrightarrow>
     calls st' = calls st \<and> call_rank (sk_call st') \<le> call_rank (sk_call st) \<and> (within_budget st \<longrightarrow> within_budget st')"

lemma moves_refl [simp]: "moves st st"
  by (simp add: moves_def)

lemma moves_trans: "moves st st' \<Longrightarrow> moves st' st'' \<Longrightarrow> moves st st''"
  unfolding moves_def by auto

lemma moves_frame:
  "moves st (st\<lparr>sk_connection := c\<rparr>)" "moves st (st\<lparr>sk_isClosed := b\<rparr>)" "moves st (st\<lparr>sk_connectTimer := b\<rparr>)"
  "moves st (st\<lparr>sk_authSettled := b, sk_authEventId := i\<rparr>)" "moves st (st\<lparr>sk_authChallenge := ch, sk_authEventId := i\<rparr>)"
  "moves st (st\<lparr>sk_notice := n\<rparr>)" "moves st (st\<lparr>sk_authChallenge := ch, sk_authEventId := i, sk_sent := sk_sent st @ [Auth_frame e]\<rparr>)"
  by (simp_all add: moves_def calls_def within_budget_def sends_def)

lemma moves_answer: "sk_call st = Some c \<Longrightarrow> call_event c = event \<Longrightarrow> moves st (answer event ack st)"
  unfolding moves_def using within_answer [of st c event ack] by (auto simp: calls_def answer_def)

lemma moves_wait:
  "sk_call st = Some c \<Longrightarrow> call_event c' = call_event c \<Longrightarrow> call_sends (Some c') = call_sends (Some c) \<Longrightarrow>
     call_rank (Some c') \<le> call_rank (Some c) \<Longrightarrow> moves st (st\<lparr>sk_call := Some c'\<rparr>)"
  unfolding moves_def using within_wait [of st c c'] by (auto simp: calls_def)

lemma answer_frame [simp]: "sk_call (answer event ack st) = None"
  by (simp add: answer_def)

lemma moves_send:
  assumes "sk_call st = Some c" "call_event c = event" "call_sends (Some c) = (if again then 1 else 0)"
    "call_rank (Some (Ack_wait event again)) < call_rank (Some c)"
  shows "moves st (sendAndAwaitAck ready event again st)"
    "call_rank (sk_call (sendAndAwaitAck ready event again st)) < call_rank (sk_call st)"
proof -
  have m: "moves st (answer event a st)" for a
    using assms(1,2) by (rule moves_answer)
  have s: "moves st (st\<lparr>sk_sent := sk_sent st @ [Event_frame event], sk_call := Some (Ack_wait event again)\<rparr>)"
    using assms within_send [OF _ assms(1-3)] by (auto simp: moves_def calls_def)
  show "moves st (sendAndAwaitAck ready event again st)"
    using m s by (simp add: sendAndAwaitAck_def)
  show "call_rank (sk_call (sendAndAwaitAck ready event again st)) < call_rank (sk_call st)"
    using assms(1,4) by (auto simp: sendAndAwaitAck_def)
qed

lemma moves_got:
  assumes "sk_call st = Some (Ack_wait event again)"
  shows "moves st (got_ack event again ack st)" "call_rank (sk_call (got_ack event again ack st)) < call_rank (sk_call st)"
proof -
  have "moves st (st\<lparr>sk_call := Some (Reauth_wait event ack)\<rparr>)" if "\<not> again"
    using that by (intro moves_wait [OF assms]) simp_all
  then show "moves st (got_ack event again ack st)"
    using moves_answer [OF assms] by (simp add: got_ack_def)
  show "call_rank (sk_call (got_ack event again ack st)) < call_rank (sk_call st)"
    using assms by (simp add: got_ack_def)
qed

lemma moves_open:
  assumes "sk_call st = Some (Open_wait event)"
  shows "moves st (after_open ready event st)" "call_rank (sk_call (after_open ready event st)) < call_rank (sk_call st)"
proof -
  have "moves st (st\<lparr>sk_call := Some (Auth_wait event)\<rparr>)"
    by (rule moves_wait [OF assms]) simp_all
  then show "moves st (after_open ready event st)"
    using assms by (simp add: after_open_def moves_send)
  have "call_rank (sk_call (sendAndAwaitAck ready event False st)) < call_rank (sk_call st)"
    using moves_send(2) [OF assms, of event False] by simp
  then show "call_rank (sk_call (after_open ready event st)) < call_rank (sk_call st)"
    using assms by (simp add: after_open_def)
qed

lemma moves_auth:
  "moves st (auth_done ready ok st)"
  "ends_wait st Auth_timeout \<Longrightarrow> call_rank (sk_call (auth_done ready ok st)) < call_rank (sk_call st)"
proof -
  show "moves st (auth_done ready ok st)"
    unfolding auth_done_def by (auto split: option.split pending_call.split intro!: moves_send moves_answer)
  show "call_rank (sk_call (auth_done ready ok st)) < call_rank (sk_call st)"
    if e: "ends_wait st Auth_timeout"
  proof -
    consider event where "sk_call st = Some (Auth_wait event)" | event ack where "sk_call st = Some (Reauth_wait event ack)"
      using e by (auto simp: ends_wait_def split: option.splits pending_call.splits)
    then show ?thesis
    proof cases
      case 1
      then show ?thesis
        using moves_send(2) [OF 1, of event False] by (simp add: auth_done_def)
    next
      case 2
      then show ?thesis
        using moves_send(2) [OF 2, of event True] by (simp add: auth_done_def)
    qed
  qed
qed

lemma moves_settle: "moves st (settleAuth ready ok st)"
  unfolding settleAuth_def by (rule moves_trans [OF moves_frame(4) moves_auth(1)])

lemma moves_flush: "moves st (flushPending ready msg st)"
  unfolding flushPending_def by (auto split: option.split pending_call.split intro: moves_got moves_auth)

lemma moves_opened: "moves st (opened ready st)"
  unfolding opened_def Let_def
  by (auto split: option.split pending_call.split intro: moves_frame(3) moves_trans [OF moves_frame(3) moves_frame(1)]
      moves_trans [OF moves_frame(3) moves_trans [OF moves_frame(1) moves_open(1)]])

lemma moves_failed: "moves st (open_failed msg st)"
  unfolding open_failed_def Let_def
  by (auto split: option.split pending_call.split intro: moves_frame(1) moves_trans [OF moves_frame(1) moves_answer])

lemma moves_errored: "moves st (errored st)" "moves st (connect_timeout st)"
  using moves_trans [OF moves_frame(3) moves_failed] by (simp_all add: errored_def connect_timeout_def)

lemma moves_message: "moves st (onMessage sign ready now raw st)"
proof -
  have a: "moves st (onAuth sign ready now challenge st)" for challenge
    unfolding onAuth_def Let_def
    by (auto intro: moves_trans [OF moves_frame(5) moves_settle]) (simp_all add: moves_def calls_def within_budget_def sends_def)
  have k: "moves st (onOk ready i ack st)" for i ack
    unfolding onOk_def by (auto split: option.split pending_call.split intro: moves_settle moves_got)
  show ?thesis
    unfolding onMessage_def by (auto split: option.split json.split list.split intro: a k moves_frame)
qed

lemma moves_step:
  assumes "\<forall>event. inp \<noteq> Publish_call event"
  shows "moves st (socket_step sign ready now inp st)"
proof (cases inp)
  case Ack_timeout
  then show ?thesis
    by (auto simp: socket_step_def split: option.split pending_call.split intro: moves_got)
next
  case (On_close code reason)
  have c: "moves st' (onClose ready code reason st')" for st'
    unfolding onClose_def by (auto intro: moves_trans [OF moves_frame(2) moves_flush])
  have "moves st (closed ready code reason st)"
    unfolding closed_def Let_def
    using moves_trans [OF moves_frame(3) c] moves_trans [OF moves_frame(3) moves_trans [OF moves_failed c]] by simp
  then show ?thesis
    by (simp add: On_close socket_step_def)
next
  case Close_call
  have "moves st (close_socket ready st)"
    unfolding close_socket_def by (auto intro: moves_trans [OF moves_frame(2) moves_flush])
  then show ?thesis
    by (simp add: Close_call socket_step_def)
qed (use assms in \<open>simp_all add: socket_step_def moves_message moves_auth moves_opened moves_errored\<close>)


text \<open>
  A call waits for the connection only while the socket is connecting, and the connect timer is armed then unless the
  socket has been closed by the client and has said so.
\<close>

definition open_waits :: "bool \<Rightarrow> socket \<Rightarrow> bool" where
  "open_waits ended st \<longleftrightarrow>
     (\<forall>event. sk_call st = Some (Open_wait event) \<longrightarrow> sk_connection st = Connecting)
     \<and> (sk_connection st = Connecting \<longrightarrow> sk_connectTimer st \<or> sk_isClosed st \<and> ended)"

definition connecting :: "socket \<Rightarrow> connection \<times> bool \<times> bool" where
  "connecting st = (sk_connection st, sk_connectTimer st, sk_isClosed st)"

lemma kept_connection:
  "connecting (answer event ack st) = connecting st"
  "connecting (sendAndAwaitAck ready event again st) = connecting st"
  "connecting (got_ack event again ack st) = connecting st"
  "connecting (after_open ready event st) = connecting st"
  "connecting (auth_done ready ok st) = connecting st"
  "connecting (settleAuth ready ok st) = connecting st"
  "connecting (flushPending ready msg st) = connecting st"
  "connecting (publish ready event st) = connecting st"
  by (simp_all add: call_defs connecting_def publish_def split: option.split pending_call.split connection.split)

lemma connecting_fields:
  "connecting st' = connecting st \<Longrightarrow>
     sk_connection st' = sk_connection st \<and> sk_connectTimer st' = sk_connectTimer st \<and> sk_isClosed st' = sk_isClosed st"
  by (simp add: connecting_def)

lemma rank_open: "call_rank c = 5 \<longleftrightarrow> (\<exists>event. c = Some (Open_wait event))"
  by (cases c rule: call_rank.cases) auto

lemma rank_le: "call_rank c \<le> 5"
  by (cases c rule: call_rank.cases) auto

text \<open>What does not start a call keeps the waits for the connection, or ends them.\<close>

lemma moves_open_wait: "moves st st' \<Longrightarrow> sk_call st' = Some (Open_wait event) \<Longrightarrow> \<exists>e. sk_call st = Some (Open_wait e)"
  unfolding moves_def rank_open [symmetric] using rank_le [of "sk_call st"] by (auto simp: rank_open)

lemma open_waits_keep:
  assumes "open_waits ended st" "moves st st'" "connecting st' = connecting st"
  shows "open_waits ended st'"
  using assms(1) moves_open_wait [OF assms(2)] connecting_fields [OF assms(3)] by (auto simp: open_waits_def)

lemma open_waits_settled:
  "sk_connection st' \<noteq> Connecting \<Longrightarrow> (\<And>event. sk_call st' \<noteq> Some (Open_wait event)) \<Longrightarrow> open_waits ended st'"
  by (simp add: open_waits_def)

lemma failed_settled: "sk_connection (open_failed msg st) \<noteq> Connecting"
  by (auto simp: open_failed_def answer_def Let_def split: option.split pending_call.split)

lemma open_waits_failed:
  assumes "open_waits ended st"
  shows "open_waits ended' (open_failed msg (st\<lparr>sk_connectTimer := b\<rparr>))" "open_waits ended' (open_failed msg st)"
proof -
  have "open_failed msg s = s \<or> (\<forall>event. sk_call (open_failed msg s) \<noteq> Some (Open_wait event))" for s
    by (auto simp: open_failed_def Let_def split: option.split pending_call.split)
  moreover have "sk_call (st\<lparr>sk_connectTimer := b\<rparr>) = sk_call st" "sk_connection (st\<lparr>sk_connectTimer := b\<rparr>) = sk_connection st"
    by simp_all
  ultimately show "open_waits ended' (open_failed msg (st\<lparr>sk_connectTimer := b\<rparr>))" "open_waits ended' (open_failed msg st)"
    using assms failed_settled by (metis open_waits_def)+
qed

lemma open_waits_opened: "open_waits ended st \<Longrightarrow> open_waits ended' (opened ready st)"
proof -
  assume o: "open_waits ended st"
  let ?s = "st\<lparr>sk_connectTimer := False, sk_connection := Opened\<rparr>"
  have "sk_call (after_open ready event ?s) \<noteq> Some (Open_wait e)" if "sk_call st = Some (Open_wait event)" for event e
    using moves_open(2) [of ?s event ready] that rank_le by (auto simp: rank_open [symmetric])
  moreover have "sk_connection (after_open ready event ?s) = Opened" for event
    using kept_connection(4) [of ready event ?s] by (simp add: connecting_def)
  ultimately show ?thesis
    using o by (auto simp: opened_def open_waits_def Let_def split: option.split pending_call.split)
qed

lemma open_waits_step:
  assumes "open_waits ended st"
  shows "open_waits (ended \<or> (\<exists>code reason. inp = On_close code reason)) (socket_step sign ready now inp st)"
proof -
  let ?e = "ended \<or> (\<exists>code reason. inp = On_close code reason)"
  have more: "open_waits ?e st"
    using assms by (auto simp: open_waits_def)
  have keep: "connecting st' = connecting st \<Longrightarrow> moves st st' \<Longrightarrow> open_waits ?e st'" for st'
    using open_waits_keep [OF more] by blast
  show ?thesis
  proof (cases inp)
    case (Publish_call event)
    have "sk_connection st = Connecting" if "sk_call (publish ready event st) = Some (Open_wait e)" for e
      using that by (auto simp: publish_def call_defs split: connection.splits if_splits)
    then show ?thesis
      using more connecting_fields [OF kept_connection(8) [of ready event st]]
      by (simp add: Publish_call socket_step_def open_waits_def)
  next
    case (On_message raw)
    have "connecting (onMessage sign ready now raw st) = connecting st"
      by (simp add: onMessage_def onAuth_def onOk_def kept_connection Let_def
        split: option.split json.split list.split pending_call.split) (simp add: connecting_def kept_connection)
    then show ?thesis
      using keep moves_message by (simp add: On_message socket_step_def)
  next
    case Ack_timeout
    have "connecting (socket_step sign ready now Ack_timeout st) = connecting st"
      by (simp add: socket_step_def kept_connection split: option.split pending_call.split)
    then show ?thesis
      using moves_step keep unfolding Ack_timeout by simp
  next
    case (On_close code reason)
    let ?o = "\<lambda>st. st\<lparr>sk_connectTimer := False\<rparr>" and ?m = "js ''closed before open (code '' @ nat_digits code @ js '')''"
    have c: "open_waits True (onClose ready code reason st')"
      if "\<forall>event. sk_call st' = Some (Open_wait event) \<longrightarrow> sk_connection st' = Connecting" for st'
    proof -
      let ?f = "\<lambda>msg. flushPending ready msg (st'\<lparr>sk_isClosed := True\<rparr>)"
      have "open_waits True (st'\<lparr>sk_isClosed := True\<rparr>)"
        using that by (simp add: open_waits_def)
      then have "open_waits True (?f msg)" for msg
        by (rule open_waits_keep [OF _ moves_flush]) (simp add: kept_connection)
      then show ?thesis
        using that by (simp add: onClose_def open_waits_def)
    qed
    have "\<forall>event. sk_call (open_failed ?m (?o st)) = Some (Open_wait event) \<longrightarrow> sk_connection (open_failed ?m (?o st)) = Connecting"
      using open_waits_failed(1) [OF assms] by (simp add: open_waits_def)
    moreover have "\<forall>event. sk_call (?o st) = Some (Open_wait event) \<longrightarrow> sk_connection (?o st) = Connecting"
      using assms by (simp add: open_waits_def)
    ultimately have "open_waits True (closed ready code reason st)"
      unfolding closed_def Let_def using c by simp
    then show ?thesis
      by (simp add: On_close socket_step_def)
  next
    case Close_call
    have "moves st (close_socket ready st)"
      using moves_step [of Close_call st sign ready now] by (simp add: socket_step_def)
    moreover have "sk_connection (close_socket ready st) = sk_connection st"
        "sk_connectTimer (close_socket ready st) = sk_connectTimer st" "sk_isClosed (close_socket ready st)"
      using connecting_fields [OF kept_connection(7)] by (simp_all add: close_socket_def)
    ultimately show ?thesis
      using more moves_open_wait by (auto simp: Close_call socket_step_def open_waits_def)
  qed (use more keep open_waits_failed [OF more] open_waits_opened [OF more] in
      \<open>simp_all add: socket_step_def errored_def connect_timeout_def moves_auth kept_connection\<close>)
qed

lemma publish_adds:
  assumes "sk_call st = None" "within_budget st"
  shows "calls (publish ready event st) = calls st @ [event]" "within_budget (publish ready event st)"
proof -
  let ?w = "st\<lparr>sk_call := Some (Open_wait event)\<rparr>"
  have w: "calls ?w = calls st @ [event]" "within_budget ?w"
    using assms by (auto simp: calls_def within_budget_def sends_def)
  have "moves ?w (publish ready event st)"
  proof -
    have a: "answer event ack st = answer event ack ?w" for ack
      by (simp add: answer_def)
    have "after_open ready event st = after_open ready event ?w"
      by (simp add: after_open_def sendAndAwaitAck_def a)
    moreover have "moves ?w (after_open ready event ?w)"
      by (rule moves_open) simp
    ultimately show ?thesis
      by (auto simp: publish_def a split: connection.split intro: moves_answer)
  qed
  then show "calls (publish ready event st) = calls st @ [event]" "within_budget (publish ready event st)"
    using w by (simp_all add: moves_def)
qed

section \<open>What a session promises\<close>

definition published :: "socket_input list \<Rightarrow> nostr_event list" where
  "published inputs = concat (map (\<lambda>inp. case inp of Publish_call event \<Rightarrow> [event] | _ \<Rightarrow> []) (rev inputs))"

lemma session_calls: "relay_session sign relay opts inputs st \<Longrightarrow> calls st = published inputs \<and> within_budget st"
proof (induction rule: relay_session.induct)
  case begin_session
  show ?case
    by (simp add: new_socket_def calls_def published_def within_budget_def sends_def repeated_def)
next
  case (go_on inputs st inp ready now)
  show ?case
  proof (cases "\<exists>event. inp = Publish_call event")
    case True
    then obtain event where inp: "inp = Publish_call event"
      by blast
    then show ?thesis
      using go_on publish_adds [of st ready event] by (simp add: socket_step_def published_def)
  next
    case False
    then have "published (inp # inputs) = published inputs"
      by (auto simp: published_def split: socket_input.split)
    then show ?thesis
      using False go_on moves_step [of inp st sign ready now] by (auto simp: moves_def)
  qed
qed

definition has_ended :: "socket_input list \<Rightarrow> bool" where
  "has_ended inputs \<longleftrightarrow> list_ex (\<lambda>inp. case inp of On_close code reason \<Rightarrow> True | _ \<Rightarrow> False) inputs"

lemma session_sound:
  "relay_session sign relay opts inputs st \<Longrightarrow>
     open_waits (has_ended inputs) st \<and> sound_acks (\<Union>inp \<in> set inputs. acked_ids inp) st"
proof (induction rule: relay_session.induct)
  case begin_session
  show ?case
    by (simp add: new_socket_def open_waits_def sound_acks_def)
next
  case (go_on inputs st inp ready now)
  have "has_ended (inp # inputs) = (has_ended inputs \<or> (\<exists>code reason. inp = On_close code reason))"
    by (auto simp: has_ended_def split: socket_input.split)
  then show ?case
    using go_on.IH open_waits_step [of "has_ended inputs" st inp sign ready now]
      sound_step [of "\<Union>inp \<in> set inputs. acked_ids inp" st inp sign ready now] by simp
qed

text \<open>
  C12. In every session each published event is answered exactly once and in the order of the calls, but for the one
  call still pending, and an event is answered \<open>ok\<close> only when the relay has sent an \<open>OK\<close> with \<open>true\<close> for its id:
  no timeout, close, failed connection or failed AUTH is taken for an acknowledgement.
\<close>

theorem session_answers:
  assumes "relay_session sign relay opts inputs st"
  shows "map fst (sk_answers st) @ (case sk_call st of None \<Rightarrow> [] | Some c \<Rightarrow> [call_event c]) = published inputs
    \<and> (\<forall>(event, ack) \<in> set (sk_answers st). ak_ok ack \<longrightarrow> (\<exists>inp \<in> set inputs. ev_id event \<in> acked_ids inp))"
  using session_calls [OF assms] session_sound [OF assms] by (auto simp: calls_def sound_acks_def)

text \<open>What is sent for AUTH.\<close>

definition challenge_of :: "socket_input \<Rightarrow> jsstr option" where
  "challenge_of inp =
     (case inp of
        On_message raw \<Rightarrow>
          (case json_parse raw of
             Some (JArray (JString type # JString s # args)) \<Rightarrow> if type = js ''AUTH'' then Some s else None
           | _ \<Rightarrow> None)
      | _ \<Rightarrow> None)"

definition auth_url :: "jsstr \<Rightarrow> socket_options \<Rightarrow> jsstr" where
  "auth_url relay opts = (if so_authRelayUrl opts \<noteq> [] then so_authRelayUrl opts else relay)"

definition wiring :: "socket \<Rightarrow> jsstr \<times> socket_options \<times> nostr_event list" where
  "wiring st = (sk_relay st, sk_options st, auths st)"

lemma wiring_frame [simp]:
  "wiring (st\<lparr>sk_connection := c\<rparr>) = wiring st" "wiring (st\<lparr>sk_isClosed := b\<rparr>) = wiring st"
  "wiring (st\<lparr>sk_connectTimer := b\<rparr>) = wiring st" "wiring (st\<lparr>sk_notice := n\<rparr>) = wiring st"
  "wiring (st\<lparr>sk_authSettled := b, sk_authEventId := i\<rparr>) = wiring st" "wiring (st\<lparr>sk_call := k\<rparr>) = wiring st"
  "wiring (st\<lparr>sk_authChallenge := ch, sk_authEventId := i\<rparr>) = wiring st"
  by (simp_all add: wiring_def auths_def)

lemma wiring_call [simp]:
  "wiring (answer event ack st) = wiring st" "wiring (sendAndAwaitAck ready event again st) = wiring st"
  "wiring (got_ack event again ack st) = wiring st" "wiring (after_open ready event st) = wiring st"
  "wiring (auth_done ready ok st) = wiring st"
proof -
  show a: "wiring (answer event ack st) = wiring st" for event ack st
    by (simp add: wiring_def auths_def answer_def)
  show s: "wiring (sendAndAwaitAck ready event again st) = wiring st" for event again st
    by (simp add: sendAndAwaitAck_def a) (simp add: wiring_def auths_def)
  show "wiring (got_ack event again ack st) = wiring st" "wiring (after_open ready event st) = wiring st"
    by (simp_all add: got_ack_def after_open_def a s)
  show "wiring (auth_done ready ok st) = wiring st"
    by (simp add: auth_done_def a s split: option.split pending_call.split)
qed

lemma wiring_inputs [simp]:
  "wiring (settleAuth ready ok st) = wiring st" "wiring (flushPending ready msg st) = wiring st"
  "wiring (open_failed msg st) = wiring st" "wiring (publish ready event st) = wiring st"
  by (simp_all add: settleAuth_def flushPending_def open_failed_def publish_def Let_def
      split: option.split pending_call.split connection.split)

lemma wiring_step:
  "wiring (socket_step sign ready now inp st) = wiring st
   \<or> (\<exists>c. challenge_of inp = Some c \<and> wiring (socket_step sign ready now inp st) =
        (sk_relay st, sk_options st, auths st @ [buildAuthEvent sign now (auth_url (sk_relay st) (sk_options st)) c]))"
proof (cases inp)
  case (On_message raw)
  show ?thesis
  proof (cases "\<exists>type s args. json_parse raw = Some (JArray (JString type # JString s # args))")
    case True
    then obtain type s args where m: "json_parse raw = Some (JArray (JString type # JString s # args))"
      by blast
    have "wiring (onAuth sign ready now s st) = wiring st \<or> wiring (onAuth sign ready now s st) =
        (sk_relay st, sk_options st, auths st @ [buildAuthEvent sign now (auth_url (sk_relay st) (sk_options st)) s])"
      by (simp add: onAuth_def Let_def auth_url_def) (simp add: wiring_def auths_def)
    moreover have "wiring (onOk ready s (ok_ack args) st) = wiring st"
      by (simp add: onOk_def split: option.split pending_call.split)
    ultimately show ?thesis
      by (simp add: On_message socket_step_def onMessage_def challenge_of_def m)
  next
    case False
    then have "onMessage sign ready now raw st = st"
      unfolding onMessage_def by (auto split: option.split json.split list.split)
    then show ?thesis
      by (simp add: On_message socket_step_def)
  qed
qed (simp_all add: socket_step_def opened_def errored_def connect_timeout_def closed_def onClose_def close_socket_def Let_def
    split: option.split pending_call.split)

lemma session_wiring:
  "relay_session sign relay opts inputs st \<Longrightarrow>
     sk_relay st = relay \<and> sk_options st = opts
     \<and> length (auths st) \<le> length (filter (\<lambda>inp. challenge_of inp \<noteq> None) inputs)
     \<and> (\<forall>e \<in> set (auths st). \<exists>inp \<in> set inputs. \<exists>now c. challenge_of inp = Some c \<and> e = buildAuthEvent sign now (auth_url relay opts) c)"
proof (induction rule: relay_session.induct)
  case begin_session
  show ?case
    by (simp add: new_socket_def auths_def)
next
  case (go_on inputs st inp ready now)
  from wiring_step [of sign ready now inp st] show ?case
    by (elim disjE exE conjE; use go_on.IH in \<open>auto simp: wiring_def\<close>)
qed

text \<open>
  C14. What a session writes: for each call, in the order of the calls, its event zero, one or two times in a row (the
  first send and one retry after AUTH) and no other event; and for each AUTH challenge of the relay at most one AUTH
  frame, which answers that challenge for the relay's URL.
\<close>

theorem session_sends:
  assumes "relay_session sign relay opts inputs st"
  shows "(\<exists>ns. length ns = length (published inputs) \<and> list_all (\<lambda>n. n \<le> 2) ns \<and> sends st = repeated ns (published inputs))
    \<and> length (auths st) \<le> length (filter (\<lambda>inp. challenge_of inp \<noteq> None) inputs)
    \<and> (\<forall>e \<in> set (auths st). \<exists>inp \<in> set inputs. \<exists>now c.
          challenge_of inp = Some c \<and> e = buildAuthEvent sign now (auth_url relay opts) c)"
proof -
  have c: "calls st = published inputs" and b: "within_budget st"
    using session_calls [OF assms] by blast+
  obtain ns where ns: "length ns = length (sk_answers st)" "list_all (\<lambda>n. n \<le> 2) ns"
      "sends st = repeated ns (map fst (sk_answers st))
         @ (case sk_call st of None \<Rightarrow> [] | Some c \<Rightarrow> replicate (call_sends (Some c)) (call_event c))"
    using b by (auto simp: within_budget_def)
  have "\<exists>ns. length ns = length (calls st) \<and> list_all (\<lambda>n. n \<le> 2) ns \<and> sends st = repeated ns (calls st)"
  proof (cases "sk_call st")
    case None
    then show ?thesis
      using ns by (intro exI [of _ ns]) (simp add: calls_def)
  next
    case (Some c)
    then show ?thesis
      using ns call_sends_le [of "Some c"]
      by (intro exI [of _ "ns @ [call_sends (Some c)]"]) (simp add: calls_def repeated_snoc)
  qed
  then show ?thesis
    using session_wiring [OF assms] by (simp add: c)
qed

text \<open>
  C13. Every call ends: what comes in never puts the pending call further from its answer, and the timer of the wait it
  is in (connect, auth or ack) and, while it connects, an error of the socket, always bring it strictly nearer. A call has at
  most five waits ahead. The timer of the wait is armed, with one exception: a call that waits for the connection when
  the client has closed the socket and its close event has come is ended only by an error event.
\<close>

theorem call_ends:
  assumes "relay_session sign relay opts inputs st" "\<forall>event. inp \<noteq> Publish_call event"
  shows "call_rank (sk_call (socket_step sign ready now inp st)) \<le> call_rank (sk_call st) \<and> call_rank (sk_call st) \<le> 5
    \<and> (ends_wait st inp \<longrightarrow> call_rank (sk_call (socket_step sign ready now inp st)) < call_rank (sk_call st))
    \<and> (call_rank (sk_call st) = 0 \<longleftrightarrow> sk_call st = None)
    \<and> (sk_call st = None \<or> ends_wait st Connect_timeout \<or> ends_wait st Auth_timeout \<or> ends_wait st Ack_timeout
       \<or> sk_isClosed st \<and> has_ended inputs \<and> ends_wait st On_error)"
proof (intro conjI impI)
  have o: "open_waits (has_ended inputs) st"
    using session_sound [OF assms(1)] by blast
  show "call_rank (sk_call (socket_step sign ready now inp st)) \<le> call_rank (sk_call st)"
    using moves_step [OF assms(2)] by (simp add: moves_def)
  show "call_rank (sk_call st) \<le> 5"
    by (rule rank_le)
  show "call_rank (sk_call st) = 0 \<longleftrightarrow> sk_call st = None"
    by (cases "sk_call st" rule: call_rank.cases) auto
  show "sk_call st = None \<or> ends_wait st Connect_timeout \<or> ends_wait st Auth_timeout \<or> ends_wait st Ack_timeout
       \<or> sk_isClosed st \<and> has_ended inputs \<and> ends_wait st On_error"
    using o by (auto simp: ends_wait_def open_waits_def split: option.split pending_call.split)
  show "call_rank (sk_call (socket_step sign ready now inp st)) < call_rank (sk_call st)" if e: "ends_wait st inp"
  proof (cases "sk_call st")
    case None
    then show ?thesis
      using e by (simp add: ends_wait_def)
  next
    case (Some c)
    show ?thesis
    proof (cases c)
      case (Open_wait event)
      then have "inp = On_error \<or> inp = Connect_timeout \<and> sk_connectTimer st" "sk_connection st = Connecting"
        using e o Some by (simp_all add: ends_wait_def open_waits_def)
      then show ?thesis
        using Some Open_wait by (auto simp: socket_step_def errored_def connect_timeout_def open_failed_def)
    next
      case (Ack_wait event again)
      then show ?thesis
        using e Some moves_got(2) [of st event again] by (simp add: ends_wait_def socket_step_def)
    qed (use e Some moves_auth(2) [of st ready False] in \<open>simp_all add: ends_wait_def socket_step_def\<close>)
  qed
qed

section \<open>A session run\<close>

text \<open>A connection opens, an event is published, the relay says OK to it, and a second event is published.\<close>

definition plain_event :: "char list \<Rightarrow> nostr_event" where
  "plain_event i =
     \<lparr>ev_id = js i, ev_pubkey = js ''p'', ev_created_at = 1, ev_kind = 1, ev_tags = [], ev_content = [], ev_sig = js ''s''\<rparr>"

definition sample_ok :: jsstr where
  "sample_ok = js ''['' @ [34] @ js ''OK'' @ [34] @ js '','' @ [34] @ js ''e'' @ [34] @ js '',true]''"

lemma sample_ok_parsed: "json_parse sample_ok = Some (JArray [JString (js ''OK''), JString (js ''e''), JBool True])"
  by code_simp

definition sample_waiting :: socket where
  "sample_waiting =
     publish True (plain_event ''e'') (opened True (new_socket (js ''wss'') \<lparr>so_connectTimeoutMs = 9, so_ackTimeoutMs = 9, so_authRelayUrl = []\<rparr>))"

definition sample_answered :: socket where
  "sample_answered =
     publish True (plain_event ''f'') (onMessage (\<lambda>u. plain_event ''a'') True 1 sample_ok sample_waiting)"

definition sample_inputs :: "socket_input list" where
  "sample_inputs =
     [Publish_call (plain_event ''f''), On_message sample_ok, Publish_call (plain_event ''e''), On_open]"

lemma sample_states:
  "sk_call sample_waiting = Some (Ack_wait (plain_event ''e'') False)"
  "sk_call (onMessage sign True 1 sample_ok sample_waiting) = None"
  "sk_answers sample_answered = [(plain_event ''e'', \<lparr>ak_ok = True, ak_msg = []\<rparr>)]"
  "sk_call sample_answered = Some (Ack_wait (plain_event ''f'') False)"
  by (simp_all add: sample_waiting_def sample_answered_def onMessage_def sample_ok_parsed input_defs call_defs new_socket_def
    ok_ack_def plain_event_def nth_opt_def)

lemma sample_session:
  "relay_session (\<lambda>u. plain_event ''a'') (js ''wss'') \<lparr>so_connectTimeoutMs = 9, so_ackTimeoutMs = 9, so_authRelayUrl = []\<rparr> sample_inputs sample_answered"
proof -
  let ?sign = "\<lambda>u. plain_event ''a''" and ?opts = "\<lparr>so_connectTimeoutMs = 9, so_ackTimeoutMs = 9, so_authRelayUrl = []\<rparr>"
  let ?s = "relay_session ?sign (js ''wss'') ?opts"
  note step = relay_session.go_on [of ?sign "js ''wss''" ?opts _ _ _ True 1]
  have "?s [On_open] (opened True (new_socket (js ''wss'') ?opts))"
    using step [OF relay_session.begin_session, of On_open] by (simp add: socket_step_def)
  from step [OF this, of "Publish_call (plain_event ''e'')"]
  have "?s [Publish_call (plain_event ''e''), On_open] sample_waiting"
    by (simp add: socket_step_def sample_waiting_def opened_def new_socket_def)
  from step [OF this, of "On_message sample_ok"]
  have "?s [On_message sample_ok, Publish_call (plain_event ''e''), On_open] (onMessage ?sign True 1 sample_ok sample_waiting)"
    by (simp add: socket_step_def)
  from step [OF this, of "Publish_call (plain_event ''f'')"] show ?thesis
    by (simp add: socket_step_def sample_inputs_def sample_answered_def sample_states)
qed

theorem session_answers_witness:
  "map fst (sk_answers sample_answered) @ [plain_event ''f''] = published sample_inputs
    \<and> (\<exists>inp \<in> set sample_inputs. js ''e'' \<in> acked_ids inp)"
  using session_answers [OF sample_session] by (simp add: sample_states plain_event_def)

theorem session_sends_witness:
  "\<exists>ns. length ns = 2 \<and> list_all (\<lambda>n. n \<le> 2) ns \<and> sends sample_answered = repeated ns [plain_event ''e'', plain_event ''f'']"
proof -
  have "published sample_inputs = [plain_event ''e'', plain_event ''f'']"
    by (simp add: published_def sample_inputs_def)
  then show ?thesis
    using session_sends [OF sample_session] by (simp only: list.size numeral_2_eq_2 add_0) simp
qed

theorem call_ends_witness:
  "call_rank (sk_call (socket_step (\<lambda>u. plain_event ''a'') True 1 Ack_timeout sample_answered)) < 3"
  using call_ends [OF sample_session, of Ack_timeout True 1] by (simp add: sample_states ends_wait_def)

end
